(* ===== verification/Prelude.thy ===== *)
theory Prelude
  imports Main "HOL-Library.Word"
begin

text \<open>
  Vocabulary shared by every component: the machine integer types of the LP64 targets the
  sources are built for, C bit-fields as reads and writes of bit ranges of a word, the
  compiler's add-with-carry and subtract-with-borrow, and the lemma collections the
  component proofs draw on.
\<close>

unbundle bit_operations_syntax

type_synonym u8 = "8 word"
type_synonym u16 = "16 word"
type_synonym u32 = "32 word"
type_synonym u64 = "64 word"

named_theorems field_simps_c \<open>reading a bit-field after writing one\<close>

subsection \<open>C bit-fields\<close>

text \<open>
  A bit-field of width \<open>w\<close> at offset \<open>off\<close>. Reading it yields its value as a word;
  writing it keeps the low \<open>w\<close> bits of the value, as an assignment to a C bit-field does.
\<close>

definition get_field :: "nat \<Rightarrow> nat \<Rightarrow> 'a::len word \<Rightarrow> 'a word" where
  "get_field off w x = take_bit w (drop_bit off x)"

definition set_field :: "nat \<Rightarrow> nat \<Rightarrow> 'a::len word \<Rightarrow> 'a word \<Rightarrow> 'a word" where
  "set_field off w v x = (x AND NOT (push_bit off (mask w))) OR push_bit off (take_bit w v)"

lemma bit_get_field:
  "bit (get_field off w x) i \<longleftrightarrow> i < w \<and> bit x (off + i)" for x :: "'a::len word"
  by (auto simp: get_field_def bit_take_bit_iff bit_drop_bit_eq ac_simps)

lemma bit_set_field:
  "bit (set_field off w v x) i \<longleftrightarrow>
     (if off \<le> i \<and> i < off + w then i < LENGTH('a) \<and> bit v (i - off) else bit x i)"
  for x :: "'a::len word"
  by (auto simp: set_field_def bit_simps not_less dest: bit_imp_le_length)

lemma get_set_field_same [field_simps_c]:
  "off + w \<le> LENGTH('a) \<Longrightarrow> get_field off w (set_field off w v x) = take_bit w v"
  for x :: "'a::len word"
  by (rule bit_word_eqI) (auto simp: bit_get_field bit_set_field bit_take_bit_iff)

lemma get_set_field_other [field_simps_c]:
  "off' + w' \<le> off \<or> off + w \<le> off' \<Longrightarrow>
     get_field off' w' (set_field off w v x) = get_field off' w' x" for x :: "'a::len word"
  by (rule bit_word_eqI) (auto simp: bit_get_field bit_set_field)

lemma bit_set_field_other [field_simps_c]:
  "i < off \<or> off + w \<le> i \<Longrightarrow> bit (set_field off w v x) i \<longleftrightarrow> bit x i" for x :: "'a::len word"
  by (auto simp: bit_set_field)

lemma bit_set_flag_same [field_simps_c]:
  "off < LENGTH('a) \<Longrightarrow> bit (set_field off (Suc 0) (of_bool b) x) off \<longleftrightarrow> b" for x :: "'a::len word"
  by (auto simp: bit_set_field bit_simps)

lemma bit_set_flag_same_1 [field_simps_c]:
  "off < LENGTH('a) \<Longrightarrow> bit (set_field off 1 (of_bool b) x) off \<longleftrightarrow> b" for x :: "'a::len word"
  by (auto simp: bit_set_field bit_simps)

subsection \<open>Add with carry, subtract with borrow\<close>

text \<open>\<open>__builtin_addcl\<close> and \<open>__builtin_subcl\<close>: the wrapped result and the carry out.\<close>

definition builtin_addc :: "'a::len word \<Rightarrow> 'a word \<Rightarrow> 'a word \<Rightarrow> 'a word \<times> bool" where
  "builtin_addc l r c = (l + r + c, 2 ^ LENGTH('a) \<le> unat l + unat r + unat c)"

definition builtin_subc :: "'a::len word \<Rightarrow> 'a word \<Rightarrow> 'a word \<Rightarrow> 'a word \<times> bool" where
  "builtin_subc l r c = (l - r - c, unat l < unat r + unat c)"

subsection \<open>A count kept in the top bits of a word\<close>

text \<open>
  The inline retain count sits in the bits above offset \<open>n\<close>. Splitting a word at \<open>n\<close> turns
  the arithmetic on the count into arithmetic on the quotient.
\<close>

lemma count_le_iff:
  fixes l m n e k :: nat
  assumes "l < m"
  shows "n * m \<le> e * m + l + k * m \<longleftrightarrow> n \<le> e + k"
proof
  assume "n * m \<le> e * m + l + k * m"
  also have "\<dots> < Suc (e + k) * m" using assms by (simp add: algebra_simps)
  finally show "n \<le> e + k" by (metis less_Suc_eq_le mult_less_cancel2)
next
  assume "n \<le> e + k"
  then have "n * m \<le> (e + k) * m" by (rule mult_le_mono1)
  then show "n * m \<le> e * m + l + k * m" by (simp add: algebra_simps)
qed

lemma unat_take_bit: "unat (take_bit n x) = unat x mod 2 ^ n" for x :: "'a::len word"
  by (simp only: unsigned_take_bit_eq take_bit_eq_mod [of n "unat x"])

lemma unat_drop_bit: "unat (drop_bit n x) = unat x div 2 ^ n" for x :: "'a::len word"
  by (simp only: unat_drop_bit_eq drop_bit_eq_div [of n "unat x"])

lemma unat_split_at:
  "unat x = unat (drop_bit n x) * 2 ^ n + unat (take_bit n x)" for x :: "'a::len word"
  by (simp only: unat_take_bit unat_drop_bit div_mult_mod_eq)

lemma unat_get_field_top:
  "off + w = LENGTH('a) \<Longrightarrow> unat (get_field off w x) = unat x div 2 ^ off" for x :: "'a::len word"
proof -
  assume eq: "off + w = LENGTH('a)"
  have "unat x div 2 ^ off < 2 ^ w"
    using unsigned_less [of x] by (intro less_mult_imp_div_less) (simp add: mult.commute flip: eq power_add)
  then show ?thesis
    by (simp add: get_field_def unat_take_bit unat_drop_bit)
qed

lemma take_bit_add_push_bit [simp]:
  "take_bit n (x + push_bit n y) = take_bit n x" for x :: "'a::len word"
proof (cases "n \<le> LENGTH('a)")
  case True
  then have dvd: "(2::nat) ^ n dvd 2 ^ LENGTH('a)" by (rule le_imp_power_dvd)
  have "unat (push_bit n y) mod 2 ^ n = 0"
    by (simp only: unsigned_push_bit_eq) (simp add: take_bit_eq_mod push_bit_eq_mult mod_mod_cancel dvd)
  then have "unat (x + push_bit n y) mod 2 ^ n = unat x mod 2 ^ n"
    by (simp add: unat_word_ariths mod_mod_cancel dvd) (metis add.right_neutral mod_add_right_eq)
  then show ?thesis by (simp add: word_unat_eq_iff unat_take_bit)
next
  case False
  then have "push_bit n y = 0" by (intro bit_word_eqI) (simp add: bit_simps)
  then show ?thesis by simp
qed

lemma take_bit_diff_push_bit [simp]:
  "take_bit n (x - push_bit n y) = take_bit n x" for x :: "'a::len word"
proof -
  have "take_bit n (x - push_bit n y) = take_bit n (x - push_bit n y + push_bit n y)"
    by (rule take_bit_add_push_bit [symmetric])
  then show ?thesis by simp
qed

lemma bit_low_eqI:
  assumes "take_bit n x = take_bit n y" and "i < n"
  shows "bit x i = bit (y :: 'a::len word) i"
  using assms by (metis bit_take_bit_iff)

lemma get_field_low_eqI:
  assumes "take_bit n x = take_bit n y" and "off + w \<le> n"
  shows "get_field off w x = get_field off w (y :: 'a::len word)"
proof (rule bit_word_eqI)
  fix i
  assume "i < LENGTH('a)"
  show "bit (get_field off w x) i = bit (get_field off w y) i"
  proof (cases "i < w")
    case True
    with assms(2) have "off + i < n" by simp
    with assms(1) have "bit x (off + i) = bit y (off + i)" by (rule bit_low_eqI)
    then show ?thesis by (simp add: bit_get_field)
  qed (simp add: bit_get_field)
qed

subsection \<open>Masks and alignment\<close>

lemma round_up_16:
  "x \<le> (x + 15) div 16 * 16" "(x + 15) div 16 * 16 < x + 16" "0 < x \<Longrightarrow> 16 \<le> (x + 15) div 16 * 16"
  for x :: nat
  by presburger+

lemma unat_ucast_up [simp]:
  "LENGTH('a) \<le> LENGTH('b) \<Longrightarrow> unat (ucast x :: 'b::len word) = unat (x :: 'a::len word)"
proof -
  assume le: "LENGTH('a) \<le> LENGTH('b)"
  have "unat x < 2 ^ LENGTH('a)" by (rule unsigned_less)
  also have "\<dots> \<le> 2 ^ LENGTH('b)" using le by simp
  finally show ?thesis by (simp add: unsigned_ucast_eq take_bit_nat_eq_self)
qed

lemma unat_and_not_mask: "unat (x AND NOT (mask k)) = unat x div 2 ^ k * 2 ^ k" for x :: "'a::len word"
proof -
  have "x AND NOT (mask k) = push_bit k (drop_bit k x)"
    by (rule bit_word_eqI) (auto simp: bit_simps)
  then have "unat (x AND NOT (mask k)) = take_bit LENGTH('a) (push_bit k (drop_bit k (unat x)))"
    by (simp only: unsigned_push_bit_eq unat_drop_bit_eq)
  also have "\<dots> = unat x div 2 ^ k * 2 ^ k mod 2 ^ LENGTH('a)"
    by (simp add: take_bit_eq_mod push_bit_eq_mult drop_bit_eq_div)
  also have "\<dots> = unat x div 2 ^ k * 2 ^ k"
    by (metis div_times_less_eq_dividend le_less_trans mod_less unsigned_less)
  finally show ?thesis .
qed

lemma unat_and_field_mask:
  fixes x :: "'a::len word"
  assumes "n + k \<le> LENGTH('a)"
  shows "unat (x AND push_bit n (mask k)) = unat x div 2 ^ n mod 2 ^ k * 2 ^ n"
proof -
  have "x AND push_bit n (mask k) = push_bit n (take_bit k (drop_bit n x))"
    by (rule bit_word_eqI) (auto simp: bit_simps)
  then have "unat (x AND push_bit n (mask k)) =
      take_bit LENGTH('a) (push_bit n (take_bit k (drop_bit n (unat x))))"
    by (simp only: unsigned_push_bit_eq unsigned_take_bit_eq unat_drop_bit_eq)
  also have "\<dots> = (unat x div 2 ^ n mod 2 ^ k * 2 ^ n) mod 2 ^ LENGTH('a)"
    by (simp add: take_bit_eq_mod push_bit_eq_mult drop_bit_eq_div)
  also have "\<dots> = unat x div 2 ^ n mod 2 ^ k * 2 ^ n"
  proof (rule mod_less)
    have "unat x div 2 ^ n mod 2 ^ k * 2 ^ n < 2 ^ k * 2 ^ n" by simp
    also have "\<dots> \<le> 2 ^ LENGTH('a)" using assms by (simp add: add.commute flip: power_add)
    finally show "unat x div 2 ^ n mod 2 ^ k * 2 ^ n < 2 ^ LENGTH('a)" .
  qed
  finally show ?thesis .
qed

lemma nonzero_mask: "(x AND m \<noteq> 0) = (0 < unat (x AND m))" for x :: "'a::len word"
  by (simp add: unat_gt_0)

lemma and_single_eq_0: "r AND push_bit n 1 = 0 \<longleftrightarrow> \<not> bit r n" if "n < LENGTH('a)" for r :: "'a::len word"
proof
  assume "r AND push_bit n 1 = 0"
  then have "\<not> bit (r AND push_bit n 1) n" by simp
  then show "\<not> bit r n" using that by (simp add: bit_simps)
next
  assume "\<not> bit r n"
  then show "r AND push_bit n 1 = 0" by (intro bit_word_eqI) (auto simp: bit_simps bit_1_iff)
qed

lemma bit_iff_odd_unat: "bit w n \<longleftrightarrow> odd (unat w div 2 ^ n)" for w :: "'a::len word"
  by (simp add: bit_iff_odd [symmetric] bit_unsigned_iff)

lemma unat_power2: "k < LENGTH('a) \<Longrightarrow> unat (2 ^ k :: 'a::len word) = 2 ^ k"
proof -
  assume k: "k < LENGTH('a)"
  have "(2 :: nat) ^ k < 2 ^ LENGTH('a)" using k by (intro power_strict_increasing) auto
  then have "unat (of_nat (2 ^ k) :: 'a word) = 2 ^ k" by (simp only: unat_of_nat mod_less)
  then show ?thesis by simp
qed

lemma and_pow2: "x AND (2 ^ k - 1) = x mod 2 ^ k" for x :: nat
  by (metis mask_eq_exp_minus_1 take_bit_eq_mask take_bit_eq_mod)

end
