(* ===== verification/ObjcClass.thy ===== *)
theory ObjcClass
  imports Prelude
begin

text \<open>
  The flag words of a class (\<open>objc-runtime-new.h\<close>, LP64, not arm64): \<open>class_data_bits_t\<close>,
  the \<open>cache_t::_flags\<close> halfword with the fast instance size, the \<open>class_rw_t::flags\<close> word
  and the Swift class flags, with the predicates and setters the object code calls. The
  pointers of a class (superclass, method lists, cache buckets) are not part of this record.
\<close>

subsection \<open>Flag words\<close>

record objc_class =
  cls_isaBits :: u64          \<comment> \<open>\<open>isa.bits\<close> of the class object\<close>
  cls_bits :: u64             \<comment> \<open>\<open>class_data_bits_t::bits\<close>\<close>
  cls_cache_flags :: u16      \<comment> \<open>\<open>cache_t::_flags\<close>\<close>
  cls_rw_flags :: u32         \<comment> \<open>\<open>data()->flags\<close>\<close>
  cls_ro_instanceSize :: u32  \<comment> \<open>\<open>data()->ro()->instanceSize\<close>\<close>
  cls_swift_flags :: u32      \<comment> \<open>the word after \<open>bits\<close> in a Swift class\<close>

definition RW_META :: u32 where "RW_META = push_bit 0 1"
definition RW_REALIZING :: u32 where "RW_REALIZING = push_bit 19 1"
definition RW_FUTURE :: u32 where "RW_FUTURE = push_bit 30 1"
definition RW_REALIZED :: u32 where "RW_REALIZED = push_bit 31 1"

definition FAST_IS_SWIFT_LEGACY :: u64 where "FAST_IS_SWIFT_LEGACY = push_bit 0 1"
definition FAST_IS_SWIFT_STABLE :: u64 where "FAST_IS_SWIFT_STABLE = push_bit 1 1"
definition FAST_HAS_DEFAULT_RR :: u64 where "FAST_HAS_DEFAULT_RR = push_bit 2 1"
definition FAST_DATA_MASK :: u64 where "FAST_DATA_MASK = 0x00007ffffffffff8"

definition FAST_CACHE_META :: u16 where "FAST_CACHE_META = push_bit 0 1"
definition FAST_CACHE_HAS_CXX_CTOR :: u16 where "FAST_CACHE_HAS_CXX_CTOR = push_bit 1 1"
definition FAST_CACHE_HAS_CXX_DTOR :: u16 where "FAST_CACHE_HAS_CXX_DTOR = push_bit 2 1"
definition FAST_CACHE_ALLOC_MASK :: u16 where "FAST_CACHE_ALLOC_MASK = 0x1ff8"
definition FAST_CACHE_ALLOC_MASK16 :: u16 where "FAST_CACHE_ALLOC_MASK16 = 0x1ff0"
definition FAST_CACHE_ALLOC_DELTA16 :: u16 where "FAST_CACHE_ALLOC_DELTA16 = 0x0008"
definition FAST_CACHE_REQUIRES_RAW_ISA :: u16 where "FAST_CACHE_REQUIRES_RAW_ISA = push_bit 13 1"
definition FAST_CACHE_HAS_DEFAULT_AWZ :: u16 where "FAST_CACHE_HAS_DEFAULT_AWZ = push_bit 14 1"
definition FAST_CACHE_HAS_DEFAULT_CORE :: u16 where "FAST_CACHE_HAS_DEFAULT_CORE = push_bit 15 1"

text \<open>\<open>getBit\<close>, \<open>setBit(s)\<close>, \<open>clearBit(s)\<close>, \<open>setAndClearBits\<close> and \<open>changeFlags\<close> on any flag word.\<close>

definition getBit :: "'a::len word \<Rightarrow> 'a word \<Rightarrow> bool" where
  "getBit flags b \<longleftrightarrow> flags AND b \<noteq> 0"

definition setBits :: "'a::len word \<Rightarrow> 'a word \<Rightarrow> 'a word" where
  "setBits flags s = flags OR s"

definition clearBits :: "'a::len word \<Rightarrow> 'a word \<Rightarrow> 'a word" where
  "clearBits flags c = flags AND NOT c"

definition setAndClearBits :: "'a::len word \<Rightarrow> 'a word \<Rightarrow> 'a word \<Rightarrow> 'a word" where
  "setAndClearBits flags s c = (flags OR s) AND NOT c"

subsection \<open>Class predicates and setters\<close>

definition class_data :: "objc_class \<Rightarrow> u64" where
  "class_data c = cls_bits c AND FAST_DATA_MASK"

definition setData :: "u64 \<Rightarrow> objc_class \<Rightarrow> objc_class" where
  "setData newData c = c\<lparr>cls_bits := (cls_bits c AND NOT FAST_DATA_MASK) OR newData\<rparr>"

definition isSwiftStable :: "objc_class \<Rightarrow> bool" where
  "isSwiftStable c = getBit (cls_bits c) FAST_IS_SWIFT_STABLE"

definition setIsSwiftStable :: "objc_class \<Rightarrow> objc_class" where
  "setIsSwiftStable c =
     c\<lparr>cls_bits := setAndClearBits (cls_bits c) FAST_IS_SWIFT_STABLE FAST_IS_SWIFT_LEGACY\<rparr>"

definition isSwiftLegacy :: "objc_class \<Rightarrow> bool" where
  "isSwiftLegacy c = getBit (cls_bits c) FAST_IS_SWIFT_LEGACY"

definition setIsSwiftLegacy :: "objc_class \<Rightarrow> objc_class" where
  "setIsSwiftLegacy c =
     c\<lparr>cls_bits := setAndClearBits (cls_bits c) FAST_IS_SWIFT_LEGACY FAST_IS_SWIFT_STABLE\<rparr>"

definition isAnySwift :: "objc_class \<Rightarrow> bool" where
  "isAnySwift c \<longleftrightarrow> isSwiftStable c \<or> isSwiftLegacy c"

definition hasCustomRR :: "objc_class \<Rightarrow> bool" where
  "hasCustomRR c \<longleftrightarrow> \<not> getBit (cls_bits c) FAST_HAS_DEFAULT_RR"

definition setHasDefaultRR :: "objc_class \<Rightarrow> objc_class" where
  "setHasDefaultRR c = c\<lparr>cls_bits := setBits (cls_bits c) FAST_HAS_DEFAULT_RR\<rparr>"

definition setHasCustomRR :: "objc_class \<Rightarrow> objc_class" where
  "setHasCustomRR c = c\<lparr>cls_bits := clearBits (cls_bits c) FAST_HAS_DEFAULT_RR\<rparr>"

definition hasCustomAWZ :: "objc_class \<Rightarrow> bool" where
  "hasCustomAWZ c \<longleftrightarrow> \<not> getBit (cls_cache_flags c) FAST_CACHE_HAS_DEFAULT_AWZ"

definition setHasDefaultAWZ :: "objc_class \<Rightarrow> objc_class" where
  "setHasDefaultAWZ c = c\<lparr>cls_cache_flags := setBits (cls_cache_flags c) FAST_CACHE_HAS_DEFAULT_AWZ\<rparr>"

definition setHasCustomAWZ :: "objc_class \<Rightarrow> objc_class" where
  "setHasCustomAWZ c = c\<lparr>cls_cache_flags := clearBits (cls_cache_flags c) FAST_CACHE_HAS_DEFAULT_AWZ\<rparr>"

definition hasCustomCore :: "objc_class \<Rightarrow> bool" where
  "hasCustomCore c \<longleftrightarrow> \<not> getBit (cls_cache_flags c) FAST_CACHE_HAS_DEFAULT_CORE"

definition setHasDefaultCore :: "objc_class \<Rightarrow> objc_class" where
  "setHasDefaultCore c = c\<lparr>cls_cache_flags := setBits (cls_cache_flags c) FAST_CACHE_HAS_DEFAULT_CORE\<rparr>"

definition setHasCustomCore :: "objc_class \<Rightarrow> objc_class" where
  "setHasCustomCore c = c\<lparr>cls_cache_flags := clearBits (cls_cache_flags c) FAST_CACHE_HAS_DEFAULT_CORE\<rparr>"

definition hasCxxCtor :: "objc_class \<Rightarrow> bool" where
  "hasCxxCtor c = getBit (cls_cache_flags c) FAST_CACHE_HAS_CXX_CTOR"

definition setHasCxxCtor :: "objc_class \<Rightarrow> objc_class" where
  "setHasCxxCtor c = c\<lparr>cls_cache_flags := setBits (cls_cache_flags c) FAST_CACHE_HAS_CXX_CTOR\<rparr>"

definition hasCxxDtor :: "objc_class \<Rightarrow> bool" where
  "hasCxxDtor c = getBit (cls_cache_flags c) FAST_CACHE_HAS_CXX_DTOR"

definition setHasCxxDtor :: "objc_class \<Rightarrow> objc_class" where
  "setHasCxxDtor c = c\<lparr>cls_cache_flags := setBits (cls_cache_flags c) FAST_CACHE_HAS_CXX_DTOR\<rparr>"

definition instancesRequireRawIsa :: "objc_class \<Rightarrow> bool" where
  "instancesRequireRawIsa c = getBit (cls_cache_flags c) FAST_CACHE_REQUIRES_RAW_ISA"

definition setInstancesRequireRawIsa :: "objc_class \<Rightarrow> objc_class" where
  "setInstancesRequireRawIsa c =
     c\<lparr>cls_cache_flags := setBits (cls_cache_flags c) FAST_CACHE_REQUIRES_RAW_ISA\<rparr>"

definition canAllocNonpointer :: "objc_class \<Rightarrow> bool" where
  "canAllocNonpointer c \<longleftrightarrow> \<not> instancesRequireRawIsa c"

definition usesSwiftRefcounting :: "objc_class \<Rightarrow> bool" where
  "usesSwiftRefcounting c \<longleftrightarrow> (if \<not> isSwiftStable c then False else cls_swift_flags c AND 2 \<noteq> 0)"

definition canCallSwiftRR :: "objc_class \<Rightarrow> bool" where
  "canCallSwiftRR c \<longleftrightarrow> \<not> hasCustomCore c \<and> usesSwiftRefcounting c"

definition isStubClass :: "objc_class \<Rightarrow> bool" where
  "isStubClass c \<longleftrightarrow> 1 \<le> cls_isaBits c \<and> cls_isaBits c < 16"

definition isRealized :: "objc_class \<Rightarrow> bool" where
  "isRealized c \<longleftrightarrow> \<not> isStubClass c \<and> cls_rw_flags c AND RW_REALIZED \<noteq> 0"

definition isFuture :: "objc_class \<Rightarrow> bool" where
  "isFuture c \<longleftrightarrow> (if isStubClass c then False else cls_rw_flags c AND RW_FUTURE \<noteq> 0)"

definition isMetaClass :: "objc_class \<Rightarrow> bool" where
  "isMetaClass c = getBit (cls_cache_flags c) FAST_CACHE_META"

definition isMetaClassMaybeUnrealized :: "objc_class \<Rightarrow> bool" where
  "isMetaClassMaybeUnrealized c \<longleftrightarrow> (if isStubClass c then False else cls_rw_flags c AND RW_META \<noteq> 0)"

subsection \<open>Instance sizes\<close>

text \<open>
  \<open>constp\<close> stands for the compile-time condition \<open>__builtin_constant_p(extra) && extra == 0\<close>
  that selects between the two masks.
\<close>

definition word_align :: "'a::len word \<Rightarrow> 'a word" where
  "word_align x = (x + 7) AND NOT 7"

definition align16 :: "u64 \<Rightarrow> u64" where
  "align16 x = (x + 15) AND NOT 15"

definition hasFastInstanceSize :: "bool \<Rightarrow> u16 \<Rightarrow> bool" where
  "hasFastInstanceSize constp flags \<longleftrightarrow>
     (if constp then flags AND FAST_CACHE_ALLOC_MASK16 \<noteq> 0 else flags AND FAST_CACHE_ALLOC_MASK \<noteq> 0)"

definition fastInstanceSize :: "bool \<Rightarrow> u64 \<Rightarrow> u16 \<Rightarrow> u64" where
  "fastInstanceSize constp extra flags =
     (if constp then ucast (flags AND FAST_CACHE_ALLOC_MASK16)
      else align16 (ucast (flags AND FAST_CACHE_ALLOC_MASK) + extra - ucast FAST_CACHE_ALLOC_DELTA16))"

definition setFastInstanceSize :: "u64 \<Rightarrow> u16 \<Rightarrow> u16" where
  "setFastInstanceSize newSize flags =
     (let newBits = flags AND NOT FAST_CACHE_ALLOC_MASK;
          sizeBits = ucast (word_align newSize + ucast FAST_CACHE_ALLOC_DELTA16) AND FAST_CACHE_ALLOC_MASK
      in if newSize \<le> ucast sizeBits then newBits OR sizeBits else newBits)"

definition alignedInstanceSize :: "objc_class \<Rightarrow> u32" where
  "alignedInstanceSize c = word_align (cls_ro_instanceSize c)"

definition instanceSize :: "bool \<Rightarrow> u64 \<Rightarrow> objc_class \<Rightarrow> u64" where
  "instanceSize constp extraBytes c =
     (if hasFastInstanceSize constp (cls_cache_flags c)
      then fastInstanceSize constp extraBytes (cls_cache_flags c)
      else let size = ucast (alignedInstanceSize c) + extraBytes
           in if size < 16 then 16 else size)"

definition setInstanceSize :: "u32 \<Rightarrow> objc_class \<Rightarrow> objc_class" where
  "setInstanceSize newSize c =
     (let c1 = (if newSize \<noteq> cls_ro_instanceSize c then c\<lparr>cls_ro_instanceSize := newSize\<rparr> else c)
      in c1\<lparr>cls_cache_flags := setFastInstanceSize (ucast newSize) (cls_cache_flags c1)\<rparr>)"

subsection \<open>Flag words: read after write\<close>

lemmas flag_defs =
  RW_META_def RW_FUTURE_def RW_REALIZED_def FAST_IS_SWIFT_LEGACY_def FAST_IS_SWIFT_STABLE_def
  FAST_HAS_DEFAULT_RR_def FAST_CACHE_META_def FAST_CACHE_HAS_CXX_CTOR_def
  FAST_CACHE_HAS_CXX_DTOR_def FAST_CACHE_REQUIRES_RAW_ISA_def FAST_CACHE_HAS_DEFAULT_AWZ_def
  FAST_CACHE_HAS_DEFAULT_CORE_def

lemma getBit_single:
  "n < LENGTH('a) \<Longrightarrow> getBit flags (push_bit n 1) \<longleftrightarrow> bit flags n" for flags :: "'a::len word"
proof -
  assume n: "n < LENGTH('a)"
  have "flags AND push_bit n 1 = (if bit flags n then push_bit n 1 else 0)"
    by (rule bit_word_eqI) (auto simp: bit_simps)
  moreover have "push_bit n (1 :: 'a word) \<noteq> 0" using n by simp
  ultimately show ?thesis by (simp add: getBit_def)
qed

lemma bit_single: "n < LENGTH('a) \<Longrightarrow> bit (push_bit n (1 :: 'a::len word)) i \<longleftrightarrow> i = n"
  by (auto simp: bit_exp_iff)

lemma getBit_flags [simp]:
  "getBit f FAST_IS_SWIFT_LEGACY \<longleftrightarrow> bit f 0"
  "getBit f FAST_IS_SWIFT_STABLE \<longleftrightarrow> bit f 1"
  "getBit f FAST_HAS_DEFAULT_RR \<longleftrightarrow> bit f 2"
  "getBit g FAST_CACHE_META \<longleftrightarrow> bit g 0"
  "getBit g FAST_CACHE_HAS_CXX_CTOR \<longleftrightarrow> bit g 1"
  "getBit g FAST_CACHE_HAS_CXX_DTOR \<longleftrightarrow> bit g 2"
  "getBit g FAST_CACHE_REQUIRES_RAW_ISA \<longleftrightarrow> bit g 13"
  "getBit g FAST_CACHE_HAS_DEFAULT_AWZ \<longleftrightarrow> bit g 14"
  "getBit g FAST_CACHE_HAS_DEFAULT_CORE \<longleftrightarrow> bit g 15"
  unfolding flag_defs by (rule getBit_single; simp)+

lemma bit_flags [simp]:
  "bit FAST_IS_SWIFT_LEGACY i \<longleftrightarrow> i = 0"
  "bit FAST_IS_SWIFT_STABLE i \<longleftrightarrow> i = 1"
  "bit FAST_HAS_DEFAULT_RR i \<longleftrightarrow> i = 2"
  "bit FAST_CACHE_META i \<longleftrightarrow> i = 0"
  "bit FAST_CACHE_HAS_CXX_CTOR i \<longleftrightarrow> i = 1"
  "bit FAST_CACHE_HAS_CXX_DTOR i \<longleftrightarrow> i = 2"
  "bit FAST_CACHE_REQUIRES_RAW_ISA i \<longleftrightarrow> i = 13"
  "bit FAST_CACHE_HAS_DEFAULT_AWZ i \<longleftrightarrow> i = 14"
  "bit FAST_CACHE_HAS_DEFAULT_CORE i \<longleftrightarrow> i = 15"
  unfolding flag_defs by (rule bit_single; simp)+

lemmas class_flag_ops =
  isSwiftStable_def setIsSwiftStable_def isSwiftLegacy_def setIsSwiftLegacy_def isAnySwift_def
  hasCustomRR_def setHasDefaultRR_def setHasCustomRR_def hasCustomAWZ_def setHasDefaultAWZ_def
  setHasCustomAWZ_def hasCustomCore_def setHasDefaultCore_def setHasCustomCore_def hasCxxCtor_def
  setHasCxxCtor_def hasCxxDtor_def setHasCxxDtor_def instancesRequireRawIsa_def
  setInstancesRequireRawIsa_def setBits_def clearBits_def setAndClearBits_def

subsection \<open>The fast instance size\<close>

lemma word_align_alt: "word_align x = (x + 7) AND NOT (mask 3)"
  by (simp add: word_align_def mask_eq_exp_minus_1)

lemma unat_word_align_64: "unat x + 7 < 2 ^ 64 \<Longrightarrow> unat (word_align x) = (unat x + 7) div 8 * 8" for x :: u64
  by (simp add: word_align_alt unat_and_not_mask unat_word_ariths)

lemma unat_word_align_32: "unat x + 7 < 2 ^ 32 \<Longrightarrow> unat (word_align x) = (unat x + 7) div 8 * 8" for x :: u32
  by (simp add: word_align_alt unat_and_not_mask unat_word_ariths)

lemma unat_align16: "unat x + 15 < 2 ^ 64 \<Longrightarrow> unat (align16 x) = (unat x + 15) div 16 * 16"
proof -
  assume a: "unat x + 15 < 2 ^ 64"
  have m: "(15 :: u64) = mask 4" by (simp add: mask_eq_exp_minus_1)
  from a have "unat (x + 15) = unat x + 15" by (simp add: unat_word_ariths)
  then show ?thesis using unat_and_not_mask [of "x + 15" 4] by (simp add: align16_def m)
qed

lemma ALLOC_masks: "FAST_CACHE_ALLOC_MASK = push_bit 3 (mask 10)" "FAST_CACHE_ALLOC_MASK16 = push_bit 4 (mask 9)"
  by (simp_all add: FAST_CACHE_ALLOC_MASK_def FAST_CACHE_ALLOC_MASK16_def mask_eq_exp_minus_1)
lemma sizeBits_unat:
  assumes "unat n < 2 ^ 32"
  shows "unat ((ucast (word_align n + ucast FAST_CACHE_ALLOC_DELTA16) :: u16) AND FAST_CACHE_ALLOC_MASK)
    = 8 * (Suc ((unat (n :: u64) + 7) div 8) mod 1024)"
proof -
  let ?q = "(unat n + 7) div 8"
  have "unat (word_align n) = ?q * 8"
    using assms by (intro unat_word_align_64) simp
  then have "unat (word_align n + 8) = 8 * Suc ?q"
    using assms by (simp add: unat_word_ariths)
  then have "unat (ucast (word_align n + 8) :: u16) = 8 * Suc ?q mod (8 * 8192)"
    by (simp add: unsigned_ucast_eq take_bit_eq_mod)
  also have "\<dots> = 8 * (Suc ?q mod 8192)" by (rule mod_mult_mult1)
  finally have "unat ((ucast (word_align n + 8) :: u16) AND push_bit 3 (mask 10)) = 8 * (Suc ?q mod 8192 mod 1024)"
    by (subst unat_and_field_mask) simp_all
  also have "Suc ?q mod 8192 mod 1024 = Suc ?q mod 1024"
    by (rule mod_mod_cancel) simp
  finally show ?thesis
    unfolding ALLOC_masks by (simp add: FAST_CACHE_ALLOC_DELTA16_def)
qed

lemma sizeBits_fits:
  fixes m :: nat
  shows "m \<le> 8 * (Suc ((m + 7) div 8) mod 1024) \<longleftrightarrow> m \<le> 8176"
proof -
  define q where "q = (m + 7) div 8"
  have q: "m \<le> 8 * q" "8 * q \<le> m + 7" unfolding q_def by simp_all
  show ?thesis
  proof (cases "Suc q < 1024")
    case True
    with q show ?thesis unfolding q_def [symmetric] by simp
  next
    case False
    then have "Suc q mod 1024 \<le> Suc q - 1024" by (metis le_mod_geq mod_less_eq_dividend not_less)
    then have "\<not> m \<le> 8 * (Suc q mod 1024)" using q False by linarith
    moreover have "8176 < m" using q False by linarith
    ultimately show ?thesis unfolding q_def [symmetric] by simp
  qed
qed


lemma MASK16_of_MASK: "x AND FAST_CACHE_ALLOC_MASK16 = (x AND FAST_CACHE_ALLOC_MASK) AND NOT (mask 4)"
  unfolding ALLOC_masks by (rule bit_word_eqI) (auto simp: bit_simps)

lemma setFastInstanceSize_other:
  "setFastInstanceSize n flags AND NOT FAST_CACHE_ALLOC_MASK = flags AND NOT FAST_CACHE_ALLOC_MASK"
  unfolding setFastInstanceSize_def Let_def
  by (rule bit_word_eqI) (auto simp: bit_simps)

lemma setFastInstanceSize_mask:
  assumes "unat n < 2 ^ 32"
  shows "unat (setFastInstanceSize n flags AND FAST_CACHE_ALLOC_MASK) =
    (if unat n \<le> 8176 then 8 * Suc ((unat n + 7) div 8) else 0)"
proof -
  define sb where "sb = (ucast (word_align n + ucast FAST_CACHE_ALLOC_DELTA16) :: u16) AND FAST_CACHE_ALLOC_MASK"
  have sb: "unat sb = 8 * (Suc ((unat n + 7) div 8) mod 1024)"
    unfolding sb_def using assms by (rule sizeBits_unat)
  have "n \<le> ucast sb \<longleftrightarrow> unat n \<le> unat sb"
    by (simp add: word_le_nat_alt)
  then have fits: "n \<le> ucast sb \<longleftrightarrow> unat n \<le> 8176" unfolding sb by (simp only: sizeBits_fits)
  have "setFastInstanceSize n flags AND FAST_CACHE_ALLOC_MASK = (if n \<le> ucast sb then sb else 0)"
    unfolding setFastInstanceSize_def Let_def sb_def
    by (rule bit_word_eqI) (auto simp: bit_simps)
  moreover have "unat n \<le> 8176 \<Longrightarrow> Suc ((unat n + 7) div 8) mod 1024 = Suc ((unat n + 7) div 8)"
    by (rule mod_less) linarith
  ultimately show ?thesis using fits sb by simp
qed

lemma setFastInstanceSize_mask16:
  assumes "unat n < 2 ^ 32"
  shows "unat (setFastInstanceSize n flags AND FAST_CACHE_ALLOC_MASK16) =
    (if unat n \<le> 8176 then 8 * Suc ((unat n + 7) div 8) div 16 * 16 else 0)"
  using setFastInstanceSize_mask [OF assms, of flags]
  by (simp add: MASK16_of_MASK unat_and_not_mask)

lemma setInstanceSize_simps [simp]:
  "cls_ro_instanceSize (setInstanceSize n c) = n"
  "cls_cache_flags (setInstanceSize n c) = setFastInstanceSize (ucast n) (cls_cache_flags c)"
  by (simp_all add: setInstanceSize_def Let_def)

text \<open>
  C40. Instance sizes. After \<open>setInstanceSize(n)\<close> with \<open>n > 0\<close>, the size \<open>instanceSize(extra)\<close>
  computes - through the packed size in the cache flags when it fits, through
  \<open>alignedInstanceSize()\<close> otherwise, and with either of the two masks - holds the ivars and
  the extra bytes, is at least the 16 bytes CF requires, and wastes fewer than 23 bytes. A packed size is a
  multiple of 16; one that does not fit is a multiple of 8 when the extra bytes are.
\<close>

theorem instanceSize_adequate:
  assumes "0 < n" and "unat n + 7 < 2 ^ 32" and "unat n + unat extra + 32 < 2 ^ 64"
    and "constp \<Longrightarrow> extra = 0"
  shows "unat n + unat extra \<le> unat (instanceSize constp extra (setInstanceSize n c))
    \<and> 16 \<le> unat (instanceSize constp extra (setInstanceSize n c))
    \<and> unat (instanceSize constp extra (setInstanceSize n c)) < unat n + unat extra + 23
    \<and> (unat n \<le> 8176 \<longrightarrow> 16 dvd unat (instanceSize constp extra (setInstanceSize n c)))
    \<and> (8 dvd unat extra \<longrightarrow> 8 dvd unat (instanceSize constp extra (setInstanceSize n c)))"
proof -
  let ?c = "setInstanceSize n c"
  define q where "q = (unat n + 7) div 8"
  have q: "unat n \<le> 8 * q" "8 * q \<le> unat n + 7" unfolding q_def by simp_all
  have n: "0 < unat n" using assms(1) by (simp add: unat_gt_0)
  have un: "unat (ucast n :: u64) = unat n" by simp
  have m: "unat (cls_cache_flags ?c AND FAST_CACHE_ALLOC_MASK) = (if unat n \<le> 8176 then 8 * Suc q else 0)"
    "unat (cls_cache_flags ?c AND FAST_CACHE_ALLOC_MASK16) = (if unat n \<le> 8176 then 8 * Suc q div 16 * 16 else 0)"
    using assms(2) setFastInstanceSize_mask [of "ucast n" "cls_cache_flags c"]
      setFastInstanceSize_mask16 [of "ucast n" "cls_cache_flags c"] by (simp_all add: q_def un)
  show ?thesis
  proof (cases "unat n \<le> 8176")
    case True
    note small = True
    show ?thesis
    proof (cases constp)
      case True
      have "16 \<le> 8 + 8 * q" using q n by (cases q) simp_all
      then have "(8 + 8 * q) div 16 \<noteq> 0" by (simp add: div_eq_0_iff)
      then have "unat (instanceSize constp extra ?c) = 8 * Suc q div 16 * 16"
        using True small m by (simp add: instanceSize_def hasFastInstanceSize_def fastInstanceSize_def nonzero_mask)
      moreover have "8 * Suc q div 16 * 16 = 8 * (Suc q div 2 * 2)"
        using div_mult_mult1 [of 8 "Suc q" 2] by simp
      moreover have "q \<le> Suc q div 2 * 2" "Suc q div 2 * 2 \<le> Suc q" by presburger+
      moreover have "2 \<le> Suc q div 2 * 2" using \<open>16 \<le> 8 + 8 * q\<close> by presburger
      ultimately show ?thesis using assms(4) True q by simp
    next
      case False
      have "unat (ucast (cls_cache_flags ?c AND FAST_CACHE_ALLOC_MASK) + extra - ucast FAST_CACHE_ALLOC_DELTA16 :: u64)
        = 8 * q + unat extra"
        using m small q assms(3) by (simp add: FAST_CACHE_ALLOC_DELTA16_def unat_word_ariths unat_sub_if')
      moreover have "\<dots> + 15 < 2 ^ 64" using q assms(3) by simp
      ultimately have "unat (instanceSize constp extra ?c) = (8 * q + unat extra + 15) div 16 * 16"
        using False small m by (simp add: instanceSize_def hasFastInstanceSize_def fastInstanceSize_def nonzero_mask unat_align16)
      then show ?thesis using q n round_up_16 [of "8 * q + unat extra"] by simp
    qed
  next
    case False
    have "unat (word_align n) = q * 8" unfolding q_def by (rule unat_word_align_32 [OF assms(2)])
    then have "unat (ucast (alignedInstanceSize ?c) + extra :: u64) = 8 * q + unat extra"
      using q assms(3) by (simp add: alignedInstanceSize_def unat_word_ariths)
    then have "unat (instanceSize constp extra ?c) = 8 * q + unat extra"
      using False m q by (simp add: instanceSize_def hasFastInstanceSize_def nonzero_mask word_less_nat_alt Let_def)
    then show ?thesis using q False by (intro conjI impI; (linarith | simp))
  qed
qed

definition example_class :: objc_class where
  "example_class = \<lparr>cls_isaBits = 0x100000040, cls_bits = 0x100000080 OR FAST_HAS_DEFAULT_RR,
     cls_cache_flags = 0, cls_rw_flags = RW_REALIZED, cls_ro_instanceSize = 8, cls_swift_flags = 0\<rparr>"

theorem instanceSize_adequate_witness:
  "24 \<le> unat (instanceSize True 0 (setInstanceSize 24 example_class))
   \<and> unat (instanceSize True 0 (setInstanceSize 24 example_class)) < 47
   \<and> 9000 + 5 \<le> unat (instanceSize False 5 (setInstanceSize 9000 example_class))"
  using instanceSize_adequate [of 24 0 True example_class]
    instanceSize_adequate [of 9000 5 False example_class]
  by simp

text \<open>
  The flag words of a class are independent: each setter changes what its own predicate
  reads and nothing any other predicate reads, whatever the other bits hold; the two Swift ABI
  bits exclude each other; the data pointer survives every setter; and storing the instance
  size disturbs none of the cache flags it shares its halfword with.
\<close>

lemma class_flags_independent:
  "\<not> hasCustomRR (setHasDefaultRR c) \<and> hasCustomRR (setHasCustomRR c)
   \<and> \<not> hasCustomAWZ (setHasDefaultAWZ c) \<and> hasCustomAWZ (setHasCustomAWZ c)
   \<and> \<not> hasCustomCore (setHasDefaultCore c) \<and> hasCustomCore (setHasCustomCore c)
   \<and> hasCxxCtor (setHasCxxCtor c) \<and> hasCxxDtor (setHasCxxDtor c)
   \<and> \<not> canAllocNonpointer (setInstancesRequireRawIsa c)
   \<and> isSwiftStable (setIsSwiftStable c) \<and> \<not> isSwiftLegacy (setIsSwiftStable c)
   \<and> isSwiftLegacy (setIsSwiftLegacy c) \<and> \<not> isSwiftStable (setIsSwiftLegacy c)
   \<and> isSwiftStable (setHasCustomRR c) = isSwiftStable c
   \<and> hasCustomRR (setIsSwiftStable c) = hasCustomRR c
   \<and> hasCxxDtor (setHasCustomCore (setHasCustomAWZ (setHasCxxCtor c))) = hasCxxDtor c
   \<and> isMetaClass (setHasCxxDtor (setInstancesRequireRawIsa (setHasDefaultCore c))) = isMetaClass c
   \<and> class_data (setHasDefaultRR (setIsSwiftLegacy c)) = class_data c
   \<and> hasCxxDtor (setInstanceSize n c) = hasCxxDtor c \<and> isMetaClass (setInstanceSize n c) = isMetaClass c
   \<and> instancesRequireRawIsa (setInstanceSize n c) = instancesRequireRawIsa c
   \<and> hasCustomCore (setInstanceSize n c) = hasCustomCore c"
proof -
  have size: "bit (setFastInstanceSize m f) i = bit f i" if "i < 3 \<or> 13 \<le> i" for m f i
  proof -
    have "bit (setFastInstanceSize m f AND NOT FAST_CACHE_ALLOC_MASK) i = bit (f AND NOT FAST_CACHE_ALLOC_MASK) i"
      by (simp only: setFastInstanceSize_other)
    with that show ?thesis unfolding ALLOC_masks by (auto simp: bit_simps dest: bit_imp_le_length)
  qed
  have data: "((f OR s) AND NOT c') AND FAST_DATA_MASK = f AND FAST_DATA_MASK"
    if "s AND FAST_DATA_MASK = 0" "c' AND FAST_DATA_MASK = 0" for f s c' :: u64
  proof (rule bit_word_eqI)
    fix i
    have "\<not> (bit s i \<and> bit FAST_DATA_MASK i)" "\<not> (bit c' i \<and> bit FAST_DATA_MASK i)"
      using that by (metis bit_0_eq bit_and_iff bot_apply bot_bool_def)+
    then show "bit (((f OR s) AND NOT c') AND FAST_DATA_MASK) i = bit (f AND FAST_DATA_MASK) i"
      by (auto simp: bit_simps dest: bit_imp_le_length)
  qed
  have "class_data (setHasDefaultRR (setIsSwiftLegacy c)) = class_data c"
    using data [of FAST_HAS_DEFAULT_RR 0] data [of FAST_IS_SWIFT_LEGACY FAST_IS_SWIFT_STABLE]
    by (simp add: class_data_def class_flag_ops flag_defs FAST_DATA_MASK_def)
  then show ?thesis
    by (simp add: class_flag_ops canAllocNonpointer_def isMetaClass_def size bit_and_iff bit_or_iff bit_not_iff_eq)
qed

end
