(* ===== verification/Isa.thy ===== *)
theory Isa
  imports ObjcClass
begin

text \<open>
  The packed \<open>isa\<close> word of an object (\<open>isa.h\<close>, the x86-64 layout; \<open>union isa_t\<close> of
  \<open>objc-private.h\<close>; \<open>setClass\<close>, \<open>getClass\<close> and \<open>initIsa\<close> of \<open>objc-object.h\<close>) with the
  carry and borrow arithmetic on its inline retain count (\<open>addc\<close>, \<open>subc\<close> of \<open>objc-os.h\<close>).
  \<open>ASSERT\<close>s are compiled out of the release runtime and are not steps of the model; the
  lemmas state the facts they assert.
\<close>

type_synonym isa_t = u64
type_synonym class_ptr = u64

subsection \<open>Layout\<close>

definition ISA_MASK :: u64 where "ISA_MASK = 0x00007ffffffffff8"
definition ISA_MAGIC_MASK :: u64 where "ISA_MAGIC_MASK = 0x001f800000000001"
definition ISA_MAGIC_VALUE :: u64 where "ISA_MAGIC_VALUE = 0x001d800000000001"
definition RC_ONE :: u64 where "RC_ONE = push_bit 56 1"
definition RC_HALF :: u64 where "RC_HALF = push_bit 7 1"

text \<open>The bit-fields of \<open>ISA_BITFIELD\<close>, in order; one-bit fields are read as booleans.\<close>

definition nonpointer :: "isa_t \<Rightarrow> bool" where "nonpointer b = bit b 0"
definition has_assoc :: "isa_t \<Rightarrow> bool" where "has_assoc b = bit b 1"
definition has_cxx_dtor :: "isa_t \<Rightarrow> bool" where "has_cxx_dtor b = bit b 2"
definition shiftcls :: "isa_t \<Rightarrow> u64" where "shiftcls b = get_field 3 44 b"
definition magic :: "isa_t \<Rightarrow> u64" where "magic b = get_field 47 6 b"
definition weakly_referenced :: "isa_t \<Rightarrow> bool" where "weakly_referenced b = bit b 53"
definition has_sidetable_rc :: "isa_t \<Rightarrow> bool" where "has_sidetable_rc b = bit b 55"
definition extra_rc :: "isa_t \<Rightarrow> u64" where "extra_rc b = get_field 56 8 b"

definition set_has_assoc :: "bool \<Rightarrow> isa_t \<Rightarrow> isa_t" where
  "set_has_assoc v b = set_field 1 1 (of_bool v) b"
definition set_has_cxx_dtor :: "bool \<Rightarrow> isa_t \<Rightarrow> isa_t" where
  "set_has_cxx_dtor v b = set_field 2 1 (of_bool v) b"
definition set_shiftcls :: "u64 \<Rightarrow> isa_t \<Rightarrow> isa_t" where
  "set_shiftcls v b = set_field 3 44 v b"
definition set_weakly_referenced :: "bool \<Rightarrow> isa_t \<Rightarrow> isa_t" where
  "set_weakly_referenced v b = set_field 53 1 (of_bool v) b"
definition set_has_sidetable_rc :: "bool \<Rightarrow> isa_t \<Rightarrow> isa_t" where
  "set_has_sidetable_rc v b = set_field 55 1 (of_bool v) b"
definition set_extra_rc :: "u64 \<Rightarrow> isa_t \<Rightarrow> isa_t" where
  "set_extra_rc v b = set_field 56 8 v b"

definition isDeallocating :: "isa_t \<Rightarrow> bool" where
  "isDeallocating b \<longleftrightarrow> extra_rc b = 0 \<and> \<not> has_sidetable_rc b"

definition setDeallocating :: "isa_t \<Rightarrow> isa_t" where
  "setDeallocating b = set_has_sidetable_rc False (set_extra_rc 0 b)"

subsection \<open>Operations\<close>

definition addc :: "u64 \<Rightarrow> u64 \<Rightarrow> u64 \<Rightarrow> u64 \<times> bool" where
  "addc lhs rhs carryin = builtin_addc lhs rhs carryin"

definition subc :: "u64 \<Rightarrow> u64 \<Rightarrow> u64 \<Rightarrow> u64 \<times> bool" where
  "subc lhs rhs carryin = builtin_subc lhs rhs carryin"

definition setClass :: "class_ptr \<Rightarrow> isa_t \<Rightarrow> isa_t" where
  "setClass newCls b = set_shiftcls (drop_bit 3 newCls) b"

definition getClass :: "isa_t \<Rightarrow> class_ptr" where
  "getClass b = b AND ISA_MASK"

definition getDecodedClass :: "isa_t \<Rightarrow> class_ptr" where
  "getDecodedClass b = getClass b"

text \<open>The word \<open>objc_object::initIsa(cls, nonpointer, hasCxxDtor)\<close> stores.\<close>

definition initIsa :: "class_ptr \<Rightarrow> bool \<Rightarrow> bool \<Rightarrow> isa_t" where
  "initIsa cls np hasDtor =
     (if \<not> np then setClass cls 0
      else set_extra_rc 1 (setClass cls (set_has_cxx_dtor hasDtor ISA_MAGIC_VALUE)))"

definition initClassIsa :: "bool \<Rightarrow> (class_ptr \<Rightarrow> objc_class) \<Rightarrow> class_ptr \<Rightarrow> isa_t" where
  "initClassIsa DisableNonpointerIsa class_at cls =
     (if DisableNonpointerIsa \<or> instancesRequireRawIsa (class_at cls)
      then initIsa cls False False else initIsa cls True False)"

definition initInstanceIsa :: "class_ptr \<Rightarrow> bool \<Rightarrow> isa_t" where
  "initInstanceIsa cls hasDtor = initIsa cls True hasDtor"

subsection \<open>Reading fields after writing fields\<close>

lemmas isa_field_defs =
  nonpointer_def has_assoc_def has_cxx_dtor_def shiftcls_def magic_def weakly_referenced_def
  has_sidetable_rc_def extra_rc_def set_has_assoc_def set_has_cxx_dtor_def set_shiftcls_def
  set_weakly_referenced_def set_has_sidetable_rc_def set_extra_rc_def

lemma isa_set_has_assoc [simp]:
  "nonpointer (set_has_assoc v b) = nonpointer b" "has_assoc (set_has_assoc v b) = v"
  "has_cxx_dtor (set_has_assoc v b) = has_cxx_dtor b" "shiftcls (set_has_assoc v b) = shiftcls b"
  "magic (set_has_assoc v b) = magic b" "weakly_referenced (set_has_assoc v b) = weakly_referenced b"
  "has_sidetable_rc (set_has_assoc v b) = has_sidetable_rc b" "extra_rc (set_has_assoc v b) = extra_rc b"
  by (simp_all add: isa_field_defs field_simps_c del: One_nat_def)

lemma isa_set_has_cxx_dtor [simp]:
  "nonpointer (set_has_cxx_dtor v b) = nonpointer b" "has_assoc (set_has_cxx_dtor v b) = has_assoc b"
  "has_cxx_dtor (set_has_cxx_dtor v b) = v" "shiftcls (set_has_cxx_dtor v b) = shiftcls b"
  "magic (set_has_cxx_dtor v b) = magic b" "weakly_referenced (set_has_cxx_dtor v b) = weakly_referenced b"
  "has_sidetable_rc (set_has_cxx_dtor v b) = has_sidetable_rc b" "extra_rc (set_has_cxx_dtor v b) = extra_rc b"
  by (simp_all add: isa_field_defs field_simps_c del: One_nat_def)

lemma isa_set_shiftcls [simp]:
  "nonpointer (set_shiftcls v b) = nonpointer b" "has_assoc (set_shiftcls v b) = has_assoc b"
  "has_cxx_dtor (set_shiftcls v b) = has_cxx_dtor b" "shiftcls (set_shiftcls v b) = take_bit 44 v"
  "magic (set_shiftcls v b) = magic b" "weakly_referenced (set_shiftcls v b) = weakly_referenced b"
  "has_sidetable_rc (set_shiftcls v b) = has_sidetable_rc b" "extra_rc (set_shiftcls v b) = extra_rc b"
  by (simp_all add: isa_field_defs field_simps_c)

lemma isa_set_weakly_referenced [simp]:
  "nonpointer (set_weakly_referenced v b) = nonpointer b" "has_assoc (set_weakly_referenced v b) = has_assoc b"
  "has_cxx_dtor (set_weakly_referenced v b) = has_cxx_dtor b" "shiftcls (set_weakly_referenced v b) = shiftcls b"
  "magic (set_weakly_referenced v b) = magic b" "weakly_referenced (set_weakly_referenced v b) = v"
  "has_sidetable_rc (set_weakly_referenced v b) = has_sidetable_rc b"
  "extra_rc (set_weakly_referenced v b) = extra_rc b"
  by (simp_all add: isa_field_defs field_simps_c del: One_nat_def)

lemma isa_set_has_sidetable_rc [simp]:
  "nonpointer (set_has_sidetable_rc v b) = nonpointer b" "has_assoc (set_has_sidetable_rc v b) = has_assoc b"
  "has_cxx_dtor (set_has_sidetable_rc v b) = has_cxx_dtor b" "shiftcls (set_has_sidetable_rc v b) = shiftcls b"
  "magic (set_has_sidetable_rc v b) = magic b"
  "weakly_referenced (set_has_sidetable_rc v b) = weakly_referenced b"
  "has_sidetable_rc (set_has_sidetable_rc v b) = v" "extra_rc (set_has_sidetable_rc v b) = extra_rc b"
  by (simp_all add: isa_field_defs field_simps_c del: One_nat_def)

lemma isa_set_extra_rc [simp]:
  "nonpointer (set_extra_rc v b) = nonpointer b" "has_assoc (set_extra_rc v b) = has_assoc b"
  "has_cxx_dtor (set_extra_rc v b) = has_cxx_dtor b" "shiftcls (set_extra_rc v b) = shiftcls b"
  "magic (set_extra_rc v b) = magic b" "weakly_referenced (set_extra_rc v b) = weakly_referenced b"
  "has_sidetable_rc (set_extra_rc v b) = has_sidetable_rc b" "extra_rc (set_extra_rc v b) = take_bit 8 v"
  by (simp_all add: isa_field_defs field_simps_c)

lemma getClass_shiftcls: "getClass b = push_bit 3 (shiftcls b)"
proof -
  have m: "ISA_MASK = push_bit 3 (mask 44)" by (simp add: ISA_MASK_def mask_eq_exp_minus_1)
  show ?thesis unfolding getClass_def shiftcls_def get_field_def m
    by (rule bit_word_eqI) (auto simp: bit_simps)
qed

lemma getClass_setters [simp]:
  "getClass (set_has_assoc v b) = getClass b" "getClass (set_has_cxx_dtor v b) = getClass b"
  "getClass (set_weakly_referenced v b) = getClass b" "getClass (set_has_sidetable_rc v b) = getClass b"
  "getClass (set_extra_rc w b) = getClass b"
  by (simp_all add: getClass_shiftcls)

lemma setClass_fields [simp]:
  "nonpointer (setClass c b) = nonpointer b" "has_assoc (setClass c b) = has_assoc b"
  "has_cxx_dtor (setClass c b) = has_cxx_dtor b" "magic (setClass c b) = magic b"
  "weakly_referenced (setClass c b) = weakly_referenced b"
  "has_sidetable_rc (setClass c b) = has_sidetable_rc b" "extra_rc (setClass c b) = extra_rc b"
  by (simp_all add: setClass_def)

text \<open>A class address the field can hold: 8-byte aligned and below 2 to the 47.\<close>

definition valid_class_ptr :: "class_ptr \<Rightarrow> bool" where
  "valid_class_ptr c \<longleftrightarrow> c AND ISA_MASK = c"

lemma getClass_setClass: "getClass (setClass c b) = c AND ISA_MASK"
proof -
  have m: "ISA_MASK = push_bit 3 (mask 44)" by (simp add: ISA_MASK_def mask_eq_exp_minus_1)
  show ?thesis unfolding getClass_shiftcls setClass_def isa_set_shiftcls m
    by (rule bit_word_eqI) (auto simp: bit_simps)
qed

lemma getClass_setClass_valid [simp]: "valid_class_ptr c \<Longrightarrow> getClass (setClass c b) = c"
  by (simp add: getClass_setClass valid_class_ptr_def)

subsection \<open>The inline retain count\<close>

text \<open>\<open>extra_rc\<close> is the top byte, so adding \<open>RC_ONE * k\<close> touches no other field.\<close>

lemma low_fields:
  assumes "take_bit 56 b' = take_bit 56 b"
  shows "nonpointer b' = nonpointer b" "has_assoc b' = has_assoc b" "has_cxx_dtor b' = has_cxx_dtor b"
    "shiftcls b' = shiftcls b" "magic b' = magic b" "weakly_referenced b' = weakly_referenced b"
    "has_sidetable_rc b' = has_sidetable_rc b" "getClass b' = getClass b"
  using bit_low_eqI [OF assms] get_field_low_eqI [OF assms, of 3 44] get_field_low_eqI [OF assms, of 47 6]
  by (simp_all add: isa_field_defs getClass_shiftcls)

lemma extra_rc_unat: "unat (extra_rc b) = unat b div 2 ^ 56"
  unfolding extra_rc_def by (rule unat_get_field_top) simp

lemma extra_rc_le: "unat (extra_rc b) < 256"
  using unsigned_less [of b, where ?'a = nat] by (simp add: extra_rc_unat)

lemma extra_rc_eq_0: "extra_rc b = 0 \<longleftrightarrow> unat (extra_rc b) = 0"
  by (simp add: unat_eq_0)

lemma RC_ONE_mult: "RC_ONE * k = push_bit 56 k"
  by (simp add: RC_ONE_def push_bit_eq_mult)

lemma unat_push_56: "unat k < 256 \<Longrightarrow> unat (push_bit 56 k :: u64) = unat k * 2 ^ 56"
  by (simp only: unsigned_push_bit_eq) (simp add: take_bit_eq_mod push_bit_eq_mult)

lemma addc_extra_rc:
  assumes "unat k < 256"
  shows "snd (addc b (RC_ONE * k) 0) \<longleftrightarrow> 256 \<le> unat (extra_rc b) + unat k"
    and "take_bit 56 (fst (addc b (RC_ONE * k) 0)) = take_bit 56 b"
    and "unat (extra_rc b) + unat k < 256 \<Longrightarrow>
      unat (extra_rc (fst (addc b (RC_ONE * k) 0))) = unat (extra_rc b) + unat k"
proof -
  have k: "unat (push_bit 56 k) = unat k * 2 ^ 56" by (rule unat_push_56 [OF assms])
  define e l where "e = unat b div 2 ^ 56" and "l = unat b mod 2 ^ 56"
  have b: "unat b = e * 2 ^ 56 + l" and l: "l < 2 ^ 56"
    unfolding e_def l_def by (simp_all add: div_mult_mod_eq)
  have e: "unat (extra_rc b) = e" by (simp add: extra_rc_unat e_def)
  show "snd (addc b (RC_ONE * k) 0) \<longleftrightarrow> 256 \<le> unat (extra_rc b) + unat k"
    using count_le_iff [OF l, of 256 e "unat k"] e
    by (simp add: addc_def builtin_addc_def RC_ONE_mult k b)
  show "take_bit 56 (fst (addc b (RC_ONE * k) 0)) = take_bit 56 b"
    by (simp add: addc_def builtin_addc_def RC_ONE_mult)
  assume "unat (extra_rc b) + unat k < 256"
  then have lt: "e + unat k < 256" by (simp add: extra_rc_unat e_def)
  then have "unat b + unat (push_bit 56 k) < 2 ^ 64" using l by (simp add: b k)
  then have "unat (b + push_bit 56 k) = unat b + unat (push_bit 56 k)"
    using unat_add_lem [of b "push_bit 56 k"] by simp
  then have "unat (b + push_bit 56 k) = (e + unat k) * 2 ^ 56 + l"
    by (simp only: b k) (simp only: add_mult_distrib ac_simps)
  then have "unat (b + push_bit 56 k) div 2 ^ 56 = e + unat k"
    using l by (simp only: div_mult_self3 div_less)
  then have "unat (extra_rc (b + push_bit 56 k)) = e + unat k" by (simp only: extra_rc_unat)
  then show "unat (extra_rc (fst (addc b (RC_ONE * k) 0))) = unat (extra_rc b) + unat k"
    by (simp only: addc_def builtin_addc_def RC_ONE_mult e fst_conv add_0_right)
qed

lemma addc_RC_ONE:
  "snd (addc b RC_ONE 0) \<longleftrightarrow> unat (extra_rc b) = 255"
  "take_bit 56 (fst (addc b RC_ONE 0)) = take_bit 56 b"
  "unat (extra_rc b) < 255 \<Longrightarrow> unat (extra_rc (fst (addc b RC_ONE 0))) = Suc (unat (extra_rc b))"
  using addc_extra_rc [of 1 b] extra_rc_le [of b] by auto

lemma subc_RC_ONE:
  "snd (subc b RC_ONE 0) \<longleftrightarrow> unat (extra_rc b) = 0"
  "take_bit 56 (fst (subc b RC_ONE 0)) = take_bit 56 b"
  "0 < unat (extra_rc b) \<Longrightarrow> unat (extra_rc (fst (subc b RC_ONE 0))) = unat (extra_rc b) - 1"
proof -
  have one: "unat (push_bit 56 1 :: u64) = 2 ^ 56" using unat_push_56 [of 1] by simp
  show "snd (subc b RC_ONE 0) \<longleftrightarrow> unat (extra_rc b) = 0"
    by (simp add: subc_def builtin_subc_def RC_ONE_def extra_rc_unat div_eq_0_iff)
  show "take_bit 56 (fst (subc b RC_ONE 0)) = take_bit 56 b"
    using take_bit_diff_push_bit [of 56 b 1] by (simp add: subc_def builtin_subc_def RC_ONE_def)
  assume "0 < unat (extra_rc b)"
  then have "2 ^ 56 \<le> unat b" by (simp add: extra_rc_unat div_greater_zero_iff)
  then have "unat (b - RC_ONE) = unat b - 2 ^ 56"
    using one by (simp add: RC_ONE_def unat_sub word_le_nat_alt)
  then show "unat (extra_rc (fst (subc b RC_ONE 0))) = unat (extra_rc b) - 1"
    using \<open>2 ^ 56 \<le> unat b\<close> by (simp add: subc_def builtin_subc_def extra_rc_unat le_div_geq)
qed

end
