(* ===== verification/RefCount.thy ===== *)
theory RefCount
  imports Isa
begin

text \<open>
  Retain counts: the inline count in \<open>isa\<close> and the overflow count in the side table
  (\<open>objc-object.h\<close>, \<open>objc_object::rootRetain\<close>, \<open>rootRelease\<close>, \<open>changeIsa\<close> and their
  neighbours; \<open>NSObject.mm\<close>, the \<open>sidetable_\<close> family). The state is one object as its
  runtime sees it: the \<open>isa\<close> word, the object's entry of \<open>SideTables()[this].refcnts\<close>,
  whether the calling thread holds that side table's lock, whether the object is in the
  weak table, and how many \<open>-dealloc\<close> messages it was sent.

  Other threads act between the atomic accesses of the calling one. Every
  \<open>LoadExclusive\<close> and \<open>StoreExclusive\<close> consumes one event of a schedule: \<open>None\<close> when no
  other thread touched the word since the last access, \<open>Some v\<close> when another thread left
  \<open>v\<close> there (or, with \<open>v\<close> the unchanged word, when the weak compare-and-swap failed
  spuriously). The empty schedule is the run without interference.
\<close>

subsection \<open>State\<close>

record objc_object =
  obj_addr :: u64                \<comment> \<open>\<open>this\<close>\<close>
  isa :: isa_t
  refcnt :: "u64 option"         \<comment> \<open>\<open>refcnts.find(this)\<close>\<close>
  slock :: bool                  \<comment> \<open>the calling thread holds the side table lock\<close>
  crashed :: bool                \<comment> \<open>the lock was taken twice or released unowned: \<open>os_unfair_lock\<close> aborts\<close>
  weak_entry :: bool             \<comment> \<open>the object is registered in the side table's weak table\<close>
  deallocs :: nat                \<comment> \<open>\<open>-dealloc\<close> messages sent\<close>

type_synonym schedule = "isa_t option list"

datatype RRVariant = Fast | Full | FastOrMsgSend

text \<open>
  What \<open>rootRetain\<close> and \<open>rootRelease\<close> end with: a return value, or a tail call into Swift's
  retain or release, or the message send to the class's override.
\<close>

datatype 'a rr_result = Ret 'a | CallSwift | CallMsgSend

definition SIDE_TABLE_WEAKLY_REFERENCED :: u64 where "SIDE_TABLE_WEAKLY_REFERENCED = push_bit 0 1"
definition SIDE_TABLE_DEALLOCATING :: u64 where "SIDE_TABLE_DEALLOCATING = push_bit 1 1"
definition SIDE_TABLE_RC_ONE :: u64 where "SIDE_TABLE_RC_ONE = push_bit 2 1"
definition SIDE_TABLE_RC_PINNED :: u64 where "SIDE_TABLE_RC_PINNED = push_bit 63 1"
definition SIDE_TABLE_FLAG_MASK :: u64 where "SIDE_TABLE_FLAG_MASK = SIDE_TABLE_RC_ONE - 1"

subsection \<open>Tagged pointers have no object\<close>

definition OBJC_TAG_MASK :: u64 where "OBJC_TAG_MASK = 1"

definition isTaggedPointer :: "objc_object \<Rightarrow> bool" where
  "isTaggedPointer ob \<longleftrightarrow> obj_addr ob AND OBJC_TAG_MASK = OBJC_TAG_MASK"

subsection \<open>Exclusive access to the isa word\<close>

fun LoadExclusive :: "schedule \<Rightarrow> objc_object \<Rightarrow> isa_t \<times> schedule \<times> objc_object" where
  "LoadExclusive [] ob = (isa ob, [], ob)"
| "LoadExclusive (None # s) ob = (isa ob, s, ob)"
| "LoadExclusive (Some v # s) ob = (v, s, ob\<lparr>isa := v\<rparr>)"

text \<open>\<open>None\<close>: stored. \<open>Some v\<close>: not stored, and the word now reads \<open>v\<close>.\<close>

fun StoreExclusive :: "isa_t \<Rightarrow> schedule \<Rightarrow> objc_object \<Rightarrow> isa_t option \<times> schedule \<times> objc_object" where
  "StoreExclusive new [] ob = (None, [], ob\<lparr>isa := new\<rparr>)"
| "StoreExclusive new (None # s) ob = (None, s, ob\<lparr>isa := new\<rparr>)"
| "StoreExclusive new (Some v # s) ob = (Some v, s, ob\<lparr>isa := v\<rparr>)"

lemma StoreExclusive_shorter:
  "(Some v, s', o2) = StoreExclusive new s ob \<Longrightarrow> length s' < length s"
  by (cases "(new, s, ob)" rule: StoreExclusive.cases) auto

lemma LoadExclusive_shorter: "(v, s', o1) = LoadExclusive s ob \<Longrightarrow> length s' \<le> length s"
  by (cases "(s, ob)" rule: LoadExclusive.cases) auto

subsection \<open>The side table\<close>

definition sidetable_lock :: "objc_object \<Rightarrow> objc_object" where
  "sidetable_lock ob = (if slock ob then ob\<lparr>crashed := True\<rparr> else ob\<lparr>slock := True\<rparr>)"

definition sidetable_unlock :: "objc_object \<Rightarrow> objc_object" where
  "sidetable_unlock ob = (if slock ob then ob\<lparr>slock := False\<rparr> else ob\<lparr>crashed := True\<rparr>)"

text \<open>\<open>table.refcnts[this]\<close>: a missing entry is created as zero.\<close>

definition refcntStorage :: "objc_object \<Rightarrow> u64" where
  "refcntStorage ob = (case refcnt ob of None \<Rightarrow> 0 | Some r \<Rightarrow> r)"

definition sidetable_moveExtraRC_nolock :: "u64 \<Rightarrow> bool \<Rightarrow> bool \<Rightarrow> objc_object \<Rightarrow> objc_object" where
  "sidetable_moveExtraRC_nolock extra dealloc weak ob =
     (let oldRefcnt = refcntStorage ob;
          (r0, carry) = addc oldRefcnt (push_bit 2 (extra - 1)) 0;
          r1 = (if carry then SIDE_TABLE_RC_PINNED else r0);
          r2 = (if dealloc then r1 OR SIDE_TABLE_DEALLOCATING else r1);
          r3 = (if weak then r2 OR SIDE_TABLE_WEAKLY_REFERENCED else r2)
      in ob\<lparr>refcnt := Some r3\<rparr>)"

definition sidetable_addExtraRC_nolock :: "u64 \<Rightarrow> objc_object \<Rightarrow> bool \<times> objc_object" where
  "sidetable_addExtraRC_nolock delta_rc ob =
     (let oldRefcnt = refcntStorage ob
      in if oldRefcnt AND SIDE_TABLE_RC_PINNED \<noteq> 0 then (True, ob\<lparr>refcnt := Some oldRefcnt\<rparr>)
         else let (newRefcnt, carry) = addc oldRefcnt (push_bit 2 delta_rc) 0
              in if carry
                 then (True, ob\<lparr>refcnt := Some (SIDE_TABLE_RC_PINNED OR (oldRefcnt AND SIDE_TABLE_FLAG_MASK))\<rparr>)
                 else (False, ob\<lparr>refcnt := Some newRefcnt\<rparr>))"

text \<open>The result is \<open>SidetableBorrow\<close>: what was borrowed and what remains.\<close>

definition sidetable_subExtraRC_nolock :: "u64 \<Rightarrow> objc_object \<Rightarrow> (u64 \<times> u64) \<times> objc_object" where
  "sidetable_subExtraRC_nolock delta_rc ob =
     (case refcnt ob of
        None \<Rightarrow> ((0, 0), ob)
      | Some oldRefcnt \<Rightarrow>
          if oldRefcnt = 0 then ((0, 0), ob)
          else let newRefcnt = oldRefcnt - push_bit 2 delta_rc
               in ((delta_rc, drop_bit 2 newRefcnt), ob\<lparr>refcnt := Some newRefcnt\<rparr>))"

definition sidetable_getExtraRC_nolock :: "objc_object \<Rightarrow> u64" where
  "sidetable_getExtraRC_nolock ob = (case refcnt ob of None \<Rightarrow> 0 | Some r \<Rightarrow> drop_bit 2 r)"

definition sidetable_clearExtraRC_nolock :: "objc_object \<Rightarrow> objc_object" where
  "sidetable_clearExtraRC_nolock ob = ob\<lparr>refcnt := None\<rparr>"

definition sidetable_retain :: "bool \<Rightarrow> objc_object \<Rightarrow> objc_object" where
  "sidetable_retain locked ob =
     (let o1 = (if \<not> locked then sidetable_lock ob else ob);
          r = refcntStorage o1;
          r' = (if r AND SIDE_TABLE_RC_PINNED = 0 then r + SIDE_TABLE_RC_ONE else r)
      in sidetable_unlock (o1\<lparr>refcnt := Some r'\<rparr>))"

definition sidetable_tryRetain :: "objc_object \<Rightarrow> bool \<times> objc_object" where
  "sidetable_tryRetain ob =
     (case refcnt ob of
        None \<Rightarrow> (True, ob\<lparr>refcnt := Some SIDE_TABLE_RC_ONE\<rparr>)
      | Some r \<Rightarrow>
          if r AND SIDE_TABLE_DEALLOCATING \<noteq> 0 then (False, ob)
          else if r AND SIDE_TABLE_RC_PINNED = 0 then (True, ob\<lparr>refcnt := Some (r + SIDE_TABLE_RC_ONE)\<rparr>)
          else (True, ob))"

definition sidetable_retainCount :: "objc_object \<Rightarrow> u64" where
  "sidetable_retainCount ob = (case refcnt ob of None \<Rightarrow> 1 | Some r \<Rightarrow> 1 + drop_bit 2 r)"

definition sidetable_isDeallocating :: "objc_object \<Rightarrow> bool" where
  "sidetable_isDeallocating ob = (case refcnt ob of None \<Rightarrow> False | Some r \<Rightarrow> r AND SIDE_TABLE_DEALLOCATING \<noteq> 0)"

definition sidetable_isWeaklyReferenced :: "objc_object \<Rightarrow> bool" where
  "sidetable_isWeaklyReferenced ob =
     (case refcnt ob of None \<Rightarrow> False | Some r \<Rightarrow> r AND SIDE_TABLE_WEAKLY_REFERENCED \<noteq> 0)"

definition sidetable_setWeaklyReferenced_nolock :: "objc_object \<Rightarrow> objc_object" where
  "sidetable_setWeaklyReferenced_nolock ob =
     ob\<lparr>refcnt := Some (refcntStorage ob OR SIDE_TABLE_WEAKLY_REFERENCED)\<rparr>"

definition send_dealloc :: "objc_object \<Rightarrow> objc_object" where
  "send_dealloc ob = ob\<lparr>deallocs := Suc (deallocs ob)\<rparr>"

definition sidetable_release :: "bool \<Rightarrow> bool \<Rightarrow> objc_object \<Rightarrow> bool \<times> objc_object" where
  "sidetable_release locked performDealloc ob =
     (let o1 = (if \<not> locked then sidetable_lock ob else ob);
          (do_dealloc, r) =
            (case refcnt o1 of
               None \<Rightarrow> (True, SIDE_TABLE_DEALLOCATING)
             | Some r \<Rightarrow>
                 if r < SIDE_TABLE_DEALLOCATING then (True, r OR SIDE_TABLE_DEALLOCATING)
                 else if r AND SIDE_TABLE_RC_PINNED = 0 then (False, r - SIDE_TABLE_RC_ONE)
                 else (False, r));
          o2 = sidetable_unlock (o1\<lparr>refcnt := Some r\<rparr>)
      in (do_dealloc, if do_dealloc \<and> performDealloc then send_dealloc o2 else o2))"

definition weak_clear_no_lock :: "objc_object \<Rightarrow> objc_object" where
  "weak_clear_no_lock ob = ob\<lparr>weak_entry := False\<rparr>"

definition sidetable_clearDeallocating :: "objc_object \<Rightarrow> objc_object" where
  "sidetable_clearDeallocating ob =
     (let o1 = sidetable_lock ob;
          o2 = (case refcnt o1 of
                  None \<Rightarrow> o1
                | Some r \<Rightarrow> (if r AND SIDE_TABLE_WEAKLY_REFERENCED \<noteq> 0 then weak_clear_no_lock o1 else o1)\<lparr>refcnt := None\<rparr>)
      in sidetable_unlock o2)"

subsection \<open>rootRetain\<close>

text \<open>The body of the loop either returns or, off the slow path, asks for \<open>rootRetain_overflow\<close>.\<close>

datatype retain_step = RetainDone bool objc_object | RetainOverflow schedule objc_object

function retain_loop :: "bool \<Rightarrow> RRVariant \<Rightarrow> schedule \<Rightarrow> isa_t \<Rightarrow> bool \<Rightarrow> objc_object \<Rightarrow> retain_step" where
  "retain_loop tryRetain variant s oldisa sideTableLocked ob =
     (if \<not> nonpointer oldisa then
        (if tryRetain then let (r, o') = sidetable_tryRetain ob in RetainDone r o'
         else RetainDone True (sidetable_retain sideTableLocked ob))
      else if isDeallocating oldisa then
        RetainDone (\<not> tryRetain) (if sideTableLocked then sidetable_unlock ob else ob)
      else
        let (bits, carry) = addc oldisa RC_ONE 0
        in if carry \<and> variant \<noteq> Full then RetainOverflow s ob
           else let o1 = (if carry \<and> \<not> tryRetain \<and> \<not> sideTableLocked then sidetable_lock ob else ob);
                    locked = (sideTableLocked \<or> carry);
                    newisa = (if carry then set_has_sidetable_rc True (set_extra_rc RC_HALF bits) else bits)
                in case StoreExclusive newisa s o1 of
                     (Some v, s', o2) \<Rightarrow> retain_loop tryRetain variant s' v locked o2
                   | (None, s', o2) \<Rightarrow>
                       if variant = Full then
                         let o3 = (if carry then snd (sidetable_addExtraRC_nolock RC_HALF o2) else o2)
                         in RetainDone True (if \<not> tryRetain \<and> locked then sidetable_unlock o3 else o3)
                       else RetainDone True o2)"
  by pat_completeness auto

termination
  by (relation "measure (\<lambda>(t, v, s, i, l, ob). length s)") (auto dest: StoreExclusive_shorter)

definition retain_body ::
  "bool \<Rightarrow> RRVariant \<Rightarrow> (class_ptr \<Rightarrow> objc_class) \<Rightarrow> schedule \<Rightarrow> objc_object \<Rightarrow> retain_step rr_result" where
  "retain_body tryRetain variant class_at s ob =
     (if isTaggedPointer ob then Ret (RetainDone True ob)
      else let (oldisa, s1, o1) = LoadExclusive s ob;
               cls = class_at (getDecodedClass oldisa)
           in if variant = FastOrMsgSend \<and> hasCustomRR cls
              then (if canCallSwiftRR cls then CallSwift else CallMsgSend)
              else if \<not> nonpointer oldisa \<and> isMetaClass cls then Ret (RetainDone True o1)
              else Ret (retain_loop tryRetain variant s1 oldisa False o1))"

text \<open>The boolean is \<open>true\<close> for \<open>(id)this\<close> and \<open>false\<close> for \<open>nil\<close>.\<close>

definition rootRetain_overflow ::
  "bool \<Rightarrow> (class_ptr \<Rightarrow> objc_class) \<Rightarrow> schedule \<Rightarrow> objc_object \<Rightarrow> bool rr_result \<times> objc_object" where
  "rootRetain_overflow tryRetain class_at s ob =
     (case retain_body tryRetain Full class_at s ob of
        Ret (RetainDone r o') \<Rightarrow> (Ret r, o')
      | Ret (RetainOverflow s' o') \<Rightarrow> (Ret True, o')
      | CallSwift \<Rightarrow> (CallSwift, snd (snd (LoadExclusive s ob)))
      | CallMsgSend \<Rightarrow> (CallMsgSend, snd (snd (LoadExclusive s ob))))"

definition rootRetain ::
  "bool \<Rightarrow> RRVariant \<Rightarrow> (class_ptr \<Rightarrow> objc_class) \<Rightarrow> schedule \<Rightarrow> objc_object \<Rightarrow> bool rr_result \<times> objc_object" where
  "rootRetain tryRetain variant class_at s ob =
     (case retain_body tryRetain variant class_at s ob of
        Ret (RetainDone r o') \<Rightarrow> (Ret r, o')
      | Ret (RetainOverflow s' o') \<Rightarrow> rootRetain_overflow tryRetain class_at s' o'
      | CallSwift \<Rightarrow> (CallSwift, snd (snd (LoadExclusive s ob)))
      | CallMsgSend \<Rightarrow> (CallMsgSend, snd (snd (LoadExclusive s ob))))"

definition retain :: "(class_ptr \<Rightarrow> objc_class) \<Rightarrow> schedule \<Rightarrow> objc_object \<Rightarrow> bool rr_result \<times> objc_object" where
  "retain class_at s ob = rootRetain False FastOrMsgSend class_at s ob"

definition rootTryRetain :: "(class_ptr \<Rightarrow> objc_class) \<Rightarrow> schedule \<Rightarrow> objc_object \<Rightarrow> bool rr_result \<times> objc_object" where
  "rootTryRetain class_at s ob = rootRetain True Fast class_at s ob"

subsection \<open>rootRelease\<close>

datatype release_step = ReleaseDone bool objc_object | ReleaseUnderflow schedule objc_object

definition release_deallocate :: "bool \<Rightarrow> bool \<Rightarrow> objc_object \<Rightarrow> release_step" where
  "release_deallocate performDealloc sideTableLocked ob =
     (let o1 = (if sideTableLocked then sidetable_unlock ob else ob)
      in ReleaseDone True (if performDealloc then send_dealloc o1 else o1))"

text \<open>
  The two attempts to add a borrowed count to the inline one. The result is the value
  \<open>isa\<close> holds on failure, or \<open>None\<close> with \<open>didTransitionToDeallocating\<close> on success.
\<close>

definition store_borrowed ::
  "u64 \<Rightarrow> bool \<Rightarrow> isa_t \<Rightarrow> schedule \<Rightarrow> objc_object \<Rightarrow> isa_t option \<times> bool \<times> schedule \<times> objc_object" where
  "store_borrowed borrowed emptySideTable oldisa s ob =
     (let newisa = set_has_sidetable_rc (\<not> emptySideTable) (set_extra_rc (borrowed - 1) oldisa)
      in case StoreExclusive newisa s ob of
           (None, s1, o1) \<Rightarrow> (None, False, s1, o1)
         | (Some v, s1, o1) \<Rightarrow>
             if nonpointer v then
               let (bits, overflow) = addc v (RC_ONE * (borrowed - 1)) 0;
                   newisa' = set_has_sidetable_rc (\<not> emptySideTable) bits
               in if \<not> overflow then
                    (case StoreExclusive newisa' s1 o1 of
                       (None, s2, o2) \<Rightarrow> (None, isDeallocating newisa', s2, o2)
                     | (Some w, s2, o2) \<Rightarrow> (Some w, False, s2, o2))
                  else (Some v, False, s1, o1)
             else (Some v, False, s1, o1))"

lemma store_borrowed_shorter:
  "(Some w, d, s', o2) = store_borrowed b e i s ob \<Longrightarrow> length s' < length s"
  by (auto simp: store_borrowed_def Let_def split: prod.splits option.splits if_splits
      dest!: StoreExclusive_shorter [OF sym])

function release_loop :: "bool \<Rightarrow> RRVariant \<Rightarrow> schedule \<Rightarrow> isa_t \<Rightarrow> bool \<Rightarrow> objc_object \<Rightarrow> release_step" where
  "release_loop performDealloc variant s oldisa sideTableLocked ob =
     (if \<not> nonpointer oldisa then
        (let (r, o') = sidetable_release sideTableLocked performDealloc ob in ReleaseDone r o')
      else if isDeallocating oldisa then
        ReleaseDone False (if sideTableLocked then sidetable_unlock ob else ob)
      else
        let (bits, carry) = subc oldisa RC_ONE 0
        in if \<not> carry then
             (case StoreExclusive bits s ob of
                (Some v, s', o1) \<Rightarrow> release_loop performDealloc variant s' v sideTableLocked o1
              | (None, s', o1) \<Rightarrow>
                  if isDeallocating bits then release_deallocate performDealloc sideTableLocked o1
                  else ReleaseDone False (if variant = Full \<and> sideTableLocked then sidetable_unlock o1 else o1))
           else if has_sidetable_rc oldisa then
             (if variant \<noteq> Full then ReleaseUnderflow s ob
              else if \<not> sideTableLocked then
                (let (v, s', o1) = LoadExclusive s (sidetable_lock ob)
                 in release_loop performDealloc variant s' v True o1)
              else
                let ((borrowed, remaining), o1) = sidetable_subExtraRC_nolock RC_HALF ob;
                    emptySideTable = (remaining = 0)
                in if borrowed > 0 then
                     (case store_borrowed borrowed emptySideTable oldisa s o1 of
                        (Some w, d, s', o2) \<Rightarrow>
                          let o3 = snd (sidetable_addExtraRC_nolock borrowed o2);
                              (v, s'', o4) = LoadExclusive s' o3
                          in release_loop performDealloc variant s'' v True o4
                      | (None, didTransitionToDeallocating, s', o2) \<Rightarrow>
                          let o3 = (if emptySideTable then sidetable_clearExtraRC_nolock o2 else o2)
                          in if \<not> didTransitionToDeallocating
                             then ReleaseDone False (sidetable_unlock o3)
                             else release_deallocate performDealloc True o3)
                   else release_deallocate performDealloc True o1)
           else release_deallocate performDealloc sideTableLocked ob)"
  by pat_completeness auto

termination
proof (relation "measures [\<lambda>(p, v, s, i, l, ob). length s, \<lambda>(p, v, s, i, l, ob). if l then 0 else 1]",
    goal_cases)
  case 1
  then show ?case by simp
next
  case (2 performDealloc variant s oldisa sideTableLocked ob)
  then show ?case by (auto dest: StoreExclusive_shorter)
next
  case (3 performDealloc variant s oldisa sideTableLocked ob)
  then show ?case by (auto dest: LoadExclusive_shorter)
next
  case (4 performDealloc variant s oldisa sideTableLocked ob)
  then show ?case by (auto dest!: LoadExclusive_shorter store_borrowed_shorter)
qed

definition release_body ::
  "bool \<Rightarrow> RRVariant \<Rightarrow> (class_ptr \<Rightarrow> objc_class) \<Rightarrow> schedule \<Rightarrow> objc_object \<Rightarrow> release_step rr_result" where
  "release_body performDealloc variant class_at s ob =
     (if isTaggedPointer ob then Ret (ReleaseDone False ob)
      else let (oldisa, s1, o1) = LoadExclusive s ob;
               cls = class_at (getDecodedClass oldisa)
           in if variant = FastOrMsgSend \<and> hasCustomRR cls
              then (if canCallSwiftRR cls then CallSwift else CallMsgSend)
              else if \<not> nonpointer oldisa \<and> isMetaClass cls then Ret (ReleaseDone False o1)
              else Ret (release_loop performDealloc variant s1 oldisa False o1))"

definition rootRelease_underflow ::
  "bool \<Rightarrow> (class_ptr \<Rightarrow> objc_class) \<Rightarrow> schedule \<Rightarrow> objc_object \<Rightarrow> bool rr_result \<times> objc_object" where
  "rootRelease_underflow performDealloc class_at s ob =
     (case release_body performDealloc Full class_at s ob of
        Ret (ReleaseDone r o') \<Rightarrow> (Ret r, o')
      | Ret (ReleaseUnderflow s' o') \<Rightarrow> (Ret False, o')
      | CallSwift \<Rightarrow> (CallSwift, snd (snd (LoadExclusive s ob)))
      | CallMsgSend \<Rightarrow> (CallMsgSend, snd (snd (LoadExclusive s ob))))"

definition rootRelease ::
  "bool \<Rightarrow> RRVariant \<Rightarrow> (class_ptr \<Rightarrow> objc_class) \<Rightarrow> schedule \<Rightarrow> objc_object \<Rightarrow> bool rr_result \<times> objc_object" where
  "rootRelease performDealloc variant class_at s ob =
     (case release_body performDealloc variant class_at s ob of
        Ret (ReleaseDone r o') \<Rightarrow> (Ret r, o')
      | Ret (ReleaseUnderflow s' o') \<Rightarrow> rootRelease_underflow performDealloc class_at s' o'
      | CallSwift \<Rightarrow> (CallSwift, snd (snd (LoadExclusive s ob)))
      | CallMsgSend \<Rightarrow> (CallMsgSend, snd (snd (LoadExclusive s ob))))"

definition release :: "(class_ptr \<Rightarrow> objc_class) \<Rightarrow> schedule \<Rightarrow> objc_object \<Rightarrow> bool rr_result \<times> objc_object" where
  "release class_at s ob = rootRelease True FastOrMsgSend class_at s ob"

definition rootReleaseShouldDealloc ::
  "(class_ptr \<Rightarrow> objc_class) \<Rightarrow> schedule \<Rightarrow> objc_object \<Rightarrow> bool rr_result \<times> objc_object" where
  "rootReleaseShouldDealloc class_at s ob = rootRelease False Fast class_at s ob"

subsection \<open>Retain count, isa changes, deallocation\<close>

definition rootRetainCount :: "objc_object \<Rightarrow> u64" where
  "rootRetainCount ob =
     (if isTaggedPointer ob then obj_addr ob
      else if nonpointer (isa ob)
      then extra_rc (isa ob) + (if has_sidetable_rc (isa ob) then sidetable_getExtraRC_nolock ob else 0)
      else sidetable_retainCount ob)"

text \<open>
  \<open>newisa\<close> is declared outside the loop of \<open>changeIsa\<close>, so an attempt that fails leaves its
  bits there for the next one; \<open>setClass\<close> then overwrites the class field only.
\<close>

fun changeIsa_newisa :: "objc_class \<Rightarrow> class_ptr \<Rightarrow> isa_t \<Rightarrow> isa_t \<Rightarrow> isa_t" where
  "changeIsa_newisa cls newCls oldisa newisa =
     (if (oldisa = 0 \<or> nonpointer oldisa) \<and> \<not> isFuture cls \<and> canAllocNonpointer cls
      then setClass newCls
             (set_has_cxx_dtor (hasCxxDtor cls)
               (if oldisa = 0 then set_extra_rc 1 ISA_MAGIC_VALUE else oldisa))
      else setClass newCls newisa)"

definition changeIsa_transcribes :: "objc_class \<Rightarrow> isa_t \<Rightarrow> bool" where
  "changeIsa_transcribes cls oldisa \<longleftrightarrow>
     nonpointer oldisa \<and> \<not> (\<not> isFuture cls \<and> canAllocNonpointer cls)"

function changeIsa_loop ::
  "objc_class \<Rightarrow> class_ptr \<Rightarrow> schedule \<Rightarrow> isa_t \<Rightarrow> isa_t \<Rightarrow> bool \<Rightarrow> objc_object \<Rightarrow> class_ptr \<times> objc_object" where
  "changeIsa_loop cls newCls s oldisa newisa sideTableLocked ob =
     (let transcribe = changeIsa_transcribes cls oldisa;
          o1 = (if transcribe \<and> \<not> sideTableLocked then sidetable_lock ob else ob);
          locked = (sideTableLocked \<or> transcribe);
          newisa' = changeIsa_newisa cls newCls oldisa newisa
      in case StoreExclusive newisa' s o1 of
           (Some v, s', o2) \<Rightarrow> changeIsa_loop cls newCls s' v newisa' locked o2
         | (None, s', o2) \<Rightarrow>
             let o3 = (if transcribe
                       then sidetable_moveExtraRC_nolock (extra_rc oldisa) (isDeallocating oldisa)
                              (weakly_referenced oldisa) o2
                       else o2)
             in (getDecodedClass oldisa, if locked then sidetable_unlock o3 else o3))"
  by pat_completeness auto

termination
  by (relation "measure (\<lambda>(c, n, s, i, j, l, ob). length s)") (auto dest: StoreExclusive_shorter)

definition changeIsa ::
  "(class_ptr \<Rightarrow> objc_class) \<Rightarrow> class_ptr \<Rightarrow> schedule \<Rightarrow> objc_object \<Rightarrow> class_ptr \<times> objc_object" where
  "changeIsa class_at newCls s ob =
     (let (oldisa, s1, o1) = LoadExclusive s ob
      in changeIsa_loop (class_at newCls) newCls s1 oldisa 0 False o1)"

fun set_weakly_loop :: "schedule \<Rightarrow> isa_t \<Rightarrow> objc_object \<Rightarrow> objc_object" where
  "set_weakly_loop s oldisa ob =
     (if \<not> nonpointer oldisa then sidetable_setWeaklyReferenced_nolock ob
      else if weakly_referenced oldisa then ob
      else case s of
             [] \<Rightarrow> ob\<lparr>isa := set_weakly_referenced True oldisa\<rparr>
           | None # s' \<Rightarrow> ob\<lparr>isa := set_weakly_referenced True oldisa\<rparr>
           | Some v # s' \<Rightarrow> set_weakly_loop s' v (ob\<lparr>isa := v\<rparr>))"

definition setWeaklyReferenced_nolock :: "schedule \<Rightarrow> objc_object \<Rightarrow> objc_object" where
  "setWeaklyReferenced_nolock s ob =
     (let (oldisa, s1, o1) = LoadExclusive s ob in set_weakly_loop s1 oldisa o1)"

definition isWeaklyReferenced :: "objc_object \<Rightarrow> bool" where
  "isWeaklyReferenced ob =
     (if nonpointer (isa ob) then weakly_referenced (isa ob) else sidetable_isWeaklyReferenced ob)"

definition rootIsDeallocating :: "objc_object \<Rightarrow> bool" where
  "rootIsDeallocating ob =
     (if isTaggedPointer ob then False
      else if nonpointer (isa ob) then isDeallocating (isa ob) else sidetable_isDeallocating ob)"

definition clearDeallocating_slow :: "objc_object \<Rightarrow> objc_object" where
  "clearDeallocating_slow ob =
     (let o1 = sidetable_lock ob;
          o2 = (if weakly_referenced (isa o1) then weak_clear_no_lock o1 else o1);
          o3 = (if has_sidetable_rc (isa o2) then o2\<lparr>refcnt := None\<rparr> else o2)
      in sidetable_unlock o3)"

definition clearDeallocating :: "objc_object \<Rightarrow> objc_object" where
  "clearDeallocating ob =
     (if \<not> nonpointer (isa ob) then sidetable_clearDeallocating ob
      else if weakly_referenced (isa ob) \<or> has_sidetable_rc (isa ob) then clearDeallocating_slow ob
      else ob)"

definition hasAssociatedObjects :: "objc_object \<Rightarrow> bool" where
  "hasAssociatedObjects ob = (if isTaggedPointer ob then True else if nonpointer (isa ob) then has_assoc (isa ob) else True)"

fun set_assoc_loop :: "schedule \<Rightarrow> isa_t \<Rightarrow> objc_object \<Rightarrow> objc_object" where
  "set_assoc_loop s oldisa ob =
     (if \<not> nonpointer oldisa \<or> has_assoc oldisa then ob
      else case s of
             [] \<Rightarrow> ob\<lparr>isa := set_has_assoc True oldisa\<rparr>
           | None # s' \<Rightarrow> ob\<lparr>isa := set_has_assoc True oldisa\<rparr>
           | Some v # s' \<Rightarrow> set_assoc_loop s' v (ob\<lparr>isa := v\<rparr>))"

text \<open>
  \<open>note_imp\<close> is what the class's implementation of \<open>_noteAssociatedObjects\<close> does to the
  object, or \<open>None\<close> when the lookup yields \<open>_objc_msgForward\<close>.
\<close>

definition setHasAssociatedObjects ::
  "(class_ptr \<Rightarrow> objc_class) \<Rightarrow> (objc_object \<Rightarrow> objc_object) option \<Rightarrow> schedule \<Rightarrow> objc_object \<Rightarrow> objc_object" where
  "setHasAssociatedObjects class_at note_imp s ob =
     (if isTaggedPointer ob then ob
      else let cls = class_at (getClass (isa ob));
               o1 = (if \<not> nonpointer (isa ob) \<and> hasCustomRR cls \<and> \<not> isFuture cls \<and> \<not> isMetaClass cls
                     then (case note_imp of None \<Rightarrow> ob | Some imp \<Rightarrow> imp ob) else ob);
               (oldisa, s1, o2) = LoadExclusive s o1
           in set_assoc_loop s1 oldisa o2)"

definition object_hasCxxDtor :: "(class_ptr \<Rightarrow> objc_class) \<Rightarrow> objc_object \<Rightarrow> bool" where
  "object_hasCxxDtor class_at ob =
     (if nonpointer (isa ob) then has_cxx_dtor (isa ob) else hasCxxDtor (class_at (getClass (isa ob))))"

text \<open>\<open>rootDealloc\<close> ends by freeing the memory at once, or in \<open>object_dispose\<close>.\<close>

datatype dealloc_path = DeallocNothing | DeallocFree | DeallocDispose

definition rootDealloc :: "objc_object \<Rightarrow> dealloc_path" where
  "rootDealloc ob =
     (if isTaggedPointer ob then DeallocNothing
      else if nonpointer (isa ob) \<and> \<not> weakly_referenced (isa ob) \<and> \<not> has_assoc (isa ob)
              \<and> \<not> has_cxx_dtor (isa ob) \<and> \<not> has_sidetable_rc (isa ob)
      then DeallocFree else DeallocDispose)"

declare retain_loop.simps [simp del] release_loop.simps [simp del] changeIsa_loop.simps [simp del]
  set_weakly_loop.simps [simp del] set_assoc_loop.simps [simp del]

end
