(* ===== verification/RetainRelease.thy ===== *)
theory RetainRelease
  imports RefCount
begin

text \<open>
  What \<open>rootRetain\<close> and \<open>rootRelease\<close> do to an object with a non-pointer \<open>isa\<close>: the count,
  split between the inline byte and the side table, moves by exactly one at one store of the
  call, whatever other threads leave in the \<open>isa\<close> word meanwhile; the side table lock is
  left as it was found, and \<open>-dealloc\<close> is sent by the release that reaches zero and by no other.
\<close>

subsection \<open>Invariant, count and frame\<close>

text \<open>
  The side table entry exists exactly when \<open>has_sidetable_rc\<close> is set, holds a positive
  multiple of half the inline range (128 counts, shifted by two flag bits) and is not pinned.
\<close>

definition rr_inv :: "objc_object \<Rightarrow> bool" where
  "rr_inv ob \<longleftrightarrow> nonpointer (isa ob) \<and> \<not> crashed ob \<and> \<not> isTaggedPointer ob
     \<and> (has_sidetable_rc (isa ob) \<longleftrightarrow> refcnt ob \<noteq> None)
     \<and> (case refcnt ob of None \<Rightarrow> True | Some r \<Rightarrow> 0 < unat r \<and> unat r < 2 ^ 63 \<and> 512 dvd unat r)"

definition rc :: "objc_object \<Rightarrow> nat" where
  "rc ob = unat (extra_rc (isa ob)) + unat (refcntStorage ob) div 4"

definition same_frame :: "objc_object \<Rightarrow> objc_object \<Rightarrow> bool" where
  "same_frame ob ob' \<longleftrightarrow> obj_addr ob' = obj_addr ob \<and> weak_entry ob' = weak_entry ob
     \<and> slock ob' = slock ob \<and> getClass (isa ob') = getClass (isa ob)
     \<and> has_assoc (isa ob') = has_assoc (isa ob) \<and> has_cxx_dtor (isa ob') = has_cxx_dtor (isa ob)
     \<and> weakly_referenced (isa ob') = weakly_referenced (isa ob)"

lemma tagged_update [simp]:
  "isTaggedPointer (ob\<lparr>isa := v\<rparr>) = isTaggedPointer ob" "isTaggedPointer (ob\<lparr>refcnt := r\<rparr>) = isTaggedPointer ob"
  "isTaggedPointer (ob\<lparr>slock := l\<rparr>) = isTaggedPointer ob"
  "isTaggedPointer (ob\<lparr>deallocs := d\<rparr>) = isTaggedPointer ob"
  by (simp_all add: isTaggedPointer_def)

lemma refcntStorage_update [simp]:
  "refcntStorage (ob\<lparr>isa := v\<rparr>) = refcntStorage ob" "refcntStorage (ob\<lparr>slock := l\<rparr>) = refcntStorage ob"
  "refcntStorage (ob\<lparr>refcnt := Some r\<rparr>) = r" "refcntStorage (ob\<lparr>refcnt := None\<rparr>) = 0"
  "refcntStorage (ob\<lparr>deallocs := d\<rparr>) = refcntStorage ob"
  by (simp_all add: refcntStorage_def)

lemma refcnt_isa_commute [simp]: "ob\<lparr>refcnt := r, isa := v\<rparr> = ob\<lparr>isa := v, refcnt := r\<rparr>"
  by (cases ob) simp

lemma not_bit_63: 
  assumes "unat r < 2 ^ 63" shows "\<not> bit (r :: u64) 63"
proof -
  have "unat (drop_bit 63 r) = 0" using assms by (simp only: unat_drop_bit div_less)
  then have "drop_bit 63 r = 0" by (simp only: unat_eq_0)
  then have "\<not> bit (drop_bit 63 r) 0" by simp
  then show ?thesis by (simp only: bit_drop_bit_eq) simp
qed

lemma not_pinned: "unat r < 2 ^ 63 \<Longrightarrow> r AND SIDE_TABLE_RC_PINNED = 0"
  using and_single_eq_0 [of 63 r] not_bit_63 [of r] by (simp only: SIDE_TABLE_RC_PINNED_def) simp

lemma half_shift: "push_bit 2 RC_HALF = 512" "unat RC_HALF = 128" "take_bit 8 RC_HALF = 128" "RC_HALF \<noteq> 0"
  by (simp_all add: RC_HALF_def)

lemma addExtraRC_half:
  assumes "unat (refcntStorage ob) + 512 < 2 ^ 63"
  shows "sidetable_addExtraRC_nolock RC_HALF ob = (False, ob\<lparr>refcnt := Some (refcntStorage ob + 512)\<rparr>)"
    and "unat (refcntStorage ob + 512) = unat (refcntStorage ob) + 512"
proof -
  have "unat (512 :: u64) = 512" by simp
  then show "unat (refcntStorage ob + 512) = unat (refcntStorage ob) + 512"
    using assms unat_add_lem [of "refcntStorage ob" 512] by simp
  show "sidetable_addExtraRC_nolock RC_HALF ob = (False, ob\<lparr>refcnt := Some (refcntStorage ob + 512)\<rparr>)"
    using assms not_pinned [of "refcntStorage ob"]
    by (simp add: sidetable_addExtraRC_nolock_def half_shift addc_def builtin_addc_def)
qed

lemma subExtraRC_half:
  assumes "refcnt ob = Some r" and "0 < unat r" and "512 dvd unat r" 
  shows "sidetable_subExtraRC_nolock RC_HALF ob = ((RC_HALF, drop_bit 2 (r - 512)), ob\<lparr>refcnt := Some (r - 512)\<rparr>)"
    and "unat (r - 512) = unat r - 512" and "drop_bit 2 (r - 512) = 0 \<longleftrightarrow> unat r = 512"
proof -
  have le: "512 \<le> unat r" using assms by (auto intro: dvd_imp_le)
  have five: "unat (512 :: u64) = 512" by simp
  show sub: "unat (r - 512) = unat r - 512" using le five by (subst unat_sub) (simp_all add: word_le_nat_alt)
  show "sidetable_subExtraRC_nolock RC_HALF ob = ((RC_HALF, drop_bit 2 (r - 512)), ob\<lparr>refcnt := Some (r - 512)\<rparr>)"
    using assms(1,2) by (auto simp: sidetable_subExtraRC_nolock_def half_shift Let_def)
  from assms(3) obtain k where k: "unat r = 512 * k" by (auto elim: dvdE)
  have "drop_bit 2 (r - 512) = 0 \<longleftrightarrow> unat (drop_bit 2 (r - 512)) = 0" by (simp add: unat_eq_0)
  also have "\<dots> \<longleftrightarrow> (unat r - 512) div 4 = 0" by (simp only: unat_drop_bit sub) simp
  also have "\<dots> \<longleftrightarrow> unat r = 512" using k le by (cases k) auto
  finally show "drop_bit 2 (r - 512) = 0 \<longleftrightarrow> unat r = 512" .
qed

lemma deallocating_rc: "rr_inv ob \<Longrightarrow> isDeallocating (isa ob) \<longleftrightarrow> rc ob = 0"
  by (auto simp: rr_inv_def isDeallocating_def rc_def refcntStorage_def extra_rc_eq_0 split: option.splits
      dest: dvd_imp_le)


lemma slock_idem [simp]: "slock ob = b \<Longrightarrow> ob\<lparr>slock := b\<rparr> = ob" "ob\<lparr>slock := b, isa := v\<rparr> = ob\<lparr>isa := v, slock := b\<rparr>"
  "ob\<lparr>slock := b, refcnt := r\<rparr> = ob\<lparr>refcnt := r, slock := b\<rparr>"
  by (cases ob; simp)+

lemma rr_inv_slock [simp]: "rr_inv (ob\<lparr>slock := b\<rparr>) = rr_inv ob" "rc (ob\<lparr>slock := b\<rparr>) = rc ob"
  by (simp_all add: rr_inv_def rc_def)

text \<open>The isa words another thread leaves during the call, and that they keep the object alive.\<close>

definition calm :: "schedule \<Rightarrow> objc_object \<Rightarrow> bool" where
  "calm s ob \<longleftrightarrow> (\<forall>v. Some v \<in> set s \<longrightarrow> rr_inv (ob\<lparr>isa := v\<rparr>) \<and> \<not> isDeallocating v)"

lemma calm_simps [simp]:
  "calm [] ob" "calm (None # s) ob = calm s ob"
  "calm (Some v # s) ob \<longleftrightarrow> rr_inv (ob\<lparr>isa := v\<rparr>) \<and> \<not> isDeallocating v \<and> calm s ob"
  "calm s (ob\<lparr>isa := v\<rparr>) = calm s ob" "calm s (ob\<lparr>slock := b\<rparr>) = calm s ob"
  by (auto simp: calm_def)

definition retained :: "bool \<Rightarrow> objc_object \<Rightarrow> objc_object \<Rightarrow> bool" where
  "retained tryRetain ob ob' \<longleftrightarrow> rr_inv ob' \<and> rc ob' = Suc (rc ob)
     \<and> same_frame (ob\<lparr>slock := tryRetain\<rparr>) ob' \<and> deallocs ob' = deallocs ob"

lemma retained_no_carry:
  assumes inv: "rr_inv ob" and "unat (extra_rc (isa ob)) \<noteq> 255"
  shows "retained (slock ob) ob (ob\<lparr>isa := fst (addc (isa ob) RC_ONE 0)\<rparr>)"
proof -
  note low = addc_RC_ONE(2) [of "isa ob"]
  have "unat (extra_rc (fst (addc (isa ob) RC_ONE 0))) = Suc (unat (extra_rc (isa ob)))"
    using addc_RC_ONE(3) [of "isa ob"] extra_rc_le [of "isa ob"] assms(2) by simp
  then show ?thesis using inv
    by (simp add: retained_def rr_inv_def rc_def same_frame_def low_fields [OF low])
qed

lemma retained_carry:
  assumes inv: "rr_inv ob" and full: "unat (extra_rc (isa ob)) = 255"
    and room: "unat (refcntStorage ob) + 512 < 2 ^ 63"
  shows "retained b ob (ob\<lparr>isa := set_has_sidetable_rc True (set_extra_rc RC_HALF (fst (addc (isa ob) RC_ONE 0))),
           refcnt := Some (refcntStorage ob + 512), slock := b\<rparr>)"
proof -
  note low = addc_RC_ONE(2) [of "isa ob"]
  have "512 dvd unat (refcntStorage ob)"
    using inv by (auto simp: rr_inv_def refcntStorage_def split: option.splits)
  then show ?thesis using inv full room addExtraRC_half(2) [OF room]
    by (simp add: retained_def rr_inv_def rc_def same_frame_def low_fields [OF low] half_shift)
qed

text \<open>
  One iteration of the loop of \<open>rootRetain\<close>: either it defers to the slow path, or it stores a
  word that counts one more, or it goes round again with what the other thread left.
\<close>

lemma retain_iteration:
  assumes inv: "rr_inv ob" and live: "\<not> isDeallocating (isa ob)" and lock: "slock ob = (tryRetain \<or> l)"
    and room: "unat (refcntStorage ob) + 512 < 2 ^ 63" and l: "l \<longrightarrow> variant = Full"
    and go: "unat (extra_rc (isa ob)) = 255 \<longrightarrow> variant = Full"
  obtains ob' l' where "l' \<longrightarrow> variant = Full" "retained tryRetain ob ob'"
    "\<And>s. retain_loop tryRetain variant s (isa ob) l ob =
       (case s of Some v # s' \<Rightarrow> retain_loop tryRetain variant s' v l' (ob\<lparr>isa := v, slock := tryRetain \<or> l'\<rparr>)
        | _ \<Rightarrow> RetainDone True ob')"
proof (cases "unat (extra_rc (isa ob)) = 255")
  case False
  then have carry: "\<not> snd (addc (isa ob) RC_ONE 0)" using addc_RC_ONE(1) by simp
  let ?ob = "ob\<lparr>isa := fst (addc (isa ob) RC_ONE 0), slock := tryRetain\<rparr>"
  show thesis
  proof (rule that)
    show "l \<longrightarrow> variant = Full" by (rule l)
    show "retained tryRetain ob ?ob" 
      using retained_no_carry [of "ob\<lparr>slock := tryRetain\<rparr>"] inv False by (simp add: retained_def)
    fix s
    show "retain_loop tryRetain variant s (isa ob) l ob =
       (case s of Some v # s' \<Rightarrow> retain_loop tryRetain variant s' v l (ob\<lparr>isa := v, slock := tryRetain \<or> l\<rparr>)
        | _ \<Rightarrow> RetainDone True ?ob)"
      using inv live carry lock l
      by (auto simp: retain_loop.simps [of _ _ s "isa ob"] rr_inv_def split_beta Let_def sidetable_unlock_def
          split: list.split option.split)
  qed
next
  case True
  then have carry: "snd (addc (isa ob) RC_ONE 0)" using addc_RC_ONE(1) by simp
  let ?new = "set_has_sidetable_rc True (set_extra_rc RC_HALF (fst (addc (isa ob) RC_ONE 0)))"
  let ?ob = "ob\<lparr>isa := ?new, refcnt := Some (refcntStorage ob + 512), slock := tryRetain\<rparr>"
  have add: "snd (sidetable_addExtraRC_nolock RC_HALF x) = x\<lparr>refcnt := Some (refcntStorage ob + 512)\<rparr>"
      if "refcntStorage x = refcntStorage ob" for x
      using addExtraRC_half(1) [of x] that room by simp
  show thesis
  proof (rule that)
    show "True \<longrightarrow> variant = Full" using go True by simp
    show "retained tryRetain ob ?ob" by (rule retained_carry [OF inv True room])
    fix s
    show "retain_loop tryRetain variant s (isa ob) l ob =
       (case s of Some v # s' \<Rightarrow> retain_loop tryRetain variant s' v True (ob\<lparr>isa := v, slock := tryRetain \<or> True\<rparr>)
        | _ \<Rightarrow> RetainDone True ?ob)"
      using inv live carry lock go True add
      by (auto simp: retain_loop.simps [of _ _ s "isa ob"] rr_inv_def split_beta Let_def sidetable_unlock_def
          sidetable_lock_def split: list.split option.split)
  qed
qed

definition seen :: "schedule \<Rightarrow> objc_object \<Rightarrow> isa_t set" where
  "seen s ob = insert (isa ob) {v. Some v \<in> set s}"

lemma retained_frame [simp]:
  "retained t (ob\<lparr>slock := b\<rparr>) ob' = retained t ob ob'"
  by (simp add: retained_def same_frame_def)

lemma seen_shrink: "v \<in> seen s ob \<Longrightarrow> set s' \<subseteq> set s \<Longrightarrow> seen s' (ob\<lparr>isa := v\<rparr>) \<subseteq> seen s ob"
  by (auto simp: seen_def)

lemma calm_shrink: "calm s ob \<Longrightarrow> set s' \<subseteq> set s \<Longrightarrow> calm s' ob"
  by (auto simp: calm_def)

lemma seen_calm: "v \<in> seen s ob \<Longrightarrow> rr_inv ob \<Longrightarrow> \<not> isDeallocating (isa ob) \<Longrightarrow> calm s ob
    \<Longrightarrow> rr_inv (ob\<lparr>isa := v\<rparr>) \<and> \<not> isDeallocating v"
  by (auto simp: seen_def calm_def)

definition retain_outcome :: "bool \<Rightarrow> RRVariant \<Rightarrow> schedule \<Rightarrow> objc_object \<Rightarrow> retain_step \<Rightarrow> bool" where
  "retain_outcome tryRetain variant s ob st = (case st of
      RetainOverflow s' o' \<Rightarrow> variant \<noteq> Full \<and> set s' \<subseteq> set s \<and> (\<exists>v \<in> seen s ob. o' = ob\<lparr>isa := v\<rparr>)
    | RetainDone r ob' \<Rightarrow> r \<and> (\<exists>v \<in> seen s ob. retained tryRetain (ob\<lparr>isa := v\<rparr>) ob'))"

lemma retain_outcome_shrink:
  assumes "retain_outcome tryRetain variant s' (ob\<lparr>isa := v\<rparr>) st" "v \<in> seen s ob" "set s' \<subseteq> set s"
  shows "retain_outcome tryRetain variant s ob st"
  using assms seen_shrink [OF assms(2,3)]
  by (auto simp: retain_outcome_def split: retain_step.splits)

lemma retain_loop_linear:
  assumes "rr_inv ob" and "\<not> isDeallocating (isa ob)" and "calm s ob" and "slock ob = (tryRetain \<or> l)"
    and "unat (refcntStorage ob) + 512 < 2 ^ 63" and "l \<longrightarrow> variant = Full"
  shows "retain_outcome tryRetain variant s (ob\<lparr>slock := tryRetain\<rparr>) (retain_loop tryRetain variant s (isa ob) l ob)"
  using assms
proof (induction "length s" arbitrary: s ob l rule: less_induct)
  case less
  show ?case
  proof (cases "unat (extra_rc (isa ob)) = 255 \<and> variant \<noteq> Full")
    case True
    then have carry: "snd (addc (isa ob) RC_ONE 0)" and l: "\<not> l" using addc_RC_ONE(1) less.prems(6) by auto
    have "retain_loop tryRetain variant s (isa ob) l ob = RetainOverflow s ob"
      using less.prems(1,2) carry True by (simp add: retain_loop.simps [of tryRetain variant s "isa ob"] rr_inv_def split_beta)
    moreover have "ob\<lparr>slock := tryRetain\<rparr> = ob" using l less.prems(4) by simp
    ultimately show ?thesis using True by (simp add: retain_outcome_def seen_def)
  next
    case False
    then have go: "unat (extra_rc (isa ob)) = 255 \<longrightarrow> variant = Full" by blast
    obtain l' ob' where l': "l' \<longrightarrow> variant = Full" and ret: "retained tryRetain ob ob'" and
      it: "\<And>s. retain_loop tryRetain variant s (isa ob) l ob =
       (case s of Some v # s' \<Rightarrow> retain_loop tryRetain variant s' v l' (ob\<lparr>isa := v, slock := tryRetain \<or> l'\<rparr>)
        | _ \<Rightarrow> RetainDone True ob')"
      by (rule retain_iteration [OF less.prems(1,2,4-6) go]) (rule that, assumption+)
    show ?thesis
    proof (cases "\<exists>v s'. s = Some v # s'")
      case False
      then show ?thesis using it [of s] ret
        by (auto simp: seen_def retain_outcome_def split: list.splits option.splits)
    next
      case True
      then obtain v s' where s: "s = Some v # s'" by blast
      let ?ob = "ob\<lparr>isa := v, slock := tryRetain \<or> l'\<rparr>"
      have "rr_inv ?ob" "\<not> isDeallocating (isa ?ob)" "calm s' ?ob" "slock ?ob = (tryRetain \<or> l')"
        "unat (refcntStorage ?ob) + 512 < 2 ^ 63" using less.prems s by simp_all
      from less.hyps [OF _ this l'] s
      have "retain_outcome tryRetain variant s' (?ob\<lparr>slock := tryRetain\<rparr>) (retain_loop tryRetain variant s' (isa ?ob) l' ?ob)"
        by simp
      then show ?thesis using retain_outcome_shrink [of tryRetain variant s' v "ob\<lparr>slock := tryRetain\<rparr>" _ s] it [of s] s
        by (simp add: seen_def subset_insertI)
    qed
  qed
qed

lemma LoadExclusive_cases:
  assumes "rr_inv ob" "\<not> isDeallocating (isa ob)" "calm s ob"
  obtains s' v where "LoadExclusive s ob = (v, s', ob\<lparr>isa := v\<rparr>)" "v \<in> seen s ob" "set s' \<subseteq> set s"
  using assms by (cases "(s, ob)" rule: LoadExclusive.cases) (auto simp: seen_def)

lemma retain_body_linear:
  assumes ob: "rr_inv ob" "\<not> isDeallocating (isa ob)" "calm s ob" and lock: "slock ob = tryRetain"
    and room: "unat (refcntStorage ob) + 512 < 2 ^ 63"
    and noRR: "variant = FastOrMsgSend \<longrightarrow> (\<forall>v \<in> seen s ob. \<not> hasCustomRR (class_at (getClass v)))"
  obtains st where "retain_body tryRetain variant class_at s ob = Ret st" "retain_outcome tryRetain variant s ob st"
proof -
  from LoadExclusive_cases [OF ob] obtain s' v where
    load: "LoadExclusive s ob = (v, s', ob\<lparr>isa := v\<rparr>)" "v \<in> seen s ob" "set s' \<subseteq> set s" .
  let ?ob = "ob\<lparr>isa := v\<rparr>"
  have v: "rr_inv ?ob" "\<not> isDeallocating v" using seen_calm [OF load(2) ob] by auto
  have "retain_body tryRetain variant class_at s ob = Ret (retain_loop tryRetain variant s' v False ?ob)"
    using load v(1) noRR by (auto simp: retain_body_def rr_inv_def getDecodedClass_def Let_def)
  moreover have "retain_outcome tryRetain variant s' ?ob (retain_loop tryRetain variant s' v False ?ob)"
    using retain_loop_linear [of ?ob s' tryRetain False variant] v calm_shrink [OF ob(3) load(3)] lock room by simp
  ultimately show thesis using that retain_outcome_shrink load(2,3) by blast
qed

lemma rootRetain_linear:
  assumes ob: "rr_inv ob" "\<not> isDeallocating (isa ob)" "calm s ob" and lock: "slock ob = tryRetain"
    and room: "unat (refcntStorage ob) + 512 < 2 ^ 63"
    and noRR: "variant = FastOrMsgSend \<longrightarrow> (\<forall>v \<in> seen s ob. \<not> hasCustomRR (class_at (getClass v)))"
  shows "\<exists>v \<in> seen s ob. \<exists>ob'. rootRetain tryRetain variant class_at s ob = (Ret True, ob')
           \<and> retained tryRetain (ob\<lparr>isa := v\<rparr>) ob'"
proof -
  obtain st where st: "retain_body tryRetain variant class_at s ob = Ret st" "retain_outcome tryRetain variant s ob st"
    using retain_body_linear [OF ob lock room noRR] .
  show ?thesis
  proof (cases st)
    case (RetainDone r ob')
    with st show ?thesis by (auto simp: rootRetain_def retain_outcome_def)
  next
    case (RetainOverflow s' o')
    with st(2) obtain v where v: "o' = ob\<lparr>isa := v\<rparr>" "v \<in> seen s ob" "set s' \<subseteq> set s"
      by (auto simp: retain_outcome_def)
    have o': "rr_inv o'" "\<not> isDeallocating (isa o')" "calm s' o'" "slock o' = tryRetain" "unat (refcntStorage o') + 512 < 2 ^ 63"
      using seen_calm [OF v(2) ob] calm_shrink [OF ob(3) v(3)] lock room by (simp_all add: v(1))
    obtain st' where st': "retain_body tryRetain Full class_at s' o' = Ret st'" "retain_outcome tryRetain Full s' o' st'"
      by (rule retain_body_linear [OF o', of Full]) auto
    then have "retain_outcome tryRetain Full s ob st'" using retain_outcome_shrink v by blast
    with st st' RetainOverflow show ?thesis 
      by (auto simp: rootRetain_def rootRetain_overflow_def retain_outcome_def split: retain_step.splits)
  qed
qed

definition released :: "bool \<Rightarrow> objc_object \<Rightarrow> objc_object \<Rightarrow> bool" where
  "released performDealloc ob ob' \<longleftrightarrow> rr_inv ob' \<and> rc ob = Suc (rc ob') \<and> same_frame (ob\<lparr>slock := False\<rparr>) ob'
     \<and> deallocs ob' = deallocs ob + of_bool (rc ob = 1 \<and> performDealloc)"

lemma released_frame [simp]: "released p (ob\<lparr>slock := b\<rparr>) ob' = released p ob ob'"
  by (simp add: released_def same_frame_def)

definition release_outcome :: "bool \<Rightarrow> RRVariant \<Rightarrow> schedule \<Rightarrow> objc_object \<Rightarrow> release_step \<Rightarrow> bool" where
  "release_outcome performDealloc variant s ob st = (case st of
      ReleaseUnderflow s' o' \<Rightarrow> variant \<noteq> Full \<and> set s' \<subseteq> set s \<and> (\<exists>v \<in> seen s ob. o' = ob\<lparr>isa := v\<rparr>)
    | ReleaseDone r ob' \<Rightarrow> (\<exists>v \<in> seen s ob. r = (rc (ob\<lparr>isa := v\<rparr>) = 1) \<and> released performDealloc (ob\<lparr>isa := v\<rparr>) ob'))"

lemma release_outcome_shrink:
  assumes "release_outcome p variant s' (ob\<lparr>isa := v\<rparr>) st" "v \<in> seen s ob" "set s' \<subseteq> set s"
  shows "release_outcome p variant s ob st"
  using assms seen_shrink [OF assms(2,3)]
  by (auto simp: release_outcome_def split: release_step.splits)

lemma seen_slock [simp]: "seen s (ob\<lparr>slock := b\<rparr>) = seen s ob" by (simp add: seen_def)

lemma take_bit_set_extra_rc: "take_bit 56 (set_extra_rc v b) = take_bit 56 b"
  unfolding set_extra_rc_def by (rule bit_word_eqI) (auto simp: bit_simps bit_set_field)

text \<open>What the loop stores once half a byte's worth of counts is borrowed from the side table.\<close>

lemma borrowed_ok:
  assumes inv: "rr_inv ob" and r: "refcnt ob = Some r" and x: "take_bit 56 x = take_bit 56 (isa ob)"
      "unat (extra_rc x) = unat (extra_rc (isa ob)) + 127"
    and ob': "ob' = ob\<lparr>isa := set_has_sidetable_rc (drop_bit 2 (r - 512) \<noteq> 0) x,
       refcnt := (if drop_bit 2 (r - 512) = 0 then None else Some (r - 512)), slock := False\<rparr>"
  shows "released p ob ob'" "rc ob \<noteq> 1"
proof -
  have rr: "0 < unat r" "unat r < 2 ^ 63" "512 dvd unat r" using inv r by (auto simp: rr_inv_def)
  note sub = subExtraRC_half [OF r rr(1,3)]
  have le: "512 \<le> unat r" using rr by (auto intro: dvd_imp_le)
  have rc': "rc ob' = unat (extra_rc (isa ob)) + 127 + (unat r - 512) div 4"
    using sub(2,3) x(2) by (auto simp: rc_def ob')
  moreover have rc: "rc ob = unat (extra_rc (isa ob)) + unat r div 4" using r by (simp add: rc_def refcntStorage_def)
  moreover have "unat r div 4 = 128 + (unat r - 512) div 4" using le by presburger
  ultimately have "rc ob = Suc (rc ob')" by simp
  moreover have "rr_inv ob'" using inv rr sub(2,3) le x(1) unfolding ob'
    by (auto simp: rr_inv_def low_fields(1) [OF x(1)] intro: dvd_diff_nat)
  ultimately show "released p ob ob'" using rc'
    by (auto simp: released_def same_frame_def ob' low_fields [OF x(1)])
  show "rc ob \<noteq> 1" using rc le by simp
qed

lemma store_borrowed_linear:
  assumes inv: "rr_inv ob" and und: "unat (extra_rc (isa ob)) = 0" and r: "refcnt ob = Some r" and calm: "calm s ob"
    and sb: "store_borrowed RC_HALF (drop_bit 2 (r - 512) = 0) (isa ob) s (ob\<lparr>refcnt := Some (r - 512)\<rparr>) = (res, d, s', o2)"
  shows "\<exists>v \<in> seen s ob. case res of
      None \<Rightarrow> \<not> d \<and> rc (ob\<lparr>isa := v\<rparr>) \<noteq> 1 \<and> slock o2 = slock ob \<and>
        released p (ob\<lparr>isa := v\<rparr>) ((if drop_bit 2 (r - 512) = 0 then sidetable_clearExtraRC_nolock o2 else o2)\<lparr>slock := False\<rparr>)
    | Some w \<Rightarrow> w = v \<and> set s' \<subseteq> set s \<and> length s' < length s \<and> o2 = ob\<lparr>isa := w, refcnt := Some (r - 512)\<rparr>"
proof -
  have half: "unat (RC_HALF - 1) = 127" "unat (take_bit 8 (RC_HALF - 1)) = 127" by (simp_all add: RC_HALF_def)
  let ?x = "set_extra_rc (RC_HALF - 1) (isa ob)"
  have x: "take_bit 56 ?x = take_bit 56 (isa ob)" "unat (extra_rc ?x) = unat (extra_rc (isa ob)) + 127"
    using und half by (simp_all add: take_bit_set_extra_rc)
  note first = borrowed_ok [OF inv r x refl]
  show ?thesis
  proof (cases "\<exists>v s'. s = Some v # s'")
    case False
    then have "StoreExclusive n s o1 = (None, tl s, o1\<lparr>isa := n\<rparr>)" for n o1
      by (cases s; cases "hd s") auto
    with sb first(1) [of p] first(2) show ?thesis
      by (auto simp: store_borrowed_def seen_def sidetable_clearExtraRC_nolock_def)
  next
    case True
    then obtain v s1 where s: "s = Some v # s1" by blast
    let ?ob = "ob\<lparr>isa := v\<rparr>"
    let ?y = "fst (addc v (RC_ONE * (RC_HALF - 1)) 0)"
    have v: "rr_inv ?ob" "nonpointer v" "refcnt ?ob = Some r" using calm s r by (auto simp: rr_inv_def)
    note add = addc_extra_rc [of "RC_HALF - 1" v, unfolded half(1)]
    show ?thesis
    proof (cases "snd (addc v (RC_ONE * (RC_HALF - 1)) 0)")
      case True
      with sb s v show ?thesis by (auto simp: store_borrowed_def seen_def split_beta)
    next
      case False
      with add have y: "take_bit 56 ?y = take_bit 56 (isa ?ob)" "unat (extra_rc ?y) = unat (extra_rc (isa ?ob)) + 127" by auto
      then have nd: "\<not> isDeallocating (set_has_sidetable_rc b ?y)" for b
        by (auto simp: isDeallocating_def extra_rc_eq_0)
      note second = borrowed_ok [OF v(1,3) y refl]
      show ?thesis
      proof (cases "\<exists>w s'. s1 = Some w # s'")
        case True
        with sb s v False show ?thesis by (auto simp: store_borrowed_def seen_def split_beta)
      next
        case no: False
        then have "StoreExclusive n s1 o1 = (None, tl s1, o1\<lparr>isa := n\<rparr>)" for n o1
          by (cases s1; cases "hd s1") auto
        with sb s v False second(1) [of p] second(2) nd show ?thesis
          by (auto simp: store_borrowed_def seen_def sidetable_clearExtraRC_nolock_def split_beta)
      qed
    qed
  qed
qed

lemma released_no_borrow:
  assumes inv: "rr_inv ob" and "unat (extra_rc (isa ob)) \<noteq> 0"
  defines "bits \<equiv> fst (subc (isa ob) RC_ONE 0)"
  shows "isDeallocating bits \<longleftrightarrow> rc ob = 1"
    and "released p ob (ob\<lparr>isa := bits, slock := False, deallocs := deallocs ob + of_bool (rc ob = 1 \<and> p)\<rparr>)"
proof -
  note low = subc_RC_ONE(2) [of "isa ob", folded bits_def]
  have e: "Suc (unat (extra_rc bits)) = unat (extra_rc (isa ob))"
    using subc_RC_ONE(3) [of "isa ob"] assms(2) by (simp add: bits_def)
  have inv': "rr_inv (ob\<lparr>isa := bits\<rparr>)" using inv by (simp add: rr_inv_def low_fields [OF low])
  have rc: "rc ob = Suc (rc (ob\<lparr>isa := bits\<rparr>))" using e by (simp add: rc_def)
  show "isDeallocating bits \<longleftrightarrow> rc ob = 1" using deallocating_rc [OF inv'] rc by simp
  show "released p ob (ob\<lparr>isa := bits, slock := False, deallocs := deallocs ob + of_bool (rc ob = 1 \<and> p)\<rparr>)"
    using inv' rc by (simp add: released_def rr_inv_def rc_def same_frame_def low_fields [OF low])
qed

lemma release_no_borrow:
  assumes inv: "rr_inv ob" and live: "\<not> isDeallocating (isa ob)" and lock: "slock ob = l"
    and l: "l \<longrightarrow> variant = Full" and e: "unat (extra_rc (isa ob)) \<noteq> 0"
  shows "release_loop p variant s (isa ob) l ob = (case s of
      Some v # s' \<Rightarrow> release_loop p variant s' v l (ob\<lparr>isa := v\<rparr>)
    | _ \<Rightarrow> ReleaseDone (rc ob = 1) (ob\<lparr>isa := fst (subc (isa ob) RC_ONE 0), slock := False,
              deallocs := deallocs ob + of_bool (rc ob = 1 \<and> p)\<rparr>))"
proof -
  have carry: "\<not> snd (subc (isa ob) RC_ONE 0)" using subc_RC_ONE(1) e by simp
  note d = released_no_borrow(1) [OF inv e]
  show ?thesis using inv live carry lock l d
    by (auto simp: release_loop.simps [of p variant s "isa ob"] rr_inv_def split_beta Let_def
        release_deallocate_def send_dealloc_def sidetable_unlock_def split: list.split option.split)
qed

lemma refcnt_idem: "refcnt ob = x \<Longrightarrow> ob\<lparr>isa := w, refcnt := x\<rparr> = ob\<lparr>isa := w\<rparr>"
  by (cases ob) simp

lemma addExtraRC_back:
  assumes "rr_inv ob" "refcnt ob = Some r"
  shows "snd (sidetable_addExtraRC_nolock RC_HALF (ob\<lparr>isa := w, refcnt := Some (r - 512)\<rparr>)) = ob\<lparr>isa := w\<rparr>"
proof -
  have rr: "0 < unat r" "unat r < 2 ^ 63" "512 dvd unat r" using assms by (auto simp: rr_inv_def)
  note sub = subExtraRC_half(2) [OF assms(2) rr(1,3)]
  have "512 \<le> unat r" using rr by (auto intro: dvd_imp_le)
  then show ?thesis using addExtraRC_half(1) [of "ob\<lparr>isa := w, refcnt := Some (r - 512)\<rparr>"] sub rr(2)
      refcnt_idem [OF assms(2)] by simp
qed

lemma release_underflow:
  assumes inv: "rr_inv ob" and live: "\<not> isDeallocating (isa ob)" and lock: "slock ob = l"
    and e: "unat (extra_rc (isa ob)) = 0"
  shows "variant \<noteq> Full \<Longrightarrow> release_loop p variant s (isa ob) l ob = ReleaseUnderflow s ob"
    and "\<not> l \<Longrightarrow> release_loop p Full s (isa ob) l ob =
      (let (v, s', o1) = LoadExclusive s (ob\<lparr>slock := True\<rparr>) in release_loop p Full s' v True o1)"
    and "refcnt ob = Some r \<Longrightarrow> l \<Longrightarrow> release_loop p Full s (isa ob) l ob =
      (case store_borrowed RC_HALF (drop_bit 2 (r - 512) = 0) (isa ob) s (ob\<lparr>refcnt := Some (r - 512)\<rparr>) of
         (Some w, d, s', o2) \<Rightarrow>
           let (v, s'', o4) = LoadExclusive s' (snd (sidetable_addExtraRC_nolock RC_HALF o2))
           in release_loop p Full s'' v True o4
       | (None, d, s', o2) \<Rightarrow>
           let o3 = (if drop_bit 2 (r - 512) = 0 then sidetable_clearExtraRC_nolock o2 else o2)
           in if \<not> d then ReleaseDone False (sidetable_unlock o3) else release_deallocate p True o3)"
proof -
  have carry: "snd (subc (isa ob) RC_ONE 0)" using subc_RC_ONE(1) e by simp
  have sid: "has_sidetable_rc (isa ob)" using live e by (simp add: isDeallocating_def extra_rc_eq_0)
  have np: "nonpointer (isa ob)" using inv by (simp add: rr_inv_def)
  note unfold = release_loop.simps [of p _ s "isa ob" _ ob]
  show "variant \<noteq> Full \<Longrightarrow> release_loop p variant s (isa ob) l ob = ReleaseUnderflow s ob"
    using np live carry sid by (simp add: unfold split_beta Let_def)
  show "release_loop p Full s (isa ob) l ob =
      (let (v, s', o1) = LoadExclusive s (ob\<lparr>slock := True\<rparr>) in release_loop p Full s' v True o1)" if "\<not> l"
    using np live carry sid lock that by (simp add: unfold split_beta Let_def sidetable_lock_def)
  assume r: "refcnt ob = Some r" and "l"
  have rr: "0 < unat r" "512 dvd unat r" using inv r by (auto simp: rr_inv_def)
  note sub = subExtraRC_half(1) [OF r rr]
  have "RC_HALF > 0" by (simp add: RC_HALF_def)
  with np live carry sid \<open>l\<close> sub show "release_loop p Full s (isa ob) l ob =
      (case store_borrowed RC_HALF (drop_bit 2 (r - 512) = 0) (isa ob) s (ob\<lparr>refcnt := Some (r - 512)\<rparr>) of
         (Some w, d, s', o2) \<Rightarrow>
           let (v, s'', o4) = LoadExclusive s' (snd (sidetable_addExtraRC_nolock RC_HALF o2))
           in release_loop p Full s'' v True o4
       | (None, d, s', o2) \<Rightarrow>
           let o3 = (if drop_bit 2 (r - 512) = 0 then sidetable_clearExtraRC_nolock o2 else o2)
           in if \<not> d then ReleaseDone False (sidetable_unlock o3) else release_deallocate p True o3)"
    by (auto simp: unfold split_beta Let_def split: option.split prod.split)
qed

lemma release_loop_linear:
  assumes "rr_inv ob" and "\<not> isDeallocating (isa ob)" and "calm s ob" and "slock ob = l" and "l \<longrightarrow> variant = Full"
  shows "release_outcome p variant s (ob\<lparr>slock := False\<rparr>) (release_loop p variant s (isa ob) l ob)"
  using assms
proof (induction "2 * length s + of_bool (\<not> l)" arbitrary: s ob l rule: less_induct)
  case less
  have again: "release_outcome p variant s (ob\<lparr>slock := False\<rparr>) (release_loop p variant s' v l' (ob\<lparr>isa := v, slock := l'\<rparr>))"
    if "v \<in> seen s ob" "set s' \<subseteq> set s" "2 * length s' + of_bool (\<not> l') < 2 * length s + of_bool (\<not> l)" "l' \<longrightarrow> variant = Full"
    for v s' l'
  proof -
    let ?ob = "ob\<lparr>isa := v, slock := l'\<rparr>"
    have "rr_inv ?ob" "\<not> isDeallocating (isa ?ob)" "calm s' ?ob" "slock ?ob = l'"
      using seen_calm [OF that(1) less.prems(1-3)] calm_shrink [OF less.prems(3) that(2)] by simp_all
    from less.hyps [OF that(3) this that(4)] show ?thesis
      using release_outcome_shrink [of p variant s' v "ob\<lparr>slock := False\<rparr>" _ s] that(1,2) by simp
  qed
  have load: "release_outcome p variant s (ob\<lparr>slock := False\<rparr>)
       (let (v, s'', o4) = LoadExclusive s' (ob\<lparr>isa := w, slock := True\<rparr>) in release_loop p Full s'' v True o4)"
    if "variant = Full" "set s' \<subseteq> set s" "2 * length s' < 2 * length s + of_bool (\<not> l)" "w \<in> seen s ob" for s' w
    using again [of _ _ True] that by (cases "(s', ob)" rule: LoadExclusive.cases) (auto simp: seen_def)
  show ?case
  proof (cases "unat (extra_rc (isa ob)) = 0")
    case False
    note step = release_no_borrow [OF less.prems(1,2,4,5) this, of p s]
    show ?thesis
    proof (cases "\<exists>v s'. s = Some v # s'")
      case True
      then obtain v s' where s: "s = Some v # s'" by blast
      have "ob\<lparr>isa := v, slock := l\<rparr> = ob\<lparr>isa := v\<rparr>" using less.prems(4) by simp
      with again [of v s' l] s less.prems(5) step show ?thesis by (simp add: seen_def subset_insertI)
    next
      case no: False
      then have "release_loop p variant s (isa ob) l ob = ReleaseDone (rc ob = 1) (ob\<lparr>isa := fst (subc (isa ob) RC_ONE 0), slock := False,
              deallocs := deallocs ob + of_bool (rc ob = 1 \<and> p)\<rparr>)"
        using step by (auto split: list.splits option.splits)
      with released_no_borrow(2) [OF less.prems(1) False, of p] show ?thesis
        by (auto simp: release_outcome_def seen_def)
    qed
  next
    case True
    note step = release_underflow [OF less.prems(1,2,4) True]
    have "has_sidetable_rc (isa ob)" using less.prems(2) True by (simp add: isDeallocating_def extra_rc_eq_0)
    then obtain r where r: "refcnt ob = Some r" using less.prems(1) by (auto simp: rr_inv_def)
    consider "variant \<noteq> Full" | "variant = Full" "\<not> l" | "variant = Full" "l" by blast
    then show ?thesis
    proof cases
      case 1
      with step(1) less.prems(4,5) show ?thesis by (simp add: release_outcome_def seen_def)
    next
      case 2
      with step(2) load [of s "isa ob"] show ?thesis by (simp add: seen_def)
    next
      case 3
      obtain res d s' o2 where sb: "store_borrowed RC_HALF (drop_bit 2 (r - 512) = 0) (isa ob) s (ob\<lparr>refcnt := Some (r - 512)\<rparr>)
          = (res, d, s', o2)" by (metis prod_cases4)
      note lin = store_borrowed_linear [OF less.prems(1) True r less.prems(3) sb, of p]
      show ?thesis
      proof (cases res)
        case None
        with lin less.prems(4) 3 sb step(3) [OF r 3(2)] show ?thesis
          by (auto simp: release_outcome_def sidetable_unlock_def sidetable_clearExtraRC_nolock_def)
      next
        case (Some w)
        with lin have w: "w \<in> seen s ob" "set s' \<subseteq> set s" "length s' < length s" "o2 = ob\<lparr>isa := w, refcnt := Some (r - 512)\<rparr>"
          by auto
        have "snd (sidetable_addExtraRC_nolock RC_HALF o2) = ob\<lparr>isa := w, slock := True\<rparr>"
          using addExtraRC_back [OF less.prems(1) r] w(4) less.prems(4) 3 by simp
        with load [OF 3(1) w(2) _ w(1)] w(3) Some sb step(3) [OF r 3(2)] 3 show ?thesis by simp
      qed
    qed
  qed
qed

lemma release_body_linear:
  assumes ob: "rr_inv ob" "\<not> isDeallocating (isa ob)" "calm s ob" and lock: "\<not> slock ob"
    and noRR: "variant = FastOrMsgSend \<longrightarrow> (\<forall>v \<in> seen s ob. \<not> hasCustomRR (class_at (getClass v)))"
  obtains st where "release_body p variant class_at s ob = Ret st" "release_outcome p variant s ob st"
proof -
  from LoadExclusive_cases [OF ob] obtain s' v where
    load: "LoadExclusive s ob = (v, s', ob\<lparr>isa := v\<rparr>)" "v \<in> seen s ob" "set s' \<subseteq> set s" .
  let ?ob = "ob\<lparr>isa := v\<rparr>"
  have v: "rr_inv ?ob" "\<not> isDeallocating v" using seen_calm [OF load(2) ob] by auto
  have "release_body p variant class_at s ob = Ret (release_loop p variant s' v False ?ob)"
    using load v(1) noRR by (auto simp: release_body_def rr_inv_def getDecodedClass_def Let_def)
  moreover have "release_outcome p variant s' ?ob (release_loop p variant s' v False ?ob)"
    using release_loop_linear [of ?ob s' False variant p] v calm_shrink [OF ob(3) load(3)] lock by simp
  ultimately show thesis using that release_outcome_shrink load(2,3) by blast
qed

lemma rootRelease_linear:
  assumes ob: "rr_inv ob" "\<not> isDeallocating (isa ob)" "calm s ob" and lock: "\<not> slock ob"
    and noRR: "variant = FastOrMsgSend \<longrightarrow> (\<forall>v \<in> seen s ob. \<not> hasCustomRR (class_at (getClass v)))"
  shows "\<exists>v \<in> seen s ob. \<exists>ob'. rootRelease p variant class_at s ob = (Ret (rc (ob\<lparr>isa := v\<rparr>) = 1), ob')
           \<and> released p (ob\<lparr>isa := v\<rparr>) ob'"
proof -
  obtain st where st: "release_body p variant class_at s ob = Ret st" "release_outcome p variant s ob st"
    using release_body_linear [OF ob lock noRR] .
  show ?thesis
  proof (cases st)
    case (ReleaseDone r ob')
    with st show ?thesis by (auto simp: rootRelease_def release_outcome_def)
  next
    case (ReleaseUnderflow s' o')
    with st(2) obtain v where v: "o' = ob\<lparr>isa := v\<rparr>" "v \<in> seen s ob" "set s' \<subseteq> set s"
      by (auto simp: release_outcome_def)
    have o': "rr_inv o'" "\<not> isDeallocating (isa o')" "calm s' o'" "\<not> slock o'"
      using seen_calm [OF v(2) ob] calm_shrink [OF ob(3) v(3)] lock by (simp_all add: v(1))
    obtain st' where st': "release_body p Full class_at s' o' = Ret st'" "release_outcome p Full s' o' st'"
      by (rule release_body_linear [OF o', of Full]) auto
    then have "release_outcome p Full s ob st'" using release_outcome_shrink v by blast
    with st st' ReleaseUnderflow show ?thesis
      by (auto simp: rootRelease_def rootRelease_underflow_def release_outcome_def split: release_step.splits)
  qed
qed

end
