(* ===== verification/RetainContract.thy ===== *)
theory RetainContract
  imports RetainRelease
begin

text \<open>
  The contract retain and release give their callers, as a locale over any reference counted
  representation, with its two providers: the packed \<open>isa\<close> with overflow to the side table and
  the raw \<open>isa\<close> with the count in the side table alone. Then the operations that move an
  object between the two (\<open>changeIsa\<close>), make it (\<open>initIsa\<close>) and tear it down
  (\<open>clearDeallocating\<close>, \<open>rootDealloc\<close>), and the properties of all of them.
\<close>

subsection \<open>The contract\<close>

text \<open>A plain counter: what a caller that balances its retains and releases relies on.\<close>

datatype rr_op = Retain | Release

fun count_run :: "nat \<Rightarrow> nat \<Rightarrow> rr_op list \<Rightarrow> nat option" where
  "count_run limit n [] = Some n"
| "count_run limit n (Retain # ops) = (if 0 < n \<and> n < limit then count_run limit (Suc n) ops else None)"
| "count_run limit n (Release # ops) = (if 0 < n then count_run limit (n - 1) ops else None)"

fun run :: "('o \<Rightarrow> 'o) \<Rightarrow> ('o \<Rightarrow> bool \<times> 'o) \<Rightarrow> rr_op list \<Rightarrow> 'o \<Rightarrow> 'o" where
  "run ret rel [] x = x"
| "run ret rel (Retain # ops) x = run ret rel ops (ret x)"
| "run ret rel (Release # ops) x = run ret rel ops (snd (rel x))"

lemma dead_run: "count_run limit 0 ops = Some m \<Longrightarrow> ops = [] \<and> m = 0"
  by (cases "(limit, 0::nat, ops)" rule: count_run.cases) auto

locale retain_release =
  fixes inv :: "'o \<Rightarrow> bool" and count :: "'o \<Rightarrow> nat" and limit :: nat
    and ret :: "'o \<Rightarrow> 'o" and rel :: "'o \<Rightarrow> bool \<times> 'o" and sent :: "'o \<Rightarrow> nat"
  assumes retain_inv: "inv x \<Longrightarrow> 0 < count x \<Longrightarrow> count x < limit \<Longrightarrow> inv (ret x)"
    and retain_count: "inv x \<Longrightarrow> 0 < count x \<Longrightarrow> count x < limit \<Longrightarrow> count (ret x) = Suc (count x)"
    and retain_sent: "inv x \<Longrightarrow> 0 < count x \<Longrightarrow> count x < limit \<Longrightarrow> sent (ret x) = sent x"
    and release_inv: "inv x \<Longrightarrow> 0 < count x \<Longrightarrow> inv (snd (rel x))"
    and release_count: "inv x \<Longrightarrow> 0 < count x \<Longrightarrow> count (snd (rel x)) = count x - 1"
    and release_result: "inv x \<Longrightarrow> 0 < count x \<Longrightarrow> fst (rel x) = (count x = 1)"
    and release_sent: "inv x \<Longrightarrow> 0 < count x \<Longrightarrow> sent (snd (rel x)) = sent x + of_bool (count x = 1)"
begin

lemma run_refines_count:
  assumes "inv x" and "count_run limit (count x) ops = Some m"
  shows "inv (run ret rel ops x) \<and> count (run ret rel ops x) = m
    \<and> sent (run ret rel ops x) = sent x + of_bool (0 < count x \<and> m = 0)"
  using assms
proof (induction ops arbitrary: x)
  case (Cons opr ops)
  then show ?case
  proof (cases opr)
    case Retain
    with Cons.prems have "0 < count x" "count x < limit" by (auto split: if_splits)
    with Cons Retain retain_inv retain_count retain_sent show ?thesis by simp
  next
    case Release
    with Cons.prems have "0 < count x" by (auto split: if_splits)
    moreover have "ops = [] \<and> m = 0" if "count x = 1"
      using that Cons.prems Release dead_run [of limit ops m] by simp
    ultimately show ?thesis using Cons Release release_inv [of x] release_count [of x] release_sent [of x]
      by auto
  qed
qed auto

end


subsection \<open>Non-pointer isa\<close>

definition retain_op :: "(class_ptr \<Rightarrow> objc_class) \<Rightarrow> objc_object \<Rightarrow> objc_object" where
  "retain_op class_at ob = snd (rootRetain False Fast class_at [] ob)"

definition release_op :: "(class_ptr \<Rightarrow> objc_class) \<Rightarrow> objc_object \<Rightarrow> bool \<times> objc_object" where
  "release_op class_at ob = (case rootRelease True Fast class_at [] ob of (r, ob') \<Rightarrow> (r = Ret True, ob'))"

definition unlocked_inv :: "objc_object \<Rightarrow> bool" where
  "unlocked_inv ob \<longleftrightarrow> rr_inv ob \<and> \<not> slock ob"

lemma rc_room: "rc ob < 2 ^ 60 \<Longrightarrow> unat (refcntStorage ob) + 512 < 2 ^ 63"
proof -
  assume "rc ob < 2 ^ 60"
  then have "unat (refcntStorage ob) div 4 < 2 ^ 60" by (simp add: rc_def)
  then show ?thesis by simp
qed

lemma retain_op_ok:
  assumes "unlocked_inv ob" "0 < rc ob" "rc ob < 2 ^ 60"
  shows "retained False ob (retain_op class_at ob) \<and> fst (rootRetain False Fast class_at [] ob) = Ret True"
  using assms rootRetain_linear [of ob "[]" False Fast class_at] rc_room [of ob] deallocating_rc [of ob]
  by (auto simp: unlocked_inv_def retain_op_def seen_def)

lemma release_op_ok:
  assumes "unlocked_inv ob" "0 < rc ob"
  shows "released True ob (snd (release_op class_at ob)) \<and> fst (release_op class_at ob) = (rc ob = 1)"
  using assms rootRelease_linear [of ob "[]" Fast class_at True] deallocating_rc [of ob]
  by (auto simp: unlocked_inv_def release_op_def seen_def)

interpretation np: retain_release unlocked_inv rc "2 ^ 60" "retain_op class_at" "release_op class_at" deallocs
  for class_at
proof (unfold_locales, goal_cases)
  case (1 x) then show ?case using retain_op_ok [of x class_at] by (auto simp: retained_def unlocked_inv_def same_frame_def)
next
  case (2 x) then show ?case using retain_op_ok [of x class_at] by (auto simp: retained_def)
next
  case (3 x) then show ?case using retain_op_ok [of x class_at] by (auto simp: retained_def)
next
  case (4 x) then show ?case using release_op_ok [of x class_at] by (auto simp: released_def unlocked_inv_def same_frame_def)
next
  case (5 x) then show ?case using release_op_ok [of x class_at] by (auto simp: released_def)
next
  case (6 x) then show ?case using release_op_ok [of x class_at] by (auto simp: released_def)
next
  case (7 x) then show ?case using release_op_ok [of x class_at] by (auto simp: released_def)
qed

subsection \<open>Raw isa: the whole count in the side table\<close>

definition raw_inv :: "(class_ptr \<Rightarrow> objc_class) \<Rightarrow> objc_object \<Rightarrow> bool" where
  "raw_inv class_at ob \<longleftrightarrow> \<not> nonpointer (isa ob) \<and> \<not> crashed ob \<and> \<not> isTaggedPointer ob \<and> \<not> slock ob
     \<and> \<not> isMetaClass (class_at (getClass (isa ob)))
     \<and> (case refcnt ob of None \<Rightarrow> True | Some r \<Rightarrow> unat r < 2 ^ 63 \<and> (bit r 1 \<longrightarrow> unat r < 4))"

definition raw_count :: "objc_object \<Rightarrow> nat" where
  "raw_count ob = (case refcnt ob of None \<Rightarrow> 1 | Some r \<Rightarrow> if bit r 1 then 0 else Suc (unat r div 4))"

lemma parity_add_4: "even ((n + 4) div 2) = even (n div (2 :: nat))"
  by presburger

lemma raw_retain:
  assumes inv: "raw_inv class_at ob" and "0 < raw_count ob" "raw_count ob < 2 ^ 60"
  shows "\<exists>r. retain_op class_at ob = ob\<lparr>refcnt := Some r\<rparr> \<and> unat r = unat (refcntStorage ob) + 4 
     \<and> unat r < 2 ^ 63 \<and> (bit r 1 = bit (refcntStorage ob) 1)"
proof -
  have lt: "unat (refcntStorage ob) + 4 < 2 ^ 63"
  proof (cases "refcnt ob")
    case (Some r)
    with assms(2,3) have "unat r div 4 < 2 ^ 60" by (auto simp: raw_count_def split: if_splits)
    then show ?thesis using Some by (simp add: refcntStorage_def)
  qed (simp add: refcntStorage_def)
  then have np: "refcntStorage ob AND SIDE_TABLE_RC_PINNED = 0" by (intro not_pinned) simp
  have one: "SIDE_TABLE_RC_ONE = 4" by (simp add: SIDE_TABLE_RC_ONE_def)
  have u: "unat (refcntStorage ob + 4) = unat (refcntStorage ob) + 4"
    using lt unat_add_lem [of "refcntStorage ob" 4] by simp
  have "bit (refcntStorage ob + 4) 1 = bit (refcntStorage ob) 1"
    using parity_add_4 [of "unat (refcntStorage ob)"] by (simp add: bit_iff_odd_unat u)
  moreover have "retain_op class_at ob = ob\<lparr>refcnt := Some (refcntStorage ob + 4)\<rparr>"
    using inv np by (auto simp: retain_op_def rootRetain_def retain_body_def raw_inv_def getDecodedClass_def
        retain_loop.simps [of _ _ "[]" "isa ob"] sidetable_retain_def sidetable_lock_def sidetable_unlock_def Let_def one)
  ultimately show ?thesis using u lt by (intro exI [of _ "refcntStorage ob + 4"]) simp
qed

lemma raw_release:
  assumes inv: "raw_inv class_at ob" and pos: "0 < raw_count ob"
  shows "\<exists>r. release_op class_at ob = (raw_count ob = 1, ob\<lparr>refcnt := Some r,
            deallocs := deallocs ob + of_bool (raw_count ob = 1)\<rparr>)
     \<and> unat r < 2 ^ 63 \<and> (if raw_count ob = 1 then bit r 1 \<and> unat r < 4
          else \<not> bit r 1 \<and> unat r + 4 = unat (refcntStorage ob))"
proof -
  have D: "SIDE_TABLE_DEALLOCATING = 2" "SIDE_TABLE_RC_ONE = 4"
    by (simp_all add: SIDE_TABLE_DEALLOCATING_def SIDE_TABLE_RC_ONE_def)
  have rel: "release_op class_at ob = (case sidetable_release False True ob of (b, ob') \<Rightarrow> (b, ob'))"
    using inv by (auto simp: release_op_def rootRelease_def release_body_def raw_inv_def getDecodedClass_def
        release_loop.simps [of _ _ "[]" "isa ob"] Let_def split: prod.split)
  note st = sidetable_release_def sidetable_lock_def sidetable_unlock_def send_dealloc_def Let_def
  show ?thesis
  proof (cases "refcnt ob")
    case None
    then show ?thesis using inv unfolding rel
      by (intro exI [of _ 2]) (auto simp: st raw_inv_def raw_count_def D bit_iff_odd_unat)
  next
    case (Some r)
    have nb: "\<not> bit r 1" and lt: "unat r < 2 ^ 63" using inv pos Some by (auto simp: raw_inv_def raw_count_def split: if_splits)
    from nb have ev: "even (unat r div 2)" by (simp add: bit_iff_odd_unat)
    have np: "r AND SIDE_TABLE_RC_PINNED = 0" using lt by (rule not_pinned)
    show ?thesis
    proof (cases "unat r < 2")
      case True
      then have c: "raw_count ob = 1" "r < SIDE_TABLE_DEALLOCATING" using Some nb by (simp_all add: raw_count_def D word_less_nat_alt)
      from True have "r = 0 \<or> r = 1" by (auto simp: word_unat_eq_iff)
      then have "bit (r OR 2) 1 \<and> unat (r OR 2) < 4" by (auto simp: bit_iff_odd_unat)
      then show ?thesis using inv Some c unfolding rel
        by (intro exI [of _ "r OR 2"]) (auto simp: st raw_inv_def D)
    next
      case False
      then have ge: "4 \<le> unat r" using ev by presburger
      then have c: "raw_count ob \<noteq> 1" "\<not> r < SIDE_TABLE_DEALLOCATING" using Some nb False 
        by (auto simp: raw_count_def D word_less_nat_alt)
      have u: "unat (r - 4) = unat r - 4" using ge by (subst unat_sub) (simp_all add: word_le_nat_alt)
      have "\<not> bit (r - 4) 1" using parity_add_4 [of "unat r - 4"] ev ge by (simp add: bit_iff_odd_unat u)
      then show ?thesis using inv Some c np u ge lt unfolding rel
        by (intro exI [of _ "r - 4"]) (auto simp: st raw_inv_def D refcntStorage_def)
    qed
  qed
qed

lemma raw_count_Some: "refcnt ob = Some r \<Longrightarrow> \<not> bit r 1 \<Longrightarrow> raw_count ob = Suc (unat r div 4)"
  by (simp add: raw_count_def)

lemma raw_retain_count:
  assumes inv: "raw_inv class_at ob" and pos: "0 < raw_count ob" and lim: "raw_count ob < 2 ^ 60"
  shows "raw_inv class_at (retain_op class_at ob)" "raw_count (retain_op class_at ob) = Suc (raw_count ob)"
    "deallocs (retain_op class_at ob) = deallocs ob"
proof -
  from raw_retain [OF assms] obtain r where r: "retain_op class_at ob = ob\<lparr>refcnt := Some r\<rparr>"
    "unat r = unat (refcntStorage ob) + 4" "unat r < 2 ^ 63" "bit r 1 = bit (refcntStorage ob) 1" by blast
  have nb: "\<not> bit (refcntStorage ob) 1" and c: "raw_count ob = Suc (unat (refcntStorage ob) div 4)"
    using pos by (auto simp: raw_count_def refcntStorage_def split: option.splits if_splits)
  show "raw_inv class_at (retain_op class_at ob)" using inv r nb by (simp add: raw_inv_def)
  show "raw_count (retain_op class_at ob) = Suc (raw_count ob)" using r nb c by (simp add: raw_count_def)
  show "deallocs (retain_op class_at ob) = deallocs ob" using r by simp
qed

lemma raw_release_count:
  assumes inv: "raw_inv class_at ob" and pos: "0 < raw_count ob"
  shows "raw_inv class_at (snd (release_op class_at ob))"
    "raw_count (snd (release_op class_at ob)) = raw_count ob - 1"
    "fst (release_op class_at ob) = (raw_count ob = 1)"
    "deallocs (snd (release_op class_at ob)) = deallocs ob + of_bool (raw_count ob = 1)"
proof -
  from raw_release [OF assms] obtain r where r: "release_op class_at ob = (raw_count ob = 1, ob\<lparr>refcnt := Some r,
            deallocs := deallocs ob + of_bool (raw_count ob = 1)\<rparr>)" "unat r < 2 ^ 63"
     "if raw_count ob = 1 then bit r 1 \<and> unat r < 4 else \<not> bit r 1 \<and> unat r + 4 = unat (refcntStorage ob)" by blast
  have c: "raw_count ob = Suc (unat (refcntStorage ob) div 4)"
    using pos by (auto simp: raw_count_def refcntStorage_def split: option.splits if_splits)
  show "raw_inv class_at (snd (release_op class_at ob))" using inv r
    by (auto simp: raw_inv_def split: if_splits)
  show "raw_count (snd (release_op class_at ob)) = raw_count ob - 1"
  proof (cases "raw_count ob = 1")
    case False
    with r(3) have nb: "\<not> bit r 1" and "unat (refcntStorage ob) = unat r + 4" by auto
    with c have "raw_count ob = Suc (Suc (unat r div 4))" by simp
    moreover have "raw_count (snd (release_op class_at ob)) = Suc (unat r div 4)"
      using nb by (simp add: r(1) raw_count_def)
    ultimately show ?thesis by simp
  next
    case True
    with r(3) have "bit r 1" by simp
    then have "raw_count (snd (release_op class_at ob)) = 0" by (simp add: r(1) raw_count_def)
    with True show ?thesis by simp
  qed
qed (use raw_release [OF assms] in auto)

interpretation raw: retain_release "raw_inv class_at" raw_count "2 ^ 60" "retain_op class_at" "release_op class_at" deallocs
  for class_at
proof (unfold_locales, goal_cases)
  case (1 x) then show ?case by (rule raw_retain_count(1))
next
  case (2 x) then show ?case by (rule raw_retain_count(2))
next
  case (3 x) then show ?case by (rule raw_retain_count(3))
next
  case (4 x) then show ?case by (rule raw_release_count(1))
next
  case (5 x) then show ?case by (rule raw_release_count(2))
next
  case (6 x) then show ?case by (rule raw_release_count(3))
next
  case (7 x) then show ?case by (rule raw_release_count(4))
qed

subsection \<open>changeIsa\<close>

lemma valid_class_shift: "valid_class_ptr c \<Longrightarrow> push_bit 3 (take_bit 44 (drop_bit 3 c)) = c"
  using getClass_shiftcls [of c] by (simp add: valid_class_ptr_def getClass_def shiftcls_def get_field_def)

lemma getClass_valid: "valid_class_ptr c \<Longrightarrow> getClass c = c"
  by (simp add: valid_class_ptr_def getClass_def)

lemma setClass_raw: "valid_class_ptr c \<Longrightarrow> setClass c 0 = c"
  by (simp add: setClass_def set_shiftcls_def set_field_def valid_class_shift)

lemma valid_class_ptr_low: "valid_class_ptr c \<Longrightarrow> \<not> nonpointer c"
  unfolding nonpointer_def by (subst valid_class_shift [symmetric]) (simp_all add: bit_simps)

lemma moveExtraRC:
  assumes dvd: "512 dvd unat (refcntStorage ob)" and e: "0 < unat e" "unat e < 256" and lim: "unat (refcntStorage ob) < 2 ^ 62"
  shows "\<exists>r. sidetable_moveExtraRC_nolock e False weak ob = ob\<lparr>refcnt := Some r\<rparr>
    \<and> unat r = unat (refcntStorage ob) + 4 * (unat e - 1) + of_bool weak \<and> \<not> bit r 1 \<and> bit r 0 = weak"
proof -
  let ?R = "refcntStorage ob"
  have "4 dvd (512 :: nat)" by simp
  then have "4 dvd unat ?R" using dvd dvd_trans by blast
  then obtain k where k: "unat ?R = 4 * k" by blast
  have e1: "unat (e - 1) = unat e - 1" using e by (simp add: unat_sub word_le_nat_alt)
  have p: "unat (push_bit 2 (e - 1)) = 4 * (unat e - 1)" using e e1
    by (simp only: unsigned_push_bit_eq) (simp add: take_bit_eq_mod push_bit_eq_mult)
  define x where "x = ?R + push_bit 2 (e - 1)"
  have x: "unat x = 4 * (k + (unat e - 1))"
  proof (cases "unat e")
    case (Suc m)
    then show ?thesis unfolding x_def
      using unat_add_lem [of ?R "push_bit 2 (e - 1)"] p e lim k by simp
  qed (use e in simp)
  have lt: "unat ?R + unat (push_bit 2 (e - 1)) < 2 ^ 64" using p e lim by simp
  have bits: "\<not> bit x 0" "\<not> bit x 1" unfolding bit_iff_odd_unat x by simp_all
  define r where "r = (if weak then x OR 1 else x)"
  have "sidetable_moveExtraRC_nolock e False weak ob = ob\<lparr>refcnt := Some r\<rparr>"
    using lt by (simp add: sidetable_moveExtraRC_nolock_def addc_def builtin_addc_def x_def r_def
        SIDE_TABLE_WEAKLY_REFERENCED_def Let_def)
  moreover have "unat r = unat x + of_bool weak"
  proof (cases weak)
    case True
    have "x OR 1 = x + 1" using bits(1) by (simp add: or_one_eq bit_0)
    moreover have "unat x + 1 < 2 ^ 64" using x k lim e by simp
    then have "unat (x + 1) = unat x + 1" using unat_add_lem [of x 1] by simp
    ultimately show ?thesis using True by (simp add: r_def)
  qed (simp add: r_def)
  moreover have "\<not> bit r 1" "bit r 0 = weak" using bits by (auto simp: r_def bit_simps)
  ultimately show ?thesis using x k by (intro exI [of _ r]) simp
qed

lemma minus_one_shifted: "unat (push_bit 2 (- 1) :: u64) = 18446744073709551612"
proof -
  have "push_bit 2 (- 1) = (18446744073709551612 :: u64)" by (simp add: push_bit_eq_mult word_eq_iff_unsigned)
  then show ?thesis by (simp only:) simp
qed

lemma isa_magic_and: "b AND ISA_MAGIC_MASK = of_bool (nonpointer b) OR push_bit 47 (magic b)"
proof -
  have m: "ISA_MAGIC_MASK = 1 OR push_bit 47 (mask 6)" by (simp add: ISA_MAGIC_MASK_def mask_eq_exp_minus_1)
  show ?thesis unfolding m nonpointer_def magic_def get_field_def
    by (rule bit_word_eqI) (auto simp: bit_simps)
qed

lemma initIsa_fields:
  assumes "valid_class_ptr cls"
  shows "getClass (initIsa cls np dtor) = cls \<and> nonpointer (initIsa cls np dtor) = np \<and>
     (if np then initIsa cls np dtor AND ISA_MAGIC_MASK = ISA_MAGIC_VALUE
         \<and> has_cxx_dtor (initIsa cls np dtor) = dtor \<and> extra_rc (initIsa cls np dtor) = 1
         \<and> \<not> has_assoc (initIsa cls np dtor) \<and> \<not> weakly_referenced (initIsa cls np dtor)
         \<and> \<not> has_sidetable_rc (initIsa cls np dtor)
      else initIsa cls np dtor = cls)"
proof -
  have mv: "nonpointer ISA_MAGIC_VALUE" "\<not> has_assoc ISA_MAGIC_VALUE" "\<not> weakly_referenced ISA_MAGIC_VALUE"
     "\<not> has_sidetable_rc ISA_MAGIC_VALUE" "magic ISA_MAGIC_VALUE = 59"
    by (simp_all add: ISA_MAGIC_VALUE_def isa_field_defs bit_iff_odd_unat get_field_def take_bit_eq_mod drop_bit_eq_div)
  have mm: "b AND ISA_MAGIC_MASK = ISA_MAGIC_VALUE" if "nonpointer b" "magic b = 59" for b
    using that by (simp add: isa_magic_and) (simp add: ISA_MAGIC_VALUE_def)
  show ?thesis using assms mv mm [of "initIsa cls np dtor"] valid_class_ptr_low [OF assms]
    by (cases np) (simp_all add: initIsa_def setClass_raw getClass_valid)
qed

definition fresh_object :: "u64 \<Rightarrow> class_ptr \<Rightarrow> bool \<Rightarrow> objc_object" where
  "fresh_object addr cls dtor = \<lparr>obj_addr = addr, isa = initIsa cls True dtor, refcnt = None, slock = False,
     crashed = False, weak_entry = False, deallocs = 0\<rparr>"

lemma fresh_object_inv:
  assumes "\<not> bit addr 0" and "valid_class_ptr cls"
  shows "unlocked_inv (fresh_object addr cls dtor)" "rc (fresh_object addr cls dtor) = 1"
  using assms initIsa_fields [OF assms(2), of True dtor] and_single_eq_0 [of 0 addr]
  by (auto simp: unlocked_inv_def rr_inv_def fresh_object_def isTaggedPointer_def OBJC_TAG_MASK_def rc_def refcntStorage_def)

subsection \<open>Teardown\<close>

definition weak_ok :: "objc_object \<Rightarrow> bool" where
  "weak_ok ob \<longleftrightarrow> (weak_entry ob \<longrightarrow> isWeaklyReferenced ob)
     \<and> (nonpointer (isa ob) \<longrightarrow> (has_sidetable_rc (isa ob) \<longleftrightarrow> refcnt ob \<noteq> None)) \<and> \<not> slock ob \<and> \<not> crashed ob"

lemma set_weakly_referenced_idem:
  assumes "weakly_referenced v" shows "set_weakly_referenced True v = v"
proof (rule bit_word_eqI)
  fix n
  show "bit (set_weakly_referenced True v) n = bit v n"
    using assms by (cases "n = 53") (auto simp: isa_field_defs bit_set_field bit_simps)
qed

subsection \<open>Properties\<close>

definition ex_ob :: objc_object where "ex_ob = fresh_object 0x1000 0x2000 False"

text \<open>A word another thread leaves by retaining the object up to the limit of the inline count.\<close>

definition ex_full :: isa_t where "ex_full = set_extra_rc 255 (isa ex_ob)"

lemma ex_ob_inv: "unlocked_inv ex_ob" "rc ex_ob = 1" "valid_class_ptr 0x2000"
  using fresh_object_inv [of "0x1000" "0x2000" False]
  by (simp_all add: ex_ob_def bit_iff_odd_unat valid_class_ptr_def ISA_MASK_def)

lemma ex_ob_fields [simp]:
  "nonpointer (isa ex_ob)" "extra_rc (isa ex_ob) = 1" "\<not> has_sidetable_rc (isa ex_ob)" "refcnt ex_ob = None"
  "\<not> slock ex_ob" "\<not> crashed ex_ob" "\<not> isTaggedPointer ex_ob" "\<not> isDeallocating (isa ex_ob)"
  "refcntStorage ex_ob = 0" "\<not> weakly_referenced (isa ex_ob)" "rr_inv ex_ob" "\<not> weak_entry ex_ob"
  using ex_ob_inv(1) initIsa_fields [OF ex_ob_inv(3), of True False]
  by (auto simp: unlocked_inv_def rr_inv_def isDeallocating_def ex_ob_def fresh_object_def refcntStorage_def)

lemma ex_full_calm: "calm [None, Some ex_full] ex_ob"
  by (auto simp: ex_full_def rr_inv_def isDeallocating_def)





text \<open>C3. Any sequence of retains and releases that a plain counter allows (no operation after
  the count reaches zero, never above 2 to the 60) keeps the packed representation equal to
  that counter, and sends \<open>-dealloc\<close> exactly once, at the release that reaches zero.\<close>

theorem nonpointer_refines_counter:
  assumes "unlocked_inv ob" and "count_run (2 ^ 60) (rc ob) ops = Some m"
  shows "unlocked_inv (run (retain_op class_at) (release_op class_at) ops ob)
    \<and> rc (run (retain_op class_at) (release_op class_at) ops ob) = m
    \<and> deallocs (run (retain_op class_at) (release_op class_at) ops ob) = deallocs ob + of_bool (0 < rc ob \<and> m = 0)"
  using assms by (rule np.run_refines_count)

theorem nonpointer_refines_counter_witness:
  "deallocs (run (retain_op (\<lambda>_. example_class)) (release_op (\<lambda>_. example_class)) [Retain, Release, Release] ex_ob) = 1"
  using nonpointer_refines_counter [of ex_ob "[Retain, Release, Release]" 0 "\<lambda>_. example_class"] ex_ob_inv
  by (simp add: ex_ob_def fresh_object_def)

definition raw_ob :: objc_object where "raw_ob = ex_ob\<lparr>isa := 0x2000\<rparr>"

lemma raw_ob_inv: "raw_inv (\<lambda>_. example_class) raw_ob" "raw_count raw_ob = 1"
  by (simp_all add: raw_inv_def raw_count_def raw_ob_def valid_class_ptr_low ex_ob_inv(3) isMetaClass_def example_class_def)

text \<open>C4. The same contract holds for an object with a raw isa, whose whole count and
  deallocating flag live in its side table entry.\<close>

theorem raw_refines_counter:
  assumes "raw_inv class_at ob" and "count_run (2 ^ 60) (raw_count ob) ops = Some m"
  shows "raw_inv class_at (run (retain_op class_at) (release_op class_at) ops ob)
    \<and> raw_count (run (retain_op class_at) (release_op class_at) ops ob) = m
    \<and> deallocs (run (retain_op class_at) (release_op class_at) ops ob) = deallocs ob + of_bool (0 < raw_count ob \<and> m = 0)"
  using assms by (rule raw.run_refines_count)

theorem raw_refines_counter_witness:
  "raw_count (run (retain_op (\<lambda>_. example_class)) (release_op (\<lambda>_. example_class)) [Retain, Retain, Release] raw_ob) = 2"
  using raw_refines_counter [of "\<lambda>_. example_class" raw_ob "[Retain, Retain, Release]" 2] raw_ob_inv by simp

text \<open>\<open>retainCount\<close> reports the total count.\<close>

lemma rootRetainCount_exact:
  assumes "rr_inv ob" and "rc ob < 2 ^ 60"
  shows "unat (rootRetainCount ob) = rc ob"
proof -
  have R: "unat (refcntStorage ob) div 4 < 2 ^ 60" using assms(2) by (simp add: rc_def)
  have "unat (extra_rc (isa ob)) + unat (drop_bit 2 (refcntStorage ob)) < 2 ^ 64"
    using extra_rc_le [of "isa ob"] R by (simp add: unat_drop_bit)
  then have "unat (extra_rc (isa ob) + drop_bit 2 (refcntStorage ob)) = rc ob"
    using unat_add_lem [of "extra_rc (isa ob)" "drop_bit 2 (refcntStorage ob)"] by (simp add: unat_drop_bit rc_def)
  moreover have "rootRetainCount ob = extra_rc (isa ob) + drop_bit 2 (refcntStorage ob)"
    using assms(1) by (auto simp: rootRetainCount_def rr_inv_def sidetable_getExtraRC_nolock_def refcntStorage_def
        split: option.split)
  ultimately show ?thesis by simp
qed

lemma rootRetainCount_exact_witness:
  "unat (rootRetainCount ex_ob) = 1"
  using rootRetainCount_exact [of ex_ob] ex_ob_inv(2) by simp

definition raw_class :: objc_class where "raw_class = setInstancesRequireRawIsa example_class"

lemma raw_class_flags: "\<not> canAllocNonpointer raw_class" "\<not> isMetaClass raw_class"
  by (simp_all add: raw_class_def canAllocNonpointer_def isMetaClass_def class_flag_ops example_class_def flag_defs
      getBit_def)

text \<open>C30. Changing the class of a live object to one that requires raw isas moves the inline
  count into the side table without losing any: the retain count, the weak reference flag and
  the liveness read the same before and after, the old class is returned, and the result
  satisfies the raw representation's invariant. (The inline part must not be zero.)\<close>

theorem changeIsa_to_raw:
  assumes inv: "unlocked_inv ob" and e: "0 < extra_rc (isa ob)" and lim: "rc ob < 2 ^ 60"
    and cls: "valid_class_ptr newCls" "isFuture (class_at newCls) \<or> \<not> canAllocNonpointer (class_at newCls)"
      "\<not> isMetaClass (class_at newCls)"
  shows "\<exists>ob'. changeIsa class_at newCls [] ob = (getClass (isa ob), ob') \<and> isa ob' = newCls \<and> raw_inv class_at ob'
    \<and> raw_count ob' = rc ob \<and> rootRetainCount ob' = rootRetainCount ob
    \<and> isWeaklyReferenced ob' = isWeaklyReferenced ob \<and> \<not> rootIsDeallocating ob'"
proof -
  have np: "nonpointer (isa ob)" "\<not> slock ob" "\<not> isTaggedPointer ob" "\<not> crashed ob"
    and sid: "has_sidetable_rc (isa ob) \<longleftrightarrow> refcnt ob \<noteq> None"
    using inv by (auto simp: unlocked_inv_def rr_inv_def)
  have e': "0 < unat (extra_rc (isa ob))" using e by (simp add: word_less_nat_alt)
  then have live: "\<not> isDeallocating (isa ob)" by (auto simp: isDeallocating_def)
  have R: "unat (refcntStorage ob) div 4 < 2 ^ 60" using lim by (simp add: rc_def)
  then have R': "unat (refcntStorage ob) < 2 ^ 62" by simp
  let ?ob = "ob\<lparr>isa := newCls, slock := True\<rparr>"
  have dvd: "512 dvd unat (refcntStorage ob)"
    using inv by (auto simp: unlocked_inv_def rr_inv_def refcntStorage_def split: option.splits)
  from moveExtraRC [of ?ob, OF _ e' extra_rc_le, of "weakly_referenced (isa ob)"] R' dvd obtain r where
    mv: "sidetable_moveExtraRC_nolock (extra_rc (isa ob)) False (weakly_referenced (isa ob)) ?ob = ?ob\<lparr>refcnt := Some r\<rparr>"
    and r: "unat r = unat (refcntStorage ob) + 4 * (unat (extra_rc (isa ob)) - 1) + of_bool (weakly_referenced (isa ob))"
      "\<not> bit r 1" "bit r 0 = weakly_referenced (isa ob)" by auto
  have div4: "Suc (unat r div 4) = unat (extra_rc (isa ob)) + unat (refcntStorage ob) div 4"
  proof -
    have "4 dvd (512 :: nat)" by simp
    then obtain k where k: "unat (refcntStorage ob) = 4 * k" using dvd dvd_trans by (metis dvd_def)
    obtain m where "unat (extra_rc (isa ob)) = Suc m" using e' by (cases "unat (extra_rc (isa ob))") auto
    moreover have "Suc (4 * k + 4 * m) div 4 = m + k" by presburger
    ultimately show ?thesis using r(1) k by simp
  qed
  let ?o' = "ob\<lparr>isa := newCls, refcnt := Some r\<rparr>"
  have "changeIsa class_at newCls [] ob = (getClass (isa ob), ?o')"
    using np cls live mv
    by (auto simp: changeIsa_def changeIsa_loop.simps [of _ _ "[]" "isa ob"] changeIsa_transcribes_def Let_def setClass_raw
        sidetable_lock_def sidetable_unlock_def getDecodedClass_def)
  moreover have count: "raw_count ?o' = rc ob" 
    using r(2) div4 by (simp add: raw_count_def rc_def)
  moreover have "raw_inv class_at ?o'"
  proof -
    have "unat r div 4 < 2 ^ 61" using div4 R extra_rc_le [of "isa ob"] by simp
    then have "unat r < 2 ^ 63" by simp
    then show ?thesis using np cls(1,3) r(2) getClass_setClass_valid [OF cls(1), of 0]
      by (simp add: raw_inv_def valid_class_ptr_low setClass_raw)
  qed
  moreover have "rootRetainCount ?o' = rootRetainCount ob"
  proof -
    have "1 + drop_bit 2 r = extra_rc (isa ob) + drop_bit 2 (refcntStorage ob)"
    proof -
      have lt: "unat (extra_rc (isa ob)) + unat (drop_bit 2 (refcntStorage ob)) < 2 ^ 64"
        and lt1: "1 + unat (drop_bit 2 r) < 2 ^ 64"
        using extra_rc_le [of "isa ob"] R div4 by (simp_all add: unat_drop_bit)
      show ?thesis
        using unat_add_lem [of 1 "drop_bit 2 r"] unat_add_lem [of "extra_rc (isa ob)" "drop_bit 2 (refcntStorage ob)"] lt lt1 div4
        by (simp add: word_unat_eq_iff unat_drop_bit)
    qed
    then show ?thesis using np sid cls(1) by (auto simp: rootRetainCount_def valid_class_ptr_low sidetable_retainCount_def
       sidetable_getExtraRC_nolock_def refcntStorage_def split: option.split)
  qed
  moreover have "isWeaklyReferenced ?o' = isWeaklyReferenced ob" "\<not> rootIsDeallocating ?o'"
    using r np cls and_single_eq_0 [of 0 r] and_single_eq_0 [of 1 r]
    by (simp_all add: isWeaklyReferenced_def rootIsDeallocating_def valid_class_ptr_low sidetable_isWeaklyReferenced_def
         sidetable_isDeallocating_def SIDE_TABLE_WEAKLY_REFERENCED_def SIDE_TABLE_DEALLOCATING_def)
  ultimately show ?thesis by (intro exI [of _ ?o']) simp
qed

theorem changeIsa_to_raw_witness:
  "\<exists>ob'. changeIsa (\<lambda>_. raw_class) 0x2000 [] ex_ob = (getClass (isa ex_ob), ob') \<and> isa ob' = 0x2000
    \<and> raw_count ob' = 1"
  using changeIsa_to_raw [of ex_ob "0x2000" "\<lambda>_. raw_class"] ex_ob_inv raw_class_flags by auto

text \<open>C31. When the inline count is zero and the side table holds counts, the same change pins
  the object instead: \<open>extra_rc - 1\<close> wraps, the addition carries, and the entry becomes
  \<open>SIDE_TABLE_RC_PINNED\<close>, so that a later release changes nothing and never deallocates.\<close>

theorem changeIsa_pins_borrowed_count:
  assumes inv: "unlocked_inv ob" and e: "extra_rc (isa ob) = 0" and sid: "has_sidetable_rc (isa ob)"
    and cls: "valid_class_ptr newCls" "isFuture (class_at newCls) \<or> \<not> canAllocNonpointer (class_at newCls)"
      "\<not> isMetaClass (class_at newCls)"
  shows "\<exists>ob'. changeIsa class_at newCls [] ob = (getClass (isa ob), ob') \<and> isa ob' = newCls
    \<and> release_op class_at ob' = (False, ob')"
proof -
  have np: "nonpointer (isa ob)" "\<not> slock ob" "\<not> isTaggedPointer ob" "\<not> crashed ob"
    using inv by (auto simp: unlocked_inv_def rr_inv_def)
  obtain r where r: "refcnt ob = Some r" "0 < unat r" "512 dvd unat r"
    using inv sid by (auto simp: unlocked_inv_def rr_inv_def)
  have le: "512 \<le> unat r" using r by (auto intro: dvd_imp_le)
  define w where "w = weakly_referenced (isa ob)"
  define q where "q = (if w then SIDE_TABLE_RC_PINNED OR SIDE_TABLE_WEAKLY_REFERENCED else SIDE_TABLE_RC_PINNED)"
  have carry: "snd (addc (refcntStorage ob) (push_bit 2 (- 1)) 0)"
    using le r(1) minus_one_shifted by (simp only: addc_def builtin_addc_def refcntStorage_def) simp
  let ?o' = "ob\<lparr>isa := newCls, refcnt := Some q\<rparr>"
  have live: "\<not> isDeallocating (isa ob)" using sid by (simp add: isDeallocating_def)
  have mv: "sidetable_moveExtraRC_nolock 0 False w x = x\<lparr>refcnt := Some q\<rparr>" if "refcntStorage x = refcntStorage ob" for x
    using carry that by (simp add: sidetable_moveExtraRC_nolock_def split_beta Let_def q_def)
  have "changeIsa class_at newCls [] ob = (getClass (isa ob), ?o')"
    using np cls live mv e w_def
    by (auto simp: changeIsa_def changeIsa_loop.simps [of _ _ "[]" "isa ob"] changeIsa_transcribes_def Let_def setClass_raw
        sidetable_lock_def sidetable_unlock_def getDecodedClass_def)
  moreover have q: "q AND SIDE_TABLE_RC_PINNED \<noteq> 0" "\<not> q < SIDE_TABLE_DEALLOCATING"
    by (auto simp: q_def SIDE_TABLE_RC_PINNED_def SIDE_TABLE_WEAKLY_REFERENCED_def SIDE_TABLE_DEALLOCATING_def)
  have "release_op class_at ?o' = (False, ?o')"
    using np cls q getClass_setClass_valid [OF cls(1), of 0] 
    by (simp add: release_op_def rootRelease_def release_body_def getDecodedClass_def setClass_raw valid_class_ptr_low
        release_loop.simps [of _ _ "[]" newCls] Let_def sidetable_release_def sidetable_lock_def sidetable_unlock_def)
  ultimately show ?thesis by (intro exI [of _ ?o']) simp
qed

definition borrowed_ob :: objc_object where
  "borrowed_ob = ex_ob\<lparr>isa := set_has_sidetable_rc True (set_extra_rc 0 (isa ex_ob)), refcnt := Some 512\<rparr>"

theorem changeIsa_pins_borrowed_count_witness:
  "rc borrowed_ob = 128 \<and> (\<exists>ob'. changeIsa (\<lambda>_. raw_class) 0x2000 [] borrowed_ob = (getClass (isa borrowed_ob), ob')
     \<and> release_op (\<lambda>_. raw_class) ob' = (False, ob'))"
proof -
  have "unlocked_inv borrowed_ob" "extra_rc (isa borrowed_ob) = 0" "has_sidetable_rc (isa borrowed_ob)" "rc borrowed_ob = 128"
    by (simp_all add: borrowed_ob_def unlocked_inv_def rr_inv_def rc_def)
  then show ?thesis
    using changeIsa_pins_borrowed_count [of borrowed_ob "0x2000" "\<lambda>_. raw_class"] ex_ob_inv(3) raw_class_flags by auto
qed

text \<open>C39. A new isa word names the class it was made for and, packed, carries the magic
  number, the destructor flag, a count of one and no other flag; a class's own isa is packed
  unless packing is disabled or its instances need raw isas.\<close>

theorem initIsa_roundtrip:
  assumes "valid_class_ptr cls"
  shows "getClass (initInstanceIsa cls dtor) = cls \<and> nonpointer (initInstanceIsa cls dtor)
     \<and> initInstanceIsa cls dtor AND ISA_MAGIC_MASK = ISA_MAGIC_VALUE
     \<and> has_cxx_dtor (initInstanceIsa cls dtor) = dtor \<and> extra_rc (initInstanceIsa cls dtor) = 1
     \<and> \<not> has_assoc (initInstanceIsa cls dtor) \<and> \<not> weakly_referenced (initInstanceIsa cls dtor)
     \<and> \<not> isDeallocating (initInstanceIsa cls dtor)
     \<and> getClass (initClassIsa dis class_at cls) = cls
     \<and> nonpointer (initClassIsa dis class_at cls) = (\<not> dis \<and> canAllocNonpointer (class_at cls))
     \<and> (dis \<longrightarrow> initClassIsa dis class_at cls = cls)"
  using initIsa_fields [OF assms, of True dtor] initIsa_fields [OF assms, of True False] initIsa_fields [OF assms, of False False]
    getClass_valid [OF assms] valid_class_ptr_low [OF assms]
  by (simp add: initInstanceIsa_def initClassIsa_def canAllocNonpointer_def isDeallocating_def)

theorem initIsa_roundtrip_witness:
  "getClass (initInstanceIsa 0x2000 True) = 0x2000 \<and> has_cxx_dtor (initInstanceIsa 0x2000 True)"
  using initIsa_roundtrip [OF ex_ob_inv(3), of True] by simp

text \<open>Clearing a deallocating object removes its side table entry and its weak table entry
  and releases the lock, for either form of isa; and \<open>rootDealloc\<close> frees the memory at once
  only for an object that has nothing to clear.\<close>

lemma clearDeallocating_clean:
  assumes "weak_ok ob"
  shows "refcnt (clearDeallocating ob) = None \<and> \<not> weak_entry (clearDeallocating ob)
    \<and> \<not> slock (clearDeallocating ob) \<and> \<not> crashed (clearDeallocating ob) \<and> isa (clearDeallocating ob) = isa ob
    \<and> (rootDealloc ob = DeallocFree \<longrightarrow> clearDeallocating ob = ob)"
  using assms
  by (auto simp: weak_ok_def clearDeallocating_def sidetable_clearDeallocating_def clearDeallocating_slow_def
      sidetable_lock_def sidetable_unlock_def weak_clear_no_lock_def Let_def isWeaklyReferenced_def
      sidetable_isWeaklyReferenced_def rootDealloc_def split: option.splits if_splits)

lemma clearDeallocating_clean_witness:
  "refcnt (clearDeallocating borrowed_ob) = None \<and> rootDealloc borrowed_ob = DeallocDispose"
  using clearDeallocating_clean [of borrowed_ob] by (simp add: weak_ok_def borrowed_ob_def rootDealloc_def)

text \<open>Marking an object weakly referenced sets that one bit of the word that is there at
  its store, whatever other threads leave before it.\<close>

lemma setWeaklyReferenced_linear:
  assumes "calm s ob" and "rr_inv ob" 
  shows "\<exists>v \<in> seen s ob. setWeaklyReferenced_nolock s ob = ob\<lparr>isa := set_weakly_referenced True v\<rparr>"
proof -
  note idem = set_weakly_referenced_idem
  have loop: "\<exists>v \<in> seen s ob. set_weakly_loop s (isa ob) ob = ob\<lparr>isa := set_weakly_referenced True v\<rparr>"
    if "calm s ob" "rr_inv ob" for s ob
    using that
  proof (induction s arbitrary: ob)
    case Nil
    then show ?case using idem [of "isa ob"] by (auto simp: set_weakly_loop.simps rr_inv_def seen_def)
  next
    case (Cons e s)
    show ?case
    proof (cases "weakly_referenced (isa ob) \<or> e = None")
      case True
      then show ?thesis using Cons.prems idem [of "isa ob"]
        by (auto simp: set_weakly_loop.simps [of "e # s"] rr_inv_def seen_def)
    next
      case False
      then obtain v where e: "e = Some v" by auto
      have "set_weakly_loop (e # s) (isa ob) ob = set_weakly_loop s v (ob\<lparr>isa := v\<rparr>)"
        using False e Cons.prems by (simp add: set_weakly_loop.simps [of "Some v # s"] rr_inv_def)
      with Cons.IH [of "ob\<lparr>isa := v\<rparr>"] Cons.prems e show ?thesis by (auto simp: seen_def)
    qed
  qed
  show ?thesis
  proof (cases "(s, ob)" rule: LoadExclusive.cases)
    case (1 ob')
    then show ?thesis using loop [OF assms] by (simp add: setWeaklyReferenced_nolock_def seen_def)
  next
    case (2 s' ob')
    then show ?thesis using loop [of s' ob] assms by (simp add: setWeaklyReferenced_nolock_def seen_def)
  next
    case (3 v s' ob')
    then show ?thesis using loop [of s' "ob\<lparr>isa := v\<rparr>"] assms by (auto simp: setWeaklyReferenced_nolock_def seen_def)
  qed
qed

lemma setWeaklyReferenced_linear_witness:
  "\<exists>v \<in> seen [None, Some ex_full] ex_ob.
     setWeaklyReferenced_nolock [None, Some ex_full] ex_ob = ex_ob\<lparr>isa := set_weakly_referenced True v\<rparr>"
  using setWeaklyReferenced_linear [OF ex_full_calm] by simp

end
