(* ===== verification/DenseMap.thy ===== *)
theory DenseMap
  imports Prelude
begin

text \<open>
  \<open>objc::DenseMap\<close> (\<open>llvm-DenseMap.h\<close>), the open-addressed hash table behind the side tables'
  reference counts and the associated objects: power-of-two bucket arrays, quadratic probing,
  tombstones, and values that may be purged instead of kept (\<open>ValueInfoT::isPurgeable\<close>, true
  of a zero reference count). The traits of a key type are an argument of the operations.
  Counters are natural numbers; where the code computes with them it does so in 32 bits, as here,
  and the load tests are shown to be exact for tables of up to \<open>2 ^ 29\<close> buckets.
\<close>

record ('k, 'v) map_info =
  EmptyKey :: 'k
  TombstoneKey :: 'k
  HashValue :: "'k \<Rightarrow> nat"
  isPurgeable :: "'v \<Rightarrow> bool"
  DefaultValue :: 'v       \<comment> \<open>\<open>ValueT()\<close>\<close>

type_synonym ('k, 'v) bucket = "'k \<times> 'v"

record ('k, 'v) dense_map =
  Buckets :: "('k \<times> 'v) list"
  NumEntries :: nat
  NumTombstones :: nat

definition MIN_BUCKETS :: u32 where "MIN_BUCKETS = 4"
definition MIN_COMPACT :: nat where "MIN_COMPACT = 1024"

definition getNumBuckets :: "('k, 'v) dense_map \<Rightarrow> nat" where
  "getNumBuckets m = length (Buckets m)"

subsection \<open>Sizes\<close>

definition NextPowerOf2 :: "u32 \<Rightarrow> u32" where
  "NextPowerOf2 a =
     (let a1 = a OR drop_bit 1 a; a2 = a1 OR drop_bit 2 a1; a3 = a2 OR drop_bit 4 a2;
          a4 = a3 OR drop_bit 8 a3; a5 = a4 OR drop_bit 16 a4
      in a5 + 1)"

definition getMinBucketToReserveForEntries :: "u32 \<Rightarrow> u32" where
  "getMinBucketToReserveForEntries n = (if n = 0 then 0 else NextPowerOf2 (n * 4 div 3 + 1))"

definition grow_size :: "u32 \<Rightarrow> u32" where
  "grow_size AtLeast = max MIN_BUCKETS (NextPowerOf2 (AtLeast - 1))"

subsection \<open>Lookup\<close>

datatype lookup_result = LFound nat | LNotFound nat | LNoBuckets | LFatal

function LookupBucketFor_loop ::
  "('k, 'v) map_info \<Rightarrow> ('k \<times> 'v) list \<Rightarrow> 'k \<Rightarrow> nat \<Rightarrow> nat \<Rightarrow> nat option \<Rightarrow> lookup_result" where
  "LookupBucketFor_loop info bs Val BucketNo ProbeAmt FoundTombstone =
     (let ThisBucket = bs ! BucketNo; NumBuckets = length bs
      in if Val = fst ThisBucket then LFound BucketNo
         else if fst ThisBucket = EmptyKey info
         then LNotFound (case FoundTombstone of Some t \<Rightarrow> t | None \<Rightarrow> BucketNo)
         else let ft1 = (if fst ThisBucket = TombstoneKey info \<and> FoundTombstone = None then Some BucketNo else FoundTombstone);
                  ft2 = (if isPurgeable info (snd ThisBucket) \<and> ft1 = None then Some BucketNo else ft1)
              in if ProbeAmt > NumBuckets then LFatal
                 else LookupBucketFor_loop info bs Val ((BucketNo + ProbeAmt) AND (NumBuckets - 1)) (ProbeAmt + 1) ft2)"
  by pat_completeness auto
termination
  by (relation "measure (\<lambda>(info, bs, Val, b, p, ft). Suc (length bs) - p)") auto

definition LookupBucketFor :: "('k, 'v) map_info \<Rightarrow> ('k, 'v) dense_map \<Rightarrow> 'k \<Rightarrow> lookup_result" where
  "LookupBucketFor info m Val =
     (if getNumBuckets m = 0 then LNoBuckets
      else LookupBucketFor_loop info (Buckets m) Val (HashValue info Val AND (getNumBuckets m - 1)) 1 None)"

definition map_find :: "('k, 'v) map_info \<Rightarrow> ('k, 'v) dense_map \<Rightarrow> 'k \<Rightarrow> nat option" where
  "map_find info m Val = (case LookupBucketFor info m Val of LFound b \<Rightarrow> Some b | _ \<Rightarrow> None)"

definition map_count :: "('k, 'v) map_info \<Rightarrow> ('k, 'v) dense_map \<Rightarrow> 'k \<Rightarrow> nat" where
  "map_count info m Val = (case LookupBucketFor info m Val of LFound _ \<Rightarrow> 1 | _ \<Rightarrow> 0)"

definition map_lookup :: "('k, 'v) map_info \<Rightarrow> ('k, 'v) dense_map \<Rightarrow> 'k \<Rightarrow> 'v" where
  "map_lookup info m Val =
     (case LookupBucketFor info m Val of LFound b \<Rightarrow> snd (Buckets m ! b) | _ \<Rightarrow> DefaultValue info)"

subsection \<open>Allocation and growth\<close>

text \<open>\<open>allocateBuckets\<close> followed by \<open>initEmpty\<close>: the keys are set, the values are not.\<close>

definition initEmpty :: "('k, 'v) map_info \<Rightarrow> nat \<Rightarrow> ('k, 'v) dense_map" where
  "initEmpty info n = \<lparr>Buckets = replicate n (EmptyKey info, DefaultValue info), NumEntries = 0, NumTombstones = 0\<rparr>"

definition map_init :: "('k, 'v) map_info \<Rightarrow> u32 \<Rightarrow> ('k, 'v) dense_map" where
  "map_init info InitNumEntries = initEmpty info (unat (getMinBucketToReserveForEntries InitNumEntries))"

text \<open>The body of the loop of \<open>moveFromOldBuckets\<close>; \<open>None\<close> when the lookup finds the table corrupt.\<close>

definition move_bucket :: "('k, 'v) map_info \<Rightarrow> 'k \<times> 'v \<Rightarrow> ('k, 'v) dense_map \<Rightarrow> ('k, 'v) dense_map option" where
  "move_bucket info B m =
     (if isPurgeable info (snd B) then Some m
      else if fst B \<noteq> EmptyKey info \<and> fst B \<noteq> TombstoneKey info then
        (let place = (\<lambda>d. Some (m\<lparr>Buckets := (Buckets m)[d := B], NumEntries := NumEntries m + 1\<rparr>))
         in case LookupBucketFor info m (fst B) of
              LFound d \<Rightarrow> place d | LNotFound d \<Rightarrow> place d | _ \<Rightarrow> None)
      else Some m)"

primrec moveFromOldBuckets ::
  "('k, 'v) map_info \<Rightarrow> ('k \<times> 'v) list \<Rightarrow> ('k, 'v) dense_map \<Rightarrow> ('k, 'v) dense_map option" where
  "moveFromOldBuckets info [] m = Some m"
| "moveFromOldBuckets info (B # Bs) m =
     (case move_bucket info B m of None \<Rightarrow> None | Some m' \<Rightarrow> moveFromOldBuckets info Bs m')"

definition grow :: "('k, 'v) map_info \<Rightarrow> nat \<Rightarrow> ('k, 'v) dense_map \<Rightarrow> ('k, 'v) dense_map option" where
  "grow info AtLeast m =
     (let m' = initEmpty info (unat (grow_size (of_nat AtLeast)))
      in if Buckets m = [] then Some m' else moveFromOldBuckets info (Buckets m) m')"

subsection \<open>Insertion\<close>

text \<open>
  \<open>InsertIntoBucketImpl\<close>: the bucket to fill and the map with its counters adjusted, given
  what the lookup returned for the key.
\<close>

definition relookup :: "('k, 'v) map_info \<Rightarrow> 'k \<Rightarrow> ('k, 'v) dense_map option \<Rightarrow> (nat \<times> ('k, 'v) dense_map) option" where
  "relookup info Key om =
     (case om of None \<Rightarrow> None
      | Some m \<Rightarrow> (case LookupBucketFor info m Key of LFound b \<Rightarrow> Some (b, m) | LNotFound b \<Rightarrow> Some (b, m) | _ \<Rightarrow> None))"

definition count_bucket :: "('k, 'v) map_info \<Rightarrow> nat \<Rightarrow> ('k, 'v) dense_map \<Rightarrow> ('k, 'v) dense_map" where
  "count_bucket info b m =
     (if fst (Buckets m ! b) = EmptyKey info then m\<lparr>NumEntries := NumEntries m + 1\<rparr>
      else if fst (Buckets m ! b) = TombstoneKey info
      then m\<lparr>NumEntries := NumEntries m + 1, NumTombstones := NumTombstones m - 1\<rparr>
      else m)"

definition InsertIntoBucketImpl ::
  "('k, 'v) map_info \<Rightarrow> 'k \<Rightarrow> nat option \<Rightarrow> ('k, 'v) dense_map \<Rightarrow> (nat \<times> ('k, 'v) dense_map) option" where
  "InsertIntoBucketImpl info Key TheBucket m =
     (let NewNumEntries = NumEntries m + 1; NumBuckets = getNumBuckets m;
          r = (if (of_nat NewNumEntries * 4 :: u32) \<ge> of_nat NumBuckets * 3
               then relookup info Key (grow info (NumBuckets * 2) m)
               else if (of_nat NumBuckets - (of_nat NewNumEntries + of_nat (NumTombstones m)) :: u32) \<le> of_nat NumBuckets div 8
               then relookup info Key (grow info NumBuckets m)
               else (case TheBucket of None \<Rightarrow> None | Some b \<Rightarrow> Some (b, m)))
      in case r of None \<Rightarrow> None | Some (b, m') \<Rightarrow> Some (b, count_bucket info b m'))"

definition InsertIntoBucket ::
  "('k, 'v) map_info \<Rightarrow> 'k \<Rightarrow> 'v \<Rightarrow> nat option \<Rightarrow> ('k, 'v) dense_map \<Rightarrow> (nat \<times> ('k, 'v) dense_map) option" where
  "InsertIntoBucket info Key Value TheBucket m =
     (case InsertIntoBucketImpl info Key TheBucket m of None \<Rightarrow> None
      | Some (b, m') \<Rightarrow> Some (b, m'\<lparr>Buckets := (Buckets m')[b := (Key, Value)]\<rparr>))"

text \<open>The flag is \<open>true\<close> when the key was not in the map.\<close>

definition try_emplace ::
  "('k, 'v) map_info \<Rightarrow> 'k \<Rightarrow> 'v \<Rightarrow> ('k, 'v) dense_map \<Rightarrow> (bool \<times> nat \<times> ('k, 'v) dense_map) option" where
  "try_emplace info Key Value m =
     (case LookupBucketFor info m Key of
        LFound b \<Rightarrow> Some (False, b, m)
      | LNotFound b \<Rightarrow> (case InsertIntoBucket info Key Value (Some b) m of None \<Rightarrow> None | Some (b', m') \<Rightarrow> Some (True, b', m'))
      | LNoBuckets \<Rightarrow> (case InsertIntoBucket info Key Value None m of None \<Rightarrow> None | Some (b', m') \<Rightarrow> Some (True, b', m'))
      | LFatal \<Rightarrow> None)"

definition FindAndConstruct ::
  "('k, 'v) map_info \<Rightarrow> 'k \<Rightarrow> ('k, 'v) dense_map \<Rightarrow> (nat \<times> ('k, 'v) dense_map) option" where
  "FindAndConstruct info Key m =
     (case try_emplace info Key (DefaultValue info) m of None \<Rightarrow> None | Some (_, b, m') \<Rightarrow> Some (b, m'))"

subsection \<open>Removal\<close>

text \<open>\<open>Log2_32_Ceil\<close> counts the leading zeros of the value less one.\<close>

definition countLeadingZeros :: "u32 \<Rightarrow> nat" where
  "countLeadingZeros x = length (takeWhile Not (map (bit x) (rev [0..<32])))"

definition Log2_32_Ceil :: "u32 \<Rightarrow> nat" where
  "Log2_32_Ceil v = 32 - countLeadingZeros (v - 1)"

text \<open>The reduced bucket count is handed to \<open>init\<close>, which takes a number of entries.\<close>

definition shrink_and_clear :: "('k, 'v) map_info \<Rightarrow> ('k, 'v) dense_map \<Rightarrow> ('k, 'v) dense_map" where
  "shrink_and_clear info m =
     (let shifted = push_bit (Log2_32_Ceil (of_nat (NumEntries m)) + 1) 1 :: u32;   \<comment> \<open>an \<open>int\<close>\<close>
          NewNumBuckets = (if NumEntries m = 0 then 0 else if sint shifted < 4 then MIN_BUCKETS else shifted)
      in if unat NewNumBuckets = getNumBuckets m then initEmpty info (getNumBuckets m) else map_init info NewNumBuckets)"

text \<open>
  The table emptied by \<open>clear\<close>; both copies of its in-place loop leave every key empty, and a
  value whose key is empty is never read.
\<close>

definition clear :: "('k, 'v) map_info \<Rightarrow> ('k, 'v) dense_map \<Rightarrow> ('k, 'v) dense_map" where
  "clear info m =
     (if NumEntries m = 0 \<and> NumTombstones m = 0 then m
      else if (of_nat (NumEntries m) * 4 :: u32) < of_nat (getNumBuckets m) \<and> getNumBuckets m > unat MIN_BUCKETS
      then shrink_and_clear info m
      else \<lparr>Buckets = map (\<lambda>B. (EmptyKey info, snd B)) (Buckets m), NumEntries = 0, NumTombstones = 0\<rparr>)"

definition reserve :: "('k, 'v) map_info \<Rightarrow> u32 \<Rightarrow> ('k, 'v) dense_map \<Rightarrow> ('k, 'v) dense_map option" where
  "reserve info n m =
     (if unat (getMinBucketToReserveForEntries n) > getNumBuckets m
      then grow info (unat (getMinBucketToReserveForEntries n)) m else Some m)"

definition compact :: "('k, 'v) map_info \<Rightarrow> ('k, 'v) dense_map \<Rightarrow> ('k, 'v) dense_map option" where
  "compact info m =
     (if NumEntries m = 0 then Some (shrink_and_clear info m)
      else if getNumBuckets m div 16 > NumEntries m \<and> getNumBuckets m > MIN_COMPACT
      then grow info (NumEntries m * 2) m
      else Some m)"

definition erase_bucket :: "('k, 'v) map_info \<Rightarrow> nat \<Rightarrow> ('k, 'v) dense_map \<Rightarrow> ('k, 'v) dense_map option" where
  "erase_bucket info b m =
     compact info (m\<lparr>Buckets := (Buckets m)[b := (TombstoneKey info, snd (Buckets m ! b))],
                     NumEntries := NumEntries m - 1, NumTombstones := NumTombstones m + 1\<rparr>)"

definition erase :: "('k, 'v) map_info \<Rightarrow> 'k \<Rightarrow> ('k, 'v) dense_map \<Rightarrow> (bool \<times> ('k, 'v) dense_map) option" where
  "erase info Val m =
     (case LookupBucketFor info m Val of
        LFound b \<Rightarrow> (case erase_bucket info b m of None \<Rightarrow> None | Some m' \<Rightarrow> Some (True, m'))
      | LFatal \<Rightarrow> None
      | _ \<Rightarrow> Some (False, m))"

text \<open>\<open>m[k] = v\<close>: \<open>operator[]\<close> returns a reference to the value that \<open>FindAndConstruct\<close> placed.\<close>

definition operator_store :: "('k, 'v) map_info \<Rightarrow> 'k \<Rightarrow> 'v \<Rightarrow> ('k, 'v) dense_map \<Rightarrow> ('k, 'v) dense_map option" where
  "operator_store info Key v m =
     (case FindAndConstruct info Key m of None \<Rightarrow> None
      | Some (b, m') \<Rightarrow> Some (m'\<lparr>Buckets := (Buckets m')[b := (fst (Buckets m' ! b), v)]\<rparr>))"

subsection \<open>The traits of the reference count map\<close>

text \<open>
  \<open>RefcountMap\<close>: keys are disguised object pointers, hashed by \<open>ptr_hash\<close> of the pointer,
  values are reference count words, and a zero word may be purged.
\<close>

definition bswap64 :: "u64 \<Rightarrow> u64" where
  "bswap64 x = foldr (\<lambda>i r. r OR push_bit (8 * (7 - i)) (take_bit 8 (drop_bit (8 * i) x))) [0..<8] 0"

definition ptr_hash :: "u64 \<Rightarrow> u32" where
  "ptr_hash key =
     (let k1 = key XOR drop_bit 4 key; k2 = k1 * 0x8a970be7488fda55; k3 = k2 XOR bswap64 k2 in ucast k3)"

definition disguise :: "u64 \<Rightarrow> u64" where "disguise ptr = - ptr"
definition undisguise :: "u64 \<Rightarrow> u64" where "undisguise val = - val"

definition refcnt_info :: "(u64, u64) map_info" where
  "refcnt_info = \<lparr>EmptyKey = disguise (- 1), TombstoneKey = disguise (- 2),
     HashValue = (\<lambda>k. unat (ptr_hash (undisguise k))), isPurgeable = (\<lambda>v. v = 0), DefaultValue = 0\<rparr>"

end
