(* ===== verification/DenseTable.thy ===== *)
theory DenseTable
  imports DenseMap
begin

text \<open>
  Invariant and abstraction of \<open>objc::DenseMap\<close>: quadratic probing reaches every bucket of a
  power-of-two table, every key sits on its probe path before an empty bucket, the counters are
  the numbers of live and tombstone buckets, and at least one bucket is empty, so that every
  lookup ends. One lemma per table change follows: filling a bucket, overwriting a value,
  leaving a tombstone, moving to a new array.
\<close>

declare LookupBucketFor_loop.simps [simp del]

subsection \<open>Quadratic probing visits every bucket\<close>

definition tri :: "nat \<Rightarrow> nat" where "tri i = i * Suc i div 2"

lemma tri_twice: "2 * tri i = i * Suc i"
  by (simp add: tri_def)

lemma tri_Suc: "tri (Suc i) = tri i + Suc i"
proof -
  have "2 * tri (Suc i) = 2 * tri i + 2 * Suc i" unfolding tri_twice by simp
  then show ?thesis by simp
qed

lemma tri_inj:
  assumes "i < j" "j < 2 ^ k" and eq: "(h + tri i) mod 2 ^ k = (h + tri j) mod 2 ^ k"
  shows False
proof -
  have le: "tri i \<le> tri j"
  proof -
    have "i * Suc i \<le> j * Suc j" using assms(1) by (intro mult_mono) auto
    then show ?thesis by (simp add: tri_def div_le_mono)
  qed
  then have "2 ^ k dvd (h + tri j) - (h + tri i)" using eq by (subst mod_eq_dvd_iff_nat [symmetric]) simp_all
  then have "2 ^ k dvd tri j - tri i" by simp
  then have "2 ^ Suc k dvd 2 * (tri j - tri i)" by simp
  moreover have "2 * (tri j - tri i) = (j - i) * (j + i + 1)"
  proof -
    obtain d where d: "j = i + d" using assms(1) less_imp_add_positive by blast
    have "2 * (tri j - tri i) = j * Suc j - i * Suc i" by (simp add: diff_mult_distrib2 tri_twice)
    then show ?thesis by (simp add: d algebra_simps)
  qed
  ultimately have dvd: "2 ^ Suc k dvd (j - i) * (j + i + 1)" by simp
  show False
  proof (cases "even (j - i)")
    case True
    then have "odd (j + i + 1)" using assms(1) by (metis even_Suc Suc_eq_plus1 add.commute even_add even_diff_nat less_imp_le not_less)
    then have "coprime (2 ^ Suc k) (j + i + 1)" by simp
    then have "2 ^ Suc k dvd j - i" using dvd coprime_dvd_mult_left_iff by blast
    then have "2 ^ Suc k \<le> j - i" using assms(1) by (intro dvd_imp_le) auto
    then show False using assms(2) by simp
  next
    case False
    then have "coprime (2 ^ Suc k) (j - i)" by simp
    then have "2 ^ Suc k dvd j + i + 1" using dvd coprime_dvd_mult_right_iff by blast
    then have "2 ^ Suc k \<le> j + i + 1" by (intro dvd_imp_le) auto
    then show False using assms(1,2) by simp
  qed
qed

definition probe :: "nat \<Rightarrow> nat \<Rightarrow> nat \<Rightarrow> nat" where "probe n h i = (h + tri i) mod n"

lemma probe_inj: "inj_on (probe (2 ^ k) h) {..<2 ^ k}"
proof (rule inj_onI)
  fix i j :: nat
  assume ij: "i \<in> {..<2 ^ k}" "j \<in> {..<2 ^ k}" and eq: "probe (2 ^ k) h i = probe (2 ^ k) h j"
  then show "i = j" using tri_inj [of i j k h] tri_inj [of j i k h] ij unfolding probe_def
    by (metis lessThan_iff linorder_neqE_nat)
qed

lemma probe_surj: "b < 2 ^ k \<Longrightarrow> \<exists>i < 2 ^ k. probe (2 ^ k) h i = b"
proof -
  assume b: "b < 2 ^ k"
  have "probe (2 ^ k) h ` {..<2 ^ k} \<subseteq> {..<2 ^ k}" by (auto simp: probe_def)
  then have "probe (2 ^ k) h ` {..<2 ^ k} = {..<2 ^ k}"
    using probe_inj by (intro endo_inj_surj) auto
  then show ?thesis using b by (metis imageE lessThan_iff)
qed

lemma probe_step: "(probe (2 ^ k) h i + Suc i) AND (2 ^ k - 1) = probe (2 ^ k) h (Suc i)"
  by (simp only: and_pow2 probe_def tri_Suc mod_add_left_eq add.assoc)


subsection \<open>What a lookup returns\<close>

abbreviation key_at :: "('k \<times> 'v) list \<Rightarrow> nat \<Rightarrow> nat \<Rightarrow> 'k" where
  "key_at bs h i \<equiv> fst (bs ! probe (length bs) h i)"

definition real_key :: "('k, 'v) map_info \<Rightarrow> 'k \<Rightarrow> bool" where
  "real_key info k \<longleftrightarrow> k \<noteq> EmptyKey info \<and> k \<noteq> TombstoneKey info"

text \<open>A bucket an insertion may fill: empty, a tombstone, or holding a purgeable value.\<close>

definition reusable :: "('k, 'v) map_info \<Rightarrow> 'k \<times> 'v \<Rightarrow> bool" where
  "reusable info B \<longleftrightarrow> \<not> real_key info (fst B) \<or> isPurgeable info (snd B)"

lemma loop_until:
  assumes len: "length bs = 2 ^ k" and e: "i \<le> e" "e < 2 ^ k"
    and before: "\<And>j. i \<le> j \<Longrightarrow> j < e \<Longrightarrow> key_at bs h j \<noteq> Val \<and> key_at bs h j \<noteq> EmptyKey info"
    and at: "key_at bs h e = Val \<or> key_at bs h e = EmptyKey info"
  shows "LookupBucketFor_loop info bs Val (probe (length bs) h i) (Suc i) ft =
      (if key_at bs h e = Val then LFound (probe (length bs) h e)
       else LNotFound (case ft of Some t \<Rightarrow> t | None \<Rightarrow>
              (case filter (\<lambda>j. reusable info (bs ! probe (length bs) h j)) [i..<e] of
                 [] \<Rightarrow> probe (length bs) h e | j # _ \<Rightarrow> probe (length bs) h j)))"
  using e before
proof (induction "e - i" arbitrary: i ft)
  case 0
  then have "i = e" by simp
  with at show ?case by (subst LookupBucketFor_loop.simps) (auto simp: Let_def split: option.split)
next
  case (Suc d)
  then have lt: "i < e" by simp
  let ?n = "length bs"
  let ?B = "bs ! probe ?n h i"
  let ?ft = "if reusable info ?B \<and> ft = None then Some (probe ?n h i) else ft"
  have ne: "fst ?B \<noteq> Val" "fst ?B \<noteq> EmptyKey info" using Suc.prems(3) [of i] lt by auto
  have step: "LookupBucketFor_loop info bs Val (probe ?n h i) (Suc i) ft =
      LookupBucketFor_loop info bs Val (probe ?n h (Suc i)) (Suc (Suc i)) ?ft"
    using ne lt Suc.prems(2) probe_step [of k h i]
    by (subst LookupBucketFor_loop.simps) (auto simp: Let_def len reusable_def real_key_def)
  have "d = e - Suc i" "Suc i \<le> e" using Suc.hyps(2) by simp_all
  note ih = Suc.hyps(1) [OF this Suc.prems(2), of ?ft]
  have upt: "[i..<e] = i # [Suc i..<e]" using lt by (rule upt_conv_Cons)
  show ?case unfolding step
    by (subst ih) (use Suc.prems(3) in \<open>auto simp: upt split: option.split\<close>)
qed


subsection \<open>The invariant\<close>

definition pow2_size :: "nat \<Rightarrow> bool" where
  "pow2_size n \<longleftrightarrow> n = 0 \<or> (\<exists>k. n = 2 ^ k)"

text \<open>No key sits in two buckets, and every key is found before an empty bucket on its probe path.\<close>

definition unique_keys :: "('k, 'v) map_info \<Rightarrow> ('k \<times> 'v) list \<Rightarrow> bool" where
  "unique_keys info bs \<longleftrightarrow> (\<forall>b < length bs. \<forall>c < length bs.
     real_key info (fst (bs ! b)) \<longrightarrow> fst (bs ! b) = fst (bs ! c) \<longrightarrow> b = c)"

definition on_path :: "('k, 'v) map_info \<Rightarrow> ('k \<times> 'v) list \<Rightarrow> 'k \<Rightarrow> nat \<Rightarrow> bool" where
  "on_path info bs Val b \<longleftrightarrow> (\<exists>i < length bs. probe (length bs) (HashValue info Val) i = b \<and>
     (\<forall>j < i. key_at bs (HashValue info Val) j \<noteq> EmptyKey info))"

definition well_placed :: "('k, 'v) map_info \<Rightarrow> ('k \<times> 'v) list \<Rightarrow> bool" where
  "well_placed info bs \<longleftrightarrow> pow2_size (length bs) \<and> unique_keys info bs \<and>
     (\<forall>b < length bs. real_key info (fst (bs ! b)) \<longrightarrow> on_path info bs (fst (bs ! b)) b)"

definition real_buckets :: "('k, 'v) map_info \<Rightarrow> ('k \<times> 'v) list \<Rightarrow> nat set" where
  "real_buckets info bs = {b. b < length bs \<and> real_key info (fst (bs ! b))}"

definition tomb_buckets :: "('k, 'v) map_info \<Rightarrow> ('k \<times> 'v) list \<Rightarrow> nat set" where
  "tomb_buckets info bs = {b. b < length bs \<and> fst (bs ! b) = TombstoneKey info}"

definition map_inv :: "('k, 'v) map_info \<Rightarrow> ('k, 'v) dense_map \<Rightarrow> bool" where
  "map_inv info m \<longleftrightarrow> well_placed info (Buckets m) \<and>
     NumEntries m = card (real_buckets info (Buckets m)) \<and>
     NumTombstones m = card (tomb_buckets info (Buckets m)) \<and>
     (Buckets m \<noteq> [] \<longrightarrow> NumEntries m + NumTombstones m < length (Buckets m))"

definition ok_info :: "('k, 'v) map_info \<Rightarrow> bool" where
  "ok_info info \<longleftrightarrow> EmptyKey info \<noteq> TombstoneKey info"

text \<open>The map a client sees: the entries whose value may not be purged.\<close>

definition visible :: "('k, 'v) map_info \<Rightarrow> ('k, 'v) dense_map \<Rightarrow> 'k \<rightharpoonup> 'v" where
  "visible info m = map_of (filter (\<lambda>B. \<not> reusable info B) (Buckets m))"

definition put :: "('k, 'v) map_info \<Rightarrow> 'k \<Rightarrow> 'v \<Rightarrow> ('k \<rightharpoonup> 'v) \<Rightarrow> 'k \<rightharpoonup> 'v" where
  "put info k v vm = vm(k := if isPurgeable info v then None else Some v)"

lemma finite_buckets [simp]: "finite (real_buckets info bs)" "finite (tomb_buckets info bs)"
  by (simp_all add: real_buckets_def tomb_buckets_def)

lemma has_empty:
  assumes "map_inv info m" "Buckets m \<noteq> []"
  shows "\<exists>b < length (Buckets m). fst (Buckets m ! b) = EmptyKey info"
proof (rule ccontr)
  let ?bs = "Buckets m"
  assume "\<not> ?thesis"
  then have "{..<length ?bs} = real_buckets info ?bs \<union> tomb_buckets info ?bs"
    by (auto simp: real_buckets_def tomb_buckets_def real_key_def)
  then have "length ?bs \<le> card (real_buckets info ?bs) + card (tomb_buckets info ?bs)"
    by (metis card_Un_le card_lessThan)
  then show False using assms by (simp add: map_inv_def)
qed

lemma pow2_nonempty: "pow2_size (length bs) \<Longrightarrow> bs \<noteq> [] \<Longrightarrow> \<exists>k. length bs = 2 ^ k"
  by (auto simp: pow2_size_def)

lemma probe_less [simp]: "bs \<noteq> [] \<Longrightarrow> probe (length bs) h i < length bs"
  by (simp add: probe_def)

lemma probe_less_pow2 [simp]: "probe (2 ^ k) h i < 2 ^ k"
  by (simp add: probe_def)

lemma LookupBucketFor_eq:
  assumes "length (Buckets m) = 2 ^ k"
  shows "LookupBucketFor info m Val =
    LookupBucketFor_loop info (Buckets m) Val (probe (length (Buckets m)) (HashValue info Val) 0) (Suc 0) None"
  using assms by (auto simp: LookupBucketFor_def getNumBuckets_def and_pow2 [unfolded One_nat_def] probe_def tri_def)

lemma lookup_present:
  assumes wp: "well_placed info (Buckets m)" and b: "b < length (Buckets m)"
    and Val: "fst (Buckets m ! b) = Val" "real_key info Val"
  shows "LookupBucketFor info m Val = LFound b"
proof -
  let ?bs = "Buckets m" and ?h = "HashValue info Val"
  obtain k where k: "length ?bs = 2 ^ k" using wp b pow2_nonempty by (fastforce simp: well_placed_def)
  obtain i where i: "i < length ?bs" "probe (length ?bs) ?h i = b" "\<And>j. j < i \<Longrightarrow> key_at ?bs ?h j \<noteq> EmptyKey info"
    using wp b Val unfolding well_placed_def on_path_def by blast
  have "key_at ?bs ?h j \<noteq> Val" if "j < i" for j
  proof
    assume "key_at ?bs ?h j = Val"
    moreover have "probe (length ?bs) ?h j < length ?bs" using b by (intro probe_less) auto
    ultimately have "probe (length ?bs) ?h j = b" using wp b Val unfolding well_placed_def unique_keys_def by metis
    then show False using tri_inj [OF that, of k ?h] i(1,2) by (simp add: k probe_def)
  qed
  then show ?thesis
    unfolding LookupBucketFor_eq [OF k]
    by (subst loop_until [OF k, of 0 i]) (use i Val k in auto)
qed

text \<open>A failing lookup ends at an empty bucket and returns a reusable bucket on the key's path.\<close>

lemma lookup_absent:
  assumes inv: "map_inv info m" and ne: "Buckets m \<noteq> []" and Val: "real_key info Val"
    and absent: "\<forall>b < length (Buckets m). fst (Buckets m ! b) \<noteq> Val"
  shows "\<exists>b < length (Buckets m). LookupBucketFor info m Val = LNotFound b \<and>
           reusable info (Buckets m ! b) \<and> on_path info (Buckets m) Val b"
proof -
  let ?bs = "Buckets m" and ?h = "HashValue info Val"
  let ?E = "\<lambda>i. key_at ?bs ?h i = EmptyKey info"
  obtain k where k: "length ?bs = 2 ^ k" using inv ne pow2_nonempty by (fastforce simp: map_inv_def well_placed_def)
  obtain c where c: "c < length ?bs" "fst (?bs ! c) = EmptyKey info" using has_empty [OF inv ne] by blast
  then obtain i where i: "i < 2 ^ k" "?E i" using probe_surj [of c k ?h] k by metis
  define e where "e = (LEAST i. ?E i)"
  have e: "?E e" "e < 2 ^ k" using i LeastI [of ?E i] Least_le [of ?E i] by (auto simp: e_def)
  have before: "\<not> ?E j" if "j < e" for j using not_less_Least that by (auto simp: e_def)
  have nv: "key_at ?bs ?h j \<noteq> Val" for j using absent ne by simp
  let ?js = "filter (\<lambda>j. reusable info (?bs ! probe (length ?bs) ?h j)) [0..<e]"
  have res: "LookupBucketFor info m Val = LNotFound (case ?js of [] \<Rightarrow> probe (length ?bs) ?h e | j # _ \<Rightarrow> probe (length ?bs) ?h j)"
    unfolding LookupBucketFor_eq [OF k]
    by (subst loop_until [OF k, of 0 e]) (use e before nv in auto)
  define j where "j = (case ?js of [] \<Rightarrow> e | j # _ \<Rightarrow> j)"
  have "j \<le> e \<and> reusable info (?bs ! probe (length ?bs) ?h j)"
  proof (cases ?js)
    case Nil
    then show ?thesis using e(1) by (simp add: j_def reusable_def real_key_def)
  next
    case (Cons x xs)
    have "x \<in> set ?js" unfolding Cons by simp
    then have "x < e \<and> reusable info (?bs ! probe (length ?bs) ?h x)" by simp
    then show ?thesis unfolding j_def Cons by simp
  qed
  moreover have "LookupBucketFor info m Val = LNotFound (probe (length ?bs) ?h j)"
    unfolding res j_def by (simp split: list.split)
  ultimately show ?thesis
    using ne before e(2) k unfolding on_path_def
    by (intro exI [of _ "probe (length ?bs) ?h j"]) (auto intro!: exI [of _ j])
qed

lemma visible_iff:
  assumes "unique_keys info (Buckets m)"
  shows "visible info m k = Some v \<longleftrightarrow> (k, v) \<in> set (Buckets m) \<and> \<not> reusable info (k, v)"
proof
  assume "visible info m k = Some v"
  then show "(k, v) \<in> set (Buckets m) \<and> \<not> reusable info (k, v)"
    unfolding visible_def by (auto dest: map_of_SomeD)
next
  assume kv: "(k, v) \<in> set (Buckets m) \<and> \<not> reusable info (k, v)"
  then obtain w where w: "visible info m k = Some w"
    unfolding visible_def by (cases "map_of (filter (\<lambda>B. \<not> reusable info B) (Buckets m)) k") (force simp: map_of_eq_None_iff)+
  then have "(k, w) \<in> set (Buckets m)" unfolding visible_def by (auto dest: map_of_SomeD)
  then have "w = v" using kv assms unfolding unique_keys_def reusable_def
    by (metis fst_conv in_set_conv_nth snd_conv)
  then show "visible info m k = Some v" using w by simp
qed


lemma visible_nth:
  assumes "unique_keys info (Buckets m)"
  shows "visible info m k = Some v \<longleftrightarrow> (\<exists>c < length (Buckets m). Buckets m ! c = (k, v) \<and> \<not> reusable info (k, v))"
  unfolding visible_iff [OF assms] by (auto simp: in_set_conv_nth)

text \<open>How the visible map changes when the one bucket that may hold a key is overwritten.\<close>

lemma visible_one:
  assumes u: "unique_keys info (Buckets m)" "unique_keys info (Buckets m')"
    and m': "Buckets m' = (Buckets m)[b := B]" and b: "b < length (Buckets m)"
    and only: "\<forall>c < length (Buckets m). fst (Buckets m ! c) = k \<longrightarrow> c = b"
    and old: "reusable info (Buckets m ! b) \<or> fst (Buckets m ! b) = k"
    and new: "reusable info B \<or> fst B = k"
  shows "visible info m' = (visible info m)(k := if reusable info B then None else Some (snd B))"
proof -
  have at: "Buckets m' ! b = B" "\<And>c. c \<noteq> b \<Longrightarrow> Buckets m' ! c = Buckets m ! c" "length (Buckets m') = length (Buckets m)"
    using b by (simp_all add: m')
  have "visible info m' x = Some w \<longleftrightarrow> ((visible info m)(k := if reusable info B then None else Some (snd B))) x = Some w" for x w
  proof (cases "x = k")
    case True
    have "visible info m' k = Some w \<longleftrightarrow> B = (k, w) \<and> \<not> reusable info B"
      unfolding visible_nth [OF u(2)] using at b only by (metis fst_conv)
    then show ?thesis using new True by (cases B) auto
  next
    case False
    then have "visible info m' x = Some w \<longleftrightarrow> visible info m x = Some w"
      unfolding visible_nth [OF u(2)] visible_nth [OF u(1)] using at b old new by (metis fst_conv)
    then show ?thesis using False by simp
  qed
  then show ?thesis by (intro ext) (metis option.exhaust)
qed

subsection \<open>Filling one bucket\<close>

lemma on_path_update:
  assumes "on_path info bs k c" "fst B \<noteq> EmptyKey info"
  shows "on_path info (bs[b := B]) k c"
proof -
  have ne: "fst (bs[b := B] ! d) \<noteq> EmptyKey info" if "fst (bs ! d) \<noteq> EmptyKey info" for d
    using that assms(2) by (cases "b < length bs \<and> b = d") (auto simp: nth_list_update_eq nth_list_update_neq list_update_beyond not_less)
  then show ?thesis using assms(1) unfolding on_path_def by (metis length_list_update)
qed

definition fillable :: "('k, 'v) map_info \<Rightarrow> ('k \<times> 'v) list \<Rightarrow> 'k \<Rightarrow> nat \<Rightarrow> bool" where
  "fillable info bs k b \<longleftrightarrow> b < length bs \<and> real_key info k \<and> (\<forall>c < length bs. fst (bs ! c) \<noteq> k) \<and>
     reusable info (bs ! b) \<and> on_path info bs k b"

lemma well_placed_fill:
  assumes wp: "well_placed info bs" and f: "fillable info bs k b"
  shows "well_placed info (bs[b := (k, v)])"
proof -
  have "unique_keys info (bs[b := (k, v)])"
    using wp f unfolding well_placed_def unique_keys_def fillable_def by (metis fst_conv length_list_update nth_list_update)
  moreover have "on_path info (bs[b := (k, v)]) (fst (bs[b := (k, v)] ! c)) c"
    if "c < length bs" "real_key info (fst (bs[b := (k, v)] ! c))" for c
    using that wp f by (intro on_path_update) (auto simp: well_placed_def fillable_def nth_list_update real_key_def)
  ultimately show ?thesis using wp unfolding well_placed_def by simp
qed

lemma buckets_fill:
  assumes "fillable info bs k b"
  shows "real_buckets info (bs[b := (k, v)]) = insert b (real_buckets info bs)"
    and "tomb_buckets info (bs[b := (k, v)]) = tomb_buckets info bs - {b}"
  using assms by (auto simp: real_buckets_def tomb_buckets_def fillable_def nth_list_update real_key_def split: if_splits)

lemma visible_fill:
  assumes wp: "well_placed info (Buckets m)" and f: "fillable info (Buckets m) k b"
    and m': "Buckets m' = (Buckets m)[b := (k, v)]"
  shows "visible info m' = put info k v (visible info m)"
proof -
  have u: "unique_keys info (Buckets m)" "unique_keys info (Buckets m')"
    using wp well_placed_fill [OF wp f, of v] m' by (simp_all add: well_placed_def)
  show ?thesis using visible_one [OF u m', of k] f by (auto simp: put_def fillable_def reusable_def)
qed

lemma count_bucket_frame [simp]: "Buckets (count_bucket info b m) = Buckets m"
  by (simp add: count_bucket_def)

lemma insert_at:
  assumes inv: "map_inv info m" and ok: "ok_info info" and f: "fillable info (Buckets m) k b"
    and room: "NumEntries m + 1 + NumTombstones m < length (Buckets m)"
    and m'_def: "m' = (count_bucket info b m)\<lparr>Buckets := (Buckets m)[b := (k, v)]\<rparr>"
  shows "map_inv info m'" "visible info m' = put info k v (visible info m)"
    "NumEntries m' \<le> NumEntries m + 1"
proof -
  let ?bs = "Buckets m"
  have b: "b < length ?bs" "reusable info (?bs ! b)" using f by (simp_all add: fillable_def)
  have "NumEntries m' = card (insert b (real_buckets info ?bs)) \<and> NumTombstones m' = card (tomb_buckets info ?bs - {b}) \<and>
      NumEntries m' + NumTombstones m' \<le> NumEntries m + 1 + NumTombstones m \<and> NumEntries m' \<le> NumEntries m + 1"
  proof (cases "real_key info (fst (?bs ! b))")
    case True
    then have "b \<in> real_buckets info ?bs" "b \<notin> tomb_buckets info ?bs" using b
      by (auto simp: real_buckets_def tomb_buckets_def real_key_def)
    then show ?thesis using True inv by (auto simp: m'_def count_bucket_def map_inv_def insert_absorb real_key_def)
  next
    case False
    then have nr: "b \<notin> real_buckets info ?bs" by (simp add: real_buckets_def)
    have "fst (?bs ! b) = EmptyKey info \<and> b \<notin> tomb_buckets info ?bs \<or>
        fst (?bs ! b) = TombstoneKey info \<and> b \<in> tomb_buckets info ?bs"
      using False ok b by (auto simp: real_key_def ok_info_def tomb_buckets_def)
    then show ?thesis using nr inv ok by (auto simp: m'_def count_bucket_def map_inv_def ok_info_def)
  qed
  then show "map_inv info m'" "NumEntries m' \<le> NumEntries m + 1"
    using inv room well_placed_fill [OF _ f] buckets_fill [OF f] by (auto simp: map_inv_def m'_def)
  show "visible info m' = put info k v (visible info m)"
    using inv by (intro visible_fill [OF _ f]) (simp_all add: map_inv_def m'_def)
qed

lemma lookup_cases:
  assumes inv: "map_inv info m" and ne: "Buckets m \<noteq> []" and k: "real_key info k"
  obtains b where "b < length (Buckets m)" "fst (Buckets m ! b) = k" "LookupBucketFor info m k = LFound b"
  | b where "fillable info (Buckets m) k b" "LookupBucketFor info m k = LNotFound b"
proof (cases "\<exists>b < length (Buckets m). fst (Buckets m ! b) = k")
  case True
  then obtain b where "b < length (Buckets m)" "fst (Buckets m ! b) = k" by blast
  then show ?thesis using that(1) lookup_present inv k by (metis map_inv_def)
next
  case False
  then show ?thesis using that(2) lookup_absent [OF inv ne k] k by (auto simp: fillable_def)
qed


subsection \<open>Bucket counts\<close>

text \<open>Each step of the cascade doubles how far down a set bit has been copied.\<close>

lemma smear_step:
  fixes x :: u32
  assumes "\<And>i. bit y i \<longleftrightarrow> (\<exists>d < s. bit x (i + d))"
  shows "bit (y OR drop_bit s y) i \<longleftrightarrow> (\<exists>d < 2 * s. bit x (i + d))"
proof -
  have "(\<exists>d < s. bit x (s + i + d)) \<longleftrightarrow> (\<exists>d. s \<le> d \<and> d < 2 * s \<and> bit x (i + d))"
  proof
    assume "\<exists>d < s. bit x (s + i + d)"
    then obtain d where "d < s" "bit x (s + i + d)" by blast
    then show "\<exists>d. s \<le> d \<and> d < 2 * s \<and> bit x (i + d)" by (intro exI [of _ "s + d"]) (simp add: ac_simps)
  next
    assume "\<exists>d. s \<le> d \<and> d < 2 * s \<and> bit x (i + d)"
    then obtain d where "s \<le> d" "d < 2 * s" "bit x (i + d)" by blast
    then show "\<exists>d < s. bit x (s + i + d)" by (intro exI [of _ "d - s"]) (simp add: ac_simps)
  qed
  then show ?thesis unfolding bit_or_iff bit_drop_bit_eq comp_def assms
    by (metis add.commute mult_2 not_le trans_less_add1)
qed

lemma bit_smeared:
  "bit (NextPowerOf2 x - 1) i \<longleftrightarrow> (\<exists>d < 32. bit x (i + d))"
proof -
  define a1 where "a1 = x OR drop_bit 1 x"
  define a2 where "a2 = a1 OR drop_bit 2 a1"
  define a3 where "a3 = a2 OR drop_bit 4 a2"
  define a4 where "a4 = a3 OR drop_bit 8 a3"
  define a5 where "a5 = a4 OR drop_bit 16 a4"
  have 0: "bit x i \<longleftrightarrow> (\<exists>d < 1. bit x (i + d))" for i by simp
  have 1: "bit a1 i \<longleftrightarrow> (\<exists>d < 2. bit x (i + d))" for i using smear_step [OF 0] by (simp add: a1_def)
  have 2: "bit a2 i \<longleftrightarrow> (\<exists>d < 4. bit x (i + d))" for i using smear_step [OF 1] by (simp add: a2_def)
  have 3: "bit a3 i \<longleftrightarrow> (\<exists>d < 8. bit x (i + d))" for i using smear_step [OF 2] by (simp add: a3_def)
  have 4: "bit a4 i \<longleftrightarrow> (\<exists>d < 16. bit x (i + d))" for i using smear_step [OF 3] by (simp add: a4_def)
  have 5: "bit a5 i \<longleftrightarrow> (\<exists>d < 32. bit x (i + d))" for i using smear_step [OF 4] by (simp add: a5_def)
  have "NextPowerOf2 x - 1 = a5"
    by (simp add: NextPowerOf2_def Let_def a1_def a2_def a3_def a4_def a5_def)
  then show ?thesis using 5 by simp
qed

lemma NextPowerOf2_mask:
  assumes x: "unat x < 2 ^ Suc t" "2 ^ t \<le> unat x"
  shows "NextPowerOf2 x - 1 = mask (Suc t)"
proof (rule bit_word_eqI)
  fix i
  have bx: "bit x j \<longleftrightarrow> odd (unat x div 2 ^ j)" for j by (rule bit_iff_odd_unat)
  have "unat x div 2 ^ t = 1" using x by (intro div_nat_eqI) (simp_all add: mult.commute)
  then have top: "bit x t" by (simp add: bx)
  have high: "\<not> bit x j" if "t < j" for j
  proof -
    have "(2 :: nat) ^ Suc t \<le> 2 ^ j" using that by (intro power_increasing) auto
    then show ?thesis using x by (simp add: bx)
  qed
  have t: "t < 32" using bit_imp_le_length [OF top] by simp
  show "bit (NextPowerOf2 x - 1) i = bit (mask (Suc t) :: u32) i" if "i < LENGTH(32)"
  proof -
    have "(\<exists>d < 32. bit x (i + d)) \<longleftrightarrow> i \<le> t"
    proof
      assume "i \<le> t"
      then show "\<exists>d < 32. bit x (i + d)" using top t by (intro exI [of _ "t - i"]) simp
    qed (metis high le_add1 le_trans not_le)
    then show ?thesis using that by (auto simp: bit_smeared bit_mask_iff)
  qed
qed

lemma NextPowerOf2_correct:
  assumes "2 ^ t \<le> unat x" "unat x < 2 ^ Suc t" "t < 31"
  shows "unat (NextPowerOf2 x) = 2 ^ Suc t"
proof -
  have "NextPowerOf2 x = mask (Suc t) + 1" using NextPowerOf2_mask [OF assms(2,1)] by (metis diff_add_cancel)
  also have "\<dots> = 2 ^ Suc t" by (simp add: mask_eq_exp_minus_1)
  finally have "unat (NextPowerOf2 x) = unat (2 ^ Suc t :: u32)" by simp
  also have "\<dots> = 2 ^ Suc t" using assms(3) by (intro unat_power2) simp
  finally show ?thesis .
qed


lemma NextPowerOf2_0 [simp]: "NextPowerOf2 0 = 1"
  by (simp add: NextPowerOf2_def)

lemma NextPowerOf2_max: "NextPowerOf2 (- 1) = 0"
  by (simp add: NextPowerOf2_def Let_def)

lemma NextPowerOf2_range:
  assumes "x \<noteq> 0" "unat x < 2 ^ 31"
  shows "\<exists>k. unat (NextPowerOf2 x) = 2 ^ k \<and> unat x < 2 ^ k \<and> 2 ^ k \<le> 2 * unat x"
proof -
  have "1 \<le> unat x" using assms(1) by (metis One_nat_def Suc_leI unat_gt_0)
  then obtain t where t: "2 ^ t \<le> unat x" "unat x < 2 ^ Suc t"
    using ex_power_ivl1 [of 2 "unat x"] by auto
  have "(2 :: nat) ^ t < 2 ^ 31" using t(1) assms(2) by linarith
  then have "t < 31" by (rule power_less_imp_less_exp [rotated]) simp
  then show ?thesis using NextPowerOf2_correct [OF t] t by (intro exI [of _ "Suc t"]) simp
qed

text \<open>
  The new size is a power of two of at least the size asked for. Asked for none, which is how
  a table without buckets grows, the decrement wraps, the rounding wraps back to zero and the
  minimum is used.
\<close>

lemma grow_size_spec:
  assumes "n \<le> 2 ^ 31"
  shows "\<exists>k. unat (grow_size (of_nat n)) = 2 ^ k \<and> n \<le> 2 ^ k \<and> 4 \<le> (2 :: nat) ^ k \<and> 2 ^ k \<le> max 4 (2 * (n - 1))"
proof -
  have max4: "unat (max 4 y :: u32) = max 4 (unat y)" for y by (simp add: max_def word_le_nat_alt)
  consider "n = 0" | "n = 1" | "2 \<le> n" by linarith
  then show ?thesis
  proof cases
    case 1
    then show ?thesis by (intro exI [of _ 2]) (simp add: grow_size_def MIN_BUCKETS_def NextPowerOf2_max max4)
  next
    case 2
    then show ?thesis by (intro exI [of _ 2]) (simp add: grow_size_def MIN_BUCKETS_def max4)
  next
    case 3
    have "(of_nat n - 1 :: u32) = of_nat (n - 1)" using 3 by (simp add: of_nat_diff)
    moreover have "n - 1 < 2 ^ LENGTH(32)" using assms by simp
    ultimately have x: "unat (of_nat n - 1 :: u32) = n - 1" by (simp only: unat_of_nat mod_less)
    then have "of_nat n - 1 \<noteq> (0 :: u32)" using 3 by (metis One_nat_def Suc_1 diff_is_0_eq not_less_eq_eq unat_0)
    moreover have "unat (of_nat n - 1 :: u32) < 2 ^ 31" using x 3 assms by simp
    ultimately obtain k where k: "unat (NextPowerOf2 (of_nat n - 1)) = 2 ^ k" "n - 1 < 2 ^ k" "2 ^ k \<le> 2 * (n - 1)"
      using NextPowerOf2_range [of "of_nat n - 1"] x by auto
    show ?thesis
    proof (cases "4 \<le> (2 :: nat) ^ k")
      case True
      then show ?thesis using k 3 by (intro exI [of _ k]) (simp add: grow_size_def MIN_BUCKETS_def max4)
    next
      case False
      then show ?thesis using k 3 by (intro exI [of _ 2]) (simp add: grow_size_def MIN_BUCKETS_def max4)
    qed
  qed
qed

lemma getMinBucket_pow2: "pow2_size (unat (getMinBucketToReserveForEntries n))"
proof -
  have "pow2_size (unat (NextPowerOf2 x))" for x
  proof (cases "x = 0 \<or> unat x < 2 ^ 31")
    case True
    have "pow2_size 1" unfolding pow2_size_def by (metis power_0)
    then show ?thesis using True NextPowerOf2_range [of x] by (cases "x = 0") (auto simp: pow2_size_def)
  next
    case False
    have "unat x < 2 ^ Suc 31" using unsigned_less [of x] by simp
    then have "NextPowerOf2 x - 1 = mask (Suc 31)" using False by (intro NextPowerOf2_mask) auto
    moreover have "mask (Suc 31) = (- 1 :: u32)" by (simp add: mask_eq_exp_minus_1)
    ultimately have "NextPowerOf2 x = 0" by simp
    then show ?thesis by (simp add: pow2_size_def)
  qed
  then show ?thesis by (simp add: getMinBucketToReserveForEntries_def pow2_size_def)
qed

subsection \<open>Moving to a new array\<close>

lemma real_buckets_empty [simp]:
  "real_buckets info (replicate n (EmptyKey info, v)) = {}"
  by (simp add: real_buckets_def real_key_def)

lemma tomb_buckets_empty [simp]:
  "ok_info info \<Longrightarrow> tomb_buckets info (replicate n (EmptyKey info, v)) = {}"
  by (simp add: tomb_buckets_def ok_info_def)

lemma map_inv_initEmpty:
  assumes "ok_info info" "pow2_size n"
  shows "map_inv info (initEmpty info n)" "visible info (initEmpty info n) = Map.empty"
  using assms by (auto simp: map_inv_def initEmpty_def well_placed_def unique_keys_def real_key_def visible_def reusable_def)

text \<open>No bucket was ever freed and no purgeable value stored: the state of a table being filled.\<close>

definition fresh :: "('k, 'v) map_info \<Rightarrow> ('k, 'v) dense_map \<Rightarrow> bool" where
  "fresh info m \<longleftrightarrow> (\<forall>B \<in> set (Buckets m). fst B = EmptyKey info \<or> \<not> reusable info B)"

definition live :: "('k, 'v) map_info \<Rightarrow> ('k \<times> 'v) list \<Rightarrow> ('k \<times> 'v) list" where
  "live info bs = filter (\<lambda>B. \<not> reusable info B) bs"

lemma visible_live: "visible info m = map_of (live info (Buckets m))"
  by (simp add: visible_def live_def)

lemma distinct_live: "unique_keys info bs \<Longrightarrow> distinct (map fst (live info bs))"
proof (induction bs)
  case (Cons B bs)
  have "unique_keys info bs"
    using Cons.prems unfolding unique_keys_def by (metis Suc_less_eq length_Cons nth_Cons_Suc Suc_inject)
  moreover have "fst B \<notin> fst ` set (live info bs)" if "\<not> reusable info B"
  proof
    assume "fst B \<in> fst ` set (live info bs)"
    then obtain c where "c < length bs" "fst (bs ! c) = fst B" by (auto simp: live_def in_set_conv_nth)
    then show False using Cons.prems that unfolding unique_keys_def reusable_def
      by (metis Suc_less_eq length_Cons nth_Cons_0 nth_Cons_Suc zero_less_Suc nat.distinct(1))
  qed
  ultimately show ?case using Cons.IH by (simp add: live_def)
qed (simp add: live_def)

lemma length_live: "length (live info bs) \<le> card (real_buckets info bs)"
  unfolding live_def length_filter_conv_card real_buckets_def
  by (rule card_mono) (auto simp: reusable_def)


lemma fresh_absent:
  assumes "fresh info m" "unique_keys info (Buckets m)" "real_key info k" "visible info m k = None"
  shows "\<forall>c < length (Buckets m). fst (Buckets m ! c) \<noteq> k"
proof (intro allI impI notI)
  fix c assume c: "c < length (Buckets m)" "fst (Buckets m ! c) = k"
  then have "\<not> reusable info (Buckets m ! c)"
    using assms(1,3) unfolding fresh_def real_key_def by (metis nth_mem)
  then have "visible info m k = Some (snd (Buckets m ! c))"
    using c visible_nth [OF assms(2)] by (metis prod.collapse)
  then show False using assms(4) by simp
qed

lemma fresh_no_tombs:
  assumes "fresh info m" "ok_info info" "map_inv info m"
  shows "NumTombstones m = 0"
proof -
  have "fst (Buckets m ! c) \<noteq> TombstoneKey info" if "c < length (Buckets m)" for c
    using assms(1,2) that unfolding fresh_def ok_info_def reusable_def real_key_def by (metis nth_mem)
  then have "tomb_buckets info (Buckets m) = {}" by (auto simp: tomb_buckets_def)
  then show ?thesis using assms(3) by (simp add: map_inv_def)
qed

lemma fresh_fill:
  assumes f: "fresh info m" and b: "fillable info (Buckets m) k b" and v: "\<not> isPurgeable info v"
  shows "fst (Buckets m ! b) = EmptyKey info"
    and "fresh info (m\<lparr>Buckets := (Buckets m)[b := (k, v)], NumEntries := e\<rparr>)"
proof -
  show "fst (Buckets m ! b) = EmptyKey info" using f b by (auto simp: fresh_def fillable_def)
  have "\<not> reusable info (k, v)" using b v by (simp add: reusable_def fillable_def)
  then show "fresh info (m\<lparr>Buckets := (Buckets m)[b := (k, v)], NumEntries := e\<rparr>)"
    using f unfolding fresh_def by (auto dest!: set_update_subset_insert [THEN subsetD])
qed

lemma move_bucket_ok:
  assumes ok: "ok_info info" and inv: "map_inv info m" and fr: "fresh info m"
    and B: "\<not> reusable info B" "visible info m (fst B) = None" and room: "NumEntries m + 1 < length (Buckets m)"
  obtains m' where "move_bucket info B m = Some m'" "map_inv info m'" "fresh info m'"
    "visible info m' = (visible info m)(fst B \<mapsto> snd B)" "NumEntries m' = NumEntries m + 1"
    "length (Buckets m') = length (Buckets m)"
proof -
  let ?bs = "Buckets m"
  have k: "real_key info (fst B)" and np: "\<not> isPurgeable info (snd B)" using B by (auto simp: reusable_def)
  have ne: "?bs \<noteq> []" using room by auto
  have absent: "\<forall>c < length ?bs. fst (?bs ! c) \<noteq> fst B"
    using inv k B by (intro fresh_absent [OF fr]) (simp_all add: map_inv_def well_placed_def)
  obtain b where f: "fillable info ?bs (fst B) b" and lk: "LookupBucketFor info m (fst B) = LNotFound b"
    using lookup_cases [OF inv ne k] absent by metis
  have tomb: "NumTombstones m = 0" by (rule fresh_no_tombs [OF fr ok inv])
  have emp: "fst (?bs ! b) = EmptyKey info" using fresh_fill(1) [OF fr f np] .
  define m' where "m' = m\<lparr>Buckets := ?bs[b := B], NumEntries := NumEntries m + 1\<rparr>"
  have eq: "m' = (count_bucket info b m)\<lparr>Buckets := ?bs[b := (fst B, snd B)]\<rparr>"
    by (simp add: m'_def count_bucket_def emp)
  have room': "NumEntries m + 1 + NumTombstones m < length ?bs" using room tomb by simp
  note ins = insert_at [OF inv ok f room' eq]
  have "move_bucket info B m = Some m'"
    using k np by (simp add: move_bucket_def lk m'_def real_key_def)
  moreover have "fresh info m'" using fresh_fill(2) [OF fr f np] by (simp add: m'_def)
  moreover have "visible info m' = (visible info m)(fst B \<mapsto> snd B)" using ins(2) np by (simp add: put_def)
  ultimately show ?thesis using ins(1) by (intro that [of m']) (simp_all add: m'_def)
qed

lemma move_bucket_skip: "reusable info B \<Longrightarrow> move_bucket info B m = Some m"
  by (auto simp: move_bucket_def reusable_def real_key_def)

lemma moveFromOldBuckets_ok:
  assumes ok: "ok_info info" and inv: "map_inv info m" "fresh info m"
    and Bs: "distinct (map fst (live info Bs))" "\<forall>B \<in> set (live info Bs). visible info m (fst B) = None"
    and room: "NumEntries m + length (live info Bs) < length (Buckets m)"
  shows "\<exists>m'. moveFromOldBuckets info Bs m = Some m' \<and> map_inv info m' \<and> fresh info m' \<and>
      visible info m' = visible info m ++ map_of (live info Bs) \<and>
      NumEntries m' = NumEntries m + length (live info Bs) \<and> length (Buckets m') = length (Buckets m)"
  using inv Bs room
proof (induction Bs arbitrary: m)
  case Nil
  then show ?case by (simp add: live_def)
next
  case (Cons B Bs)
  show ?case
  proof (cases "reusable info B")
    case True
    then have "live info (B # Bs) = live info Bs" by (simp add: live_def)
    then show ?thesis using Cons True by (simp add: move_bucket_skip)
  next
    case False
    then have lv: "live info (B # Bs) = B # live info Bs" by (simp add: live_def)
    obtain m1 where m1: "move_bucket info B m = Some m1" "map_inv info m1" "fresh info m1"
        "visible info m1 = (visible info m)(fst B \<mapsto> snd B)" "NumEntries m1 = NumEntries m + 1"
        "length (Buckets m1) = length (Buckets m)"
      using Cons.prems lv by (elim move_bucket_ok [OF ok _ _ False, rotated -1]) auto
    have ih: "\<exists>m'. moveFromOldBuckets info Bs m1 = Some m' \<and> map_inv info m' \<and> fresh info m' \<and>
        visible info m' = visible info m1 ++ map_of (live info Bs) \<and>
        NumEntries m' = NumEntries m1 + length (live info Bs) \<and> length (Buckets m') = length (Buckets m1)"
      using m1 Cons.prems lv by (intro Cons.IH) (auto intro: rev_image_eqI)
    have vis: "visible info m1 ++ map_of (live info Bs) = visible info m ++ map_of (B # live info Bs)"
    proof -
      have "fst B \<notin> dom (map_of (live info Bs))" using Cons.prems(3) lv by (simp add: dom_map_of_conv_image_fst)
      then show ?thesis unfolding m1(4) by (cases B) (simp add: map_add_upd_left)
    qed
    show ?thesis unfolding lv vis [symmetric] using ih m1(1,5,6) by auto
  qed
qed

text \<open>Growth keeps every visible entry and drops the purgeable ones and the tombstones.\<close>

lemma grow_ok:
  assumes ok: "ok_info info" and inv: "map_inv info m" and n: "AtLeast \<le> 2 ^ 31" "NumEntries m < max 4 AtLeast"
  obtains m' k where "grow info AtLeast m = Some m'" "map_inv info m'" "fresh info m'" "visible info m' = visible info m"
    "NumEntries m' \<le> NumEntries m" "NumTombstones m' = 0"
    "length (Buckets m') = 2 ^ k" "AtLeast \<le> 2 ^ k" "4 \<le> (2 :: nat) ^ k" "2 ^ k \<le> max 4 (2 * (AtLeast - 1))"
proof -
  obtain k where k: "unat (grow_size (of_nat AtLeast)) = 2 ^ k" "AtLeast \<le> 2 ^ k" "4 \<le> (2 :: nat) ^ k"
      "2 ^ k \<le> max 4 (2 * (AtLeast - 1))"
    using grow_size_spec [OF n(1)] by auto
  let ?e = "initEmpty info (2 ^ k)"
  have pw: "pow2_size (2 ^ k)" by (auto simp: pow2_size_def)
  note e = map_inv_initEmpty [OF ok pw]
  have fe: "fresh info ?e" by (auto simp: fresh_def initEmpty_def)
  have grow: "grow info AtLeast m = moveFromOldBuckets info (Buckets m) ?e"
    by (simp add: grow_def k Let_def)
  have "\<exists>m'. moveFromOldBuckets info (Buckets m) ?e = Some m' \<and> map_inv info m' \<and> fresh info m' \<and>
      visible info m' = visible info ?e ++ map_of (live info (Buckets m)) \<and>
      NumEntries m' = NumEntries ?e + length (live info (Buckets m)) \<and> length (Buckets m') = length (Buckets ?e)"
    using inv n(2) k(2,3) length_live [of info "Buckets m"] e(2)
    by (intro moveFromOldBuckets_ok [OF ok e(1) fe])
       (auto simp: map_inv_def well_placed_def initEmpty_def intro!: distinct_live)
  then obtain m' where m': "grow info AtLeast m = Some m'" "map_inv info m'" "fresh info m'"
      "visible info m' = visible info m" "NumEntries m' = length (live info (Buckets m))" "length (Buckets m') = 2 ^ k"
    unfolding grow e(2) by (auto simp: initEmpty_def visible_live)
  moreover have "NumTombstones m' = 0" by (rule fresh_no_tombs [OF m'(3) ok m'(2)])
  moreover have "NumEntries m' \<le> NumEntries m" using m'(5) inv length_live [of info "Buckets m"] by (simp add: map_inv_def)
  ultimately show ?thesis using that [of m' k] k by blast
qed


subsection \<open>Insertion\<close>

lemma unat_u32: "x < 2 ^ 32 \<Longrightarrow> unat (of_nat x :: u32) = x"
  by (simp add: unat_of_nat)

lemma load_test_exact:
  assumes "n \<le> 2 ^ 29" "e \<le> n"
  shows "(of_nat (e + 1) * 4 :: u32) \<ge> of_nat n * 3 \<longleftrightarrow> n * 3 \<le> (e + 1) * 4"
proof -
  have "(of_nat (e + 1) * 4 :: u32) = of_nat ((e + 1) * 4)" "(of_nat n * 3 :: u32) = of_nat (n * 3)" by simp_all
  moreover have "unat (of_nat ((e + 1) * 4) :: u32) = (e + 1) * 4" "unat (of_nat (n * 3) :: u32) = n * 3"
    using assms by (intro unat_u32; simp)+
  ultimately show ?thesis by (metis word_le_nat_alt)
qed

lemma tombstone_test_exact:
  assumes "n \<le> 2 ^ 29" "e + 1 + t \<le> n"
  shows "(of_nat n - (of_nat (e + 1) + of_nat t) :: u32) \<le> of_nat n div 8 \<longleftrightarrow> n - (e + 1 + t) \<le> n div 8"
proof -
  have eq: "(of_nat n - (of_nat (e + 1) + of_nat t) :: u32) = of_nat (n - (e + 1 + t))"
    using assms(2) by (simp add: of_nat_diff)
  have "unat (of_nat (n - (e + 1 + t)) :: u32) = n - (e + 1 + t)" "unat (of_nat n :: u32) = n"
    using assms by (intro unat_u32; simp)+
  then show ?thesis unfolding eq word_le_nat_alt by (simp add: unat_div)
qed

lemma pow2_tight: "(2 :: nat) ^ j \<le> 2 ^ k \<Longrightarrow> (2 :: nat) ^ k < 2 * 2 ^ j \<Longrightarrow> (2 :: nat) ^ k = 2 ^ j"
  by (metis le_antisym less_Suc_eq_le one_less_numeral_iff power_Suc power_increasing_iff power_strict_increasing_iff semiring_norm(76))

text \<open>What an insertion of an absent key delivers.\<close>

definition inserted :: "('k, 'v) map_info \<Rightarrow> 'k \<Rightarrow> 'v \<Rightarrow> ('k, 'v) dense_map \<Rightarrow> nat \<Rightarrow> ('k, 'v) dense_map \<Rightarrow> bool" where
  "inserted info k v m b m' \<longleftrightarrow> map_inv info m' \<and> visible info m' = put info k v (visible info m) \<and>
     b < length (Buckets m') \<and> Buckets m' ! b = (k, v) \<and> NumEntries m' \<le> NumEntries m + 1 \<and>
     length (Buckets m') \<le> max (length (Buckets m)) (4 * (NumEntries m + 1))"

lemma insert_at_inserted:
  assumes "map_inv info m1" "ok_info info" "fillable info (Buckets m1) k b"
    and "NumEntries m1 + 1 + NumTombstones m1 < length (Buckets m1)"
    and "visible info m1 = visible info m" "NumEntries m1 \<le> NumEntries m"
    and "length (Buckets m1) \<le> max (length (Buckets m)) (4 * (NumEntries m + 1))"
  shows "inserted info k v m b ((count_bucket info b m1)\<lparr>Buckets := (Buckets m1)[b := (k, v)]\<rparr>)"
  using insert_at [OF assms(1-4) refl, of v] assms(3,5-7) unfolding inserted_def fillable_def by simp

lemma grow_then_insert:
  assumes ok: "ok_info info" and inv: "map_inv info m" and k: "real_key info k"
    and absent: "\<forall>c < length (Buckets m). fst (Buckets m ! c) \<noteq> k"
    and n: "AtLeast \<le> 2 ^ 31" "NumEntries m + 1 < max 4 AtLeast"
    and size: "pow2_size AtLeast" "AtLeast \<le> max (length (Buckets m)) (4 * (NumEntries m + 1))"
  shows "\<exists>b m1. relookup info k (grow info AtLeast m) = Some (b, m1) \<and>
      inserted info k v m b ((count_bucket info b m1)\<lparr>Buckets := (Buckets m1)[b := (k, v)]\<rparr>)"
proof -
  obtain m1 j where g: "grow info AtLeast m = Some m1" "map_inv info m1" "fresh info m1" "visible info m1 = visible info m"
      "NumEntries m1 \<le> NumEntries m" "NumTombstones m1 = 0"
      "length (Buckets m1) = 2 ^ j" "AtLeast \<le> 2 ^ j" "4 \<le> (2 :: nat) ^ j" "2 ^ j \<le> max 4 (2 * (AtLeast - 1))"
    using n(2) by (elim grow_ok [OF ok inv n(1), rotated]) linarith
  have "unique_keys info (Buckets m)" "unique_keys info (Buckets m1)"
    using inv g(2) by (simp_all add: map_inv_def well_placed_def)
  then have "visible info m1 k = None"
    unfolding g(4) using absent visible_nth by (metis fst_conv option.exhaust)
  then have absent1: "\<forall>c < length (Buckets m1). fst (Buckets m1 ! c) \<noteq> k"
    using \<open>unique_keys info (Buckets m1)\<close> k by (intro fresh_absent [OF g(3)]) auto
  moreover have "Buckets m1 \<noteq> []" using g(7) by auto
  ultimately obtain b where b: "fillable info (Buckets m1) k b" "LookupBucketFor info m1 k = LNotFound b"
    using lookup_cases [OF g(2) _ k] by metis
  have "2 ^ j \<le> max 4 AtLeast"
    using size(1) g(8-10) pow2_tight [of _ j] by (fastforce simp: pow2_size_def max_def split: if_splits)
  then have "length (Buckets m1) \<le> max (length (Buckets m)) (4 * (NumEntries m + 1))"
    using g(7) size(2) by (auto simp: max_def split: if_splits)
  then have "inserted info k v m b ((count_bucket info b m1)\<lparr>Buckets := (Buckets m1)[b := (k, v)]\<rparr>)"
    using n(2) g(5-9) by (intro insert_at_inserted [OF g(2) ok b(1) _ g(4,5)]) auto
  then show ?thesis using g(1) b(2) by (auto simp: relookup_def)
qed

lemma InsertIntoBucket_ok:
  assumes ok: "ok_info info" and inv: "map_inv info m" and k: "real_key info k"
    and absent: "\<forall>c < length (Buckets m). fst (Buckets m ! c) \<noteq> k"
    and n: "length (Buckets m) \<le> 2 ^ 29"
    and TB: "TB = (case LookupBucketFor info m k of LNotFound b \<Rightarrow> Some b | _ \<Rightarrow> None)"
  shows "\<exists>b m'. InsertIntoBucket info k v TB m = Some (b, m') \<and> inserted info k v m b m'"
proof -
  let ?n = "length (Buckets m)" and ?e = "NumEntries m" and ?t = "NumTombstones m"
  have e: "?n = 0 \<and> ?e = 0 \<and> ?t = 0 \<or> ?e + ?t < ?n"
    using inv by (cases "Buckets m = []") (auto simp: map_inv_def real_buckets_def tomb_buckets_def)
  have p: "pow2_size ?n" using inv by (simp add: map_inv_def well_placed_def)
  then have p2: "pow2_size (?n * 2)" unfolding pow2_size_def by (metis mult.commute mult_0 power_Suc)
  have t1: "(of_nat (?e + 1) * 4 :: u32) \<ge> of_nat ?n * 3 \<longleftrightarrow> ?n * 3 \<le> (?e + 1) * 4"
    using n e by (intro load_test_exact) auto
  have "\<exists>b m1. InsertIntoBucketImpl info k TB m = Some (b, count_bucket info b m1) \<and>
      inserted info k v m b ((count_bucket info b m1)\<lparr>Buckets := (Buckets m1)[b := (k, v)]\<rparr>)"
  proof (cases "?n * 3 \<le> (?e + 1) * 4")
    case True
    have sz: "?n * 2 \<le> 2 ^ 31" "?e + 1 < max 4 (?n * 2)" "?n * 2 \<le> max ?n (4 * (?e + 1))" using n e True by auto
    show ?thesis using grow_then_insert [OF ok inv k absent sz(1,2) p2 sz(3), of v] True t1
      by (auto simp: InsertIntoBucketImpl_def getNumBuckets_def Let_def)
  next
    case load: False
    then have t2: "(of_nat ?n - (of_nat (?e + 1) + of_nat ?t) :: u32) \<le> of_nat ?n div 8 \<longleftrightarrow> ?n - (?e + 1 + ?t) \<le> ?n div 8"
      using n e by (intro tombstone_test_exact) auto
    show ?thesis
    proof (cases "?n - (?e + 1 + ?t) \<le> ?n div 8")
      case True
      have sz: "?n \<le> 2 ^ 31" "?e + 1 < max 4 ?n" "?n \<le> max ?n (4 * (?e + 1))" using n load by auto
      show ?thesis using grow_then_insert [OF ok inv k absent sz(1,2) p sz(3), of v] True load t1 t2
        by (auto simp: InsertIntoBucketImpl_def getNumBuckets_def Let_def)
    next
      case False
      then have room: "?e + 1 + ?t < ?n" and ne: "Buckets m \<noteq> []" using load by auto
      obtain b where b: "fillable info (Buckets m) k b" "LookupBucketFor info m k = LNotFound b"
        using lookup_cases [OF inv ne k] absent by metis
      then show ?thesis using insert_at_inserted [OF inv ok b(1) room, of m v] False load t1 t2 TB
        by (auto simp: InsertIntoBucketImpl_def getNumBuckets_def Let_def)
    qed
  qed
  then show ?thesis by (auto simp: InsertIntoBucket_def)
qed


subsection \<open>Overwriting a value and removing an entry\<close>

lemma fst_update_value: "fst (bs ! b) = k \<Longrightarrow> fst (bs[b := (k, v)] ! c) = fst (bs ! c)"
  by (cases "b < length bs"; cases "b = c") (auto simp: list_update_beyond)

lemma map_inv_update_value:
  assumes "map_inv info m" "fst (Buckets m ! b) = k"
  shows "map_inv info (m\<lparr>Buckets := (Buckets m)[b := (k, v)]\<rparr>)"
  using assms unfolding map_inv_def well_placed_def unique_keys_def on_path_def real_buckets_def tomb_buckets_def
  by (clarsimp simp: fst_update_value)

lemma visible_update_value:
  assumes inv: "map_inv info m" and b: "b < length (Buckets m)" "fst (Buckets m ! b) = k" and k: "real_key info k"
  shows "visible info (m\<lparr>Buckets := (Buckets m)[b := (k, v)]\<rparr>) = put info k v (visible info m)" (is "visible info ?m = _")
proof -
  have u: "unique_keys info (Buckets m)" "unique_keys info (Buckets ?m)"
    using inv map_inv_update_value [OF inv b(2), of v] by (simp_all add: map_inv_def well_placed_def)
  have only: "\<forall>c < length (Buckets m). fst (Buckets m ! c) = k \<longrightarrow> c = b"
    using u(1) b k unfolding unique_keys_def by metis
  show ?thesis using visible_one [OF u _ b(1) only, of "(k, v)"] b k by (simp add: put_def reusable_def)
qed

lemma tombstone_inv:
  assumes ok: "ok_info info" and inv: "map_inv info m" and b: "b < length (Buckets m)" "real_key info (fst (Buckets m ! b))"
    and m': "m' = m\<lparr>Buckets := (Buckets m)[b := (TombstoneKey info, w)],
                    NumEntries := NumEntries m - 1, NumTombstones := NumTombstones m + 1\<rparr>"
  shows "map_inv info m'"
proof -
  let ?bs = "Buckets m" and ?bs' = "Buckets m'"
  have bs': "?bs' = ?bs[b := (TombstoneKey info, w)]" by (simp add: m')
  have "real_buckets info ?bs' = real_buckets info ?bs - {b}" "tomb_buckets info ?bs' = insert b (tomb_buckets info ?bs)"
    using b by (auto simp: bs' real_buckets_def tomb_buckets_def real_key_def nth_list_update)
  moreover have "b \<in> real_buckets info ?bs" "b \<notin> tomb_buckets info ?bs"
    using b by (auto simp: real_buckets_def tomb_buckets_def real_key_def)
  ultimately have cards: "card (real_buckets info ?bs') = NumEntries m - 1" "card (tomb_buckets info ?bs') = NumTombstones m + 1"
      "0 < NumEntries m"
    using inv by (auto simp: map_inv_def card_gt_0_iff)
  have "unique_keys info ?bs'"
    using inv b(1) unfolding map_inv_def well_placed_def unique_keys_def bs'
    by (auto simp: nth_list_update real_key_def split: if_splits)
  moreover have "on_path info ?bs' (fst (?bs' ! c)) c" if "c < length ?bs" "real_key info (fst (?bs' ! c))" for c
    using that inv ok b unfolding bs'
    by (intro on_path_update) (auto simp: map_inv_def well_placed_def nth_list_update real_key_def ok_info_def split: if_splits)
  moreover have "length ?bs' = length ?bs" "pow2_size (length ?bs)" "?bs \<noteq> []" "NumEntries m + NumTombstones m < length ?bs"
    using inv b(1) by (auto simp: map_inv_def well_placed_def m')
  moreover have "NumEntries m' = NumEntries m - 1" "NumTombstones m' = NumTombstones m + 1" by (simp_all add: m')
  ultimately show ?thesis using cards unfolding map_inv_def well_placed_def by (simp (no_asm_simp))
qed

lemma tombstone_visible:
  assumes ok: "ok_info info" and inv: "map_inv info m" and b: "b < length (Buckets m)" "real_key info k" "fst (Buckets m ! b) = k"
    and inv': "map_inv info m'" and m': "Buckets m' = (Buckets m)[b := (TombstoneKey info, w)]"
  shows "visible info m' = (visible info m)(k := None)"
proof -
  have u: "unique_keys info (Buckets m)" "unique_keys info (Buckets m')"
    using inv inv' by (simp_all add: map_inv_def well_placed_def)
  have only: "\<forall>c < length (Buckets m). fst (Buckets m ! c) = k \<longrightarrow> c = b"
    using u(1) b unfolding unique_keys_def by metis
  show ?thesis using visible_one [OF u m' b(1) only] b by (simp add: reusable_def real_key_def)
qed

end
