(* ===== verification/RefcountMap.thy ===== *)
theory RefcountMap
  imports DenseTable
begin

text \<open>
  What \<open>objc::DenseMap\<close> promises its clients: on a table satisfying the invariant each
  operation ends, keeps the invariant and changes the visible map as a finite map would. The
  contract is a locale, interpreted on the side table's reference count map.
\<close>

subsection \<open>Compaction, removal, clearing and reservation\<close>

lemma visible_no_entries:
  assumes "map_inv info m" "NumEntries m = 0"
  shows "visible info m = Map.empty"
proof -
  have "length (live info (Buckets m)) = 0" using assms length_live [of info "Buckets m"] by (simp add: map_inv_def)
  then show ?thesis by (simp add: visible_live)
qed

lemma map_inv_map_init:
  "ok_info info \<Longrightarrow> map_inv info (map_init info n)"
  "ok_info info \<Longrightarrow> visible info (map_init info n) = Map.empty"
  by (simp_all add: map_init_def map_inv_initEmpty getMinBucket_pow2)

lemma map_init_0: "map_init info 0 = initEmpty info 0"
  by (simp add: map_init_def getMinBucketToReserveForEntries_def)

lemma shrink_and_clear_ok:
  assumes "ok_info info" "map_inv info m"
  shows "map_inv info (shrink_and_clear info m)" "visible info (shrink_and_clear info m) = Map.empty"
proof -
  have pw: "pow2_size (getNumBuckets m)" using assms(2) by (simp add: map_inv_def well_placed_def getNumBuckets_def)
  show "map_inv info (shrink_and_clear info m)" "visible info (shrink_and_clear info m) = Map.empty"
    using map_inv_map_init [OF assms(1)] map_inv_initEmpty [OF assms(1) pw] by (simp_all add: shrink_and_clear_def Let_def)
qed

text \<open>After a removal the table may be emptied or shrunk, never enlarged.\<close>

lemma compact_ok:
  assumes ok: "ok_info info" and inv: "map_inv info m" and n: "length (Buckets m) \<le> 2 ^ 29"
  shows "\<exists>m'. compact info m = Some m' \<and> map_inv info m' \<and> visible info m' = visible info m \<and>
      NumEntries m' \<le> NumEntries m \<and> length (Buckets m') \<le> length (Buckets m)"
proof (cases "NumEntries m = 0")
  case True
  then have "length (Buckets (shrink_and_clear info m)) \<le> length (Buckets m)" "NumEntries (shrink_and_clear info m) = 0"
    by (simp_all add: shrink_and_clear_def map_init_0 getNumBuckets_def initEmpty_def)
  then show ?thesis using True shrink_and_clear_ok [OF ok inv] visible_no_entries [OF inv True] by (simp add: compact_def)
next
  case e: False
  show ?thesis
  proof (cases "getNumBuckets m div 16 > NumEntries m \<and> getNumBuckets m > MIN_COMPACT")
    case True
    have sz: "NumEntries m * 2 \<le> 2 ^ 31" "NumEntries m < max 4 (NumEntries m * 2)"
      using True n e by (auto simp: getNumBuckets_def)
    obtain m' k where g: "grow info (NumEntries m * 2) m = Some m'" "map_inv info m'" "visible info m' = visible info m"
        "NumEntries m' \<le> NumEntries m" "length (Buckets m') = 2 ^ k" "2 ^ k \<le> max 4 (2 * (NumEntries m * 2 - 1))"
      by (rule grow_ok [OF ok inv sz]) blast
    have "length (Buckets m') \<le> length (Buckets m)"
      using g(5,6) True by (auto simp: getNumBuckets_def MIN_COMPACT_def max_def split: if_splits)
    then show ?thesis using g e True by (simp add: compact_def)
  next
    case False
    then have "compact info m = Some m" using e by (auto simp: compact_def)
    then show ?thesis using inv by simp
  qed
qed

lemma lookup_no_buckets: "Buckets m = [] \<Longrightarrow> LookupBucketFor info m k = LNoBuckets"
  by (simp add: LookupBucketFor_def getNumBuckets_def)

lemma map_inv_cong:
  "Buckets m = Buckets m' \<Longrightarrow> NumEntries m = NumEntries m' \<Longrightarrow> NumTombstones m = NumTombstones m' \<Longrightarrow> map_inv info m = map_inv info m'"
  by (simp add: map_inv_def)

lemma visible_absent:
  assumes "map_inv info m" "\<forall>c < length (Buckets m). fst (Buckets m ! c) \<noteq> k"
  shows "visible info m k = None"
proof -
  have "unique_keys info (Buckets m)" using assms(1) by (simp add: map_inv_def well_placed_def)
  then show ?thesis using assms(2) visible_nth by (metis fst_conv option.exhaust)
qed

lemma erase_ok:
  assumes ok: "ok_info info" and inv: "map_inv info m" and k: "real_key info k" and n: "length (Buckets m) \<le> 2 ^ 29"
  shows "\<exists>m'. erase info k m = Some ((\<exists>B \<in> set (Buckets m). fst B = k), m') \<and> map_inv info m' \<and>
      visible info m' = (visible info m)(k := None) \<and>
      NumEntries m' \<le> NumEntries m \<and> length (Buckets m') \<le> length (Buckets m)"
proof (cases "\<exists>b < length (Buckets m). fst (Buckets m ! b) = k")
  case True
  then obtain b where b: "b < length (Buckets m)" "fst (Buckets m ! b) = k" by blast
  then have lk: "LookupBucketFor info m k = LFound b" using inv k by (intro lookup_present) (simp_all add: map_inv_def)
  define m1 where "m1 = m\<lparr>Buckets := (Buckets m)[b := (TombstoneKey info, snd (Buckets m ! b))],
      NumEntries := NumEntries m - 1, NumTombstones := NumTombstones m + 1\<rparr>"
  have inv1: "map_inv info m1" using b k by (intro tombstone_inv [OF ok inv b(1) _ m1_def]) simp
  have vis1: "visible info m1 = (visible info m)(k := None)"
    by (rule tombstone_visible [OF ok inv b(1) k b(2) inv1]) (simp add: m1_def)
  have "length (Buckets m1) \<le> 2 ^ 29" using n by (simp add: m1_def)
  from compact_ok [OF ok inv1 this] obtain m' where m': "compact info m1 = Some m'" "map_inv info m'"
      "visible info m' = visible info m1" "NumEntries m' \<le> NumEntries m1" "length (Buckets m') \<le> length (Buckets m1)" by blast
  have "erase_bucket info b m = Some m'" unfolding erase_bucket_def m1_def [symmetric] by (rule m'(1))
  then have "erase info k m = Some (True, m')" by (simp add: erase_def lk)
  moreover have "\<exists>B \<in> set (Buckets m). fst B = k" using b nth_mem by blast
  ultimately show ?thesis using m' vis1 by (simp add: m1_def)
next
  case False
  then have "\<not> (\<exists>B \<in> set (Buckets m). fst B = k)" by (metis in_set_conv_nth)
  moreover have "erase info k m = Some (False, m)"
  proof (cases "Buckets m = []")
    case True
    then show ?thesis by (simp add: erase_def lookup_no_buckets)
  next
    case ne: False
    show ?thesis by (rule lookup_cases [OF inv ne k]) (use False in \<open>auto simp: erase_def\<close>)
  qed
  moreover have "(visible info m)(k := None) = visible info m"
    using visible_absent [OF inv] False by (auto simp: fun_upd_idem)
  ultimately show ?thesis using inv by simp
qed


lemma clear_ok:
  assumes ok: "ok_info info" and inv: "map_inv info m"
  shows "map_inv info (clear info m)" "visible info (clear info m) = Map.empty"
proof -
  define m1 where "m1 = \<lparr>Buckets = map (\<lambda>B. (EmptyKey info, snd B)) (Buckets m), NumEntries = 0, NumTombstones = 0 :: nat\<rparr>"
  have "map_inv info m1"
    using ok inv by (auto simp: m1_def map_inv_def well_placed_def unique_keys_def real_buckets_def tomb_buckets_def real_key_def ok_info_def)
  moreover have "visible info m1 = Map.empty" by (rule visible_no_entries [OF calculation]) (simp add: m1_def)
  ultimately show "map_inv info (clear info m)" "visible info (clear info m) = Map.empty"
    using inv visible_no_entries [OF inv] shrink_and_clear_ok [OF ok inv] by (auto simp: clear_def m1_def)
qed

lemma reserve_ok:
  assumes ok: "ok_info info" and inv: "map_inv info m" and n: "unat n < 2 ^ 29"
  shows "\<exists>m'. reserve info n m = Some m' \<and> map_inv info m' \<and> visible info m' = visible info m"
proof (cases "unat (getMinBucketToReserveForEntries n) > getNumBuckets m")
  case True
  let ?s = "unat (getMinBucketToReserveForEntries n)"
  have "?s \<le> 2 ^ 31"
    using getMinBucket_pow2 [of n]
  proof (auto simp only: pow2_size_def)
    fix j assume j: "?s = 2 ^ j"
    have "?s < 2 ^ LENGTH(32)" by (rule unsigned_less)
    then have "(2 :: nat) ^ j < 2 ^ 32" using j by simp
    then have "j < 32" by (rule power_less_imp_less_exp [rotated]) simp
    then show "(2 :: nat) ^ j \<le> 2 ^ 31" by (intro power_increasing) auto
  qed
  moreover have "NumEntries m < max 4 ?s" using inv True by (cases "Buckets m = []") (auto simp: map_inv_def getNumBuckets_def real_buckets_def)
  ultimately obtain m' where "grow info ?s m = Some m'" "map_inv info m'" "visible info m' = visible info m"
    by (rule grow_ok [OF ok inv]) blast
  then show ?thesis using True by (simp add: reserve_def)
qed (use inv in \<open>simp add: reserve_def\<close>)

subsection \<open>Insertion and lookup\<close>

lemma try_emplace_cases:
  assumes ok: "ok_info info" and inv: "map_inv info m" and k: "real_key info k" and n: "length (Buckets m) \<le> 2 ^ 29"
  obtains b where "b < length (Buckets m)" "fst (Buckets m ! b) = k" "try_emplace info k v m = Some (False, b, m)"
  | b m' where "\<forall>B \<in> set (Buckets m). fst B \<noteq> k" "try_emplace info k v m = Some (True, b, m')" "inserted info k v m b m'"
proof (cases "\<exists>b < length (Buckets m). fst (Buckets m ! b) = k")
  case True
  then obtain b where b: "b < length (Buckets m)" "fst (Buckets m ! b) = k" by blast
  then have "LookupBucketFor info m k = LFound b" using inv k by (intro lookup_present) (simp_all add: map_inv_def)
  then show ?thesis using that(1) b by (simp add: try_emplace_def)
next
  case False
  then have absent: "\<forall>c < length (Buckets m). fst (Buckets m ! c) \<noteq> k" by blast
  have lk: "LookupBucketFor info m k = LNoBuckets \<or> (\<exists>b. LookupBucketFor info m k = LNotFound b)"
    using lookup_no_buckets [of m info k] lookup_cases [OF inv _ k] False by metis
  obtain b m' where "InsertIntoBucket info k v (case LookupBucketFor info m k of LNotFound b \<Rightarrow> Some b | _ \<Rightarrow> None) m = Some (b, m')"
      "inserted info k v m b m'"
    using InsertIntoBucket_ok [OF ok inv k absent n refl] by blast
  moreover have "\<forall>B \<in> set (Buckets m). fst B \<noteq> k" using absent by (metis in_set_conv_nth)
  ultimately show ?thesis using lk by (intro that(2) [of b m']) (auto simp: try_emplace_def)
qed

lemma operator_store_ok:
  assumes ok: "ok_info info" and inv: "map_inv info m" and k: "real_key info k" and n: "length (Buckets m) \<le> 2 ^ 29"
  shows "\<exists>m'. operator_store info k v m = Some m' \<and> map_inv info m' \<and> visible info m' = put info k v (visible info m) \<and>
      NumEntries m' \<le> NumEntries m + 1 \<and> length (Buckets m') \<le> max (length (Buckets m)) (4 * (NumEntries m + 1))"
proof -
  obtain b m1 where m1: "FindAndConstruct info k m = Some (b, m1)" "map_inv info m1" "b < length (Buckets m1)" "fst (Buckets m1 ! b) = k"
      "put info k v (visible info m1) = put info k v (visible info m)"
      "NumEntries m1 \<le> NumEntries m + 1" "length (Buckets m1) \<le> max (length (Buckets m)) (4 * (NumEntries m + 1))"
  proof (rule try_emplace_cases [OF ok inv k n, of "DefaultValue info"])
    fix b assume "b < length (Buckets m)" "fst (Buckets m ! b) = k" "try_emplace info k (DefaultValue info) m = Some (False, b, m)"
    then show thesis using inv by (intro that [of b m]) (auto simp: FindAndConstruct_def)
  next
    fix b m' assume "try_emplace info k (DefaultValue info) m = Some (True, b, m')" "inserted info k (DefaultValue info) m b m'"
    then show thesis by (intro that [of b m']) (auto simp: FindAndConstruct_def inserted_def put_def)
  qed
  have "operator_store info k v m = Some (m1\<lparr>Buckets := (Buckets m1)[b := (k, v)]\<rparr>)" using m1(1,4) by (simp add: operator_store_def)
  then show ?thesis using m1 map_inv_update_value [OF m1(2,4)] visible_update_value [OF m1(2-4) k] by simp
qed

lemma map_lookup_ok:
  assumes inv: "map_inv info m" and k: "real_key info k" and p: "\<forall>v. isPurgeable info v \<longrightarrow> v = DefaultValue info"
  shows "map_lookup info m k = (case visible info m k of None \<Rightarrow> DefaultValue info | Some v \<Rightarrow> v)"
proof (cases "\<exists>b < length (Buckets m). fst (Buckets m ! b) = k")
  case True
  then obtain b where b: "b < length (Buckets m)" "fst (Buckets m ! b) = k" by blast
  then have lk: "LookupBucketFor info m k = LFound b" using inv k by (intro lookup_present) (simp_all add: map_inv_def)
  have u: "unique_keys info (Buckets m)" using inv by (simp add: map_inv_def well_placed_def)
  obtain v where v: "Buckets m ! b = (k, v)" using b(2) by (cases "Buckets m ! b") auto
  show ?thesis
  proof (cases "isPurgeable info v")
    case True
    have "visible info m k = None" using u b v k True visible_nth [OF u] unfolding unique_keys_def reusable_def
      by (metis fst_conv option.exhaust snd_conv)
    then show ?thesis using lk v p True by (simp add: map_lookup_def)
  next
    case False
    then have "visible info m k = Some v" using visible_nth [OF u] b v k by (auto simp: reusable_def)
    then show ?thesis using lk v by (simp add: map_lookup_def)
  qed
next
  case False
  have "LookupBucketFor info m k = LNoBuckets \<or> (\<exists>b. LookupBucketFor info m k = LNotFound b)"
    using lookup_no_buckets [of m info k] lookup_cases [OF inv _ k] False by metis
  then show ?thesis using visible_absent [OF inv] False by (auto simp: map_lookup_def)
qed


subsection \<open>The contract\<close>

text \<open>
  A client changes the map by assigning through \<open>operator[]\<close> and by erasing keys. The contract
  counts the assignments, because the number of buckets is bounded by four times their number
  and the code's 32-bit load tests are exact up to \<open>2 ^ 29\<close> buckets.
\<close>

datatype ('k, 'v) map_op = Store 'k 'v | Erase 'k

primrec op_key :: "('k, 'v) map_op \<Rightarrow> 'k" where
  "op_key (Store k v) = k"
| "op_key (Erase k) = k"

definition stores :: "('k, 'v) map_op list \<Rightarrow> nat" where
  "stores ops = length (filter (\<lambda>x. \<exists>k v. x = Store k v) ops)"

primrec spec_op :: "('v \<Rightarrow> 'v option) \<Rightarrow> ('k, 'v) map_op \<Rightarrow> ('k \<rightharpoonup> 'v) \<Rightarrow> 'k \<rightharpoonup> 'v" where
  "spec_op enc (Store k v) f = f(k := enc v)"
| "spec_op enc (Erase k) f = f(k := None)"

primrec run_ops :: "('o \<Rightarrow> 'm \<Rightarrow> 'm option) \<Rightarrow> 'o list \<Rightarrow> 'm \<Rightarrow> 'm option" where
  "run_ops step [] m = Some m"
| "run_ops step (x # xs) m = (case step x m of None \<Rightarrow> None | Some m' \<Rightarrow> run_ops step xs m')"

locale finite_map_contract =
  fixes inv :: "nat \<Rightarrow> 'm \<Rightarrow> bool" and vis :: "'m \<Rightarrow> 'k \<rightharpoonup> 'v"
    and step :: "('k, 'v) map_op \<Rightarrow> 'm \<Rightarrow> 'm option"
    and valid :: "'k \<Rightarrow> bool" and enc :: "'v \<Rightarrow> 'v option" and limit :: nat
  assumes store_law: "inv n m \<Longrightarrow> n < limit \<Longrightarrow> valid k \<Longrightarrow>
      \<exists>m'. step (Store k v) m = Some m' \<and> inv (Suc n) m' \<and> vis m' = (vis m)(k := enc v)"
    and erase_law: "inv n m \<Longrightarrow> n \<le> limit \<Longrightarrow> valid k \<Longrightarrow>
      \<exists>m'. step (Erase k) m = Some m' \<and> inv n m' \<and> vis m' = (vis m)(k := None)"
begin

lemma step_ok:
  assumes "inv n m" "n + stores [x] \<le> limit" "valid (op_key x)"
  shows "\<exists>m'. step x m = Some m' \<and> inv (n + stores [x]) m' \<and> vis m' = spec_op enc x (vis m)"
  using assms store_law erase_law by (cases x) (auto simp: stores_def)

lemma run_ok:
  assumes "inv n m" "n + stores ops \<le> limit" "\<forall>x \<in> set ops. valid (op_key x)"
  shows "\<exists>m'. run_ops step ops m = Some m' \<and> inv (n + stores ops) m' \<and> vis m' = fold (spec_op enc) ops (vis m)"
  using assms
proof (induction ops arbitrary: n m)
  case (Cons x xs)
  have split: "stores (x # xs) = stores [x] + stores xs" by (simp add: stores_def)
  have "n + stores [x] \<le> limit" using Cons.prems(2) split by simp
  then obtain m1 where m1: "step x m = Some m1" "inv (n + stores [x]) m1" "vis m1 = spec_op enc x (vis m)"
    using step_ok [OF Cons.prems(1)] Cons.prems(3) by auto
  then show ?case using Cons.IH [OF m1(2)] Cons.prems(2,3) split by (auto simp: add.assoc)
qed (simp add: stores_def)

end

definition map_step :: "('k, 'v) map_info \<Rightarrow> ('k, 'v) map_op \<Rightarrow> ('k, 'v) dense_map \<Rightarrow> ('k, 'v) dense_map option" where
  "map_step info x m =
     (case x of Store k v \<Rightarrow> operator_store info k v m
      | Erase k \<Rightarrow> (case erase info k m of None \<Rightarrow> None | Some (_, m') \<Rightarrow> Some m'))"

definition refcnt_inv :: "nat \<Rightarrow> (u64, u64) dense_map \<Rightarrow> bool" where
  "refcnt_inv n m \<longleftrightarrow> map_inv refcnt_info m \<and> NumEntries m \<le> n \<and> length (Buckets m) \<le> 4 * n"

definition nonzero :: "u64 \<Rightarrow> u64 option" where
  "nonzero v = (if v = 0 then None else Some v)"

lemma ok_refcnt_info: "ok_info refcnt_info"
  by (simp add: ok_info_def refcnt_info_def disguise_def)

lemma put_refcnt: "put refcnt_info k v f = f(k := nonzero v)"
  by (simp add: put_def refcnt_info_def nonzero_def)

interpretation refcnts: finite_map_contract refcnt_inv "visible refcnt_info" "map_step refcnt_info"
  "real_key refcnt_info" nonzero "2 ^ 27"
proof
  fix n m k and v :: u64
  assume "refcnt_inv n m" "n < 2 ^ 27" "real_key refcnt_info k"
  then show "\<exists>m'. map_step refcnt_info (Store k v) m = Some m' \<and> refcnt_inv (Suc n) m' \<and>
      visible refcnt_info m' = (visible refcnt_info m)(k := nonzero v)"
    using operator_store_ok [OF ok_refcnt_info, of m k v]
    by (fastforce simp: map_step_def refcnt_inv_def put_refcnt)
next
  fix n m k
  assume "refcnt_inv n m" "n \<le> 2 ^ 27" "real_key refcnt_info k"
  then show "\<exists>m'. map_step refcnt_info (Erase k) m = Some m' \<and> refcnt_inv n m' \<and>
      visible refcnt_info m' = (visible refcnt_info m)(k := None)"
    using erase_ok [OF ok_refcnt_info, of m k] by (fastforce simp: map_step_def refcnt_inv_def)
qed


lemma refcnt_purgeable: "\<forall>v. isPurgeable refcnt_info v \<longrightarrow> v = DefaultValue refcnt_info"
  by (simp add: refcnt_info_def)

lemma refcnt_init: "refcnt_inv 0 (map_init refcnt_info 0)" "visible refcnt_info (map_init refcnt_info 0) = Map.empty"
  using map_inv_map_init [OF ok_refcnt_info, of 0]
  by (simp_all add: refcnt_inv_def) (simp add: map_init_0 initEmpty_def)

lemma real_key_16: "real_key refcnt_info 16" "real_key refcnt_info 32"
  by (simp_all add: real_key_def refcnt_info_def disguise_def)

lemma map_inv_four: "map_inv refcnt_info (initEmpty refcnt_info 4)"
proof (rule map_inv_initEmpty(1) [OF ok_refcnt_info])
  have "(4 :: nat) = 2 ^ 2" by simp
  then show "pow2_size 4" unfolding pow2_size_def by blast
qed

subsection \<open>Properties\<close>

text \<open>
  C25. The side table's reference count map refines a finite map: from an empty table, any
  sequence of assignments and erasures of object keys with up to \<open>2 ^ 27\<close> assignments completes
  (no lookup reports corruption, through every growth, purge and compaction), and a later lookup
  of any object returns the last value assigned to it and not erased, or zero.
\<close>

theorem refcount_map_refines:
  assumes "stores ops \<le> 2 ^ 27" "\<forall>x \<in> set ops. real_key refcnt_info (op_key x)"
  shows "\<exists>m. run_ops (map_step refcnt_info) ops (map_init refcnt_info 0) = Some m \<and> map_inv refcnt_info m \<and>
    (\<forall>k. real_key refcnt_info k \<longrightarrow> map_lookup refcnt_info m k =
       (case fold (spec_op nonzero) ops Map.empty k of None \<Rightarrow> 0 | Some v \<Rightarrow> v))"
proof -
  obtain m where m: "run_ops (map_step refcnt_info) ops (map_init refcnt_info 0) = Some m" "refcnt_inv (0 + stores ops) m"
      "visible refcnt_info m = fold (spec_op nonzero) ops Map.empty"
    using refcnts.run_ok [OF refcnt_init(1), of ops] assms refcnt_init(2) by auto
  have d: "DefaultValue refcnt_info = 0" by (simp add: refcnt_info_def)
  show ?thesis using m map_lookup_ok [OF _ _ refcnt_purgeable, unfolded d] by (auto simp: refcnt_inv_def)
qed

theorem refcount_map_refines_witness:
  "\<exists>m. run_ops (map_step refcnt_info) [Store 16 5, Store 32 7, Store 16 0, Erase 32, Store 16 9] (map_init refcnt_info 0) = Some m \<and>
     map_lookup refcnt_info m 16 = 9 \<and> map_lookup refcnt_info m 32 = 0"
proof -
  let ?ops = "[Store 16 5, Store 32 7, Store 16 0, Erase 32, Store 16 9] :: (u64, u64) map_op list"
  have s: "stores ?ops \<le> 2 ^ 27" by (simp add: stores_def)
  have v: "\<forall>x \<in> set ?ops. real_key refcnt_info (op_key x)" using real_key_16 by simp
  show ?thesis using refcount_map_refines [OF s v] real_key_16 by (fastforce simp: nonzero_def)
qed

text \<open>
  On a table satisfying the invariant a lookup always ends, never by reporting corruption: it
  returns the one bucket that holds the key, or, when none does, a bucket that an insertion may
  fill (empty, a tombstone, or holding a purgeable value); with no buckets it returns none.
\<close>

lemma LookupBucketFor_correct:
  assumes "map_inv info m" "real_key info k"
  shows "(case LookupBucketFor info m k of
       LFound b \<Rightarrow> b < getNumBuckets m \<and> fst (Buckets m ! b) = k
     | LNotFound b \<Rightarrow> b < getNumBuckets m \<and> reusable info (Buckets m ! b) \<and> (\<forall>B \<in> set (Buckets m). fst B \<noteq> k)
     | LNoBuckets \<Rightarrow> getNumBuckets m = 0
     | LFatal \<Rightarrow> False)"
proof (cases "Buckets m = []")
  case True
  then show ?thesis by (simp add: lookup_no_buckets getNumBuckets_def)
next
  case False
  show ?thesis
  proof (rule lookup_cases [OF assms(1) False assms(2)])
    fix b assume "fillable info (Buckets m) k b" "LookupBucketFor info m k = LNotFound b"
    then show ?thesis by (auto simp: fillable_def getNumBuckets_def in_set_conv_nth) (metis fst_conv)
  qed (simp add: getNumBuckets_def)
qed

lemma LookupBucketFor_correct_witness:
  "map_inv refcnt_info (initEmpty refcnt_info 4) \<and> real_key refcnt_info 16 \<and>
   (\<exists>b < 4. LookupBucketFor refcnt_info (initEmpty refcnt_info 4) 16 = LNotFound b)"
  using LookupBucketFor_correct [OF map_inv_four real_key_16(1)] map_inv_four real_key_16
  by (auto simp: initEmpty_def getNumBuckets_def refcnt_info_def disguise_def split: lookup_result.splits)

text \<open>
  C26. Inserting into a table of up to \<open>2 ^ 29\<close> buckets always succeeds and keeps the invariant. A
  key that is already there is left as it is and its bucket returned; otherwise the pair is in the
  returned bucket, every other visible entry is kept although the table may have been rebuilt at
  double or at the same size, and the table has at most four buckets per entry or its old size.
\<close>

theorem try_emplace_correct:
  assumes "ok_info info" "map_inv info m" "real_key info k" "getNumBuckets m \<le> 2 ^ 29"
  shows "\<exists>new b m'. try_emplace info k v m = Some (new, b, m') \<and> map_inv info m' \<and>
     (new \<longleftrightarrow> (\<forall>B \<in> set (Buckets m). fst B \<noteq> k)) \<and> b < getNumBuckets m' \<and> fst (Buckets m' ! b) = k \<and>
     (\<not> new \<longrightarrow> m' = m) \<and>
     (new \<longrightarrow> Buckets m' ! b = (k, v) \<and> visible info m' = put info k v (visible info m) \<and>
        getNumBuckets m' \<le> max (getNumBuckets m) (4 * (NumEntries m + 1)))"
proof (rule try_emplace_cases [OF assms(1-3) assms(4) [unfolded getNumBuckets_def], of v])
  fix b assume b: "b < length (Buckets m)" "fst (Buckets m ! b) = k" "try_emplace info k v m = Some (False, b, m)"
  then have "\<exists>B \<in> set (Buckets m). fst B = k" using nth_mem by blast
  then show ?thesis using b assms(2) by (simp add: getNumBuckets_def) blast
next
  fix b m' assume "\<forall>B \<in> set (Buckets m). fst B \<noteq> k" "try_emplace info k v m = Some (True, b, m')" "inserted info k v m b m'"
  then show ?thesis unfolding inserted_def getNumBuckets_def by (intro exI [of _ True] exI [of _ b] exI [of _ m']) simp
qed

theorem try_emplace_correct_witness:
  "\<exists>new b m'. try_emplace refcnt_info 16 5 (initEmpty refcnt_info 4) = Some (new, b, m') \<and> new \<and> Buckets m' ! b = (16, 5)"
proof -
  have n: "getNumBuckets (initEmpty refcnt_info 4) \<le> 2 ^ 29" by (simp add: getNumBuckets_def initEmpty_def)
  have "\<forall>B \<in> set (Buckets (initEmpty refcnt_info 4)). fst B \<noteq> 16" using real_key_16 by (simp add: initEmpty_def real_key_def)
  then show ?thesis using try_emplace_correct [OF ok_refcnt_info map_inv_four real_key_16(1) n, of 5] by blast
qed

text \<open>
  Erasing a key from a table of up to \<open>2 ^ 29\<close> buckets reports whether it was there, removes
  exactly that key from the visible map and keeps the invariant through the compaction that
  follows, which never enlarges the table; clearing leaves no entry, whatever the size.
\<close>

lemma erase_clear_correct:
  assumes "ok_info info" "map_inv info m" "real_key info k" "getNumBuckets m \<le> 2 ^ 29"
  shows "(\<exists>m'. erase info k m = Some ((\<exists>B \<in> set (Buckets m). fst B = k), m') \<and> map_inv info m' \<and>
      visible info m' = (visible info m)(k := None) \<and> getNumBuckets m' \<le> getNumBuckets m) \<and>
    map_inv info (clear info m) \<and> visible info (clear info m) = Map.empty"
  using erase_ok [OF assms(1-3)] assms(4) clear_ok [OF assms(1,2)] by (auto simp: getNumBuckets_def)

lemma erase_clear_correct_witness:
  "(\<exists>m'. erase refcnt_info 16 (initEmpty refcnt_info 4) = Some (False, m')) \<and>
   visible refcnt_info (clear refcnt_info (initEmpty refcnt_info 4)) = Map.empty"
proof -
  have n: "getNumBuckets (initEmpty refcnt_info 4) \<le> 2 ^ 29" by (simp add: getNumBuckets_def initEmpty_def)
  have no: "\<not> (\<exists>B \<in> set (Buckets (initEmpty refcnt_info 4)). fst B = 16)" using real_key_16 by (simp add: initEmpty_def real_key_def)
  show ?thesis using erase_clear_correct [OF ok_refcnt_info map_inv_four real_key_16(1) n] no by auto
qed

text \<open>
  The 32-bit bit-smearing computation of a new bucket count delivers, for every request up to
  \<open>2 ^ 31\<close>, a power of two of at least four, no smaller than the request and below twice it, and
  four for a request of none, where both the decrement and the rounding wrap around.
\<close>

lemma grow_size_adequate:
  assumes "n \<le> 2 ^ 31"
  shows "\<exists>k. unat (grow_size (of_nat n)) = 2 ^ k \<and> n \<le> 2 ^ k \<and> 4 \<le> (2 :: nat) ^ k \<and> 2 ^ k \<le> max 4 (2 * (n - 1))"
  by (rule grow_size_spec [OF assms])

lemma grow_size_adequate_witness:
  "(\<exists>k. unat (grow_size (of_nat 24)) = 2 ^ k \<and> 24 \<le> (2 :: nat) ^ k \<and> (2 :: nat) ^ k \<le> 46) \<and> grow_size (of_nat 0) = 4"
  using grow_size_adequate [of 24] by (auto simp: grow_size_def MIN_BUCKETS_def NextPowerOf2_max)

end
