(* ===== verification/WeakProbe.thy ===== *)
theory WeakProbe
  imports DenseMap
begin

text \<open>
  The linear probing that \<open>objc-weak.mm\<close> uses twice: for the entries of a weak table and for the
  out-of-line referrers of one entry. A slot is free when its key is nil, removal leaves no tombstone, and a
  lookup gives up after the largest displacement any insertion had.
\<close>

datatype probe = Slot nat nat | Absent | BadTable

text \<open>The search for a free slot, and the search for a key; both abort when they come back to where they began.\<close>

partial_function (option) free_slot :: "(nat \<Rightarrow> u64) \<Rightarrow> nat \<Rightarrow> nat \<Rightarrow> nat \<Rightarrow> nat \<Rightarrow> probe option" where
  "free_slot key msk begin index hash_displacement =
     (if key index = 0 then Some (Slot index hash_displacement)
      else let index' = (index + 1) AND msk
           in if index' = begin then Some BadTable else free_slot key msk begin index' (hash_displacement + 1))"

partial_function (option) find_slot :: "(nat \<Rightarrow> u64) \<Rightarrow> nat \<Rightarrow> nat \<Rightarrow> u64 \<Rightarrow> nat \<Rightarrow> nat \<Rightarrow> nat \<Rightarrow> probe option" where
  "find_slot key msk max_hash_displacement k begin index hash_displacement =
     (if key index = k then Some (Slot index hash_displacement)
      else let index' = (index + 1) AND msk
           in if index' = begin then Some BadTable
              else if hash_displacement + 1 > max_hash_displacement then Some Absent
              else find_slot key msk max_hash_displacement k begin index' (hash_displacement + 1))"

subsection \<open>Walking round the table\<close>

lemma step_round: "((b + j) mod 2 ^ k + 1) AND (2 ^ k - 1) = (b + (j + 1)) mod 2 ^ k" for b j :: nat
  by (simp only: and_pow2 mod_add_left_eq add.assoc)

lemma not_round_yet: "b < n \<Longrightarrow> 0 < j \<Longrightarrow> j < n \<Longrightarrow> (b + j) mod n \<noteq> b" for b :: nat
proof
  assume "b < n" "0 < j" "j < n" "(b + j) mod n = b"
  then have "(b + j) mod n = (b + 0) mod n" by simp
  then have "j mod n = 0 mod n" by (metis mod_eq_dvd_iff_nat[of b "b + j"] add.right_neutral diff_add_inverse le_add1 dvd_imp_mod_0 mod_0)
  then show False using \<open>0 < j\<close> \<open>j < n\<close> by simp
qed

lemma free_slot_walk:
  assumes "b < 2 ^ k" "d < 2 ^ k" "key ((b + d) mod 2 ^ k) = 0" "\<And>i. i < d \<Longrightarrow> key ((b + i) mod 2 ^ k) \<noteq> 0" "j \<le> d"
  shows "free_slot key (2 ^ k - 1) b ((b + j) mod 2 ^ k) j = Some (Slot ((b + d) mod 2 ^ k) d)"
  using assms(5)
proof (induction "d - j" arbitrary: j)
  case 0
  then have "j = d" by simp
  then show ?case using assms(3) by (subst free_slot.simps) simp
next
  case (Suc n)
  then have j: "j < d" by simp
  then have "(b + (j + 1)) mod 2 ^ k \<noteq> b" using assms(1,2) by (intro not_round_yet) auto
  moreover have "free_slot key (2 ^ k - 1) b ((b + (j + 1)) mod 2 ^ k) (j + 1) = Some (Slot ((b + d) mod 2 ^ k) d)"
    using Suc by (intro Suc.hyps(1)) auto
  ultimately show ?case using assms(4) [OF j] by (subst free_slot.simps) (simp only: step_round Let_def if_False)
qed

lemma find_slot_walk:
  assumes "b < 2 ^ k" "d < 2 ^ k" "d \<le> maxd" "key ((b + d) mod 2 ^ k) = x" "\<And>i. i < d \<Longrightarrow> key ((b + i) mod 2 ^ k) \<noteq> x" "j \<le> d"
  shows "find_slot key (2 ^ k - 1) maxd x b ((b + j) mod 2 ^ k) j = Some (Slot ((b + d) mod 2 ^ k) d)"
  using assms(6)
proof (induction "d - j" arbitrary: j)
  case 0
  then have "j = d" by simp
  then show ?case using assms(4) by (subst find_slot.simps) simp
next
  case (Suc n)
  then have j: "j < d" by simp
  then have "(b + (j + 1)) mod 2 ^ k \<noteq> b" using assms(1,2) by (intro not_round_yet) auto
  moreover have "find_slot key (2 ^ k - 1) maxd x b ((b + (j + 1)) mod 2 ^ k) (j + 1) = Some (Slot ((b + d) mod 2 ^ k) d)"
    using Suc by (intro Suc.hyps(1)) auto
  moreover have "\<not> maxd < j + 1" using j assms(3) by simp
  ultimately show ?case using assms(5) [OF j] by (subst find_slot.simps) (simp only: step_round Let_def if_False)
qed

lemma find_slot_absent:
  assumes "b < 2 ^ k" "maxd + 1 < 2 ^ k" "\<And>i. i \<le> maxd \<Longrightarrow> key ((b + i) mod 2 ^ k) \<noteq> x" "j \<le> maxd"
  shows "find_slot key (2 ^ k - 1) maxd x b ((b + j) mod 2 ^ k) j = Some Absent"
  using assms(4)
proof (induction "maxd - j" arbitrary: j)
  case 0
  then have "j = maxd" by simp
  moreover have "(b + (maxd + 1)) mod 2 ^ k \<noteq> b" using assms(1,2) by (intro not_round_yet) auto
  ultimately show ?case using assms(3) [of maxd]
    by (subst find_slot.simps) (simp only: step_round Let_def if_False less_add_one if_True order_refl)
next
  case (Suc n)
  then have j: "j < maxd" by simp
  then have "(b + (j + 1)) mod 2 ^ k \<noteq> b" using assms(1,2) by (intro not_round_yet) auto
  moreover have "find_slot key (2 ^ k - 1) maxd x b ((b + (j + 1)) mod 2 ^ k) (j + 1) = Some Absent"
    using Suc by (intro Suc.hyps(1)) auto
  moreover have "\<not> maxd < j + 1" using j by simp
  ultimately show ?case using assms(3) [of j] j by (subst find_slot.simps) (simp only: step_round Let_def if_False less_imp_le)
qed

subsection \<open>The invariant of a table\<close>

text \<open>
  A power of two of at least eight slots, at most three quarters full; the counter counts the used slots; keys are
  distinct, and each lies within the recorded displacement from its home.
\<close>

definition used :: "u64 list \<Rightarrow> nat set" where "used ks = {i. i < length ks \<and> ks ! i \<noteq> 0}"

definition at_home :: "(u64 \<Rightarrow> nat) \<Rightarrow> u64 list \<Rightarrow> nat \<Rightarrow> nat \<Rightarrow> bool" where
  "at_home h ks disp i \<longleftrightarrow> (\<exists>d \<le> disp. i = (h (ks ! i) + d) mod length ks)"

definition lp_ok :: "(u64 \<Rightarrow> nat) \<Rightarrow> u64 list \<Rightarrow> nat \<Rightarrow> nat \<Rightarrow> nat \<Rightarrow> bool" where
  "lp_ok h ks msk num disp \<longleftrightarrow>
     (\<exists>k \<ge> 3. length ks = 2 ^ k \<and> msk = 2 ^ k - 1) \<and> num = card (used ks) \<and> 4 * num \<le> 3 * length ks \<and>
     4 * disp < 3 * length ks \<and> (\<forall>i \<in> used ks. at_home h ks disp i) \<and>
     (\<forall>i \<in> used ks. \<forall>j \<in> used ks. ks ! i = ks ! j \<longrightarrow> i = j)"

definition members :: "u64 list \<Rightarrow> u64 set" where "members ks = set ks - {0}"

lemma members_used: "members ks = (!) ks ` used ks"
  by (auto simp: members_def used_def in_set_conv_nth)

lemma finite_used [simp]: "finite (used ks)"
  by (simp add: used_def)

lemma lp_size:
  assumes "lp_ok h ks msk num disp"
  obtains k where "length ks = 2 ^ k" "msk = 2 ^ k - 1" "8 \<le> length ks" "4 dvd length ks" "3 \<le> k"
proof -
  obtain k where k: "3 \<le> k" "length ks = 2 ^ k" "msk = 2 ^ k - 1" using assms by (auto simp: lp_ok_def)
  have "(2 :: nat) ^ 3 \<le> 2 ^ k" using k(1) by (rule power_increasing) simp
  moreover have "(2 :: nat) ^ 2 dvd 2 ^ k" using k(1) by (intro le_imp_power_dvd) simp
  ultimately show thesis using that [of k] k by simp
qed

lemma lp_find:
  assumes ok: "lp_ok h ks msk num disp" and x: "x \<noteq> 0" and key: "\<forall>i < length ks. key i = ks ! i"
  shows "(\<exists>i d. x \<in> members ks \<and> i < length ks \<and> ks ! i = x \<and> find_slot key msk disp x (h x AND msk) (h x AND msk) 0 = Some (Slot i d)) \<or>
    (x \<notin> members ks \<and> find_slot key msk disp x (h x AND msk) (h x AND msk) 0 = Some Absent)"
proof -
  obtain k where k: "length ks = 2 ^ k" "msk = 2 ^ k - 1" "8 \<le> length ks" by (rule lp_size [OF ok])
  define b where "b = h x mod 2 ^ k"
  have b: "h x AND msk = b" "b < 2 ^ k" "(b + 0) mod 2 ^ k = b" by (simp_all only: b_def k(2) and_pow2) simp_all
  have shift: "(b + i) mod 2 ^ k = (h x + i) mod 2 ^ k" for i by (simp add: b_def mod_add_left_eq)
  have disp: "4 * disp < 3 * length ks" using ok by (simp add: lp_ok_def)
  show ?thesis
  proof (cases "x \<in> members ks")
    case True
    then obtain i where i: "i \<in> used ks" "ks ! i = x" by (auto simp: members_used)
    then obtain d0 where "d0 \<le> disp" "i = (b + d0) mod 2 ^ k" using ok k(1) shift by (auto simp: lp_ok_def at_home_def)
    then have ex: "\<exists>d. d \<le> disp \<and> ks ! ((b + d) mod 2 ^ k) = x" using i by auto
    define d where "d = (LEAST d. d \<le> disp \<and> ks ! ((b + d) mod 2 ^ k) = x)"
    have d: "d \<le> disp" "ks ! ((b + d) mod 2 ^ k) = x" using LeastI_ex [OF ex] by (auto simp: d_def)
    have first: "ks ! ((b + j) mod 2 ^ k) \<noteq> x" if "j < d" for j using not_less_Least [OF that [unfolded d_def]] that d(1) by auto
    have "d < 2 ^ k" using d(1) disp k(1) by linarith
    moreover have "key ((b + j) mod 2 ^ k) = ks ! ((b + j) mod 2 ^ k)" for j by (simp add: k(1) key)
    ultimately show ?thesis using find_slot_walk [of b k d disp key x 0] first True d b k by auto
  next
    case False
    then have "ks ! ((b + i) mod 2 ^ k) \<noteq> x" for i using k(1) x by (auto simp: members_def)
    then have "key ((b + i) mod 2 ^ k) \<noteq> x" for i by (simp add: k(1) key)
    moreover have "disp + 1 < 2 ^ k" using disp k(1,3) by linarith
    ultimately show ?thesis using find_slot_absent [of b k disp key x 0] False b k(2) by simp
  qed
qed

lemma card_walk: "b < n \<Longrightarrow> d \<le> n \<Longrightarrow> card ((\<lambda>i. (b + i) mod n) ` {..<d}) = d" for b :: nat
proof -
  assume "b < n" "d \<le> n"
  have "inj_on (\<lambda>i. (b + i) mod n) {..<d}"
  proof (rule inj_onI)
    fix i j assume "i \<in> {..<d}" "j \<in> {..<d}" "(b + i) mod n = (b + j) mod n"
    then have "i mod n = j mod n" by (simp add: mod_add_cong nat_mod_eq_iff)
    then show "i = j" using \<open>i \<in> {..<d}\<close> \<open>j \<in> {..<d}\<close> \<open>d \<le> n\<close> by simp
  qed
  then show ?thesis by (simp add: card_image)
qed

lemma lp_free:
  assumes ok: "lp_ok h ks msk num disp" and room: "4 * num < 3 * length ks" and key: "\<forall>i < length ks. key i = ks ! i"
  shows "\<exists>i d. free_slot key msk (b0 AND msk) (b0 AND msk) 0 = Some (Slot i d) \<and> i < length ks \<and> ks ! i = 0 \<and>
    i = (b0 + d) mod length ks \<and> d \<le> num"
proof -
  obtain k where k: "length ks = 2 ^ k" "msk = 2 ^ k - 1" "8 \<le> length ks" by (rule lp_size [OF ok])
  define b where "b = b0 mod 2 ^ k"
  have b: "b0 AND msk = b" "b < 2 ^ k" "(b + 0) mod 2 ^ k = b" by (simp_all only: b_def k(2) and_pow2) simp_all
  have num: "num = card (used ks)" using ok by (simp add: lp_ok_def)
  have "\<exists>d < 2 ^ k. ks ! ((b + d) mod 2 ^ k) = 0"
  proof (rule ccontr)
    assume "\<not> ?thesis"
    then have "(\<lambda>i. (b + i) mod 2 ^ k) ` {..<2 ^ k} \<subseteq> used ks" using k(1) by (auto simp: used_def)
    then have "2 ^ k \<le> num" using card_mono [OF finite_used] card_walk [OF b(2) order_refl] num by metis
    then show False using room k(1) by linarith
  qed
  then have ex: "\<exists>d. d < 2 ^ k \<and> ks ! ((b + d) mod 2 ^ k) = 0" by blast
  define d where "d = (LEAST d. d < 2 ^ k \<and> ks ! ((b + d) mod 2 ^ k) = 0)"
  have d: "d < 2 ^ k" "ks ! ((b + d) mod 2 ^ k) = 0" using LeastI_ex [OF ex] by (auto simp: d_def)
  have first: "ks ! ((b + j) mod 2 ^ k) \<noteq> 0" if "j < d" for j using not_less_Least [OF that [unfolded d_def]] that d(1) by auto
  then have "(\<lambda>i. (b + i) mod 2 ^ k) ` {..<d} \<subseteq> used ks" using k(1) by (auto simp: used_def)
  then have "d \<le> num" using card_mono [OF finite_used] card_walk [OF b(2), of d] d(1) num by (metis less_imp_le)
  moreover have "key ((b + j) mod 2 ^ k) = ks ! ((b + j) mod 2 ^ k)" for j by (simp add: k(1) key)
  ultimately show ?thesis using free_slot_walk [of b k d key 0] first d b k by (auto simp: b_def mod_add_left_eq)
qed

lemma used_insert: "i < length ks \<Longrightarrow> ks ! i = 0 \<Longrightarrow> x \<noteq> 0 \<Longrightarrow> used (ks[i := x]) = insert i (used ks) \<and> i \<notin> used ks"
  by (auto simp: used_def nth_list_update)

lemma used_delete: "i < length ks \<Longrightarrow> used (ks[i := 0]) = used ks - {i}"
  by (auto simp: used_def nth_list_update)

lemma members_insert: "i < length ks \<Longrightarrow> ks ! i = 0 \<Longrightarrow> x \<noteq> 0 \<Longrightarrow> members (ks[i := x]) = insert x (members ks)"
  by (auto simp: members_used used_insert nth_list_update)

lemma lp_insert:
  assumes ok: "lp_ok h ks msk num disp" and room: "4 * num < 3 * length ks" and x: "x \<noteq> 0" "x \<notin> members ks"
    and i: "i < length ks" "ks ! i = 0" "i = (h x + d) mod length ks" "d \<le> num"
  shows "lp_ok h (ks[i := x]) msk (num + 1) (max disp d)"
proof -
  obtain k where k: "length ks = 2 ^ k" "msk = 2 ^ k - 1" "8 \<le> length ks" "4 dvd length ks" by (rule lp_size [OF ok])
  have u: "used (ks[i := x]) = insert i (used ks)" "i \<notin> used ks" using used_insert [OF i(1,2) x(1)] by auto
  have "4 * (num + 1) \<le> 3 * length ks" using room k(4) by (auto elim!: dvdE)
  moreover have "4 * max disp d < 3 * length ks" using ok i(4) room by (auto simp: lp_ok_def max_def)
  moreover have "at_home h (ks[i := x]) (max disp d) j" if "j \<in> used (ks[i := x])" for j
  proof (cases "j = i")
    case True
    then show ?thesis using i by (auto simp: at_home_def intro!: exI [of _ d])
  next
    case False
    then have "at_home h ks disp j" using ok that u by (simp add: lp_ok_def)
    then obtain e where "e \<le> disp" "j = (h (ks ! j) + e) mod length ks" by (auto simp: at_home_def)
    then show ?thesis using False by (auto simp: at_home_def intro!: exI [of _ e])
  qed
  moreover have "j = l" if "j \<in> used (ks[i := x])" "l \<in> used (ks[i := x])" "ks[i := x] ! j = ks[i := x] ! l" for j l
  proof -
    have ne: "ks ! m \<noteq> x" if "m \<in> used ks" for m using that x(2) by (auto simp: members_used)
    show ?thesis using ok that u i(1) ne by (auto simp: lp_ok_def nth_list_update split: if_splits)
  qed
  moreover have "num + 1 = card (used (ks[i := x]))" using ok u by (simp add: lp_ok_def)
  ultimately show ?thesis using ok unfolding lp_ok_def by (metis length_list_update)
qed

lemma lp_delete:
  assumes ok: "lp_ok h ks msk num disp" and i: "i < length ks" "ks ! i = x" "x \<noteq> 0"
  shows "lp_ok h (ks[i := 0]) msk (num - 1) disp" "members (ks[i := 0]) = members ks - {x}" "0 < num"
proof -
  have u: "used (ks[i := 0]) = used ks - {i}" "i \<in> used ks" using used_delete [OF i(1)] i by (simp, simp add: used_def)
  have inj: "\<And>j. j \<in> used ks \<Longrightarrow> ks ! j = x \<Longrightarrow> j = i" using ok u(2) i(2) by (auto simp: lp_ok_def)
  show "0 < num" using ok u(2) by (auto simp: lp_ok_def card_gt_0_iff)
  show "members (ks[i := 0]) = members ks - {x}" unfolding members_used u(1)
    using inj i(2) by (auto simp: nth_list_update image_iff) 
  have "num - 1 = card (used (ks[i := 0]))" using ok u by (simp add: lp_ok_def)
  moreover have "at_home h (ks[i := 0]) disp j" if "j \<in> used (ks[i := 0])" for j
    using ok that u(1) by (auto simp: lp_ok_def at_home_def)
  ultimately show "lp_ok h (ks[i := 0]) msk (num - 1) disp"
    using ok u(1) unfolding lp_ok_def by (auto simp: nth_list_update)
qed

lemma lp_empty:
  assumes "3 \<le> k"
  shows "lp_ok h (replicate (2 ^ k) 0) (2 ^ k - 1) 0 0" "members (replicate (2 ^ k) 0) = {}"
proof -
  have "used (replicate (2 ^ k) 0) = {}" by (auto simp: used_def)
  then show "lp_ok h (replicate (2 ^ k) 0) (2 ^ k - 1) 0 0" using assms by (auto simp: lp_ok_def)
qed (auto simp: members_def)

lemma lp_card: "lp_ok h ks msk num disp \<Longrightarrow> num = card (members ks)"
  unfolding members_used by (subst card_image) (auto simp: lp_ok_def inj_on_def)

text \<open>The used keys in slot order.\<close>

definition nonnil :: "u64 list \<Rightarrow> u64 list" where "nonnil ks = filter (\<lambda>r. r \<noteq> 0) ks"

lemma set_nonnil [simp]: "set (nonnil ks) = members ks"
  by (auto simp: nonnil_def members_def)

lemma lp_nonnil:
  assumes "lp_ok h ks msk num disp"
  shows "distinct (nonnil ks)" "num = length (nonnil ks)"
proof -
  have l: "length (nonnil ks) = card (used ks)" by (simp add: nonnil_def used_def length_filter_conv_card)
  then show n: "num = length (nonnil ks)" using assms by (simp add: lp_ok_def)
  show "distinct (nonnil ks)" by (rule card_distinct) (use lp_card [OF assms] n in simp)
qed

end
