(* ===== verification/WeakTable.thy ===== *)
theory WeakTable
  imports WeakProbe
begin

text \<open>
  The weak reference table of \<open>objc-weak.mm\<close>: a hash table of entries, one per weakly referenced object, each with the
  set of addresses of the weak variables that refer to it, four of them inline and more in a hash table of their own.
  Pointers are undisguised, nil is zero. An operation is \<open>None\<close> when it ends in \<open>bad_weak_table\<close> or does not return;
  allocation does not fail.
\<close>

subsection \<open>Entries\<close>

definition WEAK_INLINE_COUNT :: nat where "WEAK_INLINE_COUNT = 4"

record ref_table =
  referrers :: "u64 list"
  num_refs :: nat
  refs_mask :: nat
  refs_max_displacement :: nat

text \<open>
  The two arms of the union in \<open>weak_entry_t\<close>. The mark \<open>out_of_line_ness\<close> overlaps the low two bits of the second
  inline referrer, which are zero for every disguised aligned address, so the arms are told apart.
\<close>

datatype weak_refs = Inline "u64 list" | OutOfLine ref_table

record weak_entry_t =
  referent :: u64
  refs :: weak_refs

definition hash_pointer :: "u64 \<Rightarrow> nat" where "hash_pointer key = unat (ptr_hash key)"
definition w_hash_pointer :: "u64 \<Rightarrow> nat" where "w_hash_pointer key = unat (ptr_hash key)"

definition TABLE_SIZE :: "nat \<Rightarrow> nat" where "TABLE_SIZE msk = (if msk \<noteq> 0 then msk + 1 else 0)"

definition new_weak_entry :: "u64 \<Rightarrow> u64 \<Rightarrow> weak_entry_t" where
  "new_weak_entry newReferent newReferrer = \<lparr>referent = newReferent, refs = Inline [newReferrer, 0, 0, 0]\<rparr>"

text \<open>The insertion of \<open>append_referrer\<close> into the hash table, when there is room.\<close>

definition insert_referrer :: "u64 \<Rightarrow> ref_table \<Rightarrow> ref_table option" where
  "insert_referrer new_referrer t =
     (let begin = w_hash_pointer new_referrer AND refs_mask t
      in case free_slot ((!) (referrers t)) (refs_mask t) begin begin 0 of
           Some (Slot index d) \<Rightarrow>
             Some (t\<lparr>refs_max_displacement := (if d > refs_max_displacement t then d else refs_max_displacement t),
                    referrers := (referrers t)[index := new_referrer], num_refs := num_refs t + 1\<rparr>)
         | _ \<Rightarrow> None)"

text \<open>The loop of \<open>grow_refs_and_insert\<close> over the old slots.\<close>

primrec reinsert :: "(u64 \<Rightarrow> ref_table \<Rightarrow> ref_table option) \<Rightarrow> u64 list \<Rightarrow> nat \<Rightarrow> ref_table \<Rightarrow> ref_table option" where
  "reinsert app [] n t = Some t"
| "reinsert app (r # rs) n t =
     (if n = 0 then Some t
      else if r \<noteq> 0 then (case app r t of None \<Rightarrow> None | Some t' \<Rightarrow> reinsert app rs (n - 1) t')
      else reinsert app rs n t)"

definition grow_refs_and_insert :: "(u64 \<Rightarrow> ref_table \<Rightarrow> ref_table option) \<Rightarrow> u64 \<Rightarrow> ref_table \<Rightarrow> ref_table option" where
  "grow_refs_and_insert app new_referrer t =
     (let old_size = TABLE_SIZE (refs_mask t);
          new_size = (if old_size \<noteq> 0 then old_size * 2 else 8);
          t1 = \<lparr>referrers = replicate new_size 0, num_refs = 0, refs_mask = new_size - 1, refs_max_displacement = 0\<rparr>
      in case reinsert app (take old_size (referrers t)) (num_refs t) t1 of None \<Rightarrow> None
         | Some t2 \<Rightarrow> app new_referrer t2)"

text \<open>
  \<open>append_referrer\<close> and \<open>grow_refs_and_insert\<close> call each other; the first argument bounds how deep. Growing doubles the
  table and never nests, so depth two is enough.
\<close>

primrec append_out_of_line :: "nat \<Rightarrow> u64 \<Rightarrow> ref_table \<Rightarrow> ref_table option" where
  "append_out_of_line 0 new_referrer t = None"
| "append_out_of_line (Suc depth) new_referrer t =
     (if num_refs t \<ge> TABLE_SIZE (refs_mask t) * 3 div 4 then grow_refs_and_insert (append_out_of_line depth) new_referrer t
      else insert_referrer new_referrer t)"

text \<open>The first of the inline slots that holds a given address.\<close>

fun replace_first :: "u64 \<Rightarrow> u64 \<Rightarrow> u64 list \<Rightarrow> u64 list option" where
  "replace_first a b [] = None"
| "replace_first a b (r # rs) = (if r = a then Some (b # rs) else map_option ((#) r) (replace_first a b rs))"

definition append_referrer :: "u64 \<Rightarrow> weak_entry_t \<Rightarrow> weak_entry_t option" where
  "append_referrer new_referrer e =
     (case refs e of
        Inline rs \<Rightarrow>
          (case replace_first 0 new_referrer rs of
             Some rs' \<Rightarrow> Some (e\<lparr>refs := Inline rs'\<rparr>)
           | None \<Rightarrow>
               map_option (\<lambda>t. e\<lparr>refs := OutOfLine t\<rparr>)
                 (append_out_of_line 2 new_referrer
                    \<lparr>referrers = rs, num_refs = WEAK_INLINE_COUNT, refs_mask = WEAK_INLINE_COUNT - 1, refs_max_displacement = 0\<rparr>))
      | OutOfLine t \<Rightarrow> map_option (\<lambda>t'. e\<lparr>refs := OutOfLine t'\<rparr>) (append_out_of_line 2 new_referrer t))"

text \<open>An unknown referrer is reported by \<open>objc_weak_error\<close> and nothing changes.\<close>

definition remove_referrer :: "u64 \<Rightarrow> weak_entry_t \<Rightarrow> weak_entry_t option" where
  "remove_referrer old_referrer e =
     (case refs e of
        Inline rs \<Rightarrow> (case replace_first old_referrer 0 rs of Some rs' \<Rightarrow> Some (e\<lparr>refs := Inline rs'\<rparr>) | None \<Rightarrow> Some e)
      | OutOfLine t \<Rightarrow>
          (let begin = w_hash_pointer old_referrer AND refs_mask t
           in case find_slot ((!) (referrers t)) (refs_mask t) (refs_max_displacement t) old_referrer begin begin 0 of
                Some (Slot index d) \<Rightarrow>
                  Some (e\<lparr>refs := OutOfLine (t\<lparr>referrers := (referrers t)[index := 0], num_refs := num_refs t - 1\<rparr>)\<rparr>)
              | Some Absent \<Rightarrow> Some e
              | _ \<Rightarrow> None))"

subsection \<open>The table\<close>

text \<open>A null pointer to the entries is the empty list; a zeroed entry has a nil referent.\<close>

record weak_table_t =
  weak_entries :: "weak_entry_t list"
  num_entries :: nat
  table_mask :: nat
  max_hash_displacement :: nat

definition nil_entry :: weak_entry_t where "nil_entry = \<lparr>referent = 0, refs = Inline [0, 0, 0, 0]\<rparr>"

definition zeroed_table :: weak_table_t where
  "zeroed_table = \<lparr>weak_entries = [], num_entries = 0, table_mask = 0, max_hash_displacement = 0\<rparr>"

definition weak_entry_insert :: "weak_entry_t \<Rightarrow> weak_table_t \<Rightarrow> weak_table_t option" where
  "weak_entry_insert new_entry tab =
     (let begin = hash_pointer (referent new_entry) AND table_mask tab
      in case free_slot (\<lambda>i. referent (weak_entries tab ! i)) (table_mask tab) begin begin 0 of
           Some (Slot index d) \<Rightarrow>
             Some (tab\<lparr>weak_entries := (weak_entries tab)[index := new_entry], num_entries := num_entries tab + 1,
                       max_hash_displacement := (if d > max_hash_displacement tab then d else max_hash_displacement tab)\<rparr>)
         | _ \<Rightarrow> None)"

primrec insert_entries :: "weak_entry_t list \<Rightarrow> weak_table_t \<Rightarrow> weak_table_t option" where
  "insert_entries [] tab = Some tab"
| "insert_entries (e # es) tab =
     (if referent e \<noteq> 0 then (case weak_entry_insert e tab of None \<Rightarrow> None | Some tab' \<Rightarrow> insert_entries es tab')
      else insert_entries es tab)"

definition weak_resize :: "nat \<Rightarrow> weak_table_t \<Rightarrow> weak_table_t option" where
  "weak_resize new_size tab =
     insert_entries (weak_entries tab)
       \<lparr>weak_entries = replicate new_size nil_entry, num_entries = 0, table_mask = new_size - 1, max_hash_displacement = 0\<rparr>"

definition weak_grow_maybe :: "weak_table_t \<Rightarrow> weak_table_t option" where
  "weak_grow_maybe tab =
     (let old_size = TABLE_SIZE (table_mask tab)
      in if num_entries tab \<ge> old_size * 3 div 4 then weak_resize (if old_size \<noteq> 0 then old_size * 2 else 64) tab else Some tab)"

definition weak_compact_maybe :: "weak_table_t \<Rightarrow> weak_table_t option" where
  "weak_compact_maybe tab =
     (let old_size = TABLE_SIZE (table_mask tab)
      in if old_size \<ge> 1024 \<and> old_size div 16 \<ge> num_entries tab then weak_resize (old_size div 8) tab else Some tab)"

definition weak_entry_remove :: "nat \<Rightarrow> weak_table_t \<Rightarrow> weak_table_t option" where
  "weak_entry_remove index tab =
     weak_compact_maybe (tab\<lparr>weak_entries := (weak_entries tab)[index := nil_entry], num_entries := num_entries tab - 1\<rparr>)"

definition weak_entry_for_referent :: "weak_table_t \<Rightarrow> u64 \<Rightarrow> nat option option" where
  "weak_entry_for_referent tab obj =
     (if weak_entries tab = [] then Some None
      else let begin = hash_pointer obj AND table_mask tab
           in case find_slot (\<lambda>i. referent (weak_entries tab ! i)) (table_mask tab) (max_hash_displacement tab) obj begin begin 0 of
                Some (Slot index d) \<Rightarrow> Some (Some index)
              | Some Absent \<Rightarrow> Some None
              | _ \<Rightarrow> None)"

text \<open>
  The test of \<open>weak_unregister_no_lock\<close> for an empty entry. When the entry is out of line with no referrer left, it
  reads the inline slots, whose first overlaps the pointer to the referrers and is not nil.
\<close>

definition entry_empty :: "weak_entry_t \<Rightarrow> bool" where
  "entry_empty e = (case refs e of Inline rs \<Rightarrow> list_all (\<lambda>r. r = 0) rs | OutOfLine t \<Rightarrow> False)"

definition weak_unregister_no_lock :: "u64 \<Rightarrow> u64 \<Rightarrow> weak_table_t \<Rightarrow> weak_table_t option" where
  "weak_unregister_no_lock obj referrer tab =
     (if obj = 0 then Some tab
      else case weak_entry_for_referent tab obj of
             None \<Rightarrow> None
           | Some None \<Rightarrow> Some tab
           | Some (Some index) \<Rightarrow>
               (case remove_referrer referrer (weak_entries tab ! index) of None \<Rightarrow> None
                | Some e \<Rightarrow>
                    (let tab1 = tab\<lparr>weak_entries := (weak_entries tab)[index := e]\<rparr>
                     in if entry_empty e then weak_entry_remove index tab1 else Some tab1)))"

text \<open>
  Whether an object may be weakly referenced: asked of \<open>rootIsDeallocating\<close>, or of \<open>allowsWeakReference\<close>, which may be
  forwarded.
\<close>

datatype viability = Viable | Deallocating | Forwarded
datatype deallocating_options = ReturnNilIfDeallocating | CrashIfDeallocating | DontCheckDeallocating
datatype registration = Refused | Accepted | CannotForm

text \<open>The part of \<open>weak_register_no_lock\<close> that remembers the pair.\<close>

definition weak_remember :: "u64 \<Rightarrow> u64 \<Rightarrow> weak_table_t \<Rightarrow> weak_table_t option" where
  "weak_remember obj referrer tab =
     (case weak_entry_for_referent tab obj of
        None \<Rightarrow> None
      | Some (Some index) \<Rightarrow>
          (case append_referrer referrer (weak_entries tab ! index) of None \<Rightarrow> None
           | Some e \<Rightarrow> Some (tab\<lparr>weak_entries := (weak_entries tab)[index := e]\<rparr>))
      | Some None \<Rightarrow>
          (case weak_grow_maybe tab of None \<Rightarrow> None | Some tab1 \<Rightarrow> weak_entry_insert (new_weak_entry obj referrer) tab1))"

definition weak_register_no_lock ::
    "(u64 \<Rightarrow> bool) \<Rightarrow> viability \<Rightarrow> deallocating_options \<Rightarrow> u64 \<Rightarrow> u64 \<Rightarrow> weak_table_t \<Rightarrow> (registration \<times> weak_table_t) option" where
  "weak_register_no_lock tagged viable options obj referrer tab =
     (if obj = 0 \<or> tagged obj then Some (Accepted, tab)
      else if options \<noteq> DontCheckDeallocating \<and> viable = Forwarded then Some (Refused, tab)
      else if options \<noteq> DontCheckDeallocating \<and> viable = Deallocating then
        Some (if options = CrashIfDeallocating then CannotForm else Refused, tab)
      else map_option (\<lambda>tab'. (Accepted, tab')) (weak_remember obj referrer tab))"

text \<open>Zeroing the variables of an entry; a variable that holds something else is reported and left.\<close>

definition entry_slots :: "weak_entry_t \<Rightarrow> u64 list" where
  "entry_slots e = (case refs e of Inline rs \<Rightarrow> rs | OutOfLine t \<Rightarrow> take (TABLE_SIZE (refs_mask t)) (referrers t))"

primrec zero_referrers :: "u64 \<Rightarrow> u64 list \<Rightarrow> (u64 \<Rightarrow> u64) \<Rightarrow> (u64 \<Rightarrow> u64)" where
  "zero_referrers obj [] vars = vars"
| "zero_referrers obj (r # rs) vars =
     zero_referrers obj rs (if r \<noteq> 0 \<and> vars r = obj then vars(r := 0) else vars)"

definition weak_clear_no_lock :: "u64 \<Rightarrow> weak_table_t \<Rightarrow> (u64 \<Rightarrow> u64) \<Rightarrow> (weak_table_t \<times> (u64 \<Rightarrow> u64)) option" where
  "weak_clear_no_lock obj tab vars =
     (case weak_entry_for_referent tab obj of
        None \<Rightarrow> None
      | Some None \<Rightarrow> Some (tab, vars)
      | Some (Some index) \<Rightarrow>
          map_option (\<lambda>tab'. (tab', zero_referrers obj (entry_slots (weak_entries tab ! index)) vars)) (weak_entry_remove index tab))"

end
