(* ===== verification/WeakEntries.thy ===== *)
theory WeakEntries
  imports WeakTable
begin

text \<open>
  The invariant of the weak table, for the referrers of an entry and for the entries, and what every operation does to
  the relation of pairs (object, weak variable) that the table stands for.
\<close>

subsection \<open>Referrers of one entry\<close>

declare append_out_of_line.simps(2) [simp del]

lemmas append_step = append_out_of_line.simps(2)

definition refs_ok :: "ref_table \<Rightarrow> bool" where
  "refs_ok t \<longleftrightarrow> lp_ok w_hash_pointer (referrers t) (refs_mask t) (num_refs t) (refs_max_displacement t)"

definition has_room :: "ref_table \<Rightarrow> bool" where "has_room t \<longleftrightarrow> 4 * num_refs t < 3 * length (referrers t)"

lemma TABLE_SIZE_mask: "0 < k \<Longrightarrow> TABLE_SIZE (2 ^ k - 1) = 2 ^ k"
proof -
  assume "0 < k"
  then have "(2 :: nat) ^ 1 \<le> 2 ^ k" by (intro power_increasing) auto
  then show ?thesis by (simp add: TABLE_SIZE_def)
qed

lemma lp_TABLE_SIZE: "lp_ok h ks msk num disp \<Longrightarrow> TABLE_SIZE msk = length ks"
  unfolding lp_ok_def using TABLE_SIZE_mask by fastforce

lemma three_quarters: "4 dvd n \<Longrightarrow> m < n * 3 div 4 \<longleftrightarrow> 4 * m < 3 * n" for m n :: nat
  by (auto elim!: dvdE)

lemma insert_referrer_ok:
  assumes "refs_ok t" "has_room t" "r \<noteq> 0" "r \<notin> members (referrers t)"
  shows "\<exists>t'. insert_referrer r t = Some t' \<and> refs_ok t' \<and> members (referrers t') = insert r (members (referrers t)) \<and>
    num_refs t' = num_refs t + 1 \<and> length (referrers t') = length (referrers t)"
proof -
  have ok: "lp_ok w_hash_pointer (referrers t) (refs_mask t) (num_refs t) (refs_max_displacement t)" using assms(1) by (simp add: refs_ok_def)
  have room: "4 * num_refs t < 3 * length (referrers t)" using assms(2) by (simp add: has_room_def)
  obtain i d where f: "free_slot ((!) (referrers t)) (refs_mask t) (w_hash_pointer r AND refs_mask t) (w_hash_pointer r AND refs_mask t) 0 = Some (Slot i d)"
      "i < length (referrers t)" "referrers t ! i = 0" "i = (w_hash_pointer r + d) mod length (referrers t)" "d \<le> num_refs t"
    using lp_free [where key = "(!) (referrers t)" and ?b0.0 = "w_hash_pointer r", OF ok room] by auto
  then show ?thesis
    using lp_insert [OF ok room assms(3,4) f(2-5)] members_insert [OF f(2,3) assms(3)]
    by (auto simp: insert_referrer_def refs_ok_def Let_def max_def not_less split: if_splits)
qed

lemma append_with_room:
  assumes "refs_ok t" "has_room t"
  shows "append_out_of_line (Suc n) r t = insert_referrer r t"
proof -
  have ok: "lp_ok w_hash_pointer (referrers t) (refs_mask t) (num_refs t) (refs_max_displacement t)" using assms(1) by (simp add: refs_ok_def)
  have "4 dvd length (referrers t)" by (rule lp_size [OF ok])
  then show ?thesis using three_quarters [of "length (referrers t)" "num_refs t"] assms(2) lp_TABLE_SIZE [OF ok]
    by (simp add: append_step has_room_def not_le)
qed

lemma reinsert_ok:
  assumes "refs_ok t" "distinct (nonnil rs)" "members rs \<inter> members (referrers t) = {}"
    "4 * (num_refs t + length (nonnil rs)) < 3 * length (referrers t)"
  shows "\<exists>t'. reinsert (append_out_of_line (Suc n)) rs (length (nonnil rs)) t = Some t' \<and> refs_ok t' \<and>
    members (referrers t') = members rs \<union> members (referrers t) \<and> num_refs t' = num_refs t + length (nonnil rs) \<and>
    length (referrers t') = length (referrers t)"
  using assms
proof (induction rs arbitrary: t)
  case (Cons r rs)
  show ?case
  proof (cases "r = 0")
    case True
    have "reinsert a (r # rs) (length (nonnil rs)) t = reinsert a rs (length (nonnil rs)) t" for a
      using True by (cases "length (nonnil rs) = 0"; cases rs) (auto simp: nonnil_def split: if_splits)
    then show ?thesis using Cons True by (simp add: nonnil_def members_def del: reinsert.simps)
  next
    case False
    then have m: "members (r # rs) = insert r (members rs)" "nonnil (r # rs) = r # nonnil rs" by (auto simp: members_def nonnil_def)
    have room: "has_room t" using Cons.prems(4) m(2) by (simp add: has_room_def)
    have "r \<notin> members (referrers t)" using Cons.prems(3) m(1) by auto
    from insert_referrer_ok [OF Cons.prems(1) room False this] obtain t1 where
      1: "insert_referrer r t = Some t1" "refs_ok t1" "members (referrers t1) = insert r (members (referrers t))"
        "num_refs t1 = num_refs t + 1" "length (referrers t1) = length (referrers t)" by auto
    have "r \<notin> members rs" using Cons.prems(2) m(2) by (metis distinct.simps(2) set_nonnil)
    then obtain t2 where "reinsert (append_out_of_line (Suc n)) rs (length (nonnil rs)) t1 = Some t2" "refs_ok t2"
        "members (referrers t2) = members rs \<union> members (referrers t1)" "num_refs t2 = num_refs t1 + length (nonnil rs)"
        "length (referrers t2) = length (referrers t1)"
      using Cons.IH [of t1] 1 Cons.prems m by auto
    then show ?thesis using 1 m append_with_room [OF Cons.prems(1) room] False by auto
  qed
qed (simp add: nonnil_def members_def)

lemma grow_refs_ok:
  assumes k: "2 \<le> k" "length (referrers t) = 2 ^ k" "refs_mask t = 2 ^ k - 1"
    and rs: "distinct (nonnil (referrers t))" "num_refs t = length (nonnil (referrers t))"
    and r: "r \<noteq> 0" "r \<notin> members (referrers t)"
  shows "\<exists>t'. grow_refs_and_insert (append_out_of_line (Suc n)) r t = Some t' \<and> refs_ok t' \<and>
    members (referrers t') = insert r (members (referrers t))"
proof -
  let ?t1 = "\<lparr>referrers = replicate (2 ^ (k + 1)) 0, num_refs = 0, refs_mask = 2 ^ (k + 1) - 1, refs_max_displacement = 0\<rparr>"
  have t1: "refs_ok ?t1" "members (referrers ?t1) = {}"
    using lp_empty [of "k + 1"] k(1) by (simp_all add: refs_ok_def del: power_Suc power_add)
  have le: "length (nonnil (referrers t)) \<le> 2 ^ k" using k(2) by (metis nonnil_def length_filter_le)
  moreover have "(2 :: nat) ^ (k + 1) = 2 * 2 ^ k" "(0 :: nat) < 2 ^ k" by simp_all
  ultimately have small: "4 * length (nonnil (referrers t)) < 3 * 2 ^ (k + 1)" by linarith
  then obtain t2 where 2: "reinsert (append_out_of_line (Suc n)) (referrers t) (num_refs t) ?t1 = Some t2" "refs_ok t2"
      "members (referrers t2) = members (referrers t)" "num_refs t2 = num_refs t" "length (referrers t2) = 2 ^ (k + 1)"
    using reinsert_ok [where n = n, OF t1(1) rs(1)] t1(2) rs(2) by auto
  have room: "has_room t2" using 2(4,5) small rs(2) by (simp add: has_room_def)
  have "TABLE_SIZE (refs_mask t) = 2 ^ k" unfolding k(3) by (rule TABLE_SIZE_mask) (use k(1) in simp)
  then have "grow_refs_and_insert (append_out_of_line (Suc n)) r t = insert_referrer r t2"
    using 2(1) k(2) append_with_room [OF 2(2) room] by (simp add: grow_refs_and_insert_def Let_def mult.commute)
  then show ?thesis using insert_referrer_ok [OF 2(2) room r(1)] r(2) 2(3) by auto
qed

lemma append_out_of_line_ok:
  assumes ok: "refs_ok t" and r: "r \<noteq> 0" "r \<notin> members (referrers t)"
  shows "\<exists>t'. append_out_of_line 2 r t = Some t' \<and> refs_ok t' \<and> members (referrers t') = insert r (members (referrers t))"
proof (cases "has_room t")
  case True
  then show ?thesis using append_with_room [OF ok True, of "Suc 0"] insert_referrer_ok [OF ok True r]
    by (auto simp: numeral_2_eq_2)
next
  case False
  have lp: "lp_ok w_hash_pointer (referrers t) (refs_mask t) (num_refs t) (refs_max_displacement t)" using ok by (simp add: refs_ok_def)
  obtain k where k: "length (referrers t) = 2 ^ k" "refs_mask t = 2 ^ k - 1" "4 dvd length (referrers t)" "3 \<le> k"
    by (rule lp_size [OF lp])
  have "append_out_of_line 2 r t = grow_refs_and_insert (append_out_of_line (Suc 0)) r t"
    using False three_quarters [OF k(3), of "num_refs t"] lp_TABLE_SIZE [OF lp] by (simp add: numeral_2_eq_2 append_step [of "Suc 0"] has_room_def not_le)
  then show ?thesis using grow_refs_ok [of k t r 0] k r lp_nonnil [OF lp] by simp
qed

subsection \<open>Entries\<close>

definition referrer_set :: "weak_entry_t \<Rightarrow> u64 set" where
  "referrer_set e = (case refs e of Inline rs \<Rightarrow> members rs | OutOfLine t \<Rightarrow> members (referrers t))"

definition entry_ok :: "weak_entry_t \<Rightarrow> bool" where
  "entry_ok e \<longleftrightarrow> (case refs e of Inline rs \<Rightarrow> length rs = 4 \<and> distinct (nonnil rs) | OutOfLine t \<Rightarrow> refs_ok t)"

lemma replace_first_None: "replace_first a b rs = None \<longleftrightarrow> a \<notin> set rs"
  by (induction a b rs rule: replace_first.induct) auto

lemma replace_first_Some:
  "replace_first a b rs = Some rs' \<Longrightarrow> \<exists>i. i < length rs \<and> rs ! i = a \<and> rs' = rs[i := b]"
proof (induction a b rs arbitrary: rs' rule: replace_first.induct)
  case (2 a b r rs)
  show ?case
  proof (cases "r = a")
    case False
    then obtain rs1 where "replace_first a b rs = Some rs1" "rs' = r # rs1" using 2(2) by auto
    with 2(1) [OF False] obtain i where "i < length rs" "rs ! i = a" "rs' = r # rs[i := b]" by auto
    then show ?thesis by (intro exI [of _ "Suc i"]) simp
  qed (use 2(2) in \<open>auto intro!: exI [of _ 0]\<close>)
qed simp

lemma distinct_nonnil_iff: "distinct (nonnil ks) \<longleftrightarrow> (\<forall>i \<in> used ks. \<forall>j \<in> used ks. ks ! i = ks ! j \<longrightarrow> i = j)"
proof -
  have "length (nonnil ks) = card (used ks)" by (simp add: nonnil_def used_def length_filter_conv_card)
  then have "distinct (nonnil ks) \<longleftrightarrow> card ((!) ks ` used ks) = card (used ks)"
    using distinct_card [of "nonnil ks"] card_distinct [of "nonnil ks"] by (auto simp: members_used)
  then show ?thesis unfolding inj_on_iff_eq_card [OF finite_used, symmetric] inj_on_def .
qed

lemma inline_insert:
  assumes "i < length rs" "rs ! i = 0" "r \<noteq> 0" "r \<notin> members rs" "distinct (nonnil rs)"
  shows "distinct (nonnil (rs[i := r]))"
proof -
  have "rs ! m \<noteq> r" if "m \<in> used rs" for m using that assms(4) by (auto simp: members_used)
  then show ?thesis using assms used_insert [OF assms(1-3)] by (auto simp: distinct_nonnil_iff nth_list_update)
qed

lemma inline_delete:
  assumes "i < length rs" "rs ! i = r" "r \<noteq> 0" "distinct (nonnil rs)"
  shows "distinct (nonnil (rs[i := 0]))" "members (rs[i := 0]) = members rs - {r}"
proof -
  have u: "used (rs[i := 0]) = used rs - {i}" "i \<in> used rs" using used_delete [OF assms(1)] assms by (simp, simp add: used_def)
  then show "distinct (nonnil (rs[i := 0]))" using assms(4) by (auto simp: distinct_nonnil_iff)
  have inj: "\<And>j. j \<in> used rs \<Longrightarrow> rs ! j = r \<Longrightarrow> j = i" using assms(2,4) u(2) by (auto simp: distinct_nonnil_iff)
  show "members (rs[i := 0]) = members rs - {r}" unfolding members_used u(1)
    using inj assms(2) by (auto simp: nth_list_update image_iff)
qed

lemma append_referrer_ok:
  assumes ok: "entry_ok e" and r: "r \<noteq> 0" "r \<notin> referrer_set e"
  shows "\<exists>e'. append_referrer r e = Some e' \<and> entry_ok e' \<and> referent e' = referent e \<and> referrer_set e' = insert r (referrer_set e)"
proof (cases "refs e")
  case (Inline rs)
  then have rs: "length rs = 4" "distinct (nonnil rs)" "r \<notin> members rs" using ok r(2) by (auto simp: entry_ok_def referrer_set_def)
  show ?thesis
  proof (cases "replace_first 0 r rs")
    case None
    then have "0 \<notin> set rs" by (simp add: replace_first_None)
    then have "nonnil rs = rs" by (induction rs) (auto simp: nonnil_def)
    moreover have "append_out_of_line 2 r \<lparr>referrers = rs, num_refs = 4, refs_mask = 3, refs_max_displacement = 0\<rparr> =
        grow_refs_and_insert (append_out_of_line (Suc 0)) r \<lparr>referrers = rs, num_refs = 4, refs_mask = 3, refs_max_displacement = 0\<rparr>"
      by (simp add: numeral_2_eq_2 append_step [of "Suc 0"] TABLE_SIZE_def)
    ultimately show ?thesis using None Inline rs r
        grow_refs_ok [of 2 "\<lparr>referrers = rs, num_refs = 4, refs_mask = 3, refs_max_displacement = 0\<rparr>" r 0]
      by (auto simp: append_referrer_def WEAK_INLINE_COUNT_def entry_ok_def referrer_set_def)
  next
    case (Some rs')
    then obtain i where "i < length rs" "rs ! i = 0" "rs' = rs[i := r]" using replace_first_Some by blast
    then show ?thesis using Some Inline rs r inline_insert [of i rs r] members_insert [of i rs r]
      by (simp add: append_referrer_def entry_ok_def referrer_set_def)
  qed
next
  case (OutOfLine t)
  then show ?thesis using append_out_of_line_ok [of t r] ok r
    by (auto simp: append_referrer_def entry_ok_def referrer_set_def)
qed

lemma remove_referrer_ok:
  assumes ok: "entry_ok e" and r: "r \<noteq> 0"
  shows "\<exists>e'. remove_referrer r e = Some e' \<and> entry_ok e' \<and> referent e' = referent e \<and> referrer_set e' = referrer_set e - {r}"
proof (cases "refs e")
  case (Inline rs)
  then have rs: "length rs = 4" "distinct (nonnil rs)" using ok by (auto simp: entry_ok_def)
  show ?thesis
  proof (cases "replace_first r 0 rs")
    case None
    then have "r \<notin> members rs" by (simp add: replace_first_None members_def)
    then show ?thesis using None Inline ok by (simp add: remove_referrer_def referrer_set_def)
  next
    case (Some rs')
    then obtain i where "i < length rs" "rs ! i = r" "rs' = rs[i := 0]" using replace_first_Some by blast
    then show ?thesis using Some Inline rs r inline_delete [of i rs r]
      by (simp add: remove_referrer_def entry_ok_def referrer_set_def)
  qed
next
  case (OutOfLine t)
  have lp: "lp_ok w_hash_pointer (referrers t) (refs_mask t) (num_refs t) (refs_max_displacement t)"
    using ok OutOfLine by (simp add: entry_ok_def refs_ok_def)
  have key: "\<forall>i < length (referrers t). referrers t ! i = referrers t ! i" by simp
  show ?thesis using lp_find [OF lp r key]
  proof (elim disjE exE conjE)
    fix i d
    assume f: "i < length (referrers t)" "referrers t ! i = r"
      "find_slot ((!) (referrers t)) (refs_mask t) (refs_max_displacement t) r (w_hash_pointer r AND refs_mask t) (w_hash_pointer r AND refs_mask t) 0 = Some (Slot i d)"
    then show ?thesis using OutOfLine lp_delete [OF lp f(1,2) r]
      by (simp add: remove_referrer_def entry_ok_def referrer_set_def refs_ok_def Let_def)
  next
    assume "r \<notin> members (referrers t)"
      "find_slot ((!) (referrers t)) (refs_mask t) (refs_max_displacement t) r (w_hash_pointer r AND refs_mask t) (w_hash_pointer r AND refs_mask t) 0 = Some Absent"
    then show ?thesis using OutOfLine ok by (simp add: remove_referrer_def referrer_set_def Let_def)
  qed
qed

subsection \<open>The table\<close>

definition live_table :: "weak_table_t \<Rightarrow> bool" where
  "live_table tab \<longleftrightarrow>
     lp_ok hash_pointer (map referent (weak_entries tab)) (table_mask tab) (num_entries tab) (max_hash_displacement tab) \<and>
     (\<forall>e \<in> set (weak_entries tab). referent e \<noteq> 0 \<longrightarrow> entry_ok e)"

definition table_ok :: "weak_table_t \<Rightarrow> bool" where
  "table_ok tab \<longleftrightarrow> tab = zeroed_table \<or> live_table tab"

definition objects :: "weak_table_t \<Rightarrow> u64 set" where "objects tab = members (map referent (weak_entries tab))"

text \<open>The relation the table stands for.\<close>

definition entry_pairs :: "weak_entry_t list \<Rightarrow> (u64 \<times> u64) set" where
  "entry_pairs es = {(x, r). \<exists>e \<in> set es. referent e = x \<and> x \<noteq> 0 \<and> r \<in> referrer_set e}"

definition pairs :: "weak_table_t \<Rightarrow> (u64 \<times> u64) set" where "pairs tab = entry_pairs (weak_entries tab)"

definition pairs_of :: "weak_entry_t \<Rightarrow> (u64 \<times> u64) set" where
  "pairs_of e = (if referent e = 0 then {} else {referent e} \<times> referrer_set e)"

lemma entry_pairs_nth: "entry_pairs es = (\<Union>j \<in> {..<length es}. pairs_of (es ! j))"
  unfolding entry_pairs_def pairs_of_def in_set_conv_nth Bex_def by (auto split: if_splits)

lemma entry_pairs_update:
  "i < length es \<Longrightarrow> entry_pairs (es[i := e]) = pairs_of e \<union> (\<Union>j \<in> {..<length es} - {i}. pairs_of (es ! j))"
  unfolding entry_pairs_nth by (auto simp: nth_list_update split: if_splits)

lemma entry_pairs_split:
  "i < length es \<Longrightarrow> entry_pairs es = pairs_of (es ! i) \<union> (\<Union>j \<in> {..<length es} - {i}. pairs_of (es ! j))"
  unfolding entry_pairs_nth by auto

lemma entry_pairs_Nil: "entry_pairs [] = {}"
  by (simp add: entry_pairs_def)

lemma entry_pairs_Cons:
  "entry_pairs (e # es) = (if referent e = 0 then {} else {referent e} \<times> referrer_set e) \<union> entry_pairs es"
  by (auto simp: entry_pairs_def)

lemma zeroed_table_ok: "table_ok zeroed_table" "pairs zeroed_table = {}" "objects zeroed_table = {}"
  by (simp_all add: table_ok_def pairs_def entry_pairs_def objects_def zeroed_table_def members_def)

lemma live_unique:
  assumes "live_table tab" "i < length (weak_entries tab)" "j < length (weak_entries tab)"
    "referent (weak_entries tab ! i) = referent (weak_entries tab ! j)" "referent (weak_entries tab ! i) \<noteq> 0"
  shows "i = j"
proof -
  have "i \<in> used (map referent (weak_entries tab))" "j \<in> used (map referent (weak_entries tab))" using assms by (auto simp: used_def)
  then show ?thesis using assms by (auto simp: live_table_def lp_ok_def)
qed

text \<open>Replacing the entry of an object, or zeroing it, changes the pairs of that object only.\<close>

lemma pairs_of_fst: "p \<in> pairs_of e \<Longrightarrow> fst p = referent e"
  by (auto simp: pairs_of_def split: if_splits)

lemma other_pairs:
  assumes "live_table tab" "i < length (weak_entries tab)" "referent (weak_entries tab ! i) = x" "x \<noteq> 0"
  shows "(\<Union>j \<in> {..<length (weak_entries tab)} - {i}. pairs_of (weak_entries tab ! j)) = {p \<in> pairs tab. fst p \<noteq> x}"
proof -
  have ne: "referent (weak_entries tab ! j) \<noteq> x" if "j \<in> {..<length (weak_entries tab)} - {i}" for j
    using that live_unique [OF assms(1,2), of j] assms(3,4) by auto
  have "fst p \<noteq> x" if "j \<in> {..<length (weak_entries tab)} - {i}" "p \<in> pairs_of (weak_entries tab ! j)" for j p
    using ne [OF that(1)] pairs_of_fst [OF that(2)] by simp
  moreover have "fst p = x" if "p \<in> pairs_of (weak_entries tab ! i)" for p using pairs_of_fst [OF that] assms(3) by simp
  ultimately show ?thesis unfolding pairs_def entry_pairs_split [OF assms(2)] by blast
qed

lemma pairs_split:
  assumes "live_table tab" "i < length (weak_entries tab)" "referent (weak_entries tab ! i) = x" "x \<noteq> 0"
  shows "pairs tab = {x} \<times> referrer_set (weak_entries tab ! i) \<union> {p \<in> pairs tab. fst p \<noteq> x}"
  unfolding other_pairs [OF assms, symmetric] using entry_pairs_split [OF assms(2)] assms(3,4) by (simp add: pairs_def pairs_of_def)

lemma pairs_update:
  assumes "live_table tab" "i < length (weak_entries tab)" "referent (weak_entries tab ! i) = x" "x \<noteq> 0" "referent e = x \<or> referent e = 0"
  shows "entry_pairs ((weak_entries tab)[i := e]) = (if referent e = x then {x} \<times> referrer_set e else {}) \<union> {p \<in> pairs tab. fst p \<noteq> x}"
  unfolding other_pairs [OF assms(1-4), symmetric] entry_pairs_update [OF assms(2)] using assms(4,5) by (auto simp: pairs_of_def)

lemma referent_found:
  assumes ok: "table_ok tab" and x: "x \<noteq> 0"
  shows "(\<exists>i. weak_entry_for_referent tab x = Some (Some i) \<and> live_table tab \<and> i < length (weak_entries tab) \<and>
      referent (weak_entries tab ! i) = x \<and> entry_ok (weak_entries tab ! i) \<and> {r. (x, r) \<in> pairs tab} = referrer_set (weak_entries tab ! i)) \<or>
    (weak_entry_for_referent tab x = Some None \<and> x \<notin> objects tab \<and> {r. (x, r) \<in> pairs tab} = {})"
proof (cases "weak_entries tab = []")
  case False
  then have live: "live_table tab" using ok by (auto simp: table_ok_def zeroed_table_def)
  then have lp: "lp_ok hash_pointer (map referent (weak_entries tab)) (table_mask tab) (num_entries tab) (max_hash_displacement tab)"
    by (simp add: live_table_def)
  have key: "\<forall>i < length (map referent (weak_entries tab)). referent (weak_entries tab ! i) = map referent (weak_entries tab) ! i" by simp
  show ?thesis using lp_find [where key = "\<lambda>i. referent (weak_entries tab ! i)", OF lp x key]
  proof (elim disjE exE conjE)
    fix i d
    assume f: "i < length (map referent (weak_entries tab))" "map referent (weak_entries tab) ! i = x"
      "find_slot (\<lambda>i. referent (weak_entries tab ! i)) (table_mask tab) (max_hash_displacement tab) x
         (hash_pointer x AND table_mask tab) (hash_pointer x AND table_mask tab) 0 = Some (Slot i d)"
    then have i: "i < length (weak_entries tab)" "referent (weak_entries tab ! i) = x" by auto
    have "{r. (x, r) \<in> pairs tab} = referrer_set (weak_entries tab ! i)"
      by (subst pairs_split [OF live i x]) auto
    then show ?thesis using f(3) i live False x by (auto simp: weak_entry_for_referent_def Let_def live_table_def)
  next
    assume "x \<notin> members (map referent (weak_entries tab))"
      "find_slot (\<lambda>i. referent (weak_entries tab ! i)) (table_mask tab) (max_hash_displacement tab) x
         (hash_pointer x AND table_mask tab) (hash_pointer x AND table_mask tab) 0 = Some Absent"
    then show ?thesis using False by (auto simp: weak_entry_for_referent_def Let_def objects_def pairs_def entry_pairs_def members_def)
  qed
qed (auto simp: weak_entry_for_referent_def objects_def pairs_def entry_pairs_def members_def)

lemma entry_insert_ok:
  assumes live: "live_table tab" and room: "4 * num_entries tab < 3 * length (weak_entries tab)"
    and e: "entry_ok e" "referent e \<noteq> 0" "referent e \<notin> objects tab"
  shows "\<exists>tab'. weak_entry_insert e tab = Some tab' \<and> live_table tab' \<and> pairs tab' = pairs tab \<union> {referent e} \<times> referrer_set e \<and>
    objects tab' = insert (referent e) (objects tab) \<and> num_entries tab' = num_entries tab + 1 \<and>
    length (weak_entries tab') = length (weak_entries tab) \<and> table_mask tab' = table_mask tab"
proof -
  let ?ks = "map referent (weak_entries tab)" and ?b = "hash_pointer (referent e)"
  have lp: "lp_ok hash_pointer ?ks (table_mask tab) (num_entries tab) (max_hash_displacement tab)" using live by (simp add: live_table_def)
  have room': "4 * num_entries tab < 3 * length ?ks" using room by simp
  have key: "\<forall>i < length ?ks. referent (weak_entries tab ! i) = ?ks ! i" by simp
  obtain i d where f: "free_slot (\<lambda>i. referent (weak_entries tab ! i)) (table_mask tab) (?b AND table_mask tab) (?b AND table_mask tab) 0 = Some (Slot i d)"
      "i < length ?ks" "?ks ! i = 0" "i = (?b + d) mod length ?ks" "d \<le> num_entries tab"
    using lp_free [where key = "\<lambda>i. referent (weak_entries tab ! i)" and ?b0.0 = ?b, OF lp room' key] by auto
  let ?tab' = "tab\<lparr>weak_entries := (weak_entries tab)[i := e], num_entries := num_entries tab + 1,
     max_hash_displacement := (if d > max_hash_displacement tab then d else max_hash_displacement tab)\<rparr>"
  have disp: "(if d > max_hash_displacement tab then d else max_hash_displacement tab) = max (max_hash_displacement tab) d" by simp
  have eq: "weak_entry_insert e tab = Some ?tab'" using f(1) by (simp add: weak_entry_insert_def Let_def)
  have "lp_ok hash_pointer (map referent (weak_entries ?tab')) (table_mask tab) (num_entries ?tab') (max_hash_displacement ?tab')"
    using lp_insert [OF lp room' e(2) _ f(2-5)] e(3) disp by (simp add: map_update objects_def)
  moreover have "entry_ok e'" if "e' \<in> set (weak_entries ?tab')" "referent e' \<noteq> 0" for e'
    using that live e(1) set_update_subset_insert [of "weak_entries tab" i e] by (auto simp: live_table_def)
  ultimately have live': "live_table ?tab'" by (simp add: live_table_def)
  have "pairs ?tab' = pairs tab \<union> {referent e} \<times> referrer_set e"
    using f(2,3) e(2) entry_pairs_update [of i "weak_entries tab" e] entry_pairs_split [of i "weak_entries tab"]
    by (simp add: pairs_def pairs_of_def Un_commute)
  moreover have "objects ?tab' = insert (referent e) (objects tab)"
    using members_insert [OF f(2,3) e(2)] by (simp add: objects_def map_update)
  ultimately show ?thesis using eq live' by simp
qed

lemma insert_entries_ok:
  assumes "live_table tab" "distinct (nonnil (map referent es))" "members (map referent es) \<inter> objects tab = {}"
    "\<forall>e \<in> set es. referent e \<noteq> 0 \<longrightarrow> entry_ok e"
    "4 * (num_entries tab + length (nonnil (map referent es))) < 3 * length (weak_entries tab)"
  shows "\<exists>tab'. insert_entries es tab = Some tab' \<and> live_table tab' \<and>
    pairs tab' = pairs tab \<union> entry_pairs es \<and>
    objects tab' = objects tab \<union> members (map referent es) \<and>
    num_entries tab' = num_entries tab + length (nonnil (map referent es)) \<and> length (weak_entries tab') = length (weak_entries tab)"
  using assms
proof (induction es arbitrary: tab)
  case (Cons e es)
  show ?case
  proof (cases "referent e = 0")
    case True
    then have "nonnil (map referent (e # es)) = nonnil (map referent es)" "members (map referent (e # es)) = members (map referent es)"
      by (simp_all add: nonnil_def members_def)
    then show ?thesis using Cons.IH [of tab] Cons.prems True by (simp add: entry_pairs_Cons)
  next
    case False
    then have m: "nonnil (map referent (e # es)) = referent e # nonnil (map referent es)"
      "members (map referent (e # es)) = insert (referent e) (members (map referent es))" by (auto simp: nonnil_def members_def)
    have "4 * num_entries tab < 3 * length (weak_entries tab)" "entry_ok e" "referent e \<notin> objects tab"
      using Cons.prems False m by auto
    from entry_insert_ok [OF Cons.prems(1) this(1,2) False this(3)] obtain tab1 where
      1: "weak_entry_insert e tab = Some tab1" "live_table tab1" "pairs tab1 = pairs tab \<union> {referent e} \<times> referrer_set e"
        "objects tab1 = insert (referent e) (objects tab)" "num_entries tab1 = num_entries tab + 1"
        "length (weak_entries tab1) = length (weak_entries tab)" by auto
    have "referent e \<notin> members (map referent es)" using Cons.prems(2) unfolding m(1) by (metis distinct.simps(2) set_nonnil)
    then have "members (map referent es) \<inter> objects tab1 = {}" using Cons.prems(3) m(2) 1(4) by auto
    moreover have "4 * (num_entries tab1 + length (nonnil (map referent es))) < 3 * length (weak_entries tab1)"
      using Cons.prems(5) unfolding m(1) 1(5,6) by simp
    ultimately show ?thesis using Cons.IH [of tab1] 1 Cons.prems(2,4) False unfolding m by (auto simp: entry_pairs_Cons)
  qed
qed (simp add: nonnil_def members_def entry_pairs_Nil)

lemma resize_ok:
  assumes ok: "table_ok tab" and k: "3 \<le> k" and room: "4 * num_entries tab < 3 * 2 ^ k"
  shows "\<exists>tab'. weak_resize (2 ^ k) tab = Some tab' \<and> live_table tab' \<and> pairs tab' = pairs tab \<and> objects tab' = objects tab \<and>
    num_entries tab' = num_entries tab \<and> length (weak_entries tab') = 2 ^ k"
proof -
  let ?t0 = "\<lparr>weak_entries = replicate (2 ^ k) nil_entry, num_entries = 0, table_mask = 2 ^ k - 1, max_hash_displacement = 0\<rparr>"
  have m: "map referent (replicate (2 ^ k) nil_entry) = replicate (2 ^ k) 0" by (simp add: nil_entry_def)
  have t0: "live_table ?t0" "pairs ?t0 = {}" "objects ?t0 = {}"
    using lp_empty [OF k] by (simp_all add: live_table_def pairs_def objects_def m entry_pairs_def del: map_replicate) (auto simp: nil_entry_def)
  have es: "distinct (nonnil (map referent (weak_entries tab)))" "num_entries tab = length (nonnil (map referent (weak_entries tab)))"
      "\<forall>e \<in> set (weak_entries tab). referent e \<noteq> 0 \<longrightarrow> entry_ok e"
    using ok lp_nonnil [of hash_pointer "map referent (weak_entries tab)"] unfolding table_ok_def live_table_def
    by (auto simp: zeroed_table_def nonnil_def [of "[]"])
  have "4 * (num_entries ?t0 + length (nonnil (map referent (weak_entries tab)))) < 3 * length (weak_entries ?t0)"
    using room es(2) by simp
  from insert_entries_ok [OF t0(1) es(1) _ es(3) this] show ?thesis
    unfolding t0(2,3) using es(2) by (auto simp: weak_resize_def pairs_def objects_def)
qed

end
