(* ===== verification/WeakRegistry.thy ===== *)
theory WeakRegistry
  imports WeakEntries
begin

text \<open>
  The operations of the weak table on the relation it stands for: registering adds a pair, unregistering takes
  one away, clearing takes all pairs of an object and zeroes the variables that still hold it. All of them
  return, through growing and shrinking, and keep the invariant.
\<close>

subsection \<open>Growing, shrinking and removing\<close>

lemma live_lp: "live_table tab \<Longrightarrow>
    lp_ok hash_pointer (map referent (weak_entries tab)) (table_mask tab) (num_entries tab) (max_hash_displacement tab)"
  by (simp add: live_table_def)

lemma live_size:
  assumes "live_table tab"
  obtains k where "length (weak_entries tab) = 2 ^ k" "3 \<le> k" "4 dvd length (weak_entries tab)"
    "TABLE_SIZE (table_mask tab) = length (weak_entries tab)" "4 * num_entries tab \<le> 3 * length (weak_entries tab)"
proof -
  obtain k where "length (map referent (weak_entries tab)) = 2 ^ k" "3 \<le> k" "4 dvd length (map referent (weak_entries tab))"
    by (rule lp_size [OF live_lp [OF assms]])
  then show thesis using that [of k] lp_TABLE_SIZE [OF live_lp [OF assms]] live_lp [OF assms] by (simp add: lp_ok_def)
qed

lemma grow_maybe_ok:
  assumes "table_ok tab"
  shows "\<exists>tab'. weak_grow_maybe tab = Some tab' \<and> live_table tab' \<and> pairs tab' = pairs tab \<and> objects tab' = objects tab \<and>
    4 * num_entries tab' < 3 * length (weak_entries tab')"
proof (cases "tab = zeroed_table")
  case True
  have "\<exists>tab'. weak_resize (2 ^ 6) tab = Some tab' \<and> live_table tab' \<and> pairs tab' = pairs tab \<and> objects tab' = objects tab \<and>
      num_entries tab' = num_entries tab \<and> length (weak_entries tab') = 2 ^ 6"
    by (rule resize_ok [OF assms]) (simp_all add: True zeroed_table_def)
  then show ?thesis using True by (auto simp: weak_grow_maybe_def zeroed_table_def TABLE_SIZE_def)
next
  case False
  then have live: "live_table tab" using assms by (simp add: table_ok_def)
  obtain k where k: "length (weak_entries tab) = 2 ^ k" "3 \<le> k" "4 dvd length (weak_entries tab)"
    "TABLE_SIZE (table_mask tab) = length (weak_entries tab)" "4 * num_entries tab \<le> 3 * length (weak_entries tab)" by (rule live_size [OF live])
  show ?thesis
  proof (cases "4 * num_entries tab < 3 * length (weak_entries tab)")
    case True
    then show ?thesis using live three_quarters [OF k(3), of "num_entries tab"] k(4) by (simp add: weak_grow_maybe_def Let_def)
  next
    case False
    have p: "(2 :: nat) ^ (k + 1) = 2 * 2 ^ k" "(0 :: nat) < 2 ^ k" by simp_all
    have room: "4 * num_entries tab < 3 * 2 ^ (k + 1)" using k(1,5) p by linarith
    have "3 \<le> k + 1" using k(2) by simp
    from resize_ok [OF assms this room] show ?thesis
      using False three_quarters [OF k(3), of "num_entries tab"] k(1,4) room p
      by (auto simp: weak_grow_maybe_def Let_def mult.commute)
  qed
qed

lemma compact_maybe_ok:
  assumes "live_table tab"
  shows "\<exists>tab'. weak_compact_maybe tab = Some tab' \<and> live_table tab' \<and> pairs tab' = pairs tab"
proof -
  obtain k where k: "length (weak_entries tab) = 2 ^ k" "3 \<le> k" "4 dvd length (weak_entries tab)"
    "TABLE_SIZE (table_mask tab) = length (weak_entries tab)" by (rule live_size [OF assms])
  show ?thesis
  proof (cases "1024 \<le> length (weak_entries tab) \<and> num_entries tab \<le> length (weak_entries tab) div 16")
    case True
    then have "(2 :: nat) ^ 10 \<le> 2 ^ k" using k(1) by simp
    then have k10: "10 \<le> k" by (rule power_le_imp_le_exp [rotated]) simp
    define j where "j = k - 3"
    have j: "(2 :: nat) ^ k = 8 * 2 ^ j" "3 \<le> j" using k10 power_add [of "2 :: nat" 3 j] by (auto simp: j_def)
    have "4 * num_entries tab < 3 * 2 ^ j"
    proof -
      have "length (weak_entries tab) div 16 * 16 \<le> length (weak_entries tab)" by simp
      then show ?thesis using True k(1) j(1) by linarith
    qed
    from resize_ok [OF _ j(2) this] show ?thesis using assms True k(1,4) j(1)
      by (auto simp: weak_compact_maybe_def Let_def table_ok_def)
  next
    case False
    then show ?thesis using assms k(4) by (auto simp: weak_compact_maybe_def Let_def)
  qed
qed

lemma live_update:
  assumes "live_table tab" "i < length (weak_entries tab)" "referent e = referent (weak_entries tab ! i)" "entry_ok e"
  shows "live_table (tab\<lparr>weak_entries := (weak_entries tab)[i := e]\<rparr>)"
proof -
  have "map referent ((weak_entries tab)[i := e]) = map referent (weak_entries tab)"
    using assms(2,3) by (simp add: map_update list_update_same_conv)
  then show ?thesis using assms set_update_subset_insert [of "weak_entries tab" i e] unfolding live_table_def by auto
qed

lemma entry_remove_ok:
  assumes live: "live_table tab" and i: "i < length (weak_entries tab)" "referent (weak_entries tab ! i) = x" and x: "x \<noteq> 0"
  shows "\<exists>tab'. weak_entry_remove i tab = Some tab' \<and> live_table tab' \<and> pairs tab' = {p \<in> pairs tab. fst p \<noteq> x}"
proof -
  let ?tab = "tab\<lparr>weak_entries := (weak_entries tab)[i := nil_entry], num_entries := num_entries tab - 1\<rparr>"
  have "map referent (weak_entries ?tab) = (map referent (weak_entries tab))[i := 0]" by (simp add: map_update nil_entry_def)
  then have "lp_ok hash_pointer (map referent (weak_entries ?tab)) (table_mask ?tab) (num_entries ?tab) (max_hash_displacement ?tab)"
    using lp_delete(1) [OF live_lp [OF live], of i x] i x by simp
  moreover have "entry_ok e" if "e \<in> set (weak_entries ?tab)" "referent e \<noteq> 0" for e
    using that live set_update_subset_insert [of "weak_entries tab" i nil_entry] by (auto simp: live_table_def nil_entry_def)
  ultimately have "live_table ?tab" by (simp add: live_table_def)
  moreover have "pairs ?tab = {p \<in> pairs tab. fst p \<noteq> x}"
    using pairs_update [OF live i x, of nil_entry] x unfolding pairs_def [of ?tab] by (simp add: nil_entry_def)
  ultimately show ?thesis using compact_maybe_ok [of ?tab] by (auto simp: weak_entry_remove_def)
qed

subsection \<open>Registering, unregistering and clearing\<close>

lemma remember_ok:
  assumes ok: "table_ok tab" and x: "x \<noteq> 0" and r: "r \<noteq> 0" "(x, r) \<notin> pairs tab"
  shows "\<exists>tab'. weak_remember x r tab = Some tab' \<and> table_ok tab' \<and> pairs tab' = insert (x, r) (pairs tab)"
  using referent_found [OF ok x]
proof (elim disjE exE conjE)
  fix i
  assume f: "weak_entry_for_referent tab x = Some (Some i)" "live_table tab" "i < length (weak_entries tab)"
    "referent (weak_entries tab ! i) = x" "entry_ok (weak_entries tab ! i)" "{r. (x, r) \<in> pairs tab} = referrer_set (weak_entries tab ! i)"
  obtain e where e: "append_referrer r (weak_entries tab ! i) = Some e" "entry_ok e" "referent e = x"
      "referrer_set e = insert r (referrer_set (weak_entries tab ! i))"
    using append_referrer_ok [OF f(5) r(1)] f(4,6) r(2) by auto
  have "entry_pairs ((weak_entries tab)[i := e]) = insert (x, r) (pairs tab)"
    using pairs_update [OF f(2,3,4) x, of e] pairs_split [OF f(2,3,4) x] e(3,4) by auto
  then show ?thesis using f(1) e live_update [OF f(2,3), of e] f(4)
    by (simp add: weak_remember_def table_ok_def pairs_def [of "tab\<lparr>weak_entries := (weak_entries tab)[i := e]\<rparr>"])
next
  assume f: "weak_entry_for_referent tab x = Some None" "x \<notin> objects tab"
  obtain tab1 where 1: "weak_grow_maybe tab = Some tab1" "live_table tab1" "pairs tab1 = pairs tab" "objects tab1 = objects tab"
      "4 * num_entries tab1 < 3 * length (weak_entries tab1)" using grow_maybe_ok [OF ok] by auto
  have e: "entry_ok (new_weak_entry x r)" "referent (new_weak_entry x r) = x" "referrer_set (new_weak_entry x r) = {r}"
    using r(1) by (auto simp: new_weak_entry_def entry_ok_def nonnil_def referrer_set_def members_def)
  from entry_insert_ok [OF 1(2,5) e(1)] show ?thesis
    using 1 e f x by (auto simp: weak_remember_def table_ok_def)
qed

lemma unregister_ok:
  assumes ok: "table_ok tab" and r: "r \<noteq> 0"
  shows "\<exists>tab'. weak_unregister_no_lock x r tab = Some tab' \<and> table_ok tab' \<and> pairs tab' = pairs tab - {(x, r)}"
proof (cases "x = 0")
  case True
  then show ?thesis using ok by (auto simp: weak_unregister_no_lock_def pairs_def entry_pairs_def)
next
  case False
  show ?thesis using referent_found [OF ok False]
  proof (elim disjE exE conjE)
    fix i
    assume f: "weak_entry_for_referent tab x = Some (Some i)" "live_table tab" "i < length (weak_entries tab)"
      "referent (weak_entries tab ! i) = x" "entry_ok (weak_entries tab ! i)" "{r. (x, r) \<in> pairs tab} = referrer_set (weak_entries tab ! i)"
    obtain e where e: "remove_referrer r (weak_entries tab ! i) = Some e" "entry_ok e" "referent e = x"
        "referrer_set e = referrer_set (weak_entries tab ! i) - {r}"
      using remove_referrer_ok [OF f(5) r] f(4) by auto
    let ?tab1 = "tab\<lparr>weak_entries := (weak_entries tab)[i := e]\<rparr>"
    have live: "live_table ?tab1" using live_update [OF f(2,3), of e] e f(4) by simp
    have p: "pairs ?tab1 = pairs tab - {(x, r)}"
      using pairs_update [OF f(2,3,4) False, of e] pairs_split [OF f(2,3,4) False] e(3,4) by (auto simp: pairs_def [of ?tab1])
    show ?thesis
    proof (cases "entry_empty e")
      case True
      then have "referrer_set e = {}" by (auto simp: entry_empty_def referrer_set_def members_def list_all_iff split: weak_refs.splits)
      then have "{p \<in> pairs ?tab1. fst p \<noteq> x} = pairs ?tab1"
        using pairs_split [OF live, of i x] f(3) e(3) False by auto
      moreover obtain tab2 where "weak_entry_remove i ?tab1 = Some tab2" "live_table tab2" "pairs tab2 = {p \<in> pairs ?tab1. fst p \<noteq> x}"
        using entry_remove_ok [OF live, of i x] f(3) e(3) False by auto
      ultimately show ?thesis using f(1) e(1) True False p by (simp add: weak_unregister_no_lock_def table_ok_def)
    next
      case empty: False
      then show ?thesis using f(1) e(1) False p live by (simp add: weak_unregister_no_lock_def table_ok_def)
    qed
  next
    assume f: "weak_entry_for_referent tab x = Some None" "{r. (x, r) \<in> pairs tab} = {}"
    then show ?thesis using ok False by (auto simp: weak_unregister_no_lock_def)
  qed
qed

lemma zero_referrers_eq: "x \<noteq> 0 \<Longrightarrow> zero_referrers x rs vars = (\<lambda>l. if l \<in> members rs \<and> vars l = x then 0 else vars l)"
  by (induction rs arbitrary: vars) (auto simp: members_def fun_eq_iff)

lemma clear_pairs_ok:
  assumes ok: "table_ok tab" and x: "x \<noteq> 0"
  shows "\<exists>tab'. weak_clear_no_lock x tab vars = Some (tab', \<lambda>l. if (x, l) \<in> pairs tab \<and> vars l = x then 0 else vars l) \<and>
    table_ok tab' \<and> pairs tab' = {p \<in> pairs tab. fst p \<noteq> x}"
  using referent_found [OF ok x]
proof (elim disjE exE conjE)
  fix i
  assume f: "weak_entry_for_referent tab x = Some (Some i)" "live_table tab" "i < length (weak_entries tab)"
    "referent (weak_entries tab ! i) = x" "entry_ok (weak_entries tab ! i)" "{r. (x, r) \<in> pairs tab} = referrer_set (weak_entries tab ! i)"
  have "members (entry_slots (weak_entries tab ! i)) = referrer_set (weak_entries tab ! i)"
    using f(5) lp_TABLE_SIZE by (auto simp: entry_slots_def referrer_set_def entry_ok_def refs_ok_def split: weak_refs.splits)
  then have "l \<in> members (entry_slots (weak_entries tab ! i)) \<longleftrightarrow> (x, l) \<in> pairs tab" for l using f(6) by auto
  then show ?thesis using f(1) entry_remove_ok [OF f(2,3,4) x] x by (auto simp: weak_clear_no_lock_def zero_referrers_eq table_ok_def)
next
  assume f: "weak_entry_for_referent tab x = Some None" "{r. (x, r) \<in> pairs tab} = {}"
  then have "pairs tab = {p \<in> pairs tab. fst p \<noteq> x}" by auto
  then show ?thesis using f ok by (auto simp: weak_clear_no_lock_def)
qed

text \<open>
  An entry whose referrers went out of line stays in the table when the last of them is unregistered, since the test
  for emptiness then reads the pointer to the referrers as an inline slot; only clearing the object removes it.
\<close>

lemma out_of_line_entry_stays:
  assumes ok: "table_ok tab" and x: "x \<noteq> 0" and r: "r \<noteq> 0"
    and e: "weak_entry_for_referent tab x = Some (Some i)" "refs (weak_entries tab ! i) = OutOfLine t" "members (referrers t) = {r}"
  shows "\<exists>tab'. weak_unregister_no_lock x r tab = Some tab' \<and> (\<forall>l. (x, l) \<notin> pairs tab') \<and> x \<in> objects tab'"
proof -
  obtain f: "live_table tab" "i < length (weak_entries tab)" "referent (weak_entries tab ! i) = x" "entry_ok (weak_entries tab ! i)"
      "{l. (x, l) \<in> pairs tab} = {r}"
    using referent_found [OF ok x] e by (auto simp: referrer_set_def)
  obtain e' where e': "remove_referrer r (weak_entries tab ! i) = Some e'" "referent e' = x"
    using remove_referrer_ok [OF f(4) r] f(3) by auto
  then have "\<not> entry_empty e'" using e(2)
    by (auto simp: remove_referrer_def entry_empty_def Let_def split: option.splits probe.splits)
  then have u: "weak_unregister_no_lock x r tab = Some (tab\<lparr>weak_entries := (weak_entries tab)[i := e']\<rparr>)"
    using e(1) e'(1) x by (simp add: weak_unregister_no_lock_def)
  have "x \<in> set (map referent ((weak_entries tab)[i := e']))" using f(2) e'(2) by (metis image_eqI set_map set_update_memI)
  then have "x \<in> objects (tab\<lparr>weak_entries := (weak_entries tab)[i := e']\<rparr>)" using x by (simp add: objects_def members_def)
  then show ?thesis using unregister_ok [OF ok r, of x] u f(5) by auto
qed

subsection \<open>The contract of a registry\<close>

text \<open>
  What the weak variables need of the table: a relation that registering extends, unregistering shrinks and
  clearing restricts, by calls that return.
\<close>

datatype weak_command = Register u64 u64 | Unregister u64 u64 | ClearAll u64

primrec relation_after :: "weak_command \<Rightarrow> (u64 \<times> u64) set \<Rightarrow> (u64 \<times> u64) set" where
  "relation_after (Register x r) R = insert (x, r) R"
| "relation_after (Unregister x r) R = R - {(x, r)}"
| "relation_after (ClearAll x) R = {p \<in> R. fst p \<noteq> x}"

text \<open>Variables are not nil and not registered twice for an object, which \<open>append_referrer\<close> relies on.\<close>

primrec allowed :: "weak_command \<Rightarrow> (u64 \<times> u64) set \<Rightarrow> bool" where
  "allowed (Register x r) R \<longleftrightarrow> x \<noteq> 0 \<and> r \<noteq> 0 \<and> (x, r) \<notin> R"
| "allowed (Unregister x r) R \<longleftrightarrow> r \<noteq> 0"
| "allowed (ClearAll x) R \<longleftrightarrow> x \<noteq> 0"

primrec all_allowed :: "weak_command list \<Rightarrow> (u64 \<times> u64) set \<Rightarrow> bool" where
  "all_allowed [] R = True"
| "all_allowed (c # cs) R \<longleftrightarrow> allowed c R \<and> all_allowed cs (relation_after c R)"

locale weak_registry =
  fixes ok :: "'t \<Rightarrow> bool" and rel :: "'t \<Rightarrow> (u64 \<times> u64) set" and command :: "weak_command \<Rightarrow> 't \<Rightarrow> 't option"
  assumes step: "ok t \<Longrightarrow> allowed c (rel t) \<Longrightarrow> \<exists>t'. command c t = Some t' \<and> ok t' \<and> rel t' = relation_after c (rel t)"
begin

lemma history:
  assumes "ok t" "all_allowed cs (rel t)"
  shows "\<exists>t'. fold (\<lambda>c s. Option.bind s (command c)) cs (Some t) = Some t' \<and> ok t' \<and> rel t' = fold relation_after cs (rel t)"
  using assms
proof (induction cs arbitrary: t)
  case (Cons c cs)
  then obtain t1 where "command c t = Some t1" "ok t1" "rel t1 = relation_after c (rel t)" using step [of t c] by auto
  then show ?case using Cons.IH [of t1] Cons.prems by simp
qed simp

end

primrec weak_command_table :: "weak_command \<Rightarrow> weak_table_t \<Rightarrow> weak_table_t option" where
  "weak_command_table (Register x r) tab = weak_remember x r tab"
| "weak_command_table (Unregister x r) tab = weak_unregister_no_lock x r tab"
| "weak_command_table (ClearAll x) tab = map_option fst (weak_clear_no_lock x tab (\<lambda>_. 0))"

interpretation registry: weak_registry table_ok pairs weak_command_table
proof
  fix tab c
  assume ok: "table_ok tab" and al: "allowed c (pairs tab)"
  show "\<exists>t'. weak_command_table c tab = Some t' \<and> table_ok t' \<and> pairs t' = relation_after c (pairs tab)"
  proof (cases c)
    case (Register x r)
    then show ?thesis using remember_ok [OF ok] al by simp
  next
    case (Unregister x r)
    then show ?thesis using unregister_ok [OF ok] al by simp
  next
    case (ClearAll x)
    from clear_pairs_ok [OF ok, of x "\<lambda>_. 0"] obtain tab' where
      "weak_clear_no_lock x tab (\<lambda>_. 0) = Some (tab', \<lambda>l. if (x, l) \<in> pairs tab \<and> 0 = x then 0 else 0)" "table_ok tab'"
      "pairs tab' = {p \<in> pairs tab. fst p \<noteq> x}" using al ClearAll by auto
    then show ?thesis using ClearAll by simp
  qed
qed

text \<open>
  C14. The weak table refines a relation between objects and variables: from the zeroed table, any history in which no
  pair is registered twice runs to its end, through inline and out-of-line referrers, growth of either table
  and compaction, without an abort, and the table then stands for exactly the pairs registered and neither
  unregistered nor cleared since.
\<close>

theorem weak_table_refines:
  assumes "all_allowed cs {}"
  shows "\<exists>tab. fold (\<lambda>c s. Option.bind s (weak_command_table c)) cs (Some zeroed_table) = Some tab \<and> table_ok tab \<and>
    pairs tab = fold relation_after cs {}"
  using registry.history [of zeroed_table cs] assms zeroed_table_ok by simp

theorem weak_table_refines_witness:
  "\<exists>tab. fold (\<lambda>c s. Option.bind s (weak_command_table c)) [Register 8 16, Register 8 24, Unregister 8 16, Register 32 16, ClearAll 8]
       (Some zeroed_table) = Some tab \<and> table_ok tab \<and> pairs tab = {(32, 16)}"
proof -
  have "fold relation_after [Register 8 16, Register 8 24, Unregister 8 16, Register 32 16, ClearAll 8] {} = {(32, 16)}" by auto
  then show ?thesis
    using weak_table_refines [of "[Register 8 16, Register 8 24, Unregister 8 16, Register 32 16, ClearAll 8]"] by simp
qed

text \<open>
  The low two bits of the disguised form of an aligned address are zero (the comment in \<open>objc-weak.h\<close> has 11 for
  all but nil), so the mark of the out-of-line form, binary 10, never shows in the second inline referrer.
\<close>

lemma disguised_low_bits: "take_bit 3 p = 0 \<Longrightarrow> take_bit 2 (disguise p) = 0" for p :: u64
proof -
  assume "take_bit 3 p = 0"
  then have "2 ^ 3 dvd p" by (simp only: take_bit_eq_0_iff)
  then have "2 ^ 2 dvd p" by (rule dvd_trans [rotated]) (rule le_imp_power_dvd, simp)
  then show ?thesis by (simp only: disguise_def take_bit_eq_0_iff dvd_minus_iff)
qed

end
