(* ===== verification/WeakVars.thy ===== *)
theory WeakVars
  imports WeakRegistry
begin

text \<open>
  Weak variables (\<open>NSObject.mm\<close>): storing, loading, copying, moving and destroying them, over the weak tables of all
  side tables. What runs while the side table locks are held is one step; what other threads do before the
  locks are taken is an argument, one function on the state for each time they are taken, and a call that
  would need more of them than given is \<open>None\<close>. The callout to \<open>_setWeaklyReferenced\<close>, after the locks
  are released, is not modelled.
\<close>

record weak_world =
  wtables :: "nat \<Rightarrow> weak_table_t"
  wvars :: "u64 \<Rightarrow> u64"
  wmarked :: "u64 \<Rightarrow> bool"          \<comment> \<open>the is-weakly-referenced mark of an object\<close>
  wretained :: "u64 \<Rightarrow> nat"        \<comment> \<open>references given out by loads\<close>
  viability_of :: "u64 \<Rightarrow> viability"
  retainable :: "u64 \<Rightarrow> bool"      \<comment> \<open>whether \<open>rootTryRetain\<close> or \<open>retainWeakReference\<close> succeeds\<close>
  class_of :: "u64 \<Rightarrow> u64"
  initialized :: "u64 \<Rightarrow> bool"

definition StripeCount :: nat where "StripeCount = 64"

definition indexForPointer :: "u64 \<Rightarrow> nat" where
  "indexForPointer p = unat (drop_bit 4 p XOR drop_bit 9 p) mod StripeCount"

text \<open>The tag of the x86-64 layout.\<close>

definition is_tagged :: "u64 \<Rightarrow> bool" where "is_tagged p \<longleftrightarrow> p AND 1 = 1"

definition isTaggedPointerOrNil :: "u64 \<Rightarrow> bool" where "isTaggedPointerOrNil p \<longleftrightarrow> p = 0 \<or> is_tagged p"

datatype store_result = Stored u64 | CannotFormWeak

definition set_table :: "u64 \<Rightarrow> weak_table_t \<Rightarrow> weak_world \<Rightarrow> weak_world" where
  "set_table obj tab w = w\<lparr>wtables := (wtables w)(indexForPointer obj := tab)\<rparr>"

definition table_of :: "u64 \<Rightarrow> weak_world \<Rightarrow> weak_table_t" where
  "table_of obj w = wtables w (indexForPointer obj)"

text \<open>\<open>storeWeak\<close> with the locks held and the old value confirmed.\<close>

definition storeWeak_unregister :: "bool \<Rightarrow> u64 \<Rightarrow> u64 \<Rightarrow> weak_world \<Rightarrow> weak_world option" where
  "storeWeak_unregister haveOld location oldObj w =
     (if haveOld then map_option (\<lambda>tab. set_table oldObj tab w) (weak_unregister_no_lock oldObj location (table_of oldObj w))
      else Some w)"

definition storeWeak_assign :: "u64 \<Rightarrow> u64 \<Rightarrow> weak_world \<Rightarrow> store_result \<times> weak_world" where
  "storeWeak_assign location newObj w =
     (Stored newObj,
      w\<lparr>wmarked := (if isTaggedPointerOrNil newObj then wmarked w else (wmarked w)(newObj := True)),
        wvars := (wvars w)(location := newObj)\<rparr>)"

definition storeWeak_locked :: "bool \<Rightarrow> bool \<Rightarrow> bool \<Rightarrow> u64 \<Rightarrow> u64 \<Rightarrow> u64 \<Rightarrow> weak_world \<Rightarrow> (store_result \<times> weak_world) option" where
  "storeWeak_locked haveOld haveNew crash location newObj oldObj w =
     (case storeWeak_unregister haveOld location oldObj w of None \<Rightarrow> None
      | Some w1 \<Rightarrow>
          if \<not> haveNew then Some (Stored newObj, w1)
          else case weak_register_no_lock is_tagged (viability_of w1 newObj)
                      (if crash then CrashIfDeallocating else ReturnNilIfDeallocating) newObj location (table_of newObj w1) of
                 None \<Rightarrow> None
               | Some (CannotForm, tab) \<Rightarrow> Some (CannotFormWeak, set_table newObj tab w1)
               | Some (Refused, tab) \<Rightarrow> Some (storeWeak_assign location 0 (set_table newObj tab w1))
               | Some (Accepted, tab) \<Rightarrow> Some (storeWeak_assign location newObj (set_table newObj tab w1)))"

text \<open>The retries: the old value changed before the locks were taken, or the class has to be initialised first.\<close>

type_synonym interference = "weak_world \<Rightarrow> weak_world"

fun storeWeak_loop ::
    "bool \<Rightarrow> bool \<Rightarrow> bool \<Rightarrow> u64 \<Rightarrow> u64 \<Rightarrow> (u64 \<Rightarrow> interference) \<Rightarrow> u64 \<Rightarrow> interference list \<Rightarrow> weak_world \<Rightarrow>
     (store_result \<times> weak_world) option" where
  "storeWeak_loop haveOld haveNew crash location newObj class_initialize previous [] w = None"
| "storeWeak_loop haveOld haveNew crash location newObj class_initialize previous (env # envs) w =
     (let oldObj = wvars w location; w1 = env w; cls = class_of w1 newObj
      in if haveOld \<and> wvars w1 location \<noteq> oldObj
         then storeWeak_loop haveOld haveNew crash location newObj class_initialize previous envs w1
         else if haveNew \<and> newObj \<noteq> 0 \<and> cls \<noteq> previous \<and> \<not> initialized w1 cls
         then storeWeak_loop haveOld haveNew crash location newObj class_initialize cls envs (class_initialize cls w1)
         else storeWeak_locked haveOld haveNew crash location newObj oldObj w1)"

definition objc_storeWeak where
  "objc_storeWeak location newObj ini envs w = storeWeak_loop True True True location newObj ini 0 envs w"

definition objc_storeWeakOrNil where
  "objc_storeWeakOrNil location newObj ini envs w = storeWeak_loop True True False location newObj ini 0 envs w"

definition objc_initWeak where
  "objc_initWeak location newObj ini envs w =
     (if newObj = 0 then Some (Stored 0, w\<lparr>wvars := (wvars w)(location := 0)\<rparr>)
      else storeWeak_loop False True True location newObj ini 0 envs w)"

definition objc_initWeakOrNil where
  "objc_initWeakOrNil location newObj ini envs w =
     (if newObj = 0 then Some (Stored 0, w\<lparr>wvars := (wvars w)(location := 0)\<rparr>)
      else storeWeak_loop False True False location newObj ini 0 envs w)"

definition objc_destroyWeak where
  "objc_destroyWeak location ini envs w = storeWeak_loop True False False location 0 ini 0 envs w"

text \<open>
  A load gives out a reference when the object can be retained. Classes whose retain is overridden are
  initialised first.
\<close>

fun objc_loadWeakRetained ::
    "u64 \<Rightarrow> (u64 \<Rightarrow> bool) \<Rightarrow> (u64 \<Rightarrow> bool) \<Rightarrow> (u64 \<Rightarrow> interference) \<Rightarrow> interference list \<Rightarrow> weak_world \<Rightarrow> (u64 \<times> weak_world) option" where
  "objc_loadWeakRetained location hasCustomRR initializing class_initialize [] w =
     (if isTaggedPointerOrNil (wvars w location) then Some (wvars w location, w) else None)"
| "objc_loadWeakRetained location hasCustomRR initializing class_initialize (env # envs) w =
     (let obj = wvars w location; w1 = env w; cls = class_of w1 obj
      in if isTaggedPointerOrNil obj then Some (obj, w)
         else if wvars w1 location \<noteq> obj then objc_loadWeakRetained location hasCustomRR initializing class_initialize envs w1
         else if hasCustomRR cls \<and> \<not> (initialized w1 cls \<or> initializing cls)
         then objc_loadWeakRetained location hasCustomRR initializing class_initialize envs (class_initialize cls w1)
         else if retainable w1 obj then Some (obj, w1\<lparr>wretained := (wretained w1)(obj := wretained w1 obj + 1)\<rparr>)
         else Some (0, w1))"

definition objc_release_loaded :: "u64 \<Rightarrow> weak_world \<Rightarrow> weak_world" where
  "objc_release_loaded obj w =
     (if isTaggedPointerOrNil obj then w else w\<lparr>wretained := (wretained w)(obj := wretained w obj - 1)\<rparr>)"

definition objc_copyWeak where
  "objc_copyWeak dst src hasCustomRR initializing ini envs envs' w =
     (case objc_loadWeakRetained src hasCustomRR initializing ini envs w of None \<Rightarrow> None
      | Some (obj, w1) \<Rightarrow>
          (case objc_initWeak dst obj ini envs' w1 of None \<Rightarrow> None
           | Some (r, w2) \<Rightarrow> Some (r, if r = CannotFormWeak then w2 else objc_release_loaded obj w2)))"

definition moveWeak_locked :: "u64 \<Rightarrow> u64 \<Rightarrow> u64 \<Rightarrow> weak_world \<Rightarrow> weak_world option" where
  "moveWeak_locked dst src obj w =
     (case weak_unregister_no_lock obj src (table_of obj w) of None \<Rightarrow> None
      | Some tab1 \<Rightarrow>
          (case weak_register_no_lock is_tagged (viability_of w obj) DontCheckDeallocating obj dst tab1 of None \<Rightarrow> None
           | Some (r, tab2) \<Rightarrow> Some ((set_table obj tab2 w)\<lparr>wvars := (wvars w)(dst := obj, src := 0)\<rparr>)))"

fun objc_moveWeak :: "u64 \<Rightarrow> u64 \<Rightarrow> interference list \<Rightarrow> weak_world \<Rightarrow> weak_world option" where
  "objc_moveWeak dst src [] w = (if wvars w src = 0 then Some (w\<lparr>wvars := (wvars w)(dst := 0)\<rparr>) else None)"
| "objc_moveWeak dst src (env # envs) w =
     (let obj = wvars w src; w1 = env w
      in if obj = 0 then Some (w\<lparr>wvars := (wvars w)(dst := 0)\<rparr>)
         else if wvars w1 src \<noteq> obj then objc_moveWeak dst src envs w1
         else moveWeak_locked dst src obj w1)"

text \<open>
  The end of an object: if it is marked as weakly referenced, its variables are zeroed under the lock of its side table.
  The mark of an object with a raw \<open>isa\<close> is in the side table and goes with its entry.
\<close>

definition weak_clear_object :: "bool \<Rightarrow> u64 \<Rightarrow> weak_world \<Rightarrow> weak_world option" where
  "weak_clear_object raw obj w =
     (if \<not> wmarked w obj then Some w
      else case weak_clear_no_lock obj (table_of obj w) (wvars w) of None \<Rightarrow> None
      | Some (tab, vars) \<Rightarrow>
          Some ((set_table obj tab w)\<lparr>wvars := vars, wmarked := (if raw then (wmarked w)(obj := False) else wmarked w)\<rparr>))"

end
