(* ===== verification/WeakRefs.thy ===== *)
theory WeakRefs
  imports WeakVars
begin

text \<open>
  Zeroing weak references: the weak tables hold exactly the pairs of an object and an initialised variable that
  refers to it, every operation on variables keeps that, and once an object is cleared and may not be
  weakly referenced again no variable ever holds it.
\<close>

subsection \<open>Exact registration\<close>

text \<open>\<open>live\<close> is the set of initialised weak variables.\<close>

definition registered :: "u64 set \<Rightarrow> weak_world \<Rightarrow> (u64 \<times> u64) set" where
  "registered live w = {(x, l). l \<in> live \<and> wvars w l = x \<and> \<not> isTaggedPointerOrNil x}"

definition exact_ok :: "u64 set \<Rightarrow> weak_world \<Rightarrow> bool" where
  "exact_ok live w \<longleftrightarrow> 0 \<notin> live \<and>
     (\<forall>i. table_ok (wtables w i) \<and> pairs (wtables w i) = {p \<in> registered live w. indexForPointer (fst p) = i})"

lemma exact_okD:
  assumes "exact_ok live w"
  shows "table_ok (table_of x w)" "(x, l) \<in> pairs (table_of x w) \<longleftrightarrow> l \<in> live \<and> wvars w l = x \<and> \<not> isTaggedPointerOrNil x"
  using assms by (auto simp: exact_ok_def table_of_def registered_def)

lemma exact_ok_set_table:
  assumes "exact_ok live w" "table_ok tab" "pairs tab = {p \<in> registered live' w'. indexForPointer (fst p) = indexForPointer x}"
    "0 \<notin> live'" "wtables w' = (wtables w)(indexForPointer x := tab)"
    "\<And>p. indexForPointer (fst p) \<noteq> indexForPointer x \<Longrightarrow> p \<in> registered live' w' \<longleftrightarrow> p \<in> registered live w"
  shows "exact_ok live' w'"
  unfolding exact_ok_def
proof (intro conjI allI)
  show "0 \<notin> live'" by (rule assms(4))
  fix i
  show "table_ok (wtables w' i)" using assms(1,2,5) by (auto simp: exact_ok_def)
  show "pairs (wtables w' i) = {p \<in> registered live' w'. indexForPointer (fst p) = i}"
  proof (cases "i = indexForPointer x")
    case True
    then show ?thesis using assms(3,5) by simp
  next
    case False
    then have "pairs (wtables w' i) = {p \<in> registered live w. indexForPointer (fst p) = i}" using assms(1,5) by (simp add: exact_ok_def)
    then show ?thesis using assms(6) False by auto
  qed
qed

lemma unregister_var:
  assumes ok: "exact_ok live w" and l: "l \<noteq> 0" "wvars w l = x"
  shows "\<exists>tab. weak_unregister_no_lock x l (table_of x w) = Some tab \<and> exact_ok (live - {l}) (set_table x tab w)"
proof -
  obtain tab where t: "weak_unregister_no_lock x l (table_of x w) = Some tab" "table_ok tab" "pairs tab = pairs (table_of x w) - {(x, l)}"
    using unregister_ok [OF exact_okD(1) [OF ok, of x] l(1), of x] by auto
  have "pairs (table_of x w) = {p \<in> registered live w. indexForPointer (fst p) = indexForPointer x}"
    using ok by (simp add: exact_ok_def table_of_def)
  then have "pairs tab = {p \<in> registered (live - {l}) (set_table x tab w). indexForPointer (fst p) = indexForPointer x}"
    using t(3) l(2) by (auto simp: registered_def set_table_def)
  then have "exact_ok (live - {l}) (set_table x tab w)"
    by (rule exact_ok_set_table [OF ok t(2)]) (use ok l in \<open>auto simp: exact_ok_def set_table_def registered_def\<close>)
  then show ?thesis using t(1) by blast
qed

lemma exact_ok_congr:
  assumes "exact_ok live w" "wtables w' = wtables w" "\<And>l. l \<in> live \<Longrightarrow> wvars w' l = wvars w l"
  shows "exact_ok live w'"
proof -
  have "registered live w' = registered live w" using assms(3) by (auto simp: registered_def)
  then show ?thesis using assms(1,2) by (simp add: exact_ok_def)
qed

text \<open>A variable that becomes nil or tagged needs no registration.\<close>

lemma assign_plain:
  assumes ok: "exact_ok live w" and l: "l \<notin> live" "l \<noteq> 0" and x: "isTaggedPointerOrNil x"
    and w': "wtables w' = wtables w" "wvars w' = (wvars w)(l := x)"
  shows "exact_ok (insert l live) w'"
proof -
  have "registered (insert l live) w' = registered live w" using l x w' by (auto simp: registered_def)
  then show ?thesis using ok l(2) w'(1) by (simp add: exact_ok_def)
qed

lemma assign_registered:
  assumes ok: "exact_ok live w" and l: "l \<notin> live" "l \<noteq> 0" and x: "\<not> isTaggedPointerOrNil x"
  shows "\<exists>tab. weak_remember x l (table_of x w) = Some tab \<and>
    (\<forall>w'. wtables w' = (wtables w)(indexForPointer x := tab) \<and> wvars w' = (wvars w)(l := x) \<longrightarrow> exact_ok (insert l live) w')"
proof -
  have x0: "x \<noteq> 0" using x by (simp add: isTaggedPointerOrNil_def)
  have "(x, l) \<notin> pairs (table_of x w)" using exact_okD(2) [OF ok] l(1) by simp
  then obtain tab where t: "weak_remember x l (table_of x w) = Some tab" "table_ok tab" "pairs tab = insert (x, l) (pairs (table_of x w))"
    using remember_ok [OF exact_okD(1) [OF ok, of x] x0 l(2)] by auto
  have "exact_ok (insert l live) w'" if w': "wtables w' = (wtables w)(indexForPointer x := tab)" "wvars w' = (wvars w)(l := x)" for w'
  proof -
    have "pairs (table_of x w) = {p \<in> registered live w. indexForPointer (fst p) = indexForPointer x}"
      using ok by (simp add: exact_ok_def table_of_def)
    then have "pairs tab = {p \<in> registered (insert l live) w'. indexForPointer (fst p) = indexForPointer x}"
      using t(3) w'(2) l(1) x by (auto simp: registered_def)
    then show ?thesis
      by (rule exact_ok_set_table [OF ok t(2) _ _ w'(1)]) (use ok l w' in \<open>auto simp: exact_ok_def registered_def\<close>)
  qed
  then show ?thesis using t(1) by blast
qed

subsection \<open>Storing\<close>

lemma storeWeak_unregister_ok:
  assumes ok: "exact_ok live w" and l: "l \<noteq> 0" "haveOld \<Longrightarrow> l \<in> live" "\<not> haveOld \<Longrightarrow> l \<notin> live"
  shows "\<exists>w1. storeWeak_unregister haveOld l (wvars w l) w = Some w1 \<and> exact_ok (live - {l}) w1 \<and> wvars w1 = wvars w \<and>
    viability_of w1 = viability_of w \<and> wmarked w1 = wmarked w"
proof (cases haveOld)
  case True
  then show ?thesis using unregister_var [OF ok l(1) refl] by (auto simp: storeWeak_unregister_def set_table_def)
qed (use ok l in \<open>simp add: storeWeak_unregister_def\<close>)

lemma set_table_same: "set_table x (table_of x w) w = w"
  by (simp add: set_table_def table_of_def)

lemma store_outcome:
  assumes ok: "exact_ok live w" and l: "l \<noteq> 0" "haveOld \<Longrightarrow> l \<in> live" "\<not> haveOld \<Longrightarrow> l \<notin> live"
  shows "\<exists>r w'. storeWeak_locked haveOld True crash l x (wvars w l) w = Some (r, w') \<and>
    (if crash \<and> \<not> isTaggedPointerOrNil x \<and> viability_of w x = Deallocating then r = CannotFormWeak
     else let v = (if isTaggedPointerOrNil x \<or> viability_of w x = Viable then x else 0)
          in r = Stored v \<and> exact_ok (insert l live) w' \<and> wvars w' = (wvars w)(l := v) \<and>
             wmarked w' = (if isTaggedPointerOrNil v then wmarked w else (wmarked w)(v := True)))"
proof -
  from storeWeak_unregister_ok [OF ok l] obtain w1 where
    1: "storeWeak_unregister haveOld l (wvars w l) w = Some w1" "exact_ok (live - {l}) w1" "wvars w1 = wvars w" "viability_of w1 = viability_of w" "wmarked w1 = wmarked w"
    by auto
  have ins: "insert l (live - {l}) = insert l live" by auto
  note defs = storeWeak_locked_def storeWeak_assign_def weak_register_no_lock_def 1(1) set_table_same
  have nil: "exact_ok (insert l live) w'" if "wtables w' = wtables w1" "wvars w' = (wvars w1)(l := v)" "isTaggedPointerOrNil v" for w' v
    using assign_plain [OF 1(2) _ l(1) that(3,1,2)] ins by simp
  show ?thesis
  proof (cases "isTaggedPointerOrNil x")
    case True
    then have "x = 0 \<or> is_tagged x" by (simp add: isTaggedPointerOrNil_def)
    then show ?thesis using True 1(3,5) nil [OF _ _ True] by (auto simp: defs)
  next
    case False
    then have x: "x \<noteq> 0" "\<not> is_tagged x" by (simp_all add: isTaggedPointerOrNil_def)
    have z: "isTaggedPointerOrNil 0" by (simp add: isTaggedPointerOrNil_def)
    show ?thesis
    proof (cases "viability_of w x")
      case Viable
      from assign_registered [OF 1(2) _ l(1) False] obtain tab where
        t: "weak_remember x l (table_of x w1) = Some tab"
           "\<And>w'. wtables w' = (wtables w1)(indexForPointer x := tab) \<Longrightarrow> wvars w' = (wvars w1)(l := x) \<Longrightarrow> exact_ok (insert l live) w'"
        using ins by auto
      show ?thesis using Viable x False 1(3,4,5) t by (auto simp: defs set_table_def)
    next
      case Deallocating
      then show ?thesis using x False 1(3,4,5) nil [OF _ _ z] z by (auto simp: defs)
    next
      case Forwarded
      then show ?thesis using x False 1(3,4,5) nil [OF _ _ z] z by (auto simp: defs)
    qed
  qed
qed

lemma destroy_outcome:
  assumes "exact_ok live w" "l \<noteq> 0" "l \<in> live"
  shows "\<exists>w'. storeWeak_locked True False crash l 0 (wvars w l) w = Some (Stored 0, w') \<and> exact_ok (live - {l}) w' \<and> wvars w' = wvars w \<and> wmarked w' = wmarked w"
  using storeWeak_unregister_ok [OF assms(1,2), of True] assms(3) by (auto simp: storeWeak_locked_def)

subsection \<open>Moving and clearing\<close>

lemma move_outcome:
  assumes ok: "exact_ok live w" and l: "src \<in> live" "dst \<notin> live" "dst \<noteq> 0" and x: "wvars w src \<noteq> 0"
  shows "\<exists>w'. moveWeak_locked dst src (wvars w src) w = Some w' \<and> exact_ok (insert dst live) w' \<and>
    wvars w' = (wvars w)(dst := wvars w src, src := 0) \<and> wmarked w' = wmarked w"
proof -
  define y where "y = wvars w src"
  have s0: "src \<noteq> 0" using ok l(1) by (auto simp: exact_ok_def)
  obtain tab1 where 1: "weak_unregister_no_lock y src (table_of y w) = Some tab1" "exact_ok (live - {src}) (set_table y tab1 w)"
    using unregister_var [OF ok s0, of y] by (auto simp: y_def)
  let ?w1 = "set_table y tab1 w"
  have tof: "table_of y ?w1 = tab1" by (simp add: table_of_def set_table_def)
  have z: "isTaggedPointerOrNil 0" by (simp add: isTaggedPointerOrNil_def)
  have src0: "exact_ok (insert dst live) w'" if "exact_ok (insert dst (live - {src})) w2" "wtables w' = wtables w2" "wvars w' = (wvars w2)(src := 0)" for w2 w'
    using assign_plain [OF that(1) _ s0 z that(2,3)] l by (auto simp: insert_commute insert_absorb)
  have d: "dst \<notin> live - {src}" using l(2) by simp
  show ?thesis
  proof (cases "isTaggedPointerOrNil y")
    case True
    then have r: "weak_register_no_lock is_tagged (viability_of w y) DontCheckDeallocating y dst tab1 = Some (Accepted, tab1)"
      by (simp add: weak_register_no_lock_def isTaggedPointerOrNil_def)
    have "exact_ok (insert dst (live - {src})) (?w1\<lparr>wvars := (wvars w)(dst := y)\<rparr>)"
      by (rule assign_plain [OF 1(2) d l(3) True]) (simp_all add: set_table_def)
    then have "exact_ok (insert dst live) (?w1\<lparr>wvars := (wvars w)(dst := y, src := 0)\<rparr>)" by (rule src0) simp_all
    then show ?thesis using 1(1) r unfolding y_def [symmetric] by (simp add: moveWeak_locked_def set_table_def)
  next
    case False
    from assign_registered [OF 1(2) d l(3) False] obtain tab where
      t: "weak_remember y dst tab1 = Some tab"
         "\<And>w'. wtables w' = (wtables ?w1)(indexForPointer y := tab) \<Longrightarrow> wvars w' = (wvars ?w1)(dst := y) \<Longrightarrow> exact_ok (insert dst (live - {src})) w'"
      by (auto simp: tof)
    have r: "weak_register_no_lock is_tagged (viability_of w y) DontCheckDeallocating y dst tab1 = Some (Accepted, tab)"
      using False t(1) by (simp add: weak_register_no_lock_def isTaggedPointerOrNil_def)
    have "exact_ok (insert dst (live - {src})) ((set_table y tab w)\<lparr>wvars := (wvars w)(dst := y)\<rparr>)"
      by (rule t(2)) (simp_all add: set_table_def)
    then have "exact_ok (insert dst live) ((set_table y tab w)\<lparr>wvars := (wvars w)(dst := y, src := 0)\<rparr>)" by (rule src0) simp_all
    then show ?thesis using 1(1) r unfolding y_def [symmetric] by (simp add: moveWeak_locked_def set_table_def)
  qed
qed

lemma clear_outcome:
  assumes ok: "exact_ok live w" and x: "\<not> isTaggedPointerOrNil x" and m: "wmarked w x"
  shows "\<exists>w'. weak_clear_object raw x w = Some w' \<and> exact_ok live w' \<and> (\<forall>y. y \<noteq> x \<longrightarrow> wmarked w' y = wmarked w y) \<and>
    wvars w' = (\<lambda>l. if l \<in> live \<and> wvars w l = x then 0 else wvars w l)"
proof -
  have x0: "x \<noteq> 0" using x by (simp add: isTaggedPointerOrNil_def)
  obtain tab where t: "weak_clear_no_lock x (table_of x w) (wvars w) =
      Some (tab, \<lambda>l. if (x, l) \<in> pairs (table_of x w) \<and> wvars w l = x then 0 else wvars w l)" "table_ok tab"
      "pairs tab = {p \<in> pairs (table_of x w). fst p \<noteq> x}" using clear_pairs_ok [OF exact_okD(1) [OF ok, of x] x0] by blast
  have v: "(\<lambda>l. if (x, l) \<in> pairs (table_of x w) \<and> wvars w l = x then 0 else wvars w l) = (\<lambda>l. if l \<in> live \<and> wvars w l = x then 0 else wvars w l)"
    using exact_okD(2) [OF ok, of x] x by auto
  let ?w' = "(set_table x tab w)\<lparr>wvars := (\<lambda>l. if l \<in> live \<and> wvars w l = x then 0 else wvars w l),
    wmarked := (if raw then (wmarked w)(x := False) else wmarked w)\<rparr>"
  have reg: "registered live ?w' = {p \<in> registered live w. fst p \<noteq> x}" using x by (auto simp: registered_def isTaggedPointerOrNil_def)
  have "pairs (table_of x w) = {p \<in> registered live w. indexForPointer (fst p) = indexForPointer x}"
    using ok by (simp add: exact_ok_def table_of_def)
  then have "pairs tab = {p \<in> registered live ?w'. indexForPointer (fst p) = indexForPointer x}" using t(3) unfolding reg by auto
  then have "exact_ok live ?w'"
  proof (rule exact_ok_set_table [OF ok t(2)])
    show "0 \<notin> live" using ok by (simp add: exact_ok_def)
    show "wtables ?w' = (wtables w)(indexForPointer x := tab)" by (simp add: set_table_def)
    fix p :: "u64 \<times> u64"
    assume "indexForPointer (fst p) \<noteq> indexForPointer x"
    then show "p \<in> registered live ?w' \<longleftrightarrow> p \<in> registered live w" unfolding reg by auto
  qed
  then show ?thesis using t(1) v m by (simp add: weak_clear_object_def set_table_def)
qed

subsection \<open>Marks\<close>

text \<open>An object that a variable holds is marked, so that its end looks at the weak table.\<close>

definition marks_ok :: "u64 set \<Rightarrow> weak_world \<Rightarrow> bool" where
  "marks_ok live w \<longleftrightarrow> (\<forall>l \<in> live. \<not> isTaggedPointerOrNil (wvars w l) \<longrightarrow> wmarked w (wvars w l))"

definition weak_ok :: "u64 set \<Rightarrow> weak_world \<Rightarrow> bool" where
  "weak_ok live w \<longleftrightarrow> exact_ok live w \<and> marks_ok live w"

lemma weak_ok_nonzero: "weak_ok live w \<Longrightarrow> l \<in> live \<Longrightarrow> l \<noteq> 0"
  by (auto simp: weak_ok_def exact_ok_def)

lemma weak_ok_same:
  assumes "weak_ok live w" "wtables w' = wtables w" "\<And>l. l \<in> live \<Longrightarrow> wvars w' l = wvars w l" "\<And>y. wmarked w y \<Longrightarrow> y \<in> wvars w ` live \<Longrightarrow> wmarked w' y"
  shows "weak_ok live w'"
  using assms exact_ok_congr [OF _ assms(2,3)] by (auto simp: weak_ok_def marks_ok_def)

lemma stored_ok:
  assumes ok: "weak_ok live w" and l: "l \<noteq> 0" "haveOld \<Longrightarrow> l \<in> live" "\<not> haveOld \<Longrightarrow> l \<notin> live"
  shows "\<exists>r w'. storeWeak_locked haveOld True crash l x (wvars w l) w = Some (r, w') \<and>
    (if crash \<and> \<not> isTaggedPointerOrNil x \<and> viability_of w x = Deallocating then r = CannotFormWeak
     else let v = (if isTaggedPointerOrNil x \<or> viability_of w x = Viable then x else 0)
          in r = Stored v \<and> weak_ok (insert l live) w' \<and> wvars w' = (wvars w)(l := v))"
proof -
  have "marks_ok (insert l live) w'" if "wvars w' = (wvars w)(l := v)" "wmarked w' = (if isTaggedPointerOrNil v then wmarked w else (wmarked w)(v := True))" for w' v
    using ok that by (auto simp: weak_ok_def marks_ok_def)
  moreover obtain r w' where "storeWeak_locked haveOld True crash l x (wvars w l) w = Some (r, w')"
    "if crash \<and> \<not> isTaggedPointerOrNil x \<and> viability_of w x = Deallocating then r = CannotFormWeak
     else let v = (if isTaggedPointerOrNil x \<or> viability_of w x = Viable then x else 0)
          in r = Stored v \<and> exact_ok (insert l live) w' \<and> wvars w' = (wvars w)(l := v) \<and>
             wmarked w' = (if isTaggedPointerOrNil v then wmarked w else (wmarked w)(v := True))"
    using store_outcome [of live w l haveOld crash x] ok l unfolding weak_ok_def by blast
  ultimately show ?thesis unfolding weak_ok_def by (intro exI [of _ r] exI [of _ w']) (simp add: Let_def split: if_splits)
qed

lemma destroyed_ok:
  assumes "weak_ok live w" "l \<in> live"
  shows "\<exists>w'. storeWeak_locked True False crash l 0 (wvars w l) w = Some (Stored 0, w') \<and> weak_ok (live - {l}) w' \<and> wvars w' = wvars w"
  using destroy_outcome [of live w l crash] assms weak_ok_nonzero [OF assms] by (auto simp: weak_ok_def marks_ok_def)

lemma moved_ok:
  assumes "weak_ok live w" "src \<in> live" "dst \<notin> live" "dst \<noteq> 0" "wvars w src \<noteq> 0"
  shows "\<exists>w'. moveWeak_locked dst src (wvars w src) w = Some w' \<and> weak_ok (insert dst live) w' \<and> wvars w' = (wvars w)(dst := wvars w src, src := 0)"
proof -
  have "marks_ok (insert dst live) w'" if "wvars w' = (wvars w)(dst := wvars w src, src := 0)" "wmarked w' = wmarked w" for w'
    using assms(1,2) that by (auto simp: weak_ok_def marks_ok_def isTaggedPointerOrNil_def)
  then show ?thesis using move_outcome [of live w src dst] assms by (auto simp: weak_ok_def)
qed

lemma cleared_ok:
  assumes ok: "weak_ok live w" and x: "\<not> isTaggedPointerOrNil x"
  shows "\<exists>w'. weak_clear_object raw x w = Some w' \<and> weak_ok live w' \<and> wvars w' = (\<lambda>l. if l \<in> live \<and> wvars w l = x then 0 else wvars w l)"
proof (cases "wmarked w x")
  case True
  obtain w' where w': "weak_clear_object raw x w = Some w'" "exact_ok live w'" "\<forall>y. y \<noteq> x \<longrightarrow> wmarked w' y = wmarked w y"
    "wvars w' = (\<lambda>l. if l \<in> live \<and> wvars w l = x then 0 else wvars w l)"
    using clear_outcome [OF _ x True, of live raw] ok by (auto simp: weak_ok_def)
  have "marks_ok live w'" using ok w'(3,4) by (auto simp: weak_ok_def marks_ok_def isTaggedPointerOrNil_def)
  then show ?thesis using w' by (auto simp: weak_ok_def)
next
  case False
  then have n: "\<not> (l \<in> live \<and> wvars w l = x)" for l using ok x by (auto simp: weak_ok_def marks_ok_def)
  have "wvars w = (\<lambda>l. if l \<in> live \<and> wvars w l = x then 0 else wvars w l)" by (rule ext) (simp only: n if_False)
  then show ?thesis using False ok by (simp add: weak_clear_object_def)
qed

subsection \<open>Retries\<close>

text \<open>What other threads may do: anything that keeps registration and marks, as every critical section of the weak machinery does.\<close>

definition keeps :: "u64 set \<Rightarrow> interference \<Rightarrow> bool" where
  "keeps live f \<longleftrightarrow> (\<forall>w. weak_ok live w \<longrightarrow> weak_ok live (f w))"

text \<open>
  The state in which a store takes its locks for good: the variable holds what it held before, and the class is
  initialised or was by the attempt before. There is none when the interference given runs out first.
\<close>

fun locked_state :: "bool \<Rightarrow> bool \<Rightarrow> u64 \<Rightarrow> u64 \<Rightarrow> (u64 \<Rightarrow> interference) \<Rightarrow> u64 \<Rightarrow> interference list \<Rightarrow> weak_world \<Rightarrow> weak_world option" where
  "locked_state haveOld haveNew l x ini previous [] w = None"
| "locked_state haveOld haveNew l x ini previous (e # es) w =
     (if haveOld \<and> wvars (e w) l \<noteq> wvars w l then locked_state haveOld haveNew l x ini previous es (e w)
      else if \<not> haveNew \<or> x = 0 \<or> class_of (e w) x = previous \<or> initialized (e w) (class_of (e w) x) then Some (e w)
      else locked_state haveOld haveNew l x ini (class_of (e w) x) es (ini (class_of (e w) x) (e w)))"

lemma locked_state_ok:
  assumes "locked_state haveOld haveNew l x ini previous envs w = Some w1" "weak_ok live w" "\<forall>e \<in> set envs. keeps live e" "\<And>c. keeps live (ini c)"
  shows "weak_ok live w1"
  using assms(1-3)
proof (induction envs arbitrary: previous w)
  case (Cons e envs)
  have e: "weak_ok live (e w)" and i: "\<And>c. weak_ok live (ini c (e w))" and es: "\<forall>e \<in> set envs. keeps live e"
    using Cons.prems(2,3) assms(4) by (auto simp: keeps_def)
  show ?case using Cons.prems(1) Cons.IH [OF _ e es] Cons.IH [OF _ i es] e by (auto split: if_splits)
qed simp

text \<open>A store does its work in one step, in that state.\<close>

lemma storeWeak_loop_locked:
  "storeWeak_loop haveOld haveNew crash l x ini previous envs w =
     (case locked_state haveOld haveNew l x ini previous envs w of None \<Rightarrow> None
      | Some w1 \<Rightarrow> storeWeak_locked haveOld haveNew crash l x (wvars w1 l) w1)"
proof (induction envs arbitrary: previous w)
  case (Cons e envs)
  have "storeWeak_locked False haveNew crash l x old w1 = storeWeak_locked False haveNew crash l x (wvars w1 l) w1" for old w1
    by (simp add: storeWeak_locked_def storeWeak_unregister_def)
  then show ?case using Cons.IH by (cases haveOld) (auto simp: Let_def)
qed simp

text \<open>The state in which a load decides: the variable reads nil or tagged, or the lock is held for good.\<close>

fun load_state :: "u64 \<Rightarrow> (u64 \<Rightarrow> bool) \<Rightarrow> (u64 \<Rightarrow> bool) \<Rightarrow> (u64 \<Rightarrow> interference) \<Rightarrow> interference list \<Rightarrow> weak_world \<Rightarrow> weak_world option" where
  "load_state l rr initializing ini [] w = (if isTaggedPointerOrNil (wvars w l) then Some w else None)"
| "load_state l rr initializing ini (e # es) w =
     (if isTaggedPointerOrNil (wvars w l) then Some w
      else if wvars (e w) l \<noteq> wvars w l then load_state l rr initializing ini es (e w)
      else let c = class_of (e w) (wvars w l)
           in if rr c \<and> \<not> initialized (e w) c \<and> \<not> initializing c then load_state l rr initializing ini es (ini c (e w)) else Some (e w))"

definition load_effect :: "u64 \<Rightarrow> weak_world \<Rightarrow> u64 \<times> weak_world" where
  "load_effect l w1 =
     (let v = wvars w1 l
      in if isTaggedPointerOrNil v then (v, w1)
         else if retainable w1 v then (v, w1\<lparr>wretained := (wretained w1)(v := wretained w1 v + 1)\<rparr>) else (0, w1))"

lemma load_state_ok:
  assumes "load_state l rr ii ini envs w = Some w1" "weak_ok live w" "\<forall>e \<in> set envs. keeps live e" "\<And>c. keeps live (ini c)"
  shows "weak_ok live w1"
  using assms(1-3)
proof (induction envs arbitrary: w)
  case (Cons e envs)
  have e: "weak_ok live (e w)" and i: "\<And>c. weak_ok live (ini c (e w))" and es: "\<forall>e \<in> set envs. keeps live e"
    using Cons.prems(2,3) assms(4) by (auto simp: keeps_def)
  show ?case using Cons.prems(1,2) Cons.IH [OF _ e es] Cons.IH [OF _ i es] e by (auto simp: Let_def split: if_splits)
qed (auto split: if_splits)

lemma load_in_state: "objc_loadWeakRetained l rr ii ini envs w = map_option (load_effect l) (load_state l rr ii ini envs w)"
proof (induction envs arbitrary: w)
  case (Cons e envs)
  then show ?case by (auto simp: load_effect_def Let_def)
qed (simp add: load_effect_def)

subsection \<open>Histories\<close>

text \<open>
  One critical section, or a change to what the weak machinery only reads: the states of objects and classes,
  storage that is not an initialised weak variable, and the marks of objects that no variable holds.
\<close>

inductive weak_step :: "u64 set \<Rightarrow> weak_world \<Rightarrow> u64 set \<Rightarrow> weak_world \<Rightarrow> bool" where
  store: "l \<in> live \<Longrightarrow> storeWeak_locked True True crash l x (wvars w l) w = Some (Stored v, w') \<Longrightarrow> weak_step live w live w'"
| init: "l \<notin> live \<Longrightarrow> l \<noteq> 0 \<Longrightarrow> storeWeak_locked False True crash l x (wvars w l) w = Some (Stored v, w') \<Longrightarrow>
    weak_step live w (insert l live) w'"
| destroy: "l \<in> live \<Longrightarrow> storeWeak_locked True False crash l 0 (wvars w l) w = Some (r, w') \<Longrightarrow> weak_step live w (live - {l}) w'"
| move: "src \<in> live \<Longrightarrow> dst \<notin> live \<Longrightarrow> dst \<noteq> 0 \<Longrightarrow> wvars w src \<noteq> 0 \<Longrightarrow> moveWeak_locked dst src (wvars w src) w = Some w' \<Longrightarrow>
    weak_step live w (insert dst live) w'"
| clear: "\<not> isTaggedPointerOrNil x \<Longrightarrow> weak_clear_object raw x w = Some w' \<Longrightarrow> weak_step live w live w'"
| elsewhere: "wtables w' = wtables w \<Longrightarrow> (\<And>l. l \<in> live \<Longrightarrow> wvars w' l = wvars w l) \<Longrightarrow>
    (\<And>y. wmarked w y \<Longrightarrow> y \<in> wvars w ` live \<Longrightarrow> wmarked w' y) \<Longrightarrow> weak_step live w live w'"

lemma weak_step_ok: "weak_step live w live' w' \<Longrightarrow> weak_ok live w \<Longrightarrow> weak_ok live' w'"
proof (induction rule: weak_step.induct)
  case (store l live crash x w v w')
  then show ?case using stored_ok [of live w l True crash x] weak_ok_nonzero [of live w l]
    by (auto simp: Let_def insert_absorb split: if_splits)
next
  case (init l live crash x w v w')
  then show ?case using stored_ok [of live w l False crash x] by (auto simp: Let_def split: if_splits)
next
  case (destroy l live crash w r w')
  then show ?case using destroyed_ok [of live w l crash] by auto
next
  case (move src live dst w w')
  then show ?case using moved_ok [of live w src dst] by auto
next
  case (clear x raw w w' live)
  then show ?case using cleared_ok [of live w x raw] by auto
next
  case (elsewhere w' w live)
  then show ?case using weak_ok_same [of live w w'] by auto
qed

text \<open>No critical section makes a variable refer to an object that may not be weakly referenced.\<close>

lemma step_never_holds:
  assumes "weak_step live w live' w'" "weak_ok live w" "viability_of w x \<noteq> Viable" "\<not> isTaggedPointerOrNil x"
    "\<forall>l \<in> live. wvars w l \<noteq> x"
  shows "\<forall>l \<in> live'. wvars w' l \<noteq> x"
  using assms
proof (induction rule: weak_step.induct)
  case (store l live crash y w v w')
  then show ?case using stored_ok [of live w l True crash y] weak_ok_nonzero [of live w l]
    by (auto simp: Let_def isTaggedPointerOrNil_def split: if_splits)
next
  case (init l live crash y w v w')
  then show ?case using stored_ok [of live w l False crash y] by (auto simp: Let_def isTaggedPointerOrNil_def split: if_splits)
next
  case (destroy l live crash w r w')
  then show ?case using destroyed_ok [of live w l crash] by auto
next
  case (move src live dst w w')
  then show ?case using moved_ok [of live w src dst] by (auto simp: isTaggedPointerOrNil_def)
next
  case (clear y raw w w' live)
  then show ?case using cleared_ok [of live w y raw] by (auto simp: isTaggedPointerOrNil_def)
next
  case (elsewhere w' w live)
  then show ?case by auto
qed

text \<open>A history during which an object may never be weakly referenced.\<close>

inductive dead_run :: "u64 \<Rightarrow> u64 set \<Rightarrow> weak_world \<Rightarrow> u64 set \<Rightarrow> weak_world \<Rightarrow> bool" for x where
  stop: "dead_run x live w live w"
| more: "dead_run x live w live1 w1 \<Longrightarrow> viability_of w1 x \<noteq> Viable \<Longrightarrow> weak_step live1 w1 live2 w2 \<Longrightarrow> dead_run x live w live2 w2"

lemma dead_run_ok:
  assumes "dead_run x live w live' w'" "weak_ok live w" "\<not> isTaggedPointerOrNil x" "\<forall>l \<in> live. wvars w l \<noteq> x"
  shows "weak_ok live' w' \<and> (\<forall>l \<in> live'. wvars w' l \<noteq> x)"
  using assms
proof (induction rule: dead_run.induct)
  case (more live w live1 w1 live2 w2)
  then show ?case using weak_step_ok [of live1 w1 live2 w2] step_never_holds [of live1 w1 live2 w2 x] by blast
qed simp

subsection \<open>The weak reference contract\<close>

text \<open>
  C13. Zeroing weak references: the end of an object, which looks at the weak table only if the object is marked, returns;
  every initialised variable that held the object then reads nil and no other variable has changed; and along any history
  of stores, initialisations, moves, destructions, ends of objects and outside changes in which the object may not be weakly
  referenced again, no weak variable ever holds it, registration stays exact and every object that is held is marked.
\<close>

theorem zeroing_weak_references:
  assumes "weak_ok live w" "\<not> isTaggedPointerOrNil x"
  shows "\<exists>w1. weak_clear_object raw x w = Some w1 \<and>
    (\<forall>l. wvars w1 l = (if l \<in> live \<and> wvars w l = x then 0 else wvars w l)) \<and>
    (\<forall>live' w'. dead_run x live w1 live' w' \<longrightarrow> weak_ok live' w' \<and> (\<forall>l \<in> live'. wvars w' l \<noteq> x))"
proof -
  obtain w1 where 1: "weak_clear_object raw x w = Some w1" "weak_ok live w1"
      "wvars w1 = (\<lambda>l. if l \<in> live \<and> wvars w l = x then 0 else wvars w l)"
    using cleared_ok [OF assms, of raw] by auto
  have "\<forall>l \<in> live. wvars w1 l \<noteq> x" using 1(3) assms(2) by (auto simp: isTaggedPointerOrNil_def)
  then show ?thesis using 1 dead_run_ok [OF _ 1(2) assms(2)] by auto
qed

definition fresh_world :: "(u64 \<Rightarrow> u64) \<Rightarrow> weak_world" where
  "fresh_world vars = \<lparr>wtables = (\<lambda>_. zeroed_table), wvars = vars, wmarked = (\<lambda>_. False), wretained = (\<lambda>_. 0),
     viability_of = (\<lambda>_. Viable), retainable = (\<lambda>_. True), class_of = (\<lambda>_. 1), initialized = (\<lambda>_. True)\<rparr>"

lemma fresh_world_ok: "(\<And>l. l \<in> live \<Longrightarrow> isTaggedPointerOrNil (vars l)) \<Longrightarrow> 0 \<notin> live \<Longrightarrow> weak_ok live (fresh_world vars)"
  using zeroed_table_ok by (auto simp: weak_ok_def marks_ok_def exact_ok_def fresh_world_def registered_def)

theorem zeroing_weak_references_witness:
  "\<exists>w w1. weak_ok {16, 24} w \<and> wvars w 16 = 32 \<and> weak_clear_object True 32 w = Some w1 \<and> wvars w1 16 = 0 \<and> wvars w1 24 = 0"
proof -
  let ?w0 = "fresh_world (\<lambda>_. 0)"
  have t: "\<not> isTaggedPointerOrNil 32" by (simp add: isTaggedPointerOrNil_def is_tagged_def)
  have "weak_ok {16, 24} ?w0" by (rule fresh_world_ok) (auto simp: isTaggedPointerOrNil_def)
  moreover have "viability_of ?w0 32 = Viable" by (simp add: fresh_world_def)
  ultimately obtain w where w: "weak_ok {16, 24} w" "wvars w = (wvars ?w0)(16 := 32)"
    using stored_ok [of "{16, 24}" ?w0 16 True True 32] t by (auto simp: insert_absorb)
  from zeroing_weak_references [OF w(1) t, of True] obtain w1 where
    "weak_clear_object True 32 w = Some w1" "\<forall>l. wvars w1 l = (if l \<in> {16, 24} \<and> wvars w l = 32 then 0 else wvars w l)" by blast
  then show ?thesis using w by (intro exI [of _ w] exI [of _ w1]) (simp add: fresh_world_def)
qed

text \<open>What a store does to the state in which it holds the locks.\<close>

definition store_effect :: "bool \<Rightarrow> u64 set \<Rightarrow> u64 \<Rightarrow> u64 \<Rightarrow> weak_world \<Rightarrow> (store_result \<times> weak_world) option \<Rightarrow> bool" where
  "store_effect crash live l x w1 res \<longleftrightarrow> (\<exists>r w'. res = Some (r, w') \<and>
     (if crash \<and> \<not> isTaggedPointerOrNil x \<and> viability_of w1 x = Deallocating then r = CannotFormWeak
      else r = Stored (if isTaggedPointerOrNil x \<or> viability_of w1 x = Viable then x else 0) \<and> weak_ok live w' \<and>
        wvars w' = (wvars w1)(l := if isTaggedPointerOrNil x \<or> viability_of w1 x = Viable then x else 0)))"

lemma store_effect_locked:
  assumes "weak_ok live w1" "l \<noteq> 0" "haveOld \<longleftrightarrow> l \<in> live"
  shows "store_effect crash (insert l live) l x w1 (storeWeak_locked haveOld True crash l x (wvars w1 l) w1)"
  using stored_ok [OF assms(1,2), of haveOld crash x] assms(3) by (auto simp: store_effect_def Let_def split: if_splits)

text \<open>
  C15. Storing into an initialised variable, while other threads and \<open>+initialize\<close> run, keeping registration and marks,
  whenever the locks are not held. Both calls come back exactly when the locks are taken for good, and then have acted in one
  step on the state of that moment: \<open>objc_storeWeak\<close> stops the process if the object is then deallocating, and only then,
  \<open>objc_storeWeakOrNil\<close> never does; otherwise the variable holds the value returned, which is the new one if that is nil,
  tagged or then viable and nil if not, no other variable changes, and registration stays exact. When nothing touches the variable
  and the class is ready, that state is the first.
\<close>

theorem storeWeak_exact:
  assumes "weak_ok live w" "l \<in> live" "\<forall>e \<in> set envs. keeps live e" "\<forall>c. keeps live (ini c)"
  shows "(case locked_state True True l x ini 0 envs w of
      None \<Rightarrow> objc_storeWeak l x ini envs w = None \<and> objc_storeWeakOrNil l x ini envs w = None
    | Some w1 \<Rightarrow> weak_ok live w1 \<and> store_effect True live l x w1 (objc_storeWeak l x ini envs w) \<and>
        store_effect False live l x w1 (objc_storeWeakOrNil l x ini envs w)) \<and>
    (\<forall>e es. envs = e # es \<and> wvars (e w) l = wvars w l \<and> (x = 0 \<or> initialized (e w) (class_of (e w) x)) \<longrightarrow>
      locked_state True True l x ini 0 envs w = Some (e w))"
proof (intro conjI allI impI)
  show "case locked_state True True l x ini 0 envs w of
      None \<Rightarrow> objc_storeWeak l x ini envs w = None \<and> objc_storeWeakOrNil l x ini envs w = None
    | Some w1 \<Rightarrow> weak_ok live w1 \<and> store_effect True live l x w1 (objc_storeWeak l x ini envs w) \<and>
        store_effect False live l x w1 (objc_storeWeakOrNil l x ini envs w)"
  proof (cases "locked_state True True l x ini 0 envs w")
    case None
    then show ?thesis by (simp add: objc_storeWeak_def objc_storeWeakOrNil_def storeWeak_loop_locked)
  next
    case (Some w1)
    then have ok: "weak_ok live w1" using locked_state_ok assms(1,3,4) by blast
    have "store_effect crash live l x w1 (storeWeak_locked True True crash l x (wvars w1 l) w1)" for crash
      using store_effect_locked [OF ok weak_ok_nonzero [OF ok assms(2)], of True crash x] assms(2) by (simp add: insert_absorb)
    then show ?thesis using Some ok by (simp add: objc_storeWeak_def objc_storeWeakOrNil_def storeWeak_loop_locked)
  qed
qed auto

theorem storeWeak_exact_witness:
  "\<exists>w'. objc_storeWeak 16 32 (\<lambda>_ w. w) [\<lambda>w. w] (fresh_world (\<lambda>_. 0)) = Some (Stored 32, w') \<and> wvars w' 16 = 32"
proof -
  have "weak_ok {16} (fresh_world (\<lambda>_. 0))" by (rule fresh_world_ok) (auto simp: isTaggedPointerOrNil_def)
  from storeWeak_exact [OF this, of 16 "[\<lambda>w. w]" "\<lambda>_ w. w" 32] show ?thesis
    by (auto simp: keeps_def fresh_world_def store_effect_def)
qed

text \<open>
  C16. The rest of a variable's life, under the same interference. Initialising it acts in one step like a store and makes it an
  initialised variable; destroying it unregisters it and touches no storage; a load returns what the variable holds in the
  state in which it decides, retained, or nil if the object cannot be retained.
\<close>

theorem weak_variable_lifecycle:
  assumes "weak_ok live w" "\<forall>e \<in> set envs. keeps live e" "\<forall>c. keeps live (ini c)" "l \<noteq> 0"
  shows "(l \<notin> live \<longrightarrow>
      (\<forall>x. x \<noteq> 0 \<longrightarrow> (case locked_state False True l x ini 0 envs w of
          None \<Rightarrow> objc_initWeak l x ini envs w = None \<and> objc_initWeakOrNil l x ini envs w = None
        | Some w1 \<Rightarrow> weak_ok live w1 \<and> store_effect True (insert l live) l x w1 (objc_initWeak l x ini envs w) \<and>
            store_effect False (insert l live) l x w1 (objc_initWeakOrNil l x ini envs w))) \<and>
      store_effect True (insert l live) l 0 w (objc_initWeak l 0 ini envs w) \<and> store_effect False (insert l live) l 0 w (objc_initWeakOrNil l 0 ini envs w)) \<and>
    (l \<in> live \<longrightarrow> (case locked_state True False l 0 ini 0 envs w of
        None \<Rightarrow> objc_destroyWeak l ini envs w = None
      | Some w1 \<Rightarrow> \<exists>w'. objc_destroyWeak l ini envs w = Some (Stored 0, w') \<and> weak_ok (live - {l}) w' \<and> wvars w' = wvars w1)) \<and>
    (\<forall>rr ii. objc_loadWeakRetained l rr ii ini envs w = map_option (load_effect l) (load_state l rr ii ini envs w) \<and>
      (\<forall>w1. load_state l rr ii ini envs w = Some w1 \<longrightarrow> weak_ok live w1 \<and> weak_ok live (snd (load_effect l w1))))"
proof (intro conjI impI allI)
  fix x :: u64 assume l: "l \<notin> live" and x: "x \<noteq> 0"
  show "case locked_state False True l x ini 0 envs w of
          None \<Rightarrow> objc_initWeak l x ini envs w = None \<and> objc_initWeakOrNil l x ini envs w = None
        | Some w1 \<Rightarrow> weak_ok live w1 \<and> store_effect True (insert l live) l x w1 (objc_initWeak l x ini envs w) \<and>
            store_effect False (insert l live) l x w1 (objc_initWeakOrNil l x ini envs w)"
  proof (cases "locked_state False True l x ini 0 envs w")
    case None
    then show ?thesis using x by (simp add: objc_initWeak_def objc_initWeakOrNil_def storeWeak_loop_locked)
  next
    case (Some w1)
    then have ok: "weak_ok live w1" using locked_state_ok assms(1,2,3) by blast
    have "store_effect crash (insert l live) l x w1 (storeWeak_locked False True crash l x (wvars w1 l) w1)" for crash
      by (rule store_effect_locked [OF ok assms(4)]) (use l in simp)
    then show ?thesis using Some ok x by (simp add: objc_initWeak_def objc_initWeakOrNil_def storeWeak_loop_locked)
  qed
next
  assume l: "l \<notin> live"
  have "weak_ok (insert l live) (w\<lparr>wvars := (wvars w)(l := 0)\<rparr>)"
    using assign_plain [of live w l 0 "w\<lparr>wvars := (wvars w)(l := 0)\<rparr>"] assms(1,4) l by (auto simp: weak_ok_def marks_ok_def isTaggedPointerOrNil_def)
  then show "store_effect True (insert l live) l 0 w (objc_initWeak l 0 ini envs w)" "store_effect False (insert l live) l 0 w (objc_initWeakOrNil l 0 ini envs w)"
    by (auto simp: store_effect_def objc_initWeak_def objc_initWeakOrNil_def isTaggedPointerOrNil_def)
next
  assume l: "l \<in> live"
  show "case locked_state True False l 0 ini 0 envs w of None \<Rightarrow> objc_destroyWeak l ini envs w = None
      | Some w1 \<Rightarrow> \<exists>w'. objc_destroyWeak l ini envs w = Some (Stored 0, w') \<and> weak_ok (live - {l}) w' \<and> wvars w' = wvars w1"
  proof (cases "locked_state True False l 0 ini 0 envs w")
    case (Some w1)
    then have "weak_ok live w1" using locked_state_ok assms(1,2,3) by blast
    then show ?thesis using Some destroyed_ok [of live w1 l False] l by (simp add: objc_destroyWeak_def storeWeak_loop_locked)
  qed (simp add: objc_destroyWeak_def storeWeak_loop_locked)
next
  fix rr ii
  show "objc_loadWeakRetained l rr ii ini envs w = map_option (load_effect l) (load_state l rr ii ini envs w)" by (rule load_in_state)
  fix w1 assume "load_state l rr ii ini envs w = Some w1"
  then show ok: "weak_ok live w1" using load_state_ok assms(1,2,3) by blast
  have "weak_ok live (w1\<lparr>wretained := f\<rparr>)" for f by (rule weak_ok_same [OF ok]) simp_all
  then show "weak_ok live (snd (load_effect l w1))" using ok by (simp add: load_effect_def Let_def)
qed

lemma locked_frame:
  assumes "storeWeak_locked haveOld haveNew crash l x old w = Some (r, w')"
  shows "retainable w' = retainable w \<and> initialized w' = initialized w \<and> class_of w' = class_of w"
proof -
  obtain w1 where w1: "storeWeak_unregister haveOld l old w = Some w1"
    "retainable w1 = retainable w" "initialized w1 = initialized w" "class_of w1 = class_of w"
    using assms by (cases haveOld) (auto simp: storeWeak_locked_def storeWeak_unregister_def set_table_def split: option.splits)
  then show ?thesis using assms
    by (auto simp: storeWeak_locked_def storeWeak_assign_def set_table_def split: option.splits registration.splits if_splits)
qed

theorem weak_variable_lifecycle_witness:
  "\<exists>w w'. objc_initWeak 24 32 (\<lambda>_ w. w) [\<lambda>w. w] (fresh_world (\<lambda>_. 0)) = Some (Stored 32, w) \<and>
     objc_loadWeakRetained 24 (\<lambda>_. True) (\<lambda>_. False) (\<lambda>_ w. w) [\<lambda>w. w] w = Some (32, w') \<and> wretained w' 32 = wretained w 32 + 1"
proof -
  let ?w0 = "fresh_world (\<lambda>_. 0)"
  have t: "\<not> isTaggedPointerOrNil 32" by (simp add: isTaggedPointerOrNil_def is_tagged_def)
  have k: "\<forall>e \<in> set [\<lambda>w. w]. keeps {16} e" "\<forall>c. keeps {16} ((\<lambda>_ w. w) c)" "(24 :: u64) \<noteq> 0" by (simp_all add: keeps_def)
  have ok: "weak_ok {16} ?w0" by (rule fresh_world_ok) (auto simp: isTaggedPointerOrNil_def)
  have ls: "locked_state False True 24 32 (\<lambda>_ w. w) 0 [\<lambda>w. w] ?w0 = Some ?w0" by (simp add: fresh_world_def)
  have "store_effect True (insert 24 {16}) 24 32 ?w0 (objc_initWeak 24 32 (\<lambda>_ w. w) [\<lambda>w. w] ?w0)"
    using weak_variable_lifecycle [OF ok k, THEN conjunct1, THEN mp, THEN conjunct1, rule_format, of 32] unfolding ls by simp
  then obtain w where w: "objc_initWeak 24 32 (\<lambda>_ w. w) [\<lambda>w. w] ?w0 = Some (Stored 32, w)" "weak_ok {16, 24} w" "wvars w 24 = 32"
    by (auto simp: store_effect_def fresh_world_def insert_commute)
  have "storeWeak_locked False True True 24 32 (wvars ?w0 24) ?w0 = Some (Stored 32, w)"
    using w(1) ls by (simp add: objc_initWeak_def storeWeak_loop_locked)
  from locked_frame [OF this] have same: "retainable w = retainable ?w0" "initialized w = initialized ?w0" "class_of w = class_of ?w0" by simp_all
  then have ls2: "load_state 24 (\<lambda>_. True) (\<lambda>_. False) (\<lambda>_ w. w) [\<lambda>w. w] w = Some w" using w(3) t by (simp add: fresh_world_def)
  have k2: "\<forall>e \<in> set [\<lambda>w. w]. keeps {16, 24} e" "\<forall>c. keeps {16, 24} ((\<lambda>_ w. w) c)" by (simp_all add: keeps_def)
  have "objc_loadWeakRetained 24 (\<lambda>_. True) (\<lambda>_. False) (\<lambda>_ w. w) [\<lambda>w. w] w = map_option (load_effect 24) (Some w)"
    unfolding ls2 [symmetric]
    by (rule weak_variable_lifecycle [OF w(2) k2 k(3), THEN conjunct2, THEN conjunct2, THEN spec [of _ "\<lambda>_. True"], THEN spec [of _ "\<lambda>_. False"], THEN conjunct1])
  then show ?thesis using w(1,3) t same by (simp add: load_effect_def fresh_world_def)
qed

end
