(* ===== verification/AutoreleasePool.thy ===== *)
theory AutoreleasePool
  imports Prelude
begin

text \<open>
  The autorelease pools of one thread (\<open>NSObject.mm\<close>): a stack of words in pages, with coalesced entries, the
  empty-pool placeholder, and the pop that releases what was autoreleased since its push. Pages are listed from
  the coldest up; what the allocator returns, pages with arbitrary contents, is an argument, and so is what a
  release autoreleases in its turn. An operation is \<open>None\<close> when it dereferences a null or dangling page,
  finds no memory, or does not return.
\<close>

subsection \<open>Pages\<close>

definition SIZE :: nat where "SIZE = 4096"
definition sizeof_page :: nat where "sizeof_page = 56"
definition sizeof_id :: nat where "sizeof_id = 8"
definition capacity :: nat where "capacity = (SIZE - sizeof_page) div sizeof_id"
definition SCRIBBLE :: u64 where "SCRIBBLE = 0xA3A3A3A3A3A3A3A3"
definition POOL_BOUNDARY :: u64 where "POOL_BOUNDARY = 0"
definition EMPTY_POOL_PLACEHOLDER :: nat where "EMPTY_POOL_PLACEHOLDER = 1"

text \<open>\<open>next\<close> is kept as the number of slots in use.\<close>

record pool_page =
  page_addr :: nat
  slots :: "u64 list"
  page_next :: nat

definition page_begin :: "pool_page \<Rightarrow> nat" where "page_begin p = page_addr p + sizeof_page"
definition page_empty :: "pool_page \<Rightarrow> bool" where "page_empty p \<longleftrightarrow> page_next p = 0"
definition page_full :: "pool_page \<Rightarrow> bool" where "page_full p \<longleftrightarrow> page_next p = capacity"
definition lessThanHalfFull :: "pool_page \<Rightarrow> bool" where "lessThanHalfFull p \<longleftrightarrow> page_next p < capacity div 2"

text \<open>An entry: 48 bits of pointer and 16 bits counting the autoreleases beyond the first.\<close>

definition entry_ptr :: "u64 \<Rightarrow> u64" where "entry_ptr w = take_bit 48 w"
definition entry_count :: "u64 \<Rightarrow> nat" where "entry_count w = unat (drop_bit 48 w)"
definition maxCount :: nat where "maxCount = 65535"
definition entry_inc :: "u64 \<Rightarrow> u64" where "entry_inc w = w + push_bit 48 1"

record pool_options =
  DisableAutoreleaseCoalescing :: bool
  DisableAutoreleaseCoalescingLRU :: bool
  DebugPoolAllocation :: bool
  DebugMissingPools :: bool

text \<open>The search for an entry to coalesce with: four from the top, above the first slot, down to a boundary.\<close>

primrec lru_scan :: "u64 list \<Rightarrow> nat \<Rightarrow> u64 \<Rightarrow> nat list \<Rightarrow> nat option" where
  "lru_scan ss newest obj [] = None"
| "lru_scan ss newest obj (offset # offsets) =
     (if newest \<le> offset \<or> ss ! (newest - offset) = POOL_BOUNDARY then None
      else if entry_ptr (ss ! (newest - offset)) = obj \<and> entry_count (ss ! (newest - offset)) < maxCount then Some offset
      else lru_scan ss newest obj offsets)"

text \<open>The entry found moves to the top and counts one more.\<close>

definition move_to_top :: "u64 list \<Rightarrow> nat \<Rightarrow> nat \<Rightarrow> u64 list" where
  "move_to_top ss newest offset =
     take (newest - offset) ss @ take offset (drop (newest - offset + 1) ss) @ [entry_inc (ss ! (newest - offset))] @ drop (newest + 1) ss"

definition coalesce :: "pool_options \<Rightarrow> u64 \<Rightarrow> pool_page \<Rightarrow> u64 list option" where
  "coalesce opts obj p =
     (if page_empty p \<or> obj = POOL_BOUNDARY then None
      else let newest = page_next p - 1
           in if \<not> DisableAutoreleaseCoalescingLRU opts then map_option (move_to_top (slots p) newest) (lru_scan (slots p) newest obj [0..<4])
              else if \<not> DisableAutoreleaseCoalescing opts then
                (if entry_ptr (slots p ! newest) = obj \<and> entry_count (slots p ! newest) < maxCount
                 then Some ((slots p)[newest := entry_inc (slots p ! newest)]) else None)
              else None)"

text \<open>The address returned is that of the entry.\<close>

definition add :: "pool_options \<Rightarrow> u64 \<Rightarrow> pool_page \<Rightarrow> nat \<times> pool_page" where
  "add opts obj p =
     (case coalesce opts obj p of
        Some ss \<Rightarrow> (page_begin p + sizeof_id * (page_next p - 1), p\<lparr>slots := ss\<rparr>)
      | None \<Rightarrow> (page_begin p + sizeof_id * page_next p, p\<lparr>slots := (slots p)[page_next p := obj], page_next := page_next p + 1\<rparr>))"

subsection \<open>The thread's state\<close>

text \<open>The thread-local slot: nothing, the placeholder, or the hot page, named by its position from the coldest.\<close>

datatype tls_slot = NoPage | Placeholder | Hot nat

record pool_state =
  pages :: "pool_page list"
  tls :: tls_slot
  page_supply :: "pool_page list"
  released :: "u64 list"
  scripts :: "u64 list list"

definition update_page :: "nat \<Rightarrow> pool_page \<Rightarrow> pool_state \<Rightarrow> pool_state" where
  "update_page i p st = st\<lparr>pages := (pages st)[i := p]\<rparr>"

definition add_at :: "pool_options \<Rightarrow> u64 \<Rightarrow> nat \<Rightarrow> pool_state \<Rightarrow> nat \<times> pool_state" where
  "add_at opts obj i st = (let (dest, p) = add opts obj (pages st ! i) in (dest, (update_page i p st)\<lparr>tls := Hot i\<rparr>))"

text \<open>A new page is the youngest child.\<close>

definition new_page :: "pool_state \<Rightarrow> pool_state option" where
  "new_page st =
     (case page_supply st of [] \<Rightarrow> None
      | p # ps \<Rightarrow> Some (st\<lparr>pages := pages st @ [p\<lparr>page_next := 0\<rparr>], page_supply := ps\<rparr>))"

text \<open>The first page that is not full among the children, or one past them.\<close>

primrec first_room :: "pool_page list \<Rightarrow> nat \<Rightarrow> nat" where
  "first_room [] i = i"
| "first_room (p # ps) i = (if page_full p then first_room ps (i + 1) else i)"

definition autoreleaseFullPage :: "pool_options \<Rightarrow> u64 \<Rightarrow> nat \<Rightarrow> pool_state \<Rightarrow> (nat \<times> pool_state) option" where
  "autoreleaseFullPage opts obj h st =
     (let i = first_room (drop (h + 1) (pages st)) (h + 1)
      in if i < length (pages st) then Some (add_at opts obj i st)
         else map_option (add_at opts obj i) (new_page st))"

definition autoreleaseNoPage :: "pool_options \<Rightarrow> u64 \<Rightarrow> pool_state \<Rightarrow> (nat \<times> pool_state) option" where
  "autoreleaseNoPage opts obj st =
     (if tls st \<noteq> Placeholder \<and> obj \<noteq> POOL_BOUNDARY \<and> DebugMissingPools opts then Some (0, st)
      else if tls st \<noteq> Placeholder \<and> obj = POOL_BOUNDARY \<and> \<not> DebugPoolAllocation opts then
        Some (EMPTY_POOL_PLACEHOLDER, st\<lparr>tls := Placeholder\<rparr>)
      else case new_page (st\<lparr>pages := []\<rparr>) of None \<Rightarrow> None
           | Some st1 \<Rightarrow> Some (add_at opts obj 0 (if tls st = Placeholder then snd (add_at opts POOL_BOUNDARY 0 st1) else st1)))"

definition autoreleaseFast :: "pool_options \<Rightarrow> u64 \<Rightarrow> pool_state \<Rightarrow> (nat \<times> pool_state) option" where
  "autoreleaseFast opts obj st =
     (case tls st of
        Hot h \<Rightarrow> if \<not> page_full (pages st ! h) then Some (add_at opts obj h st) else autoreleaseFullPage opts obj h st
      | _ \<Rightarrow> autoreleaseNoPage opts obj st)"

definition autoreleaseNewPage :: "pool_options \<Rightarrow> u64 \<Rightarrow> pool_state \<Rightarrow> (nat \<times> pool_state) option" where
  "autoreleaseNewPage opts obj st =
     (case tls st of Hot h \<Rightarrow> autoreleaseFullPage opts obj h st | _ \<Rightarrow> autoreleaseNoPage opts obj st)"

definition push :: "pool_options \<Rightarrow> pool_state \<Rightarrow> (nat \<times> pool_state) option" where
  "push opts st =
     (if DebugPoolAllocation opts then autoreleaseNewPage opts POOL_BOUNDARY st else autoreleaseFast opts POOL_BOUNDARY st)"

subsection \<open>Releasing\<close>

primrec autorelease_all :: "pool_options \<Rightarrow> u64 list \<Rightarrow> pool_state \<Rightarrow> pool_state option" where
  "autorelease_all opts [] st = Some st"
| "autorelease_all opts (obj # objs) st =
     (case autoreleaseFast opts obj st of None \<Rightarrow> None | Some (dest, st') \<Rightarrow> autorelease_all opts objs st')"

text \<open>A release, which may deallocate and autorelease more objects.\<close>

definition objc_release :: "pool_options \<Rightarrow> u64 \<Rightarrow> pool_state \<Rightarrow> pool_state option" where
  "objc_release opts obj st =
     (let st1 = st\<lparr>released := released st @ [obj]\<rparr>
      in case scripts st of [] \<Rightarrow> Some st1 | s # ss \<Rightarrow> autorelease_all opts s (st1\<lparr>scripts := ss\<rparr>))"

primrec release_times :: "pool_options \<Rightarrow> nat \<Rightarrow> u64 \<Rightarrow> pool_state \<Rightarrow> pool_state option" where
  "release_times opts 0 obj st = Some st"
| "release_times opts (Suc n) obj st = (case objc_release opts obj st of None \<Rightarrow> None | Some st' \<Rightarrow> release_times opts n obj st')"

primrec skip_empty :: "pool_page list \<Rightarrow> nat \<Rightarrow> nat option" where
  "skip_empty ps 0 = (if page_empty (ps ! 0) then None else Some 0)"
| "skip_empty ps (Suc h) = (if page_empty (ps ! Suc h) then skip_empty ps h else Some (Suc h))"

text \<open>Taking the top entry off, and scribbling over it.\<close>

definition pop_entry :: "nat \<Rightarrow> pool_state \<Rightarrow> u64 \<times> pool_state" where
  "pop_entry h st =
     (let p = pages st ! h; n = page_next p - 1
      in (slots p ! n, (update_page h (p\<lparr>page_next := n, slots := (slots p)[n := SCRIBBLE]\<rparr>) st)\<lparr>tls := Hot h\<rparr>))"

definition release_top :: "pool_options \<Rightarrow> pool_state \<Rightarrow> pool_state option" where
  "release_top opts st =
     (case tls st of
        Hot h \<Rightarrow>
          (case skip_empty (pages st) h of None \<Rightarrow> None
           | Some h' \<Rightarrow>
               (let (w, st1) = pop_entry h' st
                in if entry_ptr w \<noteq> POOL_BOUNDARY then release_times opts (entry_count w + 1) (entry_ptr w) st1 else Some st1))
      | _ \<Rightarrow> None)"

partial_function (option) until_loop :: "pool_options \<Rightarrow> nat \<Rightarrow> nat \<Rightarrow> pool_state \<Rightarrow> pool_state option" where
  "until_loop opts this stop st =
     (if page_next (pages st ! this) = stop then Some st
      else case release_top opts st of None \<Rightarrow> None | Some st1 \<Rightarrow> until_loop opts this stop st1)"

definition releaseUntil :: "pool_options \<Rightarrow> nat \<Rightarrow> nat \<Rightarrow> pool_state \<Rightarrow> pool_state option" where
  "releaseUntil opts this stop st = map_option (\<lambda>st'. st'\<lparr>tls := Hot this\<rparr>) (until_loop opts this stop st)"

definition kill :: "nat \<Rightarrow> pool_state \<Rightarrow> pool_state" where
  "kill this st = st\<lparr>pages := take this (pages st)\<rparr>"

definition parent_slot :: "nat \<Rightarrow> tls_slot" where
  "parent_slot this = (if this = 0 then NoPage else Hot (this - 1))"

definition popPage :: "pool_options \<Rightarrow> nat \<Rightarrow> nat \<Rightarrow> pool_state \<Rightarrow> pool_state option" where
  "popPage opts this stop st =
     (case releaseUntil opts this stop st of None \<Rightarrow> None
      | Some st1 \<Rightarrow>
          Some (if DebugPoolAllocation opts \<and> page_empty (pages st1 ! this) then (kill this st1)\<lparr>tls := parent_slot this\<rparr>
                else if DebugMissingPools opts \<and> page_empty (pages st1 ! this) \<and> this = 0 then (kill this st1)\<lparr>tls := NoPage\<rparr>
                else if this + 1 < length (pages st1) then
                  (if lessThanHalfFull (pages st1 ! this) then kill (this + 1) st1
                   else if this + 2 < length (pages st1) then kill (this + 2) st1
                   else st1)
                else st1))"

text \<open>The page of a pointer, if it is one of the thread's pages.\<close>

definition find_page :: "pool_page list \<Rightarrow> nat \<Rightarrow> nat option" where
  "find_page ps base = (case filter (\<lambda>i. page_addr (ps ! i) = base) [0..<length ps] of [] \<Rightarrow> None | i # _ \<Rightarrow> Some i)"

definition pageForPointer :: "nat \<Rightarrow> pool_state \<Rightarrow> nat option" where
  "pageForPointer p st = find_page (pages st) (p - p mod SIZE)"

datatype pop_result = Popped pool_state | BadPop

definition pop_at :: "pool_options \<Rightarrow> nat \<Rightarrow> nat \<Rightarrow> pool_state \<Rightarrow> pop_result option" where
  "pop_at opts this stop st =
     (if slots (pages st ! this) ! stop \<noteq> POOL_BOUNDARY \<and> \<not> (stop = 0 \<and> this = 0) then Some BadPop
      else map_option Popped (popPage opts this stop st))"

definition pop :: "pool_options \<Rightarrow> nat \<Rightarrow> pool_state \<Rightarrow> pop_result option" where
  "pop opts token st =
     (if token = EMPTY_POOL_PLACEHOLDER then
        (case tls st of Hot h \<Rightarrow> pop_at opts 0 0 st | _ \<Rightarrow> Some (Popped (st\<lparr>tls := NoPage\<rparr>)))
      else case pageForPointer token st of None \<Rightarrow> None
           | Some i \<Rightarrow>
               (let stop = (token - page_begin (pages st ! i)) div sizeof_id
                in if page_begin (pages st ! i) \<le> token \<and> stop < capacity then pop_at opts i stop st else None))"

text \<open>The destructor of the thread-local slot, whose value has been taken out and is put back while it works.\<close>

definition tls_dealloc :: "pool_options \<Rightarrow> pool_state \<Rightarrow> pool_state option" where
  "tls_dealloc opts st =
     (case tls st of
        Hot h \<Rightarrow>
          (case (if page_empty (pages st ! 0) then Some (Popped st) else pop opts (page_begin (pages st ! 0)) st) of
             Some (Popped st1) \<Rightarrow>
               Some ((if DebugMissingPools opts \<or> DebugPoolAllocation opts then st1 else kill 0 st1)\<lparr>tls := NoPage\<rparr>)
           | _ \<Rightarrow> None)
      | _ \<Rightarrow> Some st)"

end
