(* ===== verification/PoolStack.thy ===== *)
theory PoolStack
  imports AutoreleasePool "HOL-Library.Multiset"
begin

text \<open>
  The stack that the pages of an autorelease pool stand for: its words from the coldest page up, the multiset of
  releases they owe, and what adding a word does to it. Coalescing may reorder entries, but only above the
  last boundary.
\<close>

subsection \<open>Entries\<close>

definition good_obj :: "u64 \<Rightarrow> bool" where "good_obj obj \<longleftrightarrow> obj \<noteq> 0 \<and> entry_ptr obj = obj"

definition entry_objs :: "u64 \<Rightarrow> u64 multiset" where
  "entry_objs w = (if w = 0 then {#} else replicate_mset (entry_count w + 1) (entry_ptr w))"

definition owed :: "u64 list \<Rightarrow> u64 multiset" where "owed ws = sum_list (map entry_objs ws)"

lemma owed_simps [simp]: "owed [] = {#}" "owed (w # ws) = entry_objs w + owed ws" "owed (ws @ vs) = owed ws + owed vs"
  by (simp_all add: owed_def)

lemma entry_objs_0 [simp]: "entry_objs 0 = {#}"
  by (simp add: entry_objs_def)

lemma entry_objs_good: "good_obj obj \<Longrightarrow> entry_objs obj = {#obj#}"
proof -
  assume g: "good_obj obj"
  then have "take_bit 48 obj = obj" by (simp add: good_obj_def entry_ptr_def)
  then have "drop_bit 48 obj = drop_bit 48 (take_bit 48 obj)" by simp
  then have "drop_bit 48 obj = 0" by (simp add: drop_bit_take_bit)
  then show ?thesis using g by (simp add: entry_objs_def good_obj_def entry_count_def)
qed

lemma entry_inc:
  assumes "entry_count w < maxCount"
  shows "entry_ptr (entry_inc w) = entry_ptr w" "entry_count (entry_inc w) = entry_count w + 1"
proof -
  have lt: "unat (drop_bit 48 w) < 65535" using assms by (simp add: entry_count_def maxCount_def)
  have d: "unat (drop_bit 48 w) = unat w div 2 ^ 48" by (rule unat_drop_bit)
  have p: "unat (push_bit 48 1 :: u64) = 2 ^ 48" by (simp add: push_bit_eq_mult)
  have u: "unat (entry_inc w) = unat w + 2 ^ 48"
  proof -
    have "unat w < 65535 * 2 ^ 48" using lt d by (simp add: less_mult_imp_div_less div_less_iff_less_mult)
    then have "unat w + 2 ^ 48 < 2 ^ LENGTH(64)" by simp
    then show ?thesis unfolding entry_inc_def using p by (simp add: unat_word_ariths)
  qed
  show "entry_count (entry_inc w) = entry_count w + 1"
    unfolding entry_count_def unat_drop_bit u by simp
  have "unat (entry_ptr (entry_inc w)) = unat (entry_ptr w)"
    unfolding entry_ptr_def unat_take_bit u by simp
  then show "entry_ptr (entry_inc w) = entry_ptr w" unfolding word_unat_eq_iff .
qed

lemma entry_objs_inc:
  assumes "w \<noteq> 0" "entry_ptr w \<noteq> 0" "entry_count w < maxCount"
  shows "entry_objs (entry_inc w) = entry_objs w + {#entry_ptr w#}" "entry_inc w \<noteq> 0" "entry_ptr (entry_inc w) \<noteq> 0"
proof -
  show p: "entry_ptr (entry_inc w) \<noteq> 0" using entry_inc(1) [OF assms(3)] assms(2) by simp
  then show "entry_inc w \<noteq> 0" by (auto simp: entry_ptr_def)
  then show "entry_objs (entry_inc w) = entry_objs w + {#entry_ptr w#}"
    using entry_inc [OF assms(3)] assms(1) by (simp add: entry_objs_def)
qed

subsection \<open>Adding to a page\<close>

definition active :: "pool_page \<Rightarrow> u64 list" where "active p = take (page_next p) (slots p)"

definition good_word :: "u64 \<Rightarrow> bool" where "good_word w \<longleftrightarrow> w = 0 \<or> entry_ptr w \<noteq> 0"

definition page_ok :: "pool_page \<Rightarrow> bool" where
  "page_ok p \<longleftrightarrow> length (slots p) = capacity \<and> page_next p \<le> capacity \<and> (\<forall>w \<in> set (active p). good_word w)"

lemma length_active: "page_ok p \<Longrightarrow> length (active p) = page_next p"
  by (simp add: page_ok_def active_def)

text \<open>One more word: a boundary goes on top; an object changes only what lies above the last boundary.\<close>

definition appended :: "u64 \<Rightarrow> u64 list \<Rightarrow> u64 list \<Rightarrow> bool" where
  "appended obj ws ws' \<longleftrightarrow>
     (if obj = 0 then ws' = ws @ [0]
      else \<exists>pre suf suf'. ws = pre @ suf \<and> ws' = pre @ suf' \<and> 0 \<notin> set suf \<and> 0 \<notin> set suf' \<and>
             owed suf' = owed suf + {#obj#} \<and> length suf \<le> length suf' \<and> length suf' \<le> length suf + 1)"

lemma appended_objI:
  assumes "obj \<noteq> 0" "ws = pre @ suf" "ws' = pre @ suf'" "0 \<notin> set suf" "0 \<notin> set suf'" "owed suf' = owed suf + {#obj#}"
    "length suf \<le> length suf'" "length suf' \<le> length suf + 1"
  shows "appended obj ws ws'"
  using assms by (auto simp: appended_def)

lemma appended_on: "appended obj ws ws' \<Longrightarrow> appended obj (vs @ ws) (vs @ ws')"
  unfolding appended_def by (auto split: if_splits) (metis append.assoc)

lemma appended_top: "obj = 0 \<or> good_obj obj \<Longrightarrow> appended obj ws (ws @ [obj])"
  by (cases "obj = 0") (simp add: appended_def, rule appended_objI [where suf = "[]" and suf' = "[obj]"], auto simp: entry_objs_good)

lemma appended_owed: "appended obj ws ws' \<Longrightarrow> owed ws' = owed ws + (if obj = 0 then {#} else {#obj#})"
  by (auto simp: appended_def split: if_splits)

lemma appended_length: "appended obj ws ws' \<Longrightarrow> length ws \<le> length ws' \<and> length ws' \<le> length ws + 1"
  by (auto simp: appended_def split: if_splits)

text \<open>What lies below a boundary, and the boundary, stay.\<close>

lemma appended_below:
  assumes "appended obj ws ws'" "k < length ws" "ws ! k = 0"
  shows "take (k + 1) ws' = take (k + 1) ws"
proof (cases "obj = 0")
  case False
  then obtain pre suf suf' where w: "ws = pre @ suf" "ws' = pre @ suf'" "0 \<notin> set suf" using assms(1) by (auto simp: appended_def)
  have "k < length pre"
  proof (rule ccontr)
    assume "\<not> k < length pre"
    then have "ws ! k \<in> set suf" using assms(2) w(1) by (auto simp: nth_append)
    then show False using assms(3) w(3) by simp
  qed
  then show ?thesis using w by simp
qed (use assms in \<open>simp add: appended_def\<close>)

lemma lru_scan_Some:
  assumes "lru_scan ss t obj [k..<n] = Some j"
  shows "k \<le> j \<and> j < n \<and> j < t \<and> (\<forall>i. k \<le> i \<and> i \<le> j \<longrightarrow> ss ! (t - i) \<noteq> 0) \<and>
    entry_ptr (ss ! (t - j)) = obj \<and> entry_count (ss ! (t - j)) < maxCount"
  using assms
proof (induction "n - k" arbitrary: k)
  case (Suc m)
  then have "[k..<n] = k # [Suc k..<n]" by (simp add: upt_conv_Cons)
  then have c: "(if t \<le> k \<or> ss ! (t - k) = 0 then None
      else if entry_ptr (ss ! (t - k)) = obj \<and> entry_count (ss ! (t - k)) < maxCount then Some k
      else lru_scan ss t obj [Suc k..<n]) = Some j" using Suc.prems by (simp add: POOL_BOUNDARY_def)
  show ?case
  proof (cases "entry_ptr (ss ! (t - k)) = obj \<and> entry_count (ss ! (t - k)) < maxCount")
    case True
    then show ?thesis using c Suc.hyps(2) by (auto split: if_splits)
  next
    case False
    then have r: "lru_scan ss t obj [Suc k..<n] = Some j" "ss ! (t - k) \<noteq> 0" using c by (auto split: if_splits)
    from Suc.hyps(1) [OF _ r(1)] Suc.hyps(2) have ih: "Suc k \<le> j \<and> j < n \<and> j < t \<and> (\<forall>i. Suc k \<le> i \<and> i \<le> j \<longrightarrow> ss ! (t - i) \<noteq> 0) \<and>
        entry_ptr (ss ! (t - j)) = obj \<and> entry_count (ss ! (t - j)) < maxCount" by simp
    have "ss ! (t - i) \<noteq> 0" if "k \<le> i" "i \<le> j" for i using that ih r(2) by (cases "i = k") auto
    then show ?thesis using ih by simp
  qed
qed simp

lemma move_to_top_active:
  assumes "t < length ss" "j < t"
  shows "take (t + 1) ss = take (t - j) ss @ (ss ! (t - j) # take j (drop (t - j + 1) ss))"
    "take (t + 1) (move_to_top ss t j) = take (t - j) ss @ (take j (drop (t - j + 1) ss) @ [entry_inc (ss ! (t - j))])"
    "length (move_to_top ss t j) = length ss"
proof -
  have "take (t + 1) ss = take (t - j) ss @ take (j + 1) (drop (t - j) ss)"
    using assms take_add [of "t - j" "j + 1" ss] by simp
  also have "drop (t - j) ss = ss ! (t - j) # drop (t - j + 1) ss" using assms by (simp add: Cons_nth_drop_Suc)
  finally show "take (t + 1) ss = take (t - j) ss @ (ss ! (t - j) # take j (drop (t - j + 1) ss))" by simp
  show "take (t + 1) (move_to_top ss t j) = take (t - j) ss @ (take j (drop (t - j + 1) ss) @ [entry_inc (ss ! (t - j))])"
    using assms by (auto simp: move_to_top_def min_def)
  show "length (move_to_top ss t j) = length ss" using assms by (auto simp: move_to_top_def min_def)
qed

lemma active_put: "page_next p < length (slots p) \<Longrightarrow> active (p\<lparr>slots := (slots p)[page_next p := w], page_next := page_next p + 1\<rparr>) = active p @ [w]"
  by (simp add: active_def take_Suc_conv_app_nth)

lemma coalesce_ok:
  assumes ok: "page_ok p" and obj: "good_obj obj" and c: "coalesce opts obj p = Some ss"
  shows "page_ok (p\<lparr>slots := ss\<rparr>) \<and> appended obj (active p) (active (p\<lparr>slots := ss\<rparr>)) \<and> 0 < page_next p"
proof -
  have n: "0 < page_next p" using c by (auto simp: coalesce_def page_empty_def split: if_splits)
  define t where "t = page_next p - 1"
  have t: "t + 1 = page_next p" "t < length (slots p)" using n ok by (auto simp: t_def page_ok_def)
  have good: "good_word (slots p ! i)" if "i < page_next p" for i
  proof -
    have "slots p ! i \<in> set (active p)" using that ok by (auto simp: active_def page_ok_def in_set_conv_nth)
    then show ?thesis using ok by (simp add: page_ok_def)
  qed
  obtain j where j: "j < t \<or> j = 0" "ss = move_to_top (slots p) t j \<or> j = 0 \<and> ss = (slots p)[t := entry_inc (slots p ! t)]"
      "\<forall>i \<le> j. slots p ! (t - i) \<noteq> 0" "entry_ptr (slots p ! (t - j)) = obj" "entry_count (slots p ! (t - j)) < maxCount" "j \<le> t"
  proof (cases "DisableAutoreleaseCoalescingLRU opts")
    case False
    then obtain j where j: "lru_scan (slots p) t obj [0..<4] = Some j" "ss = move_to_top (slots p) t j"
      using c by (auto simp: coalesce_def t_def Let_def split: if_splits)
    from lru_scan_Some [OF j(1)] show ?thesis using that [of j] j(2) by auto
  next
    case True
    then have e: "entry_ptr (slots p ! t) = obj" "entry_count (slots p ! t) < maxCount" "ss = (slots p)[t := entry_inc (slots p ! t)]"
      using c by (auto simp: coalesce_def t_def Let_def split: if_splits)
    have "slots p ! t \<noteq> 0" using e(1) obj by (auto simp: good_obj_def entry_ptr_def)
    then show ?thesis using that [of 0] e by auto
  qed
  let ?e = "slots p ! (t - j)" and ?pre = "take (t - j) (slots p)" and ?mid = "take j (drop (t - j + 1) (slots p))"
  have tk: "take (t + 1) (slots p) = ?pre @ (?e # ?mid)" "take (t + 1) ss = ?pre @ (?mid @ [entry_inc ?e])" "length ss = length (slots p)"
  proof -
    show "take (t + 1) (slots p) = ?pre @ (?e # ?mid)"
      using move_to_top_active(1) [of t "slots p" j] t(2) j(1) by (cases "j = 0") (auto simp: take_Suc_conv_app_nth)
    have "take (t + 1) ss = ?pre @ (?mid @ [entry_inc ?e]) \<and> length ss = length (slots p)"
    proof (cases "j = 0 \<and> ss = (slots p)[t := entry_inc (slots p ! t)]")
      case True
      then show ?thesis using t(2) by (simp add: take_Suc_conv_app_nth)
    next
      case False
      then have ss: "ss = move_to_top (slots p) t j" using j(2) by auto
      show ?thesis
      proof (cases "j < t")
        case True
        then show ?thesis using move_to_top_active(2,3) [OF t(2) True] ss by simp
      next
        case False
        then have "j = 0" "t = 0" using j(1) by auto
        then show ?thesis using ss t(2) by (simp add: move_to_top_def)
      qed
    qed
    then show "take (t + 1) ss = ?pre @ (?mid @ [entry_inc ?e])" "length ss = length (slots p)" by auto
  qed
  have act: "active p = ?pre @ (?e # ?mid)" "active (p\<lparr>slots := ss\<rparr>) = ?pre @ (?mid @ [entry_inc ?e])"
    using tk t(1) by (simp_all add: active_def)
  have e: "?e \<noteq> 0" "entry_ptr ?e \<noteq> 0" using j(3-4) obj by (auto simp: good_obj_def)
  have mid: "0 \<notin> set ?mid"
  proof
    assume "0 \<in> set ?mid"
    then obtain m where m: "m < j" "slots p ! (t - j + 1 + m) = 0" by (auto simp: in_set_conv_nth)
    have "t - j + 1 + m = t - (j - 1 - m)" using m(1) j(6) by simp
    then show False using j(3) m by (metis diff_le_self le_trans)
  qed
  have inc: "entry_objs (entry_inc ?e) = entry_objs ?e + {#obj#}" "entry_inc ?e \<noteq> 0" "entry_ptr (entry_inc ?e) \<noteq> 0"
    using entry_objs_inc [OF e j(5)] j(4) by simp_all
  have "appended obj (active p) (active (p\<lparr>slots := ss\<rparr>))"
    by (rule appended_objI [OF _ act]) (use obj mid e inc in \<open>auto simp: good_obj_def\<close>)
  moreover have "page_ok (p\<lparr>slots := ss\<rparr>)"
    using ok tk(3) inc(3) unfolding page_ok_def act by (auto simp: good_word_def)
  ultimately show ?thesis using n by simp
qed

lemma add_ok:
  assumes ok: "page_ok p" and room: "page_next p < capacity" and obj: "obj = 0 \<or> good_obj obj" and a: "add opts obj p = (d, p')"
  shows "page_ok p' \<and> page_addr p' = page_addr p \<and> appended obj (active p) (active p') \<and> page_next p \<le> page_next p' \<and> 0 < page_next p' \<and>
    (obj = 0 \<longrightarrow> d = page_begin p + sizeof_id * page_next p)"
proof (cases "coalesce opts obj p")
  case None
  then have p': "p' = p\<lparr>slots := (slots p)[page_next p := obj], page_next := page_next p + 1\<rparr>" "d = page_begin p + sizeof_id * page_next p"
    using a by (auto simp: add_def)
  have act: "active p' = active p @ [obj]" unfolding p'(1) by (rule active_put) (use ok room in \<open>simp add: page_ok_def\<close>)
  have "good_word obj" using obj by (auto simp: good_word_def good_obj_def)
  then have "page_ok p'" using ok room unfolding page_ok_def act by (auto simp: p'(1))
  then show ?thesis using act appended_top [OF obj, of "active p"] p' by auto
next
  case (Some ss)
  then have "obj \<noteq> 0" by (auto simp: coalesce_def POOL_BOUNDARY_def split: if_splits)
  then show ?thesis using coalesce_ok [OF ok _ Some] Some a obj by (auto simp: add_def)
qed

subsection \<open>Adding to a pool\<close>

definition stack :: "pool_state \<Rightarrow> u64 list" where "stack st = concat (map active (pages st))"

definition pages_ok :: "pool_state \<Rightarrow> bool" where
  "pages_ok st \<longleftrightarrow> (\<forall>p \<in> set (pages st). page_ok p) \<and> (\<forall>p \<in> set (page_supply st). length (slots p) = capacity) \<and>
     distinct (map page_addr (pages st @ page_supply st)) \<and> (\<forall>p \<in> set (pages st @ page_supply st). SIZE dvd page_addr p \<and> 0 < page_addr p)"

text \<open>Pages younger than the hot one are empty, and there are no pages without a hot one.\<close>

definition pool_ok :: "pool_state \<Rightarrow> bool" where
  "pool_ok st \<longleftrightarrow> pages_ok st \<and>
     (case tls st of Hot h \<Rightarrow> h < length (pages st) \<and> (\<forall>i. h < i \<and> i < length (pages st) \<longrightarrow> page_next (pages st ! i) = 0)
      | _ \<Rightarrow> pages st = [])"

lemma active_empty [simp]: "page_next p = 0 \<Longrightarrow> active p = []"
  by (simp add: active_def)

lemma concat_update_empty:
  assumes "i < length ps" "\<And>j. i < j \<Longrightarrow> j < length ps \<Longrightarrow> active (ps ! j) = []"
  shows "concat (map active (ps[i := p])) = concat (map active (take i ps)) @ active p"
    "concat (map active ps) = concat (map active (take i ps)) @ active (ps ! i)"
proof -
  have e: "concat (map active (drop (i + 1) ps)) = []"
    using assms by (auto simp: in_set_conv_nth)
  show "concat (map active (ps[i := p])) = concat (map active (take i ps)) @ active p"
    using assms(1) e by (simp add: upd_conv_take_nth_drop)
  have "ps = take i ps @ ps ! i # drop (i + 1) ps" using assms(1) by (simp add: id_take_nth_drop)
  then have "concat (map active ps) = concat (map active (take i ps @ ps ! i # drop (i + 1) ps))" by simp
  then show "concat (map active ps) = concat (map active (take i ps)) @ active (ps ! i)" using e by simp
qed

text \<open>What every addition leaves alone.\<close>

definition same_frame :: "pool_state \<Rightarrow> pool_state \<Rightarrow> bool" where
  "same_frame st st' \<longleftrightarrow> released st' = released st \<and> scripts st' = scripts st \<and> length (pages st) \<le> length (pages st') \<and>
     (\<forall>j < length (pages st). page_addr (pages st' ! j) = page_addr (pages st ! j)) \<and>
     length (page_supply st) \<le> length (page_supply st') + 1"

lemma add_at_ok:
  assumes ok: "pages_ok st" and i: "i < length (pages st)" "page_next (pages st ! i) < capacity"
    and above: "\<And>j. i < j \<Longrightarrow> j < length (pages st) \<Longrightarrow> page_next (pages st ! j) = 0" and obj: "obj = 0 \<or> good_obj obj"
  shows "\<exists>d p. add_at opts obj i st = (d, st\<lparr>pages := (pages st)[i := p], tls := Hot i\<rparr>) \<and>
    pool_ok (st\<lparr>pages := (pages st)[i := p], tls := Hot i\<rparr>) \<and> page_addr p = page_addr (pages st ! i) \<and>
    appended obj (stack st) (stack (st\<lparr>pages := (pages st)[i := p], tls := Hot i\<rparr>)) \<and>
    page_next (pages st ! i) \<le> page_next p \<and> 0 < page_next p \<and>
    (obj = 0 \<longrightarrow> d = page_begin (pages st ! i) + sizeof_id * page_next (pages st ! i))"
proof -
  obtain d p where a: "add opts obj (pages st ! i) = (d, p)" by (cases "add opts obj (pages st ! i)")
  have "page_ok (pages st ! i)" using ok i(1) by (simp add: pages_ok_def)
  from add_ok [OF this i(2) obj a] have p: "page_ok p" "page_addr p = page_addr (pages st ! i)"
      "appended obj (active (pages st ! i)) (active p)" "page_next (pages st ! i) \<le> page_next p" "0 < page_next p"
      "obj = 0 \<longrightarrow> d = page_begin (pages st ! i) + sizeof_id * page_next (pages st ! i)" by auto
  let ?st' = "st\<lparr>pages := (pages st)[i := p], tls := Hot i\<rparr>"
  have addr: "map page_addr ((pages st)[i := p]) = map page_addr (pages st)" using p(2) i(1) by (simp add: map_update list_update_same_conv)
  have "pages_ok ?st'"
    unfolding pages_ok_def
  proof (intro conjI ballI)
    fix q assume "q \<in> set (pages ?st')"
    then show "page_ok q" using ok p(1) set_update_subset_insert [of "pages st" i p] by (auto simp: pages_ok_def)
  next
    show "distinct (map page_addr (pages ?st' @ page_supply ?st'))" using ok addr by (simp add: pages_ok_def)
  next
    fix q assume q: "q \<in> set (pages ?st' @ page_supply ?st')"
    have "page_addr q \<in> page_addr ` set (pages st @ page_supply st)"
      using q addr by (metis (no_types, lifting) image_eqI list.set_map map_append pool_state.select_convs(1,3) pool_state.surjective pool_state.update_convs(1,2))
    then show "SIZE dvd page_addr q" "0 < page_addr q" using ok by (auto simp: pages_ok_def)
  qed (use ok in \<open>simp add: pages_ok_def\<close>)
  then have "pool_ok ?st'" using i(1) above by (auto simp: pool_ok_def)
  moreover have "appended obj (stack st) (stack ?st')"
    using concat_update_empty [of i "pages st"] i(1) above appended_on [OF p(3)] by (simp add: stack_def)
  ultimately show ?thesis using a p by (auto simp: add_at_def update_page_def intro!: exI [of _ p])
qed

text \<open>An addition at or above the hot page; the address returned for a boundary is that of the top of the stack.\<close>

definition added :: "u64 \<Rightarrow> nat \<Rightarrow> pool_state \<Rightarrow> nat \<Rightarrow> pool_state \<Rightarrow> bool" where
  "added obj h st d st' \<longleftrightarrow> pool_ok st' \<and> appended obj (stack st) (stack st') \<and> same_frame st st' \<and>
     (\<exists>i \<ge> h. tls st' = Hot i \<and> i \<le> length (pages st) \<and> (\<forall>j < i. pages st' ! j = pages st ! j) \<and>
        (i < length (pages st) \<longrightarrow> page_next (pages st ! i) \<le> page_next (pages st' ! i)) \<and> 0 < page_next (pages st' ! i) \<and>
        (obj = 0 \<longrightarrow> d = page_begin (pages st' ! i) + sizeof_id * (page_next (pages st' ! i) - 1)))"

lemma capacity_pos: "0 < capacity"
  by (simp add: capacity_def SIZE_def sizeof_page_def sizeof_id_def)

lemma appended_0_next:
  assumes "pages_ok st" "i < length (pages st)" "page_next (pages st ! i) < capacity" "add opts 0 (pages st ! i) = (d, p)"
  shows "page_next p = page_next (pages st ! i) + 1"
  using assms by (auto simp: add_def coalesce_def POOL_BOUNDARY_def)

lemma add_at_added:
  assumes ok: "pages_ok st" and i: "i < length (pages st)" "page_next (pages st ! i) < capacity" "h \<le> i"
    and above: "\<And>j. i < j \<Longrightarrow> j < length (pages st) \<Longrightarrow> page_next (pages st ! j) = 0" and obj: "obj = 0 \<or> good_obj obj"
  shows "\<exists>d st'. add_at opts obj i st = (d, st') \<and> added obj h st d st'"
proof -
  from add_at_ok [OF ok i(1,2) above obj, of opts] obtain d p where
    a: "add_at opts obj i st = (d, st\<lparr>pages := (pages st)[i := p], tls := Hot i\<rparr>)"
      "pool_ok (st\<lparr>pages := (pages st)[i := p], tls := Hot i\<rparr>)" "page_addr p = page_addr (pages st ! i)"
      "appended obj (stack st) (stack (st\<lparr>pages := (pages st)[i := p], tls := Hot i\<rparr>))"
      "page_next (pages st ! i) \<le> page_next p" "0 < page_next p"
      "obj = 0 \<longrightarrow> d = page_begin (pages st ! i) + sizeof_id * page_next (pages st ! i)" by blast
  let ?st' = "st\<lparr>pages := (pages st)[i := p], tls := Hot i\<rparr>"
  have d: "d = page_begin p + sizeof_id * (page_next p - 1)" if "obj = 0"
  proof -
    have "add opts 0 (pages st ! i) = (d, p)"
      using a(1) that i(1) by (auto simp: add_at_def update_page_def split: prod.splits) (metis length_list_update nth_list_update_eq pool_state.select_convs(1) pool_state.surjective pool_state.update_convs(1,2))
    then show ?thesis using a(3,7) that appended_0_next [OF ok i(1,2)] by (simp add: page_begin_def)
  qed
  have "page_addr ((pages st)[i := p] ! j) = page_addr (pages st ! j)" for j using a(3) i(1) by (cases "j = i") simp_all
  then have "same_frame st ?st'" by (simp add: same_frame_def)
  then have "added obj h st d ?st'" unfolding added_def using a(2,4-6) i d by (auto intro!: exI [of _ i])
  then show ?thesis using a(1) by blast
qed

lemma new_page_ok:
  assumes ok: "pages_ok st" and s: "page_supply st = q # qs"
  shows "new_page st = Some (st\<lparr>pages := pages st @ [q\<lparr>page_next := 0\<rparr>], page_supply := qs\<rparr>)"
    "pages_ok (st\<lparr>pages := pages st @ [q\<lparr>page_next := 0\<rparr>], page_supply := qs\<rparr>)"
proof -
  show "new_page st = Some (st\<lparr>pages := pages st @ [q\<lparr>page_next := 0\<rparr>], page_supply := qs\<rparr>)" using s by (simp add: new_page_def)
  show "pages_ok (st\<lparr>pages := pages st @ [q\<lparr>page_next := 0\<rparr>], page_supply := qs\<rparr>)"
    using ok s by (auto simp: pages_ok_def page_ok_def)
qed

lemma added_new_page:
  assumes a: "added obj h (st\<lparr>pages := pages st @ [q\<lparr>page_next := 0\<rparr>], page_supply := qs\<rparr>) d st'"
    and s: "page_supply st = q # qs" and i: "tls st' = Hot (length (pages st))" and f: "length (page_supply st') = length qs"
    and h: "h \<le> length (pages st)"
  shows "added obj h st d st'"
proof -
  have "stack (st\<lparr>pages := pages st @ [q\<lparr>page_next := 0\<rparr>], page_supply := qs\<rparr>) = stack st" by (simp add: stack_def)
  moreover have "same_frame st st'"
    using a s f unfolding added_def same_frame_def by (auto simp: nth_append less_SucI)
  ultimately show ?thesis using a i h unfolding added_def by (auto simp: nth_append)
qed

lemma first_room_next:
  assumes "\<And>j. h < j \<Longrightarrow> j < length ps \<Longrightarrow> page_next (ps ! j) = 0"
  shows "first_room (drop (h + 1) ps) (h + 1) = h + 1"
proof (cases "drop (h + 1) ps")
  case (Cons p qs)
  then have "h + 1 < length ps" by (metis drop_all list.distinct(1) not_le)
  moreover have "p = ps ! (h + 1)" using Cons by (metis calculation hd_drop_conv_nth list.sel(1))
  ultimately show ?thesis using Cons assms [of "h + 1"] capacity_pos by (simp add: page_full_def)
qed simp

lemma full_page_added:
  assumes ok: "pool_ok st" and h: "tls st = Hot h" and s: "page_supply st \<noteq> []" and obj: "obj = 0 \<or> good_obj obj"
  shows "\<exists>d st'. autoreleaseFullPage opts obj h st = Some (d, st') \<and> added obj h st d st'"
proof -
  have po: "pages_ok st" and hl: "h < length (pages st)" and em: "\<And>j. h < j \<Longrightarrow> j < length (pages st) \<Longrightarrow> page_next (pages st ! j) = 0"
    using ok h by (auto simp: pool_ok_def)
  note fr = first_room_next [OF em]
  show ?thesis
  proof (cases "h + 1 < length (pages st)")
    case True
    have "page_next (pages st ! (h + 1)) < capacity" using em [of "h + 1"] True capacity_pos by simp
    from add_at_added [OF po True this _ em obj, of h opts] obtain d st' where
      "add_at opts obj (h + 1) st = (d, st')" "added obj h st d st'" by auto
    then show ?thesis using True fr by (auto simp: autoreleaseFullPage_def Let_def)
  next
    case False
    then have l: "length (pages st) = h + 1" using hl by simp
    obtain q qs where q: "page_supply st = q # qs" using s by (cases "page_supply st") auto
    let ?st1 = "st\<lparr>pages := pages st @ [q\<lparr>page_next := 0\<rparr>], page_supply := qs\<rparr>"
    have "h + 1 < length (pages ?st1)" "page_next (pages ?st1 ! (h + 1)) < capacity" using l capacity_pos by (simp_all add: nth_append)
    from add_at_ok [OF new_page_ok(2) [OF po q] this _ obj, of opts] add_at_added [OF new_page_ok(2) [OF po q] this _ _ obj, of h opts]
    obtain d st' where a: "add_at opts obj (h + 1) ?st1 = (d, st')" "added obj h ?st1 d st'" "tls st' = Hot (h + 1)" "page_supply st' = qs"
      using l by auto
    have "added obj h st d st'" by (rule added_new_page [OF a(2) q]) (use a l in auto)
    then show ?thesis using False fr a(1) new_page_ok(1) [OF po q] by (auto simp: autoreleaseFullPage_def Let_def)
  qed
qed

lemma fast_added:
  assumes ok: "pool_ok st" and h: "tls st = Hot h" and s: "page_supply st \<noteq> []" and obj: "obj = 0 \<or> good_obj obj"
  shows "\<exists>d st'. autoreleaseFast opts obj st = Some (d, st') \<and> added obj h st d st' \<and> 0 < page_next (pages st' ! h)"
proof (cases "page_full (pages st ! h)")
  case True
  obtain d st' where a: "autoreleaseFullPage opts obj h st = Some (d, st')" "added obj h st d st'" using full_page_added [OF assms, of opts] by auto
  have "0 < page_next (pages st ! h)" "h < length (pages st)" using True ok h capacity_pos by (auto simp: page_full_def pool_ok_def)
  then have "0 < page_next (pages st' ! h)" using a(2) unfolding added_def by (metis le_neq_implies_less le_trans not_less_zero le_0_eq neq0_conv)
  then show ?thesis using a h True by (simp add: autoreleaseFast_def)
next
  case False
  have po: "pages_ok st" and hl: "h < length (pages st)" and em: "\<And>j. h < j \<Longrightarrow> j < length (pages st) \<Longrightarrow> page_next (pages st ! j) = 0"
    using ok h by (auto simp: pool_ok_def)
  have "page_next (pages st ! h) < capacity" using False po hl by (auto simp: page_full_def pages_ok_def page_ok_def le_less)
  from add_at_added [OF po hl this order_refl em obj, of opts] obtain d st' where a: "add_at opts obj h st = (d, st')" "added obj h st d st'" by auto
  have "tls st' = Hot h" using a(1) by (auto simp: add_at_def split: prod.splits)
  then have "0 < page_next (pages st' ! h)" using a(2) by (auto simp: added_def)
  then show ?thesis using a h False by (simp add: autoreleaseFast_def)
qed

end
