(* ===== verification/PoolPop.thy ===== *)
theory PoolPop
  imports PoolStack
begin

text \<open>
  Popping a pool: the loop of \<open>releaseUntil\<close> ends, and releases, with their multiplicity, the objects above the token
  and those that the releases autorelease in their turn, whatever the allocator returns.
\<close>

subsection \<open>States reached by releases\<close>

definition grown :: "nat \<Rightarrow> pool_state \<Rightarrow> pool_state \<Rightarrow> bool" where
  "grown h st st' \<longleftrightarrow> pool_ok st' \<and> (\<exists>h' \<ge> h. tls st' = Hot h') \<and> (\<forall>j < h. pages st' ! j = pages st ! j) \<and>
     page_next (pages st ! h) \<le> page_next (pages st' ! h) \<and> length (pages st) \<le> length (pages st') \<and>
     (\<forall>j < length (pages st). page_addr (pages st' ! j) = page_addr (pages st ! j)) \<and>
     (\<forall>k < length (stack st). stack st ! k = 0 \<longrightarrow> take (k + 1) (stack st') = take (k + 1) (stack st)) \<and>
     length (stack st) \<le> length (stack st') \<and>
     (tls st' = Hot h \<and> stack st' = stack st \<or> 0 < page_next (pages st' ! h))"

lemma grown_refl: "pool_ok st \<Longrightarrow> tls st = Hot h \<Longrightarrow> grown h st st"
  by (auto simp: grown_def)

lemma nth_of_take: "take (k + 1) xs = take (k + 1) ys \<Longrightarrow> k < length xs \<Longrightarrow> k < length ys \<Longrightarrow> xs ! k = ys ! k"
  by (metis less_add_one nth_take)

lemma grown_trans:
  assumes 1: "grown h st st1" and h1: "tls st1 = Hot h1" and 2: "grown h1 st1 st2" and hl: "h < length (pages st)"
  shows "grown h st st2"
proof -
  have le: "h \<le> h1" using 1 h1 by (auto simp: grown_def)
  have pn: "page_next (pages st1 ! h) \<le> page_next (pages st2 ! h)" using 2 le by (cases "h = h1") (auto simp: grown_def)
  have "take (k + 1) (stack st2) = take (k + 1) (stack st)" if k: "k < length (stack st)" "stack st ! k = 0" for k
  proof -
    have t: "take (k + 1) (stack st1) = take (k + 1) (stack st)" "k < length (stack st1)" using 1 k by (auto simp: grown_def)
    then have "stack st1 ! k = 0" using nth_of_take [OF t(1) t(2) k(1)] k(2) by simp
    then show ?thesis using 2 t by (auto simp: grown_def)
  qed
  moreover have "tls st2 = Hot h \<and> stack st2 = stack st \<or> 0 < page_next (pages st2 ! h)"
  proof (cases "tls st1 = Hot h \<and> stack st1 = stack st")
    case True
    then show ?thesis using 2 h1 by (auto simp: grown_def)
  next
    case False
    then have "0 < page_next (pages st1 ! h)" using 1 by (auto simp: grown_def)
    then show ?thesis using pn by simp
  qed
  moreover have "\<forall>j < h. pages st2 ! j = pages st ! j" using 1 2 le by (auto simp: grown_def)
  ultimately show ?thesis using 1 2 le pn unfolding grown_def by (auto intro: le_trans)
qed

lemma added_grown:
  assumes ok: "pool_ok st" and h: "tls st = Hot h" and a: "added obj h st d st'" and n: "0 < page_next (pages st' ! h)"
  shows "grown h st st'"
proof -
  have hl: "h < length (pages st)" using ok h by (simp add: pool_ok_def)
  obtain i where i: "h \<le> i" "tls st' = Hot i" "\<forall>j < i. pages st' ! j = pages st ! j"
      "i < length (pages st) \<longrightarrow> page_next (pages st ! i) \<le> page_next (pages st' ! i)" using a by (auto simp: added_def)
  have "page_next (pages st ! h) \<le> page_next (pages st' ! h)" using i hl by (cases "h = i") auto
  then show ?thesis using a i n appended_below [of obj "stack st" "stack st'"] appended_length [of obj "stack st" "stack st'"]
    unfolding grown_def added_def same_frame_def by auto
qed

definition script_ok :: "pool_state \<Rightarrow> bool" where
  "script_ok st \<longleftrightarrow> (\<forall>s \<in> set (scripts st). \<forall>x \<in> set s. good_obj x) \<and> length (concat (scripts st)) \<le> length (page_supply st)"

lemma autorelease_all_ok:
  assumes "pool_ok st" "tls st = Hot h" "\<forall>x \<in> set objs. good_obj x" "length objs \<le> length (page_supply st)"
  shows "\<exists>st'. autorelease_all opts objs st = Some st' \<and> grown h st st' \<and> owed (stack st') = owed (stack st) + mset objs \<and>
    released st' = released st \<and> scripts st' = scripts st \<and> length (stack st') \<le> length (stack st) + length objs \<and>
    length (page_supply st) \<le> length (page_supply st') + length objs"
  using assms
proof (induction objs arbitrary: st h)
  case (Cons x xs)
  have hl: "h < length (pages st)" using Cons.prems(1,2) by (simp add: pool_ok_def)
  have "page_supply st \<noteq> []" using Cons.prems(4) by auto
  from fast_added [OF Cons.prems(1,2) this, of x opts] Cons.prems(3) obtain d st1 where
    1: "autoreleaseFast opts x st = Some (d, st1)" "added x h st d st1" "0 < page_next (pages st1 ! h)" by auto
  have g: "grown h st st1" by (rule added_grown [OF Cons.prems(1,2) 1(2,3)])
  obtain h1 where h1: "tls st1 = Hot h1" using g by (auto simp: grown_def)
  have f: "pool_ok st1" "released st1 = released st" "scripts st1 = scripts st" "length (page_supply st) \<le> length (page_supply st1) + 1"
      "owed (stack st1) = owed (stack st) + {#x#}" "length (stack st1) \<le> length (stack st) + 1"
    using 1(2) appended_owed [of x "stack st" "stack st1"] appended_length [of x "stack st" "stack st1"] Cons.prems(3)
    by (auto simp: added_def same_frame_def good_obj_def)
  from Cons.IH [OF f(1) h1] Cons.prems(3,4) f(4) obtain st2 where
    2: "autorelease_all opts xs st1 = Some st2" "grown h1 st1 st2" "owed (stack st2) = owed (stack st1) + mset xs"
      "released st2 = released st1" "scripts st2 = scripts st1" "length (stack st2) \<le> length (stack st1) + length xs"
      "length (page_supply st1) \<le> length (page_supply st2) + length xs" by auto
  have "grown h st st2" by (rule grown_trans [OF g h1 2(2) hl])
  then show ?case using 1(1) 2 f by auto
qed (simp add: grown_refl)

lemma frame_update: "pool_ok (st\<lparr>released := r, scripts := s\<rparr>) = pool_ok st" "stack (st\<lparr>released := r, scripts := s\<rparr>) = stack st"
  "pool_ok (st\<lparr>released := r\<rparr>) = pool_ok st" "stack (st\<lparr>released := r\<rparr>) = stack st"
  "grown h (st\<lparr>released := r, scripts := s\<rparr>) st' = grown h st st'" "grown h (st\<lparr>released := r\<rparr>) st' = grown h st st'"
  by (simp_all add: pool_ok_def pages_ok_def stack_def grown_def cong: tls_slot.case_cong)

lemma objc_release_ok:
  assumes "pool_ok st" "tls st = Hot h" "script_ok st"
  shows "\<exists>st'. objc_release opts x st = Some st' \<and> grown h st st' \<and> script_ok st' \<and> released st' = released st @ [x] \<and>
    scripts st' = tl (scripts st) \<and> owed (stack st') = owed (stack st) + mset (concat (take 1 (scripts st))) \<and>
    length (stack st') + length (concat (scripts st')) \<le> length (stack st) + length (concat (scripts st))"
proof (cases "scripts st")
  case Nil
  then show ?thesis using assms grown_refl [of "st\<lparr>released := released st @ [x]\<rparr>" h]
    by (simp add: objc_release_def script_ok_def frame_update)
next
  case (Cons s ss)
  let ?st1 = "st\<lparr>released := released st @ [x], scripts := ss\<rparr>"
  have "pool_ok ?st1" "tls ?st1 = Hot h" "\<forall>x \<in> set s. good_obj x" "length s \<le> length (page_supply ?st1)"
    using assms Cons by (auto simp: frame_update script_ok_def)
  from autorelease_all_ok [OF this, of opts] obtain st' where
    "autorelease_all opts s ?st1 = Some st'" "grown h ?st1 st'" "owed (stack st') = owed (stack ?st1) + mset s"
    "released st' = released ?st1" "scripts st' = ss" "length (stack st') \<le> length (stack ?st1) + length s"
    "length (page_supply st) \<le> length (page_supply st') + length s" by auto
  then show ?thesis using assms(3) Cons by (auto simp: objc_release_def script_ok_def frame_update)
qed

lemma release_times_ok:
  assumes "pool_ok st" "tls st = Hot h" "script_ok st"
  shows "\<exists>st'. release_times opts n x st = Some st' \<and> grown h st st' \<and> script_ok st' \<and> released st' = released st @ replicate n x \<and>
    scripts st' = drop n (scripts st) \<and> owed (stack st') = owed (stack st) + mset (concat (take n (scripts st))) \<and>
    length (stack st') + length (concat (scripts st')) \<le> length (stack st) + length (concat (scripts st))"
  using assms
proof (induction n arbitrary: st h)
  case (Suc n)
  have hl: "h < length (pages st)" using Suc.prems(1,2) by (simp add: pool_ok_def)
  from objc_release_ok [OF Suc.prems, of opts x] obtain st1 where
    1: "objc_release opts x st = Some st1" "grown h st st1" "script_ok st1" "released st1 = released st @ [x]" "scripts st1 = tl (scripts st)"
      "owed (stack st1) = owed (stack st) + mset (concat (take 1 (scripts st)))"
      "length (stack st1) + length (concat (scripts st1)) \<le> length (stack st) + length (concat (scripts st))" by auto
  obtain h1 where h1: "tls st1 = Hot h1" "pool_ok st1" using 1(2) by (auto simp: grown_def)
  from Suc.IH [OF h1(2,1) 1(3)] obtain st2 where
    2: "release_times opts n x st1 = Some st2" "grown h1 st1 st2" "script_ok st2" "released st2 = released st1 @ replicate n x"
      "scripts st2 = drop n (scripts st1)" "owed (stack st2) = owed (stack st1) + mset (concat (take n (scripts st1)))"
      "length (stack st2) + length (concat (scripts st2)) \<le> length (stack st1) + length (concat (scripts st1))" by auto
  have "grown h st st2" by (rule grown_trans [OF 1(2) h1(1) 2(2) hl])
  moreover have "mset (concat (take 1 (scripts st))) + mset (concat (take n (tl (scripts st)))) = mset (concat (take (Suc n) (scripts st)))"
    by (cases "scripts st") simp_all
  ultimately show ?case using 1 2 by (auto simp: drop_Suc add.assoc)
qed (simp add: grown_refl)

subsection \<open>The loop\<close>

definition settled :: "pool_state \<Rightarrow> pool_state \<Rightarrow> bool" where
  "settled st st' \<longleftrightarrow> (\<exists>rs. released st' = released st @ rs \<and> scripts st' = drop (length rs) (scripts st) \<and>
     mset rs + owed (stack st') = owed (stack st) + mset (concat (take (length rs) (scripts st))))"

lemma settled_refl [simp]: "settled st st"
  by (auto simp: settled_def)

lemma settled_trans:
  assumes "settled st st1" "settled st1 st2"
  shows "settled st st2"
proof -
  obtain rs vs where 1: "released st1 = released st @ rs" "scripts st1 = drop (length rs) (scripts st)"
      "mset rs + owed (stack st1) = owed (stack st) + mset (concat (take (length rs) (scripts st)))"
    and 2: "released st2 = released st1 @ vs" "scripts st2 = drop (length vs) (scripts st1)"
      "mset vs + owed (stack st2) = owed (stack st1) + mset (concat (take (length vs) (scripts st1)))"
    using assms by (auto simp: settled_def)
  have "mset (rs @ vs) + owed (stack st2) = mset rs + owed (stack st1) + mset (concat (take (length vs) (scripts st1)))"
    using 2(3) by (simp add: add.assoc)
  also have "\<dots> = owed (stack st) + mset (concat (take (length (rs @ vs)) (scripts st)))"
    unfolding 1(3) using 1(2) by (simp add: take_add)
  finally show ?thesis using 1 2 unfolding settled_def by (intro exI [of _ "rs @ vs"]) (simp add: add.commute)
qed

lemma skip_empty_ok:
  assumes "k \<le> h" "page_next (ps ! k) \<noteq> 0"
  shows "\<exists>h'. skip_empty ps h = Some h' \<and> k \<le> h' \<and> h' \<le> h \<and> page_next (ps ! h') \<noteq> 0 \<and> (\<forall>j. h' < j \<and> j \<le> h \<longrightarrow> page_next (ps ! j) = 0)"
  using assms
proof (induction h)
  case (Suc h)
  show ?case
  proof (cases "page_next (ps ! Suc h) = 0")
    case True
    then have "k \<le> h" using Suc.prems by (metis le_SucE)
    then obtain h' where "skip_empty ps h = Some h'" "k \<le> h'" "h' \<le> h" "page_next (ps ! h') \<noteq> 0" "\<forall>j. h' < j \<and> j \<le> h \<longrightarrow> page_next (ps ! j) = 0"
      using Suc by blast
    then show ?thesis using True by (auto simp: page_empty_def le_Suc_eq)
  qed (use Suc.prems in \<open>auto simp: page_empty_def\<close>)
qed (auto simp: page_empty_def)

lemma take_top: "0 < n \<Longrightarrow> n \<le> length xs \<Longrightarrow> take n xs = take (n - 1) xs @ [xs ! (n - 1)]"
  using take_Suc_conv_app_nth [of "n - 1" xs] by simp

lemma active_popped: "0 < page_next p \<Longrightarrow> page_next p \<le> length (slots p) \<Longrightarrow>
  active (p\<lparr>page_next := page_next p - 1, slots := (slots p)[page_next p - 1 := w]\<rparr>) = butlast (active p) \<and>
  active p \<noteq> [] \<and> List.last (active p) = slots p ! (page_next p - 1)"
  using take_top [of "page_next p" "slots p"] by (simp add: active_def)

lemma pages_ok_update:
  assumes "pages_ok st" "i < length (pages st)" "page_ok p" "page_addr p = page_addr (pages st ! i)"
  shows "pages_ok (update_page i p st)"
proof -
  have m: "map page_addr ((pages st)[i := p]) = map page_addr (pages st)" using assms(2,4) by (simp add: map_update list_update_same_conv)
  have "\<forall>q \<in> set ((pages st)[i := p]). page_addr q \<in> page_addr ` set (pages st)" using m by (metis image_eqI list.set_map)
  then have "\<forall>q \<in> set ((pages st)[i := p]). SIZE dvd page_addr q \<and> 0 < page_addr q" using assms(1) by (auto simp: pages_ok_def)
  moreover have "\<forall>q \<in> set ((pages st)[i := p]). page_ok q"
    using assms(1,3) set_update_subset_insert [of "pages st" i p] by (auto simp: pages_ok_def)
  moreover have "distinct (map page_addr ((pages st)[i := p] @ page_supply st))" using assms(1) m by (simp add: pages_ok_def)
  ultimately show ?thesis using assms(1) by (simp add: pages_ok_def update_page_def ball_Un)
qed

text \<open>Taking the top entry of the youngest page that has any.\<close>

lemma pop_entry_ok:
  assumes ok: "pages_ok st" and h: "h < length (pages st)" "page_next (pages st ! h) \<noteq> 0"
    and above: "\<forall>j. h < j \<and> j < length (pages st) \<longrightarrow> page_next (pages st ! j) = 0"
  shows "\<exists>w p. pop_entry h st = (w, st\<lparr>pages := (pages st)[h := p], tls := Hot h\<rparr>) \<and> pool_ok (st\<lparr>pages := (pages st)[h := p], tls := Hot h\<rparr>) \<and>
    stack st = stack (st\<lparr>pages := (pages st)[h := p], tls := Hot h\<rparr>) @ [w] \<and> good_word w \<and>
    page_next p + 1 = page_next (pages st ! h) \<and> page_addr p = page_addr (pages st ! h)"
proof -
  define p where "p = (pages st ! h)\<lparr>page_next := page_next (pages st ! h) - 1, slots := (slots (pages st ! h))[page_next (pages st ! h) - 1 := SCRIBBLE]\<rparr>"
  let ?w = "slots (pages st ! h) ! (page_next (pages st ! h) - 1)"
  have q: "page_ok (pages st ! h)" using ok h(1) by (simp add: pages_ok_def)
  have a: "active p = butlast (active (pages st ! h))" "active (pages st ! h) \<noteq> []" "List.last (active (pages st ! h)) = ?w"
    using active_popped [of "pages st ! h" SCRIBBLE] h(2) q by (auto simp: page_ok_def p_def)
  have pok: "page_ok p" using q a(1) by (auto simp: page_ok_def p_def dest: in_set_butlastD)
  have addr: "page_addr p = page_addr (pages st ! h)" by (simp add: p_def)
  let ?st' = "st\<lparr>pages := (pages st)[h := p], tls := Hot h\<rparr>"
  have "pages_ok ?st'" using pages_ok_update [OF ok h(1) pok addr] by (simp add: update_page_def pages_ok_def)
  then have "pool_ok ?st'" using h(1) above by (auto simp: pool_ok_def)
  moreover have "good_word ?w" using a(2,3) q by (metis last_in_set page_ok_def)
  moreover have "stack st = stack ?st' @ [?w]"
    using concat_update_empty(1) [OF h(1), where p = p] concat_update_empty(2) [OF h(1)] above a
    append_butlast_last_id [OF a(2)] by (simp add: stack_def)
  moreover have "pop_entry h st = (?w, ?st')" by (simp add: pop_entry_def p_def update_page_def Let_def)
  ultimately show ?thesis using h(2) addr by (intro exI [of _ ?w] exI [of _ p]) (simp add: p_def)
qed

definition below :: "nat \<Rightarrow> pool_state \<Rightarrow> u64 list" where "below this st = concat (map active (take this (pages st)))"

text \<open>While the loop runs for a token in slot \<open>stop\<close> of page \<open>this\<close>: what lies under the token is as it was; until it is
  reached, the page has something above the token, and the token's boundary is there unless it is the very first slot.\<close>

definition loop_inv :: "nat \<Rightarrow> nat \<Rightarrow> u64 list \<Rightarrow> pool_state \<Rightarrow> bool" where
  "loop_inv this stop base st \<longleftrightarrow> pool_ok st \<and> script_ok st \<and> this < length (pages st) \<and> (\<exists>h \<ge> this. tls st = Hot h) \<and>
     length (below this st) + stop = length base \<and> take (length base) (stack st) = base \<and>
     (stack st = base \<and> stop = page_next (pages st ! this) \<or>
      stop < page_next (pages st ! this) \<and> length base < length (stack st) \<and> (stack st ! length base = 0 \<or> this = 0 \<and> stop = 0))"

lemma hot_above: "pool_ok st \<Longrightarrow> tls st = Hot h \<Longrightarrow> h < length (pages st) \<and> (\<forall>j. h < j \<and> j < length (pages st) \<longrightarrow> page_next (pages st ! j) = 0)"
  by (simp add: pool_ok_def)

lemma stack_split:
  assumes "pages_ok st" "this < length (pages st)"
  shows "stack st = below this st @ active (pages st ! this) @ concat (map active (drop (this + 1) (pages st)))"
    "length (active (pages st ! this)) = page_next (pages st ! this)"
proof -
  have "pages st = take this (pages st) @ pages st ! this # drop (this + 1) (pages st)" using assms(2) by (simp add: id_take_nth_drop)
  then have "stack st = concat (map active (take this (pages st) @ pages st ! this # drop (this + 1) (pages st)))" unfolding stack_def by simp
  then show "stack st = below this st @ active (pages st ! this) @ concat (map active (drop (this + 1) (pages st)))"
    by (simp add: below_def)
  show "length (active (pages st ! this)) = page_next (pages st ! this)"
    using assms by (intro length_active) (simp add: pages_ok_def)
qed

lemma stack_bound:
  assumes "pages_ok st" "this < length (pages st)"
  shows "length (below this st) + page_next (pages st ! this) \<le> length (stack st)"
    "\<forall>j. this < j \<and> j < length (pages st) \<longrightarrow> page_next (pages st ! j) = 0 \<Longrightarrow> length (stack st) = length (below this st) + page_next (pages st ! this)"
proof -
  show "length (below this st) + page_next (pages st ! this) \<le> length (stack st)"
    using stack_split(1) [OF assms] stack_split(2) [OF assms] by simp
  assume "\<forall>j. this < j \<and> j < length (pages st) \<longrightarrow> page_next (pages st ! j) = 0"
  then have "concat (map active (drop (this + 1) (pages st))) = []" by (auto simp: in_set_conv_nth)
  then show "length (stack st) = length (below this st) + page_next (pages st ! this)"
    using stack_split(1) [OF assms] stack_split(2) [OF assms] by (metis append_Nil2 length_append)
qed

lemma grown_below: "grown h st st' \<Longrightarrow> this \<le> h \<Longrightarrow> h < length (pages st) \<Longrightarrow> below this st' = below this st"
proof -
  assume g: "grown h st st'" "this \<le> h" "h < length (pages st)"
  have "length (pages st) \<le> length (pages st')" using g(1) by (simp add: grown_def)
  moreover have "\<forall>j < h. pages st' ! j = pages st ! j" using g(1) by (simp add: grown_def)
  ultimately have "take this (pages st') = take this (pages st)" using g(2,3) by (intro nth_equalityI) auto
  then show ?thesis by (simp add: below_def)
qed

lemma grown_keeps_base:
  assumes "grown h st st'" "length base < length (stack st)" "stack st ! length base = 0" "take (length base) (stack st) = base"
  shows "take (length base) (stack st') = base" "length base < length (stack st')" "stack st' ! length base = 0"
proof -
  have g: "take (length base + 1) (stack st') = take (length base + 1) (stack st)" "length (stack st) \<le> length (stack st')"
    using assms(1-3) by (auto simp: grown_def)
  show "length base < length (stack st')" using g(2) assms(2) by simp
  then show "stack st' ! length base = 0" using nth_of_take [OF g(1)] assms(2,3) by simp
  have "take (length base) (take (length base + 1) (stack st')) = take (length base) (take (length base + 1) (stack st))" using g(1) by simp
  then show "take (length base) (stack st') = base" using assms(4) by simp
qed

text \<open>Releases keep the invariant of the loop.\<close>

lemma grown_inv_first:
  assumes g: "grown 0 st st'" and s: "script_ok st'" and l: "0 < length (pages st)" and e: "stack st = []" "page_next (pages st ! 0) = 0"
  shows "loop_inv 0 0 [] st'"
proof -
  have ok: "pages_ok st'" "pool_ok st'" and l': "0 < length (pages st')" using g l by (auto simp: grown_def pool_ok_def)
  have h: "\<exists>h \<ge> 0. tls st' = Hot h" using g by (auto simp: grown_def)
  have b: "page_next (pages st' ! 0) \<le> length (stack st')" using stack_bound(1) [OF ok(1) l'] by simp
  consider "stack st' = []" "tls st' = Hot 0" | "0 < page_next (pages st' ! 0)" using g e by (auto simp: grown_def)
  then show ?thesis using b s ok h l' by cases (auto simp: loop_inv_def below_def)
qed

lemma grown_inv:
  assumes g: "grown h st st'" and s: "script_ok st'" and i: "loop_inv this stop base st" and h: "tls st = Hot h" and more: "stack st \<noteq> base"
  shows "loop_inv this stop base st'"
proof -
  have le: "this \<le> h" and lt: "this < length (pages st)" "h < length (pages st)" using i h by (auto simp: loop_inv_def pool_ok_def)
  have n: "stop < page_next (pages st ! this)" "length base < length (stack st)" "stack st ! length base = 0 \<or> this = 0 \<and> stop = 0"
    "take (length base) (stack st) = base" "length (below this st) + stop = length base"
    using i more by (auto simp: loop_inv_def)
  have "stop < page_next (pages st' ! this)" using g n(1) le by (cases "this = h") (auto simp: grown_def)
  moreover have "take (length base) (stack st') = base \<and> length base < length (stack st') \<and> (stack st' ! length base = 0 \<or> this = 0 \<and> stop = 0)"
  proof (cases "stack st ! length base = 0")
    case True
    then show ?thesis using grown_keeps_base [OF g n(2) _ n(4)] by simp
  next
    case False
    then have z: "this = 0" "stop = 0" using n(3) by auto
    then have "base = []" using n(5) by (simp add: below_def)
    then show ?thesis using z g n(2) by (auto simp: grown_def)
  qed
  moreover have "below this st' = below this st" by (rule grown_below [OF g le lt(2)])
  moreover have "pool_ok st'" "this < length (pages st')" "\<exists>h' \<ge> this. tls st' = Hot h'" using g le lt by (auto simp: grown_def intro: le_trans)
  ultimately show ?thesis using s n unfolding loop_inv_def by auto
qed

text \<open>The entry taken off is released as often as it counts.\<close>

lemma release_entry_ok:
  assumes ok: "pool_ok st1" "tls st1 = Hot h" "script_ok st1" and w: "stack st = stack st1 @ [w]" "good_word w"
    and same: "released st1 = released st" "scripts st1 = scripts st"
  shows "\<exists>st2. (if entry_ptr w \<noteq> 0 then release_times opts (entry_count w + 1) (entry_ptr w) st1 else Some st1) = Some st2 \<and>
    grown h st1 st2 \<and> script_ok st2 \<and> settled st st2 \<and> (w = 0 \<longrightarrow> st2 = st1) \<and>
    length (stack st2) + length (concat (scripts st2)) < length (stack st) + length (concat (scripts st))"
proof (cases "w = 0")
  case True
  have "settled st st1" unfolding settled_def using w(1) same True by (intro exI [of _ "[]"]) simp
  then show ?thesis using True grown_refl [OF ok(1,2)] ok(3) w(1) same by (auto simp: entry_ptr_def)
next
  case False
  then have wp: "entry_ptr w \<noteq> 0" using w(2) by (simp add: good_word_def)
  from release_times_ok [OF ok, of opts "entry_count w + 1" "entry_ptr w"] obtain st2 where
    r: "release_times opts (entry_count w + 1) (entry_ptr w) st1 = Some st2" "grown h st1 st2" "script_ok st2"
      "released st2 = released st1 @ replicate (entry_count w + 1) (entry_ptr w)" "scripts st2 = drop (entry_count w + 1) (scripts st1)"
      "owed (stack st2) = owed (stack st1) + mset (concat (take (entry_count w + 1) (scripts st1)))"
      "length (stack st2) + length (concat (scripts st2)) \<le> length (stack st1) + length (concat (scripts st1))" by blast
  have "settled st st2" unfolding settled_def using r(4-6) w(1) False same
    by (intro exI [of _ "replicate (entry_count w + 1) (entry_ptr w)"]) (simp add: entry_objs_def del: replicate_Suc)
  then show ?thesis using r wp False w(1) same by auto
qed

definition kept :: "nat \<Rightarrow> pool_state \<Rightarrow> pool_state \<Rightarrow> bool" where
  "kept this st st' \<longleftrightarrow> take this (pages st') = take this (pages st) \<and> page_addr (pages st' ! this) = page_addr (pages st ! this)"

lemma kept_refl [simp]: "kept this st st"
  by (simp add: kept_def)

lemma kept_trans: "kept this st st1 \<Longrightarrow> kept this st1 st2 \<Longrightarrow> kept this st st2"
  by (simp add: kept_def)

lemma grown_kept: "grown h st st' \<Longrightarrow> this \<le> h \<Longrightarrow> h < length (pages st) \<Longrightarrow> kept this st st'"
  unfolding kept_def grown_def by (intro conjI nth_equalityI) auto

text \<open>One step: something is released or forgotten, and the work left is less.\<close>

lemma release_top_ok:
  assumes inv: "loop_inv this stop base st" and ne: "page_next (pages st ! this) \<noteq> stop"
  shows "\<exists>st'. release_top opts st = Some st' \<and> loop_inv this stop base st' \<and> settled st st' \<and> kept this st st' \<and>
    length (stack st') + length (concat (scripts st')) < length (stack st) + length (concat (scripts st))"
proof -
  obtain h0 where h0: "this \<le> h0" "tls st = Hot h0" using inv by (auto simp: loop_inv_def)
  have i: "pool_ok st" "script_ok st" "this < length (pages st)" "length (below this st) + stop = length base" "take (length base) (stack st) = base"
      "stop < page_next (pages st ! this)" "length base < length (stack st)" "stack st ! length base = 0 \<or> this = 0 \<and> stop = 0"
    using inv ne by (auto simp: loop_inv_def)
  have po: "pages_ok st" using i(1) by (simp add: pool_ok_def)
  have ne0: "page_next (pages st ! this) \<noteq> 0" using i(6) by simp
  from skip_empty_ok [of this h0 "pages st", OF h0(1) ne0] obtain h where
    h: "skip_empty (pages st) h0 = Some h" "this \<le> h" "h \<le> h0" "page_next (pages st ! h) \<noteq> 0" "\<forall>j. h < j \<and> j \<le> h0 \<longrightarrow> page_next (pages st ! j) = 0"
    by blast
  have ab: "h < length (pages st)" "\<forall>j. h < j \<and> j < length (pages st) \<longrightarrow> page_next (pages st ! j) = 0"
    using hot_above [OF i(1) h0(2)] h(3,5) by (auto simp: not_le) (metis not_le)
  from pop_entry_ok [OF po ab(1) h(4) ab(2)] obtain w p where
    e: "pop_entry h st = (w, st\<lparr>pages := (pages st)[h := p], tls := Hot h\<rparr>)" "pool_ok (st\<lparr>pages := (pages st)[h := p], tls := Hot h\<rparr>)"
      "stack st = stack (st\<lparr>pages := (pages st)[h := p], tls := Hot h\<rparr>) @ [w]" "good_word w" "page_next p + 1 = page_next (pages st ! h)" "page_addr p = page_addr (pages st ! h)" by blast
  let ?st1 = "st\<lparr>pages := (pages st)[h := p], tls := Hot h\<rparr>"
  have po1: "pages_ok ?st1" using e(2) by (simp add: pool_ok_def)
  have b1: "below this ?st1 = below this st" using h(2) by (simp add: below_def)
  have s1: "script_ok ?st1" using i(2) by (simp add: script_ok_def)
  have n1: "page_next (pages ?st1 ! this) = page_next (pages st ! this) - (if h = this then 1 else 0)" using e(5) i(3) by auto
  have le: "length base \<le> length (stack ?st1)" using i(7) e(3) by (metis length_append_singleton less_Suc_eq_le)
  then have pref1: "take (length base) (stack ?st1) = base" using i(5) e(3) by (metis append_Nil2 diff_is_0_eq take0 take_append)
  from release_entry_ok [OF e(2) _ s1 e(3,4), of h opts] obtain st2 where
    r: "(if entry_ptr w \<noteq> 0 then release_times opts (entry_count w + 1) (entry_ptr w) ?st1 else Some ?st1) = Some st2"
      "grown h ?st1 st2" "script_ok st2" "settled st st2" "w = 0 \<longrightarrow> st2 = ?st1"
      "length (stack st2) + length (concat (scripts st2)) < length (stack st) + length (concat (scripts st))" by auto
  have "loop_inv this stop base st2"
  proof (cases "length (stack ?st1) = length base")
    case True
    then have bs: "stack ?st1 = base" using pref1 by simp
    have "length (below this ?st1) + page_next (pages ?st1 ! this) \<le> length base" using stack_bound(1) [OF po1, of this] i(3) bs by simp
    then have h_this: "h = this" "page_next (pages ?st1 ! this) = stop" using b1 i(4,6) n1 by (auto split: if_splits)
    show ?thesis
    proof (cases "w = 0")
      case w: True
      then show ?thesis using r(5) e(2) s1 i(3,4) b1 bs h_this by (auto simp: loop_inv_def)
    next
      case w: False
      then have "this = 0" "stop = 0" "base = []" using i(4,8) e(3) bs by (auto simp: below_def)
      then show ?thesis using grown_inv_first [of ?st1 st2] r(2,3) h_this bs i(3) by simp
    qed
  next
    case False
    then have len: "length base < length (stack ?st1)" using le by simp
    have "stop < page_next (pages ?st1 ! this)"
    proof (cases "h = this")
      case True
      then have "length (stack ?st1) = length (below this st) + page_next (pages ?st1 ! this)"
        using stack_bound(2) [OF po1, of this] ab i(3) b1 by simp
      then show ?thesis using len i(4) by simp
    qed (use i(6) n1 in simp)
    moreover have "stack ?st1 ! length base = 0 \<or> this = 0 \<and> stop = 0" using i(8) e(3) len by (metis nth_append)
    ultimately have "loop_inv this stop base ?st1" using e(2) s1 i(3,4) h(2) b1 pref1 len by (auto simp: loop_inv_def)
    then show ?thesis by (rule grown_inv [OF r(2,3)]) (use len in auto)
  qed
  moreover have "kept this st st2"
    using grown_kept [OF r(2) h(2)] kept_trans [of this st ?st1 st2] ab(1) h(2) e(6) by (cases "h = this") (auto simp: kept_def)
  ultimately show ?thesis using r(1,4,6) h(1) h0(2) e(1) by (auto simp: release_top_def POOL_BOUNDARY_def split: if_splits)
qed

lemma until_loop_ok:
  assumes "loop_inv this stop base st"
  shows "\<exists>st'. until_loop opts this stop st = Some st' \<and> loop_inv this stop base st' \<and> settled st st' \<and> kept this st st' \<and>
    page_next (pages st' ! this) = stop"
  using assms
proof (induction "length (stack st) + length (concat (scripts st))" arbitrary: st rule: less_induct)
  case less
  show ?case
  proof (cases "page_next (pages st ! this) = stop")
    case True
    then show ?thesis using less.prems by (auto simp: until_loop.simps)
  next
    case False
    from release_top_ok [OF less.prems False, of opts] obtain st1 where
      1: "release_top opts st = Some st1" "loop_inv this stop base st1" "settled st st1" "kept this st st1"
        "length (stack st1) + length (concat (scripts st1)) < length (stack st) + length (concat (scripts st))" by blast
    from less.hyps [OF 1(5,2)] obtain st2 where "until_loop opts this stop st1 = Some st2" "loop_inv this stop base st2"
        "settled st1 st2" "kept this st1 st2" "page_next (pages st2 ! this) = stop" by blast
    then show ?thesis using 1 False settled_trans [of st st1 st2] kept_trans [of this st st1 st2] by (auto simp: until_loop.simps [of _ _ _ st])
  qed
qed

subsection \<open>Popping to a page\<close>

lemma releaseUntil_ok:
  assumes "loop_inv this stop base st"
  shows "\<exists>st'. releaseUntil opts this stop st = Some st' \<and> pool_ok st' \<and> script_ok st' \<and> stack st' = base \<and> settled st st' \<and> kept this st st' \<and>
    page_next (pages st' ! this) = stop \<and> tls st' = Hot this \<and> this < length (pages st')"
proof -
  from until_loop_ok [OF assms, of opts] obtain st1 where
    1: "until_loop opts this stop st = Some st1" "loop_inv this stop base st1" "settled st st1" "kept this st st1" "page_next (pages st1 ! this) = stop"
    by blast
  have s: "stack st1 = base" "pages_ok st1" "this < length (pages st1)" "length (below this st1) + stop = length base" "script_ok st1"
    using 1(2,5) by (auto simp: loop_inv_def pool_ok_def)
  have e: "concat (map active (drop (this + 1) (pages st1))) = []"
    using stack_split [OF s(2,3)] s(1,4) 1(5) by (metis add_diff_cancel_left' append_assoc diff_self_eq_0 length_0_conv length_append)
  have "page_next (pages st1 ! j) = 0" if j: "this < j" "j < length (pages st1)" for j
  proof -
    have "pages st1 ! j = drop (this + 1) (pages st1) ! (j - (this + 1))" "j - (this + 1) < length (drop (this + 1) (pages st1))" using j by simp_all
    then have "pages st1 ! j \<in> set (drop (this + 1) (pages st1))" using nth_mem by metis
    then have "active (pages st1 ! j) = []" using e by auto
    then show ?thesis using length_active [of "pages st1 ! j"] s(2) j(2) by (simp add: pages_ok_def)
  qed
  then have "pool_ok (st1\<lparr>tls := Hot this\<rparr>)" using s(2,3) by (auto simp: pool_ok_def pages_ok_def)
  moreover have "stack (st1\<lparr>tls := Hot this\<rparr>) = stack st1" "script_ok (st1\<lparr>tls := Hot this\<rparr>) = script_ok st1"
    "settled st (st1\<lparr>tls := Hot this\<rparr>) = settled st st1" "kept this st (st1\<lparr>tls := Hot this\<rparr>) = kept this st st1"
    by (simp_all add: stack_def script_ok_def settled_def kept_def)
  ultimately show ?thesis using 1 s by (auto simp: releaseUntil_def)
qed

lemma pages_ok_kill: "pages_ok st \<Longrightarrow> pages_ok (kill n st)"
proof -
  assume ok: "pages_ok st"
  then have d: "distinct (map page_addr (pages st) @ map page_addr (page_supply st))" by (simp add: pages_ok_def)
  then have "distinct (take n (map page_addr (pages st)) @ map page_addr (page_supply st))" using d by (auto simp del: distinct_map set_map dest: in_set_takeD)
  moreover have "\<forall>p \<in> set (take n (pages st)). page_ok p \<and> SIZE dvd page_addr p \<and> 0 < page_addr p"
  proof
    fix p assume "p \<in> set (take n (pages st))"
    then have "p \<in> set (pages st)" by (rule in_set_takeD)
    then show "page_ok p \<and> SIZE dvd page_addr p \<and> 0 < page_addr p" using ok by (simp add: pages_ok_def)
  qed
  moreover have "\<forall>p \<in> set (page_supply st). length (slots p) = capacity \<and> SIZE dvd page_addr p \<and> 0 < page_addr p"
    using ok unfolding pages_ok_def by simp
  moreover have "map page_addr (take n (pages st) @ page_supply st) = take n (map page_addr (pages st)) @ map page_addr (page_supply st)"
    by (simp add: take_map)
  ultimately show ?thesis by (simp add: pages_ok_def kill_def ball_Un del: map_append)
qed

text \<open>Which pages survive: those that are not empty always do.\<close>

lemma kill_ok:
  assumes "pool_ok st" "tls st = Hot this" "this < n"
  shows "pool_ok (kill n st)" "stack (kill n st) = stack st"
proof -
  have o: "pages_ok st" "this < length (pages st)" "\<forall>j. this < j \<and> j < length (pages st) \<longrightarrow> page_next (pages st ! j) = 0"
    using assms(1,2) by (auto simp: pool_ok_def)
  have "pages_ok (kill n st)" by (rule pages_ok_kill [OF o(1)])
  then show "pool_ok (kill n st)" using o assms(2,3) by (auto simp: pool_ok_def kill_def)
  have "concat (map active (drop n (pages st))) = []" using o(3) assms(3) by (auto simp: in_set_conv_nth)
  then show "stack (kill n st) = stack st"
    unfolding stack_def kill_def by (metis append_Nil2 append_take_drop_id concat_append map_append pool_state.select_convs(1) pool_state.surjective pool_state.update_convs(1))
qed

lemma kill_this_ok:
  assumes "pool_ok st" "tls st = Hot this" "page_next (pages st ! this) = 0"
  shows "pool_ok ((kill this st)\<lparr>tls := parent_slot this\<rparr>)" "stack ((kill this st)\<lparr>tls := parent_slot this\<rparr>) = stack st"
proof -
  have o: "pages_ok st" "this < length (pages st)" "\<forall>j. this < j \<and> j < length (pages st) \<longrightarrow> page_next (pages st ! j) = 0"
    using assms(1,2) by (auto simp: pool_ok_def)
  have "pages_ok ((kill this st)\<lparr>tls := parent_slot this\<rparr>)" using pages_ok_kill [OF o(1), of this] by (simp add: pages_ok_def)
  then show "pool_ok ((kill this st)\<lparr>tls := parent_slot this\<rparr>)" using o(2) by (auto simp: pool_ok_def kill_def parent_slot_def)
  have "length (stack st) = length (below this st)" using stack_bound(2) [OF o(1,2)] o(3) assms(3) by simp
  then have "stack st = below this st" using stack_split(1) [OF o(1,2)] by simp
  then show "stack ((kill this st)\<lparr>tls := parent_slot this\<rparr>) = stack st" by (simp add: stack_def kill_def below_def)
qed

lemma popPage_ok:
  assumes "loop_inv this stop base st"
  shows "\<exists>st'. popPage opts this stop st = Some st' \<and> pool_ok st' \<and> script_ok st' \<and> stack st' = base \<and> settled st st' \<and>
    tls st' \<noteq> Placeholder \<and> take this (pages st') = take this (pages st) \<and>
    (0 < stop \<longrightarrow> this < length (pages st') \<and> page_addr (pages st' ! this) = page_addr (pages st ! this) \<and> page_next (pages st' ! this) = stop)"
proof -
  from releaseUntil_ok [OF assms, of opts] obtain st1 where
    1: "releaseUntil opts this stop st = Some st1" "pool_ok st1" "script_ok st1" "stack st1 = base" "settled st st1" "kept this st st1"
      "page_next (pages st1 ! this) = stop" "tls st1 = Hot this" "this < length (pages st1)" by blast
  have frame: "settled st (kill n st1\<lparr>tls := t\<rparr>)" "script_ok (kill n st1\<lparr>tls := t\<rparr>)" "settled st (kill n st1)" "script_ok (kill n st1)"
    if "stack (kill n st1\<lparr>tls := t\<rparr>) = stack st1" for n t
    using 1(3,5) that by (simp_all add: settled_def script_ok_def kill_def stack_def)
  have thk: "take this (pages st1) = take this (pages st)" "page_addr (pages st1 ! this) = page_addr (pages st ! this)" using 1(6) by (simp_all add: kept_def)
  consider (gone) "stop = 0" "popPage opts this stop st = Some ((kill this st1)\<lparr>tls := parent_slot this\<rparr>)"
    | (cut) n where "this < n" "popPage opts this stop st = Some (kill n st1)" | (all) "popPage opts this stop st = Some st1"
  proof -
    have p: "popPage opts this stop st =
        Some (if DebugPoolAllocation opts \<and> page_empty (pages st1 ! this) then (kill this st1)\<lparr>tls := parent_slot this\<rparr>
                else if DebugMissingPools opts \<and> page_empty (pages st1 ! this) \<and> this = 0 then (kill this st1)\<lparr>tls := NoPage\<rparr>
                else if this + 1 < length (pages st1) then
                  (if lessThanHalfFull (pages st1 ! this) then kill (this + 1) st1
                   else if this + 2 < length (pages st1) then kill (this + 2) st1
                   else st1)
                else st1)" using 1(1) by (simp add: popPage_def)
    show thesis
      using p gone all cut [of "this + 1"] cut [of "this + 2"] 1(7) by (auto simp: page_empty_def parent_slot_def split: if_splits)
  qed
  then show ?thesis
  proof cases
    case gone
    note k = kill_this_ok [OF 1(2,8)]
    show ?thesis using gone k 1(4,7) thk frame [where n = this and t = "parent_slot this"] by (auto simp: kill_def parent_slot_def)
  next
    case (cut n)
    note k = kill_ok [OF 1(2,8) cut(1)]
    have "stack (kill n st1\<lparr>tls := t\<rparr>) = stack st1" for t using k(2) by (simp add: stack_def)
    then show ?thesis using cut k 1(4,7,8,9) thk frame [where n = n] by (auto simp: kill_def min_def)
  next
    case all
    then show ?thesis using 1 thk by auto
  qed
qed

end
