(* ===== verification/PoolFrames.thy ===== *)
theory PoolFrames
  imports PoolPop
begin

text \<open>
  Autorelease pools as nested frames: a pool is the multiset of objects autoreleased while it was the innermost
  one. Pages, coalescing and the placeholder implement pushing a frame, adding to the innermost frame, and
  cutting the frames back to a token's depth.
\<close>

subsection \<open>Frames\<close>

fun frames :: "u64 list \<Rightarrow> u64 multiset list" where
  "frames [] = [{#}]"
| "frames (w # ws) = (if w = 0 then {#} # frames ws else (entry_objs w + hd (frames ws)) # tl (frames ws))"

definition add_top :: "u64 \<Rightarrow> u64 multiset list \<Rightarrow> u64 multiset list" where
  "add_top obj fs = butlast fs @ [List.last fs + {#obj#}]"

lemma frames_not_Nil [simp]: "frames ws \<noteq> []"
  by (cases ws) auto

lemma frames_boundary: "frames (a @ 0 # b) = frames a @ frames b"
  by (induction a) auto

lemma frames_objs: "0 \<notin> set suf \<Longrightarrow> frames suf = [owed suf]"
  by (induction suf) auto

lemma butlast_Cons_hd: "fs \<noteq> [] \<Longrightarrow> butlast (x # fs) = x # butlast fs \<and> List.last (x # fs) = List.last fs"
  by simp

lemma frames_append: "0 \<notin> set suf \<Longrightarrow> frames (pre @ suf) = butlast (frames pre) @ [List.last (frames pre) + owed suf]"
proof (induction pre)
  case Nil
  then show ?case by (simp add: frames_objs)
next
  case (Cons w ws)
  then have ih: "frames (ws @ suf) = butlast (frames ws) @ [List.last (frames ws) + owed suf]" by simp
  obtain f fs where f: "frames ws = f # fs" using frames_not_Nil by (metis list.exhaust)
  show ?case using ih f by (cases fs) (auto simp: add.assoc)
qed

lemma sum_frames: "sum_list (frames ws) = owed ws"
proof (induction ws)
  case (Cons w ws)
  obtain f fs where "frames ws = f # fs" using frames_not_Nil by (metis list.exhaust)
  then show ?case using Cons by (auto simp: add.assoc)
qed simp

lemma appended_frames:
  assumes "appended obj ws ws'"
  shows "frames ws' = (if obj = 0 then frames ws @ [{#}] else add_top obj (frames ws))"
proof (cases "obj = 0")
  case True
  then have "frames ws' = frames (ws @ 0 # [])" using assms by (simp add: appended_def)
  then show ?thesis using True by (simp only: frames_boundary) simp
next
  case False
  then obtain pre suf suf' where "ws = pre @ suf" "ws' = pre @ suf'" "0 \<notin> set suf" "0 \<notin> set suf'" "owed suf' = owed suf + {#obj#}"
    using assms by (auto simp: appended_def)
  then show ?thesis using False by (simp add: frames_append add_top_def add.assoc)
qed

text \<open>What a pop at a boundary owes is what the frames above it hold.\<close>

lemma frames_cut:
  assumes "k < length ws" "ws ! k = 0"
  shows "frames ws = frames (take k ws) @ frames (drop (k + 1) ws)" "owed (drop k ws) = sum_list (frames (drop (k + 1) ws))"
proof -
  have "ws = take k ws @ 0 # drop (k + 1) ws" using assms by (metis Suc_eq_plus1 id_take_nth_drop)
  then show "frames ws = frames (take k ws) @ frames (drop (k + 1) ws)" using frames_boundary by metis
  have "drop k ws = 0 # drop (k + 1) ws" using assms by (metis Cons_nth_drop_Suc Suc_eq_plus1)
  then show "owed (drop k ws) = sum_list (frames (drop (k + 1) ws))" by (simp add: sum_frames)
qed

subsection \<open>Tokens\<close>

definition pool_frames :: "pool_state \<Rightarrow> u64 multiset list" where
  "pool_frames st = (if tls st = Placeholder then [{#}, {#}] else frames (stack st))"

definition boundary_at :: "pool_state \<Rightarrow> nat \<Rightarrow> nat \<Rightarrow> bool" where
  "boundary_at st this stop \<longleftrightarrow> this < length (pages st) \<and> stop < page_next (pages st ! this) \<and> slots (pages st ! this) ! stop = 0"

definition token_depth :: "pool_state \<Rightarrow> nat \<Rightarrow> nat \<Rightarrow> nat" where
  "token_depth st this stop = length (frames (take (length (below this st) + stop) (stack st)))"

text \<open>A token for the frame at depth \<open>d\<close>: the address of its boundary, or the placeholder for the first pool.\<close>

definition valid_token :: "pool_state \<Rightarrow> nat \<Rightarrow> nat \<Rightarrow> bool" where
  "valid_token st d token \<longleftrightarrow>
     token = EMPTY_POOL_PLACEHOLDER \<and> d = 1 \<and> (tls st = Placeholder \<or> boundary_at st 0 0) \<or>
     (\<exists>this stop. boundary_at st this stop \<and> token = page_begin (pages st ! this) + sizeof_id * stop \<and> d = token_depth st this stop)"

lemma boundary_in_stack:
  assumes "pages_ok st" "this < length (pages st)" "stop < page_next (pages st ! this)"
  shows "length (below this st) + stop < length (stack st)" "stack st ! (length (below this st) + stop) = slots (pages st ! this) ! stop"
    "take (length (below this st)) (stack st) = below this st"
proof -
  note s = stack_split [OF assms(1,2)]
  show "length (below this st) + stop < length (stack st)" using s assms(3) by simp
  have "active (pages st ! this) ! stop = slots (pages st ! this) ! stop" using assms(3) by (simp add: active_def)
  then show "stack st ! (length (below this st) + stop) = slots (pages st ! this) ! stop"
    using s assms(3) by (simp add: nth_append)
  show "take (length (below this st)) (stack st) = below this st" using s(1) by simp
qed

lemma boundary_kept:
  assumes ok: "pages_ok st" "pages_ok st'" and b: "boundary_at st this stop" and keep: "below this st' = below this st" "this < length (pages st')"
    and n: "stop < page_next (pages st' ! this)"
    and t: "take (length (below this st) + stop + 1) (stack st') = take (length (below this st) + stop + 1) (stack st)"
  shows "boundary_at st' this stop" "token_depth st' this stop = token_depth st this stop"
proof -
  let ?k = "length (below this st) + stop"
  have 1: "?k < length (stack st)" "stack st ! ?k = 0" using boundary_in_stack [OF ok(1)] b by (auto simp: boundary_at_def)
  have 2: "?k < length (stack st')" "stack st' ! ?k = slots (pages st' ! this) ! stop"
    using boundary_in_stack [OF ok(2) keep(2) n] keep(1) by simp_all
  show "boundary_at st' this stop" using nth_of_take [OF t 2(1) 1(1)] 1(2) 2(2) keep(2) n by (simp add: boundary_at_def)
  have "take ?k (take (?k + 1) (stack st')) = take ?k (take (?k + 1) (stack st))" using t by simp
  then show "token_depth st' this stop = token_depth st this stop" by (simp add: token_depth_def keep(1))
qed

subsection \<open>Adding\<close>

lemma added_frames:
  assumes ok: "pool_ok st" "tls st = Hot h" and a: "added obj h st d st'"
  shows "pool_frames st' = (if obj = 0 then pool_frames st @ [{#}] else add_top obj (pool_frames st))"
proof -
  obtain i where "tls st' = Hot i" using a by (auto simp: added_def)
  then show ?thesis using appended_frames [of obj "stack st" "stack st'"] a ok by (simp add: added_def pool_frames_def)
qed

lemma added_boundary_kept:
  assumes ok: "pool_ok st" "tls st = Hot h" and a: "added obj h st d st'" and b: "boundary_at st this stop"
  shows "boundary_at st' this stop \<and> token_depth st' this stop = token_depth st this stop \<and>
    page_begin (pages st' ! this) = page_begin (pages st ! this)"
proof -
  obtain i where i: "h \<le> i" "\<forall>j < i. pages st' ! j = pages st ! j" "i < length (pages st) \<longrightarrow> page_next (pages st ! i) \<le> page_next (pages st' ! i)"
    using a by (auto simp: added_def)
  have po: "pages_ok st" "pages_ok st'" using ok a by (simp_all add: pool_ok_def added_def)
  have tl: "this < length (pages st)" "stop < page_next (pages st ! this)" using b by (auto simp: boundary_at_def)
  have th: "this \<le> h" using hot_above [OF ok] tl by (metis not_le not_less_zero)
  have len: "length (pages st) \<le> length (pages st')" "\<forall>j < length (pages st). page_addr (pages st' ! j) = page_addr (pages st ! j)"
    using a by (simp_all add: added_def same_frame_def)
  have "take this (pages st') = take this (pages st)" using i th tl len by (intro nth_equalityI) auto
  then have bl: "below this st' = below this st" by (simp add: below_def)
  have n: "stop < page_next (pages st' ! this)" using i th tl by (cases "this = i") (auto intro: less_le_trans)
  have k: "length (below this st) + stop < length (stack st)" "stack st ! (length (below this st) + stop) = 0"
    using boundary_in_stack [OF po(1) tl] b by (simp_all add: boundary_at_def)
  have "appended obj (stack st) (stack st')" using a by (simp add: added_def)
  from appended_below [OF this k] show ?thesis using boundary_kept [OF po b bl _ n] tl(1) len by (simp add: page_begin_def)
qed

lemma valid_token_hot:
  assumes "tls st \<noteq> Placeholder"
  shows "valid_token st d token \<longleftrightarrow>
    (\<exists>this stop. boundary_at st this stop \<and> d = token_depth st this stop \<and>
       (token = page_begin (pages st ! this) + sizeof_id * stop \<or> token = EMPTY_POOL_PLACEHOLDER \<and> this = 0 \<and> stop = 0))"
proof -
  have "token_depth st 0 0 = 1" by (simp add: token_depth_def below_def)
  then show ?thesis using assms unfolding valid_token_def by metis
qed

definition tokens_kept :: "pool_state \<Rightarrow> pool_state \<Rightarrow> bool" where
  "tokens_kept st st' \<longleftrightarrow> (\<forall>d token. valid_token st d token \<longrightarrow> valid_token st' d token)"

lemma added_tokens_kept:
  assumes ok: "pool_ok st" "tls st = Hot h" and a: "added obj h st d st'"
  shows "tokens_kept st st'"
  unfolding tokens_kept_def
proof (intro allI impI)
  fix e token assume v: "valid_token st e token"
  have ts: "tls st \<noteq> Placeholder" "tls st' \<noteq> Placeholder" using ok(2) a by (auto simp: added_def)
  obtain this stop where b: "boundary_at st this stop" "e = token_depth st this stop"
      "token = page_begin (pages st ! this) + sizeof_id * stop \<or> token = EMPTY_POOL_PLACEHOLDER \<and> this = 0 \<and> stop = 0"
    using v ts(1) by (auto simp: valid_token_hot)
  have k: "boundary_at st' this stop" "token_depth st' this stop = token_depth st this stop" "page_begin (pages st' ! this) = page_begin (pages st ! this)"
    using added_boundary_kept [OF ok a b(1)] by auto
  have "e = token_depth st' this stop" using b(2) k(2) by simp
  moreover have "token = page_begin (pages st' ! this) + sizeof_id * stop \<or> token = EMPTY_POOL_PLACEHOLDER \<and> this = 0 \<and> stop = 0"
    using b(3) k(3) by simp
  ultimately show "valid_token st' e token" unfolding valid_token_hot [OF ts(2)] using k(1) by blast
qed

lemma added_token:
  assumes a: "added 0 h st d st'"
  shows "valid_token st' (length (frames (stack st))) d"
proof -
  obtain i where i: "tls st' = Hot i" "0 < page_next (pages st' ! i)" "d = page_begin (pages st' ! i) + sizeof_id * (page_next (pages st' ! i) - 1)"
    using a by (auto simp: added_def)
  have po: "pool_ok st'" "pages_ok st'" and s: "stack st' = stack st @ [0]" using a by (simp_all add: added_def appended_def pool_ok_def)
  note h = hot_above [OF po(1) i(1)]
  have l: "length (below i st') + (page_next (pages st' ! i) - 1) = length (stack st)"
    using stack_bound(2) [OF po(2), of i] h i(2) s by simp
  have "slots (pages st' ! i) ! (page_next (pages st' ! i) - 1) = 0"
    using boundary_in_stack(2) [OF po(2), of i "page_next (pages st' ! i) - 1"] h i(2) l s by simp
  then have "boundary_at st' i (page_next (pages st' ! i) - 1)" using h i(2) by (simp add: boundary_at_def)
  moreover have "token_depth st' i (page_next (pages st' ! i) - 1) = length (frames (stack st))" using l s by (simp add: token_depth_def)
  ultimately show ?thesis using i(3) unfolding valid_token_def by metis
qed

text \<open>What every addition does, for the frames, the tokens and the rest of the state.\<close>

definition frame_added :: "u64 \<Rightarrow> pool_state \<Rightarrow> nat \<Rightarrow> pool_state \<Rightarrow> bool" where
  "frame_added obj st d st' \<longleftrightarrow> pool_ok st' \<and> pool_frames st' = (if obj = 0 then pool_frames st @ [{#}] else add_top obj (pool_frames st)) \<and>
     tokens_kept st st' \<and> (obj = 0 \<longrightarrow> valid_token st' (length (pool_frames st)) d) \<and>
     released st' = released st \<and> scripts st' = scripts st \<and> length (page_supply st) \<le> length (page_supply st') + 1"

lemma added_frame_added:
  assumes ok: "pool_ok st" "tls st = Hot h" and a: "added obj h st d st'"
  shows "frame_added obj st d st'"
proof -
  have "obj = 0 \<longrightarrow> valid_token st' (length (pool_frames st)) d" using added_token a ok(2) by (auto simp: pool_frames_def)
  then show ?thesis using added_frames [OF assms] added_tokens_kept [OF assms] a by (auto simp: frame_added_def added_def same_frame_def)
qed

lemma first_page:
  assumes ok: "pool_ok st" "\<forall>h. tls st \<noteq> Hot h" and s: "page_supply st \<noteq> []" and obj: "obj = 0 \<or> good_obj obj"
  shows "\<exists>st1 d st2. new_page (st\<lparr>pages := []\<rparr>) = Some st1 \<and> add_at opts obj 0 st1 = (d, st2) \<and> added obj 0 st1 d st2 \<and> stack st1 = [] \<and>
    released st1 = released st \<and> scripts st1 = scripts st \<and> length (page_supply st1) + 1 = length (page_supply st) \<and>
    page_supply st2 = page_supply st1 \<and> tls st2 = Hot 0 \<and> (obj = 0 \<longrightarrow> page_next (pages st2 ! 0) = 1)"
proof -
  obtain q qs where q: "page_supply st = q # qs" using s by (cases "page_supply st") auto
  have p0: "pages st = []" and po: "pages_ok st" using ok by (auto simp: pool_ok_def split: tls_slot.splits)
  let ?st1 = "st\<lparr>pages := pages st @ [q\<lparr>page_next := 0\<rparr>], page_supply := qs\<rparr>"
  note n = new_page_ok [OF po q]
  have l: "0 < length (pages ?st1)" "page_next (pages ?st1 ! 0) < capacity" using p0 capacity_pos by simp_all
  from add_at_ok [OF n(2) l _ obj, of opts] obtain p d where
    a: "add_at opts obj 0 ?st1 = (d, ?st1\<lparr>pages := (pages ?st1)[0 := p], tls := Hot 0\<rparr>)" using p0 by auto
  from add_at_added [OF n(2) l order_refl _ obj, of opts] p0 have ad: "added obj 0 ?st1 d (?st1\<lparr>pages := (pages ?st1)[0 := p], tls := Hot 0\<rparr>)"
    using a by auto
  have "page_next p = 1" if "obj = 0"
    using arg_cong [OF a, of "\<lambda>r. page_next (pages (snd r) ! 0)"] that p0
    by (simp add: add_at_def add_def coalesce_def POOL_BOUNDARY_def update_page_def page_empty_def)
  then show ?thesis using a ad n(1) p0 q by (intro exI [of _ ?st1] exI [of _ d] exI) (auto simp: new_page_def stack_def)
qed

lemma no_page_added:
  assumes ok: "pool_ok st" "\<forall>h. tls st \<noteq> Hot h" and s: "2 \<le> length (page_supply st)" and obj: "obj = 0 \<or> good_obj obj"
    and lost: "tls st = NoPage \<and> obj \<noteq> 0 \<longrightarrow> \<not> DebugMissingPools opts"
  shows "\<exists>d st'. autoreleaseNoPage opts obj st = Some (d, st') \<and> frame_added obj st d st'"
proof -
  have p0: "pages st = []" and po: "pages_ok st" using ok by (auto simp: pool_ok_def split: tls_slot.splits)
  have s0: "page_supply st \<noteq> []" using s by auto
  show ?thesis
  proof (cases "tls st = Placeholder")
    case True
    from first_page [OF ok s0, of 0 opts] obtain st1 d1 st2 where
      1: "new_page (st\<lparr>pages := []\<rparr>) = Some st1" "add_at opts 0 0 st1 = (d1, st2)" "added 0 0 st1 d1 st2" "stack st1 = []"
        "released st1 = released st" "scripts st1 = scripts st" "length (page_supply st1) + 1 = length (page_supply st)"
        "page_supply st2 = page_supply st1" "tls st2 = Hot 0" "page_next (pages st2 ! 0) = 1" by auto
    have st2: "pool_ok st2" "stack st2 = [0]" "released st2 = released st" "scripts st2 = scripts st"
      using 1(3-6) by (auto simp: added_def appended_def same_frame_def)
    have f2: "pool_frames st2 = pool_frames st" using st2(2) 1(9) True by (simp add: pool_frames_def)
    have nf: "\<not> page_full (pages st2 ! 0)" using 1(10) by (simp add: page_full_def capacity_def SIZE_def sizeof_page_def sizeof_id_def)
    have "boundary_at st2 0 0"
      using boundary_in_stack(2) [of st2 0 0] st2(1,2) 1(9,10) by (auto simp: boundary_at_def pool_ok_def below_def)
    then have t2: "tokens_kept st st2" using True p0 by (auto simp: tokens_kept_def valid_token_def boundary_at_def)
    have "page_supply st2 \<noteq> []" using 1(7,8) s by auto
    from fast_added [OF st2(1) 1(9) this obj, of opts] obtain d st' where
      3: "autoreleaseFast opts obj st2 = Some (d, st')" "added obj 0 st2 d st'" by blast
    have "autoreleaseNoPage opts obj st = Some (add_at opts obj 0 st2)"
      using True 1(1,2) by (simp add: autoreleaseNoPage_def POOL_BOUNDARY_def)
    then have "autoreleaseNoPage opts obj st = Some (d, st')" using 3(1) nf 1(9) by (simp add: autoreleaseFast_def)
    moreover have "frame_added obj st d st'"
    proof -
      have sup: "page_supply st' = page_supply st2" using 3(1) nf 1(9) by (auto simp: autoreleaseFast_def add_at_def update_page_def split: prod.splits)
      show ?thesis using added_frame_added [OF st2(1) 1(9) 3(2)] f2 t2 st2(3,4) 1(7,8) sup unfolding frame_added_def tokens_kept_def by auto
    qed
    ultimately show ?thesis by blast
  next
    case False
    then have np: "tls st = NoPage" using ok(2) by (cases "tls st") auto
    have nv: "\<not> valid_token st e tok" for e tok using np p0 by (auto simp: valid_token_def boundary_at_def)
    have fr: "pool_frames st = [{#}]" using np p0 by (simp add: pool_frames_def stack_def)
    show ?thesis
    proof (cases "obj = 0 \<and> \<not> DebugPoolAllocation opts")
      case True
      have "autoreleaseNoPage opts obj st = Some (EMPTY_POOL_PLACEHOLDER, st\<lparr>tls := Placeholder\<rparr>)"
        using True np by (simp add: autoreleaseNoPage_def POOL_BOUNDARY_def)
      moreover have "frame_added obj st EMPTY_POOL_PLACEHOLDER (st\<lparr>tls := Placeholder\<rparr>)"
        using True nv fr p0 po by (simp add: frame_added_def pool_frames_def tokens_kept_def valid_token_def [of "st\<lparr>tls := _\<rparr>"] pool_ok_def pages_ok_def)
      ultimately show ?thesis by blast
    next
      case False
      from first_page [OF ok s0 obj, of opts] obtain st1 d st2 where
        1: "new_page (st\<lparr>pages := []\<rparr>) = Some st1" "add_at opts obj 0 st1 = (d, st2)" "added obj 0 st1 d st2" "stack st1 = []"
          "released st1 = released st" "scripts st1 = scripts st" "length (page_supply st1) + 1 = length (page_supply st)"
          "page_supply st2 = page_supply st1" "tls st2 = Hot 0" by blast
      have "autoreleaseNoPage opts obj st = Some (d, st2)"
        using False lost np 1(1,2) by (auto simp: autoreleaseNoPage_def POOL_BOUNDARY_def)
      moreover have "frame_added obj st d st2"
      proof -
        have "pool_frames st2 = (if obj = 0 then [{#}] @ [{#}] else add_top obj [{#}])"
          using appended_frames [of obj "[]" "stack st2"] 1(3,4,9) by (simp add: added_def pool_frames_def)
        moreover have "obj = 0 \<longrightarrow> valid_token st2 1 d" using added_token [of 0 st1 d st2] 1(3,4) by auto
        ultimately show ?thesis using 1(3,5-8) nv fr by (simp add: frame_added_def added_def same_frame_def tokens_kept_def)
      qed
      ultimately show ?thesis by blast
    qed
  qed
qed

lemma autorelease_frame:
  assumes ok: "pool_ok st" and s: "2 \<le> length (page_supply st)" and obj: "obj = 0 \<or> good_obj obj"
    and lost: "tls st = NoPage \<and> obj \<noteq> 0 \<longrightarrow> \<not> DebugMissingPools opts"
  shows "\<exists>d st'. autoreleaseFast opts obj st = Some (d, st') \<and> frame_added obj st d st'"
    "\<exists>d st'. autoreleaseNewPage opts obj st = Some (d, st') \<and> frame_added obj st d st'"
proof -
  have s0: "page_supply st \<noteq> []" using s by auto
  show "\<exists>d st'. autoreleaseFast opts obj st = Some (d, st') \<and> frame_added obj st d st'"
  proof (cases "tls st")
    case (Hot h)
    show ?thesis using fast_added [OF ok Hot s0 obj, of opts] added_frame_added [OF ok Hot] by blast
  qed (use no_page_added [OF ok _ s obj lost] in \<open>simp_all add: autoreleaseFast_def\<close>)
  show "\<exists>d st'. autoreleaseNewPage opts obj st = Some (d, st') \<and> frame_added obj st d st'"
  proof (cases "tls st")
    case (Hot h)
    show ?thesis using full_page_added [OF ok Hot s0 obj, of opts] added_frame_added [OF ok Hot] Hot by (auto simp: autoreleaseNewPage_def)
  qed (use no_page_added [OF ok _ s obj lost] in \<open>simp_all add: autoreleaseNewPage_def\<close>)
qed

subsection \<open>Popping\<close>

lemma length_frames: "length (frames ws) = Suc (length (filter (\<lambda>w. w = 0) ws))"
  by (induction ws) auto

lemma depth_mono: "k \<le> m \<Longrightarrow> length (frames (take k ws)) \<le> length (frames (take m ws))"
proof -
  assume "k \<le> m"
  then have "take m ws = take k ws @ take (m - k) (drop k ws)" using take_add [of k "m - k" ws] by simp
  then show ?thesis by (simp add: length_frames)
qed

lemma page_found:
  assumes ok: "pages_ok st" and t: "this < length (pages st)" "stop < capacity"
  shows "pageForPointer (page_begin (pages st ! this) + sizeof_id * stop) st = Some this"
proof -
  let ?a = "page_addr (pages st ! this)"
  have d: "SIZE dvd ?a" using ok t(1) by (simp add: pages_ok_def)
  have s: "sizeof_page + sizeof_id * stop < SIZE" using t(2) by (simp add: capacity_def sizeof_page_def sizeof_id_def SIZE_def)
  have "(?a + (sizeof_page + sizeof_id * stop)) mod SIZE = sizeof_page + sizeof_id * stop"
    using d s by (metis add.commute mod_less mod_mult_self2 dvd_def)
  then have m: "(page_begin (pages st ! this) + sizeof_id * stop) - (page_begin (pages st ! this) + sizeof_id * stop) mod SIZE = ?a"
    by (simp add: page_begin_def add.assoc)
  have "page_addr (pages st ! i) = ?a \<longleftrightarrow> i = this" if "i < length (pages st)" for i
  proof -
    have "distinct (map page_addr (pages st))" using ok by (simp add: pages_ok_def)
    then show ?thesis using nth_eq_iff_index_eq [of "map page_addr (pages st)" i this] that t(1) by simp
  qed
  then have "filter (\<lambda>i. page_addr (pages st ! i) = ?a) [0..<length (pages st)] = filter (\<lambda>i. i = this) [0..<length (pages st)]"
    by (intro filter_cong) auto
  also have "\<dots> = [this]"
  proof -
    have "[0..<length (pages st)] = [0..<this] @ this # [this + 1..<length (pages st)]"
      using upt_add_eq_append [of 0 this "length (pages st) - this"] upt_conv_Cons [OF t(1)] t(1) by simp
    then show ?thesis by simp
  qed
  finally show ?thesis unfolding pageForPointer_def find_page_def m by simp
qed

text \<open>What a pop does, for the frames: those above the token are released, the tokens below stay.\<close>

definition frames_popped :: "nat \<Rightarrow> pool_state \<Rightarrow> pool_state \<Rightarrow> bool" where
  "frames_popped d st st' \<longleftrightarrow> pool_ok st' \<and> script_ok st' \<and> pool_frames st' = take d (pool_frames st) \<and>
     (\<exists>rs. released st' = released st @ rs \<and> scripts st' = drop (length rs) (scripts st) \<and>
        mset rs = sum_list (drop d (pool_frames st)) + mset (concat (take (length rs) (scripts st)))) \<and>
     (\<forall>e token. e < d \<longrightarrow> valid_token st e token \<longrightarrow> valid_token st' e token)"

lemma boundary_loop_inv:
  assumes ok: "pool_ok st" "script_ok st" and b: "boundary_at st this stop"
  shows "loop_inv this stop (take (length (below this st) + stop) (stack st)) st" "stack st ! (length (below this st) + stop) = 0"
    "length (below this st) + stop < length (stack st)"
proof -
  have t: "this < length (pages st)" "stop < page_next (pages st ! this)" "slots (pages st ! this) ! stop = 0" using b by (auto simp: boundary_at_def)
  have po: "pages_ok st" using ok by (simp add: pool_ok_def)
  note s = boundary_in_stack [OF po t(1,2)]
  show "stack st ! (length (below this st) + stop) = 0" "length (below this st) + stop < length (stack st)" using s t(3) by simp_all
  obtain h where h: "tls st = Hot h" using ok(1) t(1) by (cases "tls st") (auto simp: pool_ok_def)
  have "this \<le> h" using hot_above [OF ok(1) h] t by (metis not_le not_less_zero)
  then show "loop_inv this stop (take (length (below this st) + stop) (stack st)) st"
    using ok s t h by (auto simp: loop_inv_def min_def)
qed

lemma older_boundary:
  assumes ok: "pages_ok st" and b: "boundary_at st i n" "boundary_at st this stop" and d: "token_depth st i n < token_depth st this stop"
  shows "(i < this \<or> i = this \<and> n < stop) \<and> length (below i st) + n < length (below this st) + stop"
proof -
  have lt: "length (below i st) + n < length (below this st) + stop"
  proof (rule ccontr)
    assume "\<not> length (below i st) + n < length (below this st) + stop"
    then have "token_depth st this stop \<le> token_depth st i n" unfolding token_depth_def by (intro depth_mono) simp
    then show False using d by simp
  qed
  have "\<not> this < i"
  proof
    assume "this < i"
    then have "take (this + 1) (take i (pages st)) = take (this + 1) (pages st)" by simp
    then have "take i (pages st) = take this (pages st) @ pages st ! this # drop (this + 1) (take i (pages st))" (is "_ = ?ps")
      using b(2) unfolding boundary_at_def by (metis Suc_eq_plus1 append.assoc append_Cons append_Nil append_take_drop_id take_Suc_conv_app_nth)
    then have "concat (map active (take i (pages st))) = concat (map active ?ps)" by (rule arg_cong)
    then have "below i st = below this st @ active (pages st ! this) @ concat (map active (drop (this + 1) (take i (pages st))))"
      by (simp add: below_def)
    then have "length (below this st) + page_next (pages st ! this) \<le> length (below i st)"
      using stack_split(2) [OF ok, of this] b(2) by (simp add: boundary_at_def)
    then show False using lt b(2) by (simp add: boundary_at_def)
  qed
  then show ?thesis using lt by (cases "i = this") auto
qed

lemma popPage_frames:
  assumes ok: "pool_ok st" "script_ok st" and b: "boundary_at st this stop"
  shows "\<exists>st'. popPage opts this stop st = Some st' \<and> frames_popped (token_depth st this stop) st st'"
proof -
  let ?k = "length (below this st) + stop"
  note l = boundary_loop_inv [OF ok b]
  have po: "pages_ok st" using ok by (simp add: pool_ok_def)
  have hot: "tls st \<noteq> Placeholder" using ok(1) b by (auto simp: pool_ok_def boundary_at_def)
  from popPage_ok [OF l(1), of opts] obtain st' where
    1: "popPage opts this stop st = Some st'" "pool_ok st'" "script_ok st'" "stack st' = take ?k (stack st)" "settled st st'"
      "take this (pages st') = take this (pages st)"
      "0 < stop \<longrightarrow> this < length (pages st') \<and> page_addr (pages st' ! this) = page_addr (pages st ! this) \<and> page_next (pages st' ! this) = stop"
      and hot': "tls st' \<noteq> Placeholder"
    by blast
  have fr: "frames (stack st) = frames (take ?k (stack st)) @ frames (drop (?k + 1) (stack st))"
      "owed (drop ?k (stack st)) = sum_list (frames (drop (?k + 1) (stack st)))" using frames_cut [OF l(3,2)] by auto
  have tk: "take (token_depth st this stop) (frames (stack st)) = frames (take ?k (stack st))"
      "drop (token_depth st this stop) (frames (stack st)) = frames (drop (?k + 1) (stack st))"
    using fr(1) by (simp_all add: token_depth_def)
  obtain rs where rs: "released st' = released st @ rs" "scripts st' = drop (length rs) (scripts st)"
      "mset rs + owed (stack st') = owed (stack st) + mset (concat (take (length rs) (scripts st)))" using 1(5) by (auto simp: settled_def)
  have "owed (stack st) = owed (take ?k (stack st)) + owed (drop ?k (stack st))" by (metis append_take_drop_id owed_simps(3))
  then have "mset rs = owed (drop ?k (stack st)) + mset (concat (take (length rs) (scripts st)))"
    using rs(3) 1(4) by (simp add: add.assoc add.left_commute)
  then have "mset rs = sum_list (drop (token_depth st this stop) (pool_frames st)) + mset (concat (take (length rs) (scripts st)))"
    using fr(2) tk(2) hot by (simp add: pool_frames_def)
  moreover have "pool_frames st' = take (token_depth st this stop) (pool_frames st)"
    using tk(1) 1(4) hot hot' by (simp add: pool_frames_def)
  moreover have "valid_token st' e token" if e: "e < token_depth st this stop" and v: "valid_token st e token" for e token
  proof -
    obtain i n where i: "boundary_at st i n" "e = token_depth st i n"
        "token = page_begin (pages st ! i) + sizeof_id * n \<or> token = EMPTY_POOL_PLACEHOLDER \<and> i = 0 \<and> n = 0"
      using v hot by (auto simp: valid_token_hot)
    have lo: "i < this \<or> i = this \<and> n < stop" "length (below i st) + n < ?k" using older_boundary [OF po i(1) b] e i(2) by auto
    have il: "i < length (pages st)" "n < page_next (pages st ! i)" using i(1) by (auto simp: boundary_at_def)
    have pg: "i < length (pages st') \<and> page_addr (pages st' ! i) = page_addr (pages st ! i) \<and> n < page_next (pages st' ! i)"
    proof (cases "i = this")
      case True
      then show ?thesis using lo 1(7) by auto
    next
      case False
      then have "i < this" using lo by simp
      then have "i < length (take this (pages st'))" using 1(6) il(1) by (metis length_take min_less_iff_conj)
      moreover have "pages st' ! i = pages st ! i" using 1(6) \<open>i < this\<close> by (metis nth_take)
      ultimately have "i < length (pages st')" "pages st' ! i = pages st ! i" by simp_all
      then show ?thesis using il by simp
    qed
    have "take i (pages st') = take i (pages st)" using 1(6) lo(1) by (metis min.absorb1 nless_le take_take)
    then have bl: "below i st' = below i st" by (simp add: below_def)
    have "take (length (below i st) + n + 1) (stack st') = take (length (below i st) + n + 1) (stack st)"
      using lo(2) 1(4) by (simp add: min_def)
    then have kb: "boundary_at st' i n" "token_depth st' i n = token_depth st i n"
      using boundary_kept [OF po _ i(1) bl] pg 1(2) by (auto simp: pool_ok_def)
    then show ?thesis unfolding valid_token_hot [OF hot'] using i(2,3) pg by (metis page_begin_def)
  qed
  ultimately show ?thesis using 1(1-3) rs unfolding frames_popped_def by blast
qed

end
