(* ===== verification/PoolContract.thy ===== *)
theory PoolContract
  imports PoolFrames
begin

text \<open>
  The contract of nested pools, as a locale, its interpretation on the autorelease pool pages, and the properties
  of the pools: what is pushed and popped, what a mismatched token does, and what a thread's exit releases.
\<close>

subsection \<open>The contract\<close>

locale frame_stack =
  fixes ok :: "'s \<Rightarrow> bool" and room :: "'s \<Rightarrow> nat" and frames_of :: "'s \<Rightarrow> 'a multiset list"
    and token_for :: "'s \<Rightarrow> nat \<Rightarrow> 't \<Rightarrow> bool" and paid :: "'s \<Rightarrow> 'a multiset" and pending :: "'s \<Rightarrow> 'a multiset"
    and open_pool :: "'s \<Rightarrow> ('t \<times> 's) option" and put :: "'a \<Rightarrow> 's \<Rightarrow> 's option" and close :: "'t \<Rightarrow> 's \<Rightarrow> 's option"
    and item :: "'a \<Rightarrow> bool"
  assumes outermost: "frames_of st \<noteq> []"
    and opened: "ok st \<Longrightarrow> 2 \<le> room st \<Longrightarrow> \<exists>t st'. open_pool st = Some (t, st') \<and> ok st' \<and> room st \<le> room st' + 1 \<and>
      frames_of st' = frames_of st @ [{#}] \<and> token_for st' (length (frames_of st)) t \<and>
      (\<forall>d u. token_for st d u \<longrightarrow> token_for st' d u) \<and> paid st' = paid st \<and> pending st' = pending st"
    and added_item: "ok st \<Longrightarrow> 2 \<le> room st \<Longrightarrow> 2 \<le> length (frames_of st) \<Longrightarrow> item x \<Longrightarrow>
      \<exists>st'. put x st = Some st' \<and> ok st' \<and> room st \<le> room st' + 1 \<and>
      frames_of st' = butlast (frames_of st) @ [List.last (frames_of st) + {#x#}] \<and>
      (\<forall>d u. token_for st d u \<longrightarrow> token_for st' d u) \<and> paid st' = paid st \<and> pending st' = pending st"
    and closed: "ok st \<Longrightarrow> token_for st d t \<Longrightarrow> \<exists>st'. close t st = Some st' \<and> ok st' \<and> frames_of st' = take d (frames_of st) \<and>
      (\<forall>e u. e < d \<longrightarrow> token_for st e u \<longrightarrow> token_for st' e u) \<and>
      paid st' + pending st' = paid st + pending st + sum_list (drop d (frames_of st)) \<and> sum_list (drop d (frames_of st)) \<subseteq># paid st' - paid st"
begin

primrec put_each :: "'a list \<Rightarrow> 's \<Rightarrow> 's option" where
  "put_each [] st = Some st"
| "put_each (x # xs) st = (case put x st of None \<Rightarrow> None | Some st' \<Rightarrow> put_each xs st')"

lemma put_each_adds:
  assumes "ok st" "length xs + 1 \<le> room st" "2 \<le> length (frames_of st)" "\<forall>x \<in> set xs. item x"
  shows "\<exists>st'. put_each xs st = Some st' \<and> ok st' \<and> frames_of st' = butlast (frames_of st) @ [List.last (frames_of st) + mset xs] \<and>
    (\<forall>d u. token_for st d u \<longrightarrow> token_for st' d u) \<and> paid st' = paid st \<and> pending st' = pending st"
  using assms
proof (induction xs arbitrary: st)
  case Nil
  then have "frames_of st \<noteq> []" by auto
  then show ?case using Nil by simp
next
  case (Cons x xs)
  from added_item [OF Cons.prems(1) _ Cons.prems(3), of x] Cons.prems obtain st1 where
    1: "put x st = Some st1" "ok st1" "room st \<le> room st1 + 1" "frames_of st1 = butlast (frames_of st) @ [List.last (frames_of st) + {#x#}]"
      "\<forall>d u. token_for st d u \<longrightarrow> token_for st1 d u" "paid st1 = paid st" "pending st1 = pending st" by auto
  have "length xs + 1 \<le> room st1" "2 \<le> length (frames_of st1)" "\<forall>x \<in> set xs. item x" using 1(3,4) Cons.prems by auto
  from Cons.IH [OF 1(2) this] obtain st2 where
    "put_each xs st1 = Some st2" "ok st2" "frames_of st2 = butlast (frames_of st1) @ [List.last (frames_of st1) + mset xs]"
    "\<forall>d u. token_for st1 d u \<longrightarrow> token_for st2 d u" "paid st2 = paid st1" "pending st2 = pending st1" by blast
  then show ?case using 1 by (auto simp: add.assoc)
qed

text \<open>What is put in between opening and closing is paid by the closing, and the frames are as they were.\<close>

lemma bracket:
  assumes "ok st" "length xs + 2 \<le> room st" "\<forall>x \<in> set xs. item x"
  shows "\<exists>t st1 st2 st3. open_pool st = Some (t, st1) \<and> put_each xs st1 = Some st2 \<and> close t st2 = Some st3 \<and> ok st3 \<and>
    frames_of st3 = frames_of st \<and> (\<forall>d u. d < length (frames_of st) \<longrightarrow> token_for st d u \<longrightarrow> token_for st3 d u) \<and>
    paid st3 + pending st3 = paid st + pending st + mset xs \<and> mset xs \<subseteq># paid st3 - paid st"
proof -
  have r: "2 \<le> room st" using assms(2) by simp
  from opened [OF assms(1) r] obtain t st1 where
    1: "open_pool st = Some (t, st1)" "ok st1" "room st \<le> room st1 + 1" "frames_of st1 = frames_of st @ [{#}]"
      "token_for st1 (length (frames_of st)) t" "\<forall>d u. token_for st d u \<longrightarrow> token_for st1 d u" "paid st1 = paid st" "pending st1 = pending st"
    by blast
  have "length xs + 1 \<le> room st1" "2 \<le> length (frames_of st1)"
    using 1(3,4) assms(2) outermost [of st] by (auto simp: Suc_le_eq)
  from put_each_adds [OF 1(2) this assms(3)] obtain st2 where
    2: "put_each xs st1 = Some st2" "ok st2" "frames_of st2 = frames_of st @ [mset xs]"
      "\<forall>d u. token_for st1 d u \<longrightarrow> token_for st2 d u" "paid st2 = paid st1" "pending st2 = pending st1" using 1(4) by auto
  from closed [OF 2(2), of "length (frames_of st)" t] 1(5) 2(3,4) obtain st3 where
    3: "close t st2 = Some st3" "ok st3" "frames_of st3 = frames_of st"
      "\<forall>e u. e < length (frames_of st) \<longrightarrow> token_for st2 e u \<longrightarrow> token_for st3 e u"
      "paid st3 + pending st3 = paid st2 + pending st2 + mset xs" "mset xs \<subseteq># paid st3 - paid st2" by auto
  then show ?thesis using 1 2 by auto
qed

end

subsection \<open>The pages keep the contract\<close>

definition pool_room :: "pool_state \<Rightarrow> nat" where
  "pool_room st = length (page_supply st) - length (concat (scripts st))"

definition autorelease_one :: "pool_options \<Rightarrow> u64 \<Rightarrow> pool_state \<Rightarrow> pool_state option" where
  "autorelease_one opts obj st = map_option snd (autoreleaseFast opts obj st)"

definition pop_ok :: "pool_options \<Rightarrow> nat \<Rightarrow> pool_state \<Rightarrow> pool_state option" where
  "pop_ok opts token st = (case pop opts token st of Some (Popped st') \<Rightarrow> Some st' | _ \<Rightarrow> None)"

lemma in_pool: "pool_ok st \<Longrightarrow> 2 \<le> length (pool_frames st) \<Longrightarrow> tls st \<noteq> NoPage"
  by (auto simp: pool_ok_def pool_frames_def stack_def)

lemma frame_added_room:
  assumes "frame_added obj st d st'" "script_ok st" "1 \<le> pool_room st"
  shows "script_ok st'" "pool_room st \<le> pool_room st' + 1"
  using assms by (auto simp: frame_added_def script_ok_def pool_room_def)

lemma push_frame:
  assumes "pool_ok st" "2 \<le> length (page_supply st)"
  shows "\<exists>token st'. push opts st = Some (token, st') \<and> frame_added 0 st token st'"
  using autorelease_frame [OF assms, of 0 opts] by (simp add: push_def POOL_BOUNDARY_def)

lemma pop_at_boundary:
  assumes "pool_ok st" "script_ok st" "boundary_at st this stop"
  shows "\<exists>st'. pop_at opts this stop st = Some (Popped st') \<and> frames_popped (token_depth st this stop) st st'"
  using popPage_frames [OF assms, of opts] assms(3) by (auto simp: pop_at_def boundary_at_def POOL_BOUNDARY_def)

lemma pop_address:
  assumes ok: "pages_ok st" and t: "this < length (pages st)" "stop < capacity"
  shows "pop opts (page_begin (pages st ! this) + sizeof_id * stop) st = pop_at opts this stop st"
proof -
  have "page_begin (pages st ! this) + sizeof_id * stop \<noteq> EMPTY_POOL_PLACEHOLDER"
    by (simp add: page_begin_def sizeof_page_def EMPTY_POOL_PLACEHOLDER_def)
  then show ?thesis using page_found [OF ok t] t(2) by (simp add: pop_def sizeof_id_def)
qed

lemma pop_frames:
  assumes ok: "pool_ok st" "script_ok st" and v: "valid_token st d token"
  shows "\<exists>st'. pop opts token st = Some (Popped st') \<and> frames_popped d st st'"
proof (cases "tls st = Placeholder")
  case True
  then have p: "pages st = []" using ok(1) by (simp add: pool_ok_def)
  then have t: "token = EMPTY_POOL_PLACEHOLDER" "d = 1" using v by (auto simp: valid_token_def boundary_at_def)
  have "pop opts token st = Some (Popped (st\<lparr>tls := NoPage\<rparr>))" using t True by (simp add: pop_def)
  moreover have "\<not> valid_token st 0 u" for u using p by (auto simp: valid_token_def boundary_at_def)
  then have "frames_popped d st (st\<lparr>tls := NoPage\<rparr>)"
    using t True p ok by (simp add: frames_popped_def pool_frames_def pool_ok_def pages_ok_def script_ok_def stack_def)
  ultimately show ?thesis by blast
next
  case False
  then obtain this stop where b: "boundary_at st this stop" "d = token_depth st this stop"
      "token = page_begin (pages st ! this) + sizeof_id * stop \<or> token = EMPTY_POOL_PLACEHOLDER \<and> this = 0 \<and> stop = 0"
    using v by (auto simp: valid_token_hot)
  have po: "pages_ok st" using ok(1) by (simp add: pool_ok_def)
  have l: "this < length (pages st)" "stop < page_next (pages st ! this)" using b(1) by (auto simp: boundary_at_def)
  have "page_ok (pages st ! this)" using po l(1) by (simp add: pages_ok_def)
  then have "stop < capacity" using l(2) by (simp add: page_ok_def)
  moreover obtain h where "tls st = Hot h" using ok(1) b(1) by (cases "tls st") (auto simp: pool_ok_def boundary_at_def)
  ultimately have "pop opts token st = pop_at opts this stop st"
    using pop_address [OF po l(1), of stop opts] b(3) by (auto simp: pop_def)
  then show ?thesis using pop_at_boundary [OF ok b(1), of opts] b(2) by simp
qed

interpretation pools: frame_stack "\<lambda>st. pool_ok st \<and> script_ok st" pool_room pool_frames valid_token
    "\<lambda>st. mset (released st)" "\<lambda>st. mset (concat (scripts st))" "push opts" "autorelease_one opts" "pop_ok opts" good_obj for opts
proof
  fix st d t
  show "pool_frames st \<noteq> []" by (simp add: pool_frames_def)
  {
    assume ok: "pool_ok st \<and> script_ok st" and r: "2 \<le> pool_room st"
    have "2 \<le> length (page_supply st)" using r by (simp add: pool_room_def)
    from push_frame [OF conjunct1 [OF ok] this, of opts] obtain tok st' where
      1: "push opts st = Some (tok, st')" "frame_added 0 st tok st'" by blast
    then show "\<exists>t st'. push opts st = Some (t, st') \<and> (pool_ok st' \<and> script_ok st') \<and> pool_room st \<le> pool_room st' + 1 \<and>
      pool_frames st' = pool_frames st @ [{#}] \<and> valid_token st' (length (pool_frames st)) t \<and>
      (\<forall>d u. valid_token st d u \<longrightarrow> valid_token st' d u) \<and> mset (released st') = mset (released st) \<and>
      mset (concat (scripts st')) = mset (concat (scripts st))"
      using frame_added_room [OF 1(2)] ok r by (auto simp: frame_added_def tokens_kept_def)
  }
  {
    fix x assume ok: "pool_ok st \<and> script_ok st" and r: "2 \<le> pool_room st" and f: "2 \<le> length (pool_frames st)" and x: "good_obj x"
    have "2 \<le> length (page_supply st)" using r by (simp add: pool_room_def)
    from autorelease_frame(1) [OF conjunct1 [OF ok] this, of x opts] in_pool [OF conjunct1 [OF ok] f] x obtain dest st' where
      1: "autoreleaseFast opts x st = Some (dest, st')" "frame_added x st dest st'" by auto
    then show "\<exists>st'. autorelease_one opts x st = Some st' \<and> (pool_ok st' \<and> script_ok st') \<and> pool_room st \<le> pool_room st' + 1 \<and>
      pool_frames st' = butlast (pool_frames st) @ [List.last (pool_frames st) + {#x#}] \<and>
      (\<forall>d u. valid_token st d u \<longrightarrow> valid_token st' d u) \<and> mset (released st') = mset (released st) \<and>
      mset (concat (scripts st')) = mset (concat (scripts st))"
      using frame_added_room [OF 1(2)] ok r x by (auto simp: frame_added_def tokens_kept_def autorelease_one_def add_top_def good_obj_def)
  }
  {
    assume ok: "pool_ok st \<and> script_ok st" and v: "valid_token st d t"
    from pop_frames [OF conjunct1 [OF ok] conjunct2 [OF ok] v, of opts] obtain st' where
      1: "pop opts t st = Some (Popped st')" "frames_popped d st st'" by blast
    then obtain rs where rs: "released st' = released st @ rs" "scripts st' = drop (length rs) (scripts st)"
      "mset rs = sum_list (drop d (pool_frames st)) + mset (concat (take (length rs) (scripts st)))" by (auto simp: frames_popped_def)
    have "mset (concat (scripts st)) = mset (concat (take (length rs) (scripts st))) + mset (concat (drop (length rs) (scripts st)))"
      by (metis append_take_drop_id concat_append mset_append)
    then show "\<exists>st'. pop_ok opts t st = Some st' \<and> (pool_ok st' \<and> script_ok st') \<and> pool_frames st' = take d (pool_frames st) \<and>
      (\<forall>e u. e < d \<longrightarrow> valid_token st e u \<longrightarrow> valid_token st' e u) \<and>
      mset (released st') + mset (concat (scripts st')) = mset (released st) + mset (concat (scripts st)) + sum_list (drop d (pool_frames st)) \<and>
      sum_list (drop d (pool_frames st)) \<subseteq># mset (released st') - mset (released st)"
      using 1 rs by (auto simp: frames_popped_def pop_ok_def)
  }
qed

subsection \<open>Properties\<close>

lemma pop_ok_Some: "pop_ok opts token st = Some st' \<longleftrightarrow> pop opts token st = Some (Popped st')"
  by (auto simp: pop_ok_def split: option.splits pop_result.splits)

lemma put_each_autorelease_all: "pools.put_each opts objs st = autorelease_all opts objs st"
  by (induction objs arbitrary: st) (auto simp: autorelease_one_def split: option.splits)

text \<open>A thread with no pool, three pages to come, and a first release that autoreleases another object.\<close>

definition fresh_page :: "nat \<Rightarrow> pool_page" where
  "fresh_page a = \<lparr>page_addr = a, slots = replicate capacity SCRIBBLE, page_next = 7\<rparr>"

definition ex_thread :: pool_state where
  "ex_thread = \<lparr>pages = [], tls = NoPage, page_supply = map fresh_page [4096, 8192, 12288, 16384, 20480], released = [], scripts = [[0x3000]]\<rparr>"

definition ex_pool :: pool_state where
  "ex_pool = \<lparr>pages = [\<lparr>page_addr = 4096, slots = [0, 0x1000] @ replicate (capacity - 2) SCRIBBLE, page_next = 2\<rparr>], tls = Hot 0,
     page_supply = [], released = [], scripts = []\<rparr>"

definition ex_options :: pool_options where
  "ex_options = \<lparr>DisableAutoreleaseCoalescing = False, DisableAutoreleaseCoalescingLRU = False, DebugPoolAllocation = False, DebugMissingPools = False\<rparr>"

lemma ex_thread_ok: "pool_ok ex_thread" "script_ok ex_thread" "pool_room ex_thread = 4" "length (page_supply ex_thread) = 5"
  by (auto simp: ex_thread_def pool_ok_def pages_ok_def fresh_page_def SIZE_def script_ok_def good_obj_def entry_ptr_def pool_room_def take_bit_eq_mod)

lemma ex_pool_ok: "pool_ok ex_pool" "script_ok ex_pool"
  by (auto simp: ex_pool_def pool_ok_def pages_ok_def page_ok_def active_def good_word_def entry_ptr_def take_bit_eq_mod
      capacity_def SIZE_def sizeof_page_def sizeof_id_def script_ok_def)

text \<open>C5. The pools of a thread are a stack of frames: push opens a frame and returns a token for it, autorelease adds
  the object to the innermost frame however it is coalesced, and a pop with a frame's token releases exactly the
  frames from it on, with what those releases autorelease in their turn or leave to be autoreleased; tokens of
  outer frames stay valid.\<close>

theorem autorelease_pool_refines_frames:
  assumes "pool_ok st" "script_ok st" "2 \<le> length (page_supply st)"
  shows "(\<exists>token st'. push opts st = Some (token, st') \<and> pool_ok st' \<and> pool_frames st' = pool_frames st @ [{#}] \<and>
            valid_token st' (length (pool_frames st)) token \<and> tokens_kept st st' \<and> released st' = released st) \<and>
         (\<forall>obj. good_obj obj \<longrightarrow> \<not> (tls st = NoPage \<and> DebugMissingPools opts) \<longrightarrow>
            (\<exists>dest st'. autoreleaseFast opts obj st = Some (dest, st') \<and> pool_ok st' \<and> pool_frames st' = add_top obj (pool_frames st) \<and>
               tokens_kept st st' \<and> released st' = released st)) \<and>
         (\<forall>d token. valid_token st d token \<longrightarrow> (\<exists>st'. pop opts token st = Some (Popped st') \<and> frames_popped d st st'))"
proof (intro conjI allI impI)
  show "\<exists>token st'. push opts st = Some (token, st') \<and> pool_ok st' \<and> pool_frames st' = pool_frames st @ [{#}] \<and>
      valid_token st' (length (pool_frames st)) token \<and> tokens_kept st st' \<and> released st' = released st"
    using push_frame [OF assms(1,3), of opts] by (auto simp: frame_added_def)
  show "\<exists>dest st'. autoreleaseFast opts obj st = Some (dest, st') \<and> pool_ok st' \<and> pool_frames st' = add_top obj (pool_frames st) \<and>
      tokens_kept st st' \<and> released st' = released st" if "good_obj obj" "\<not> (tls st = NoPage \<and> DebugMissingPools opts)" for obj
    using autorelease_frame(1) [OF assms(1,3), of obj opts] that by (auto simp: frame_added_def good_obj_def)
qed (rule pop_frames [OF assms(1,2)])

theorem autorelease_pool_refines_frames_witness:
  "pool_ok ex_thread \<and> (\<exists>token st'. push ex_options ex_thread = Some (token, st') \<and> valid_token st' 1 token)"
  using autorelease_pool_refines_frames [of ex_thread ex_options] ex_thread_ok by (auto simp: pool_frames_def ex_thread_def stack_def)

text \<open>C6. A push, autoreleases, and the pop of the push's token leave the frames as they were and release every object once
  for each of its autoreleases, however the entries were coalesced; what else is released is what those releases
  autoreleased in their turn, and nothing of it is lost.\<close>

theorem autorelease_bracket:
  assumes "pool_ok st" "script_ok st" "length objs + 2 \<le> pool_room st" "\<forall>x \<in> set objs. good_obj x"
  shows "\<exists>token st1 st2 st3. push opts st = Some (token, st1) \<and> autorelease_all opts objs st1 = Some st2 \<and>
    pop opts token st2 = Some (Popped st3) \<and> pool_ok st3 \<and> pool_frames st3 = pool_frames st \<and>
    mset objs \<subseteq># mset (released st3) - mset (released st) \<and>
    mset (released st3) + mset (concat (scripts st3)) = mset (released st) + mset (concat (scripts st)) + mset objs"
  using pools.bracket [OF conjI [OF assms(1,2)] assms(3,4), of opts]
  unfolding put_each_autorelease_all pop_ok_Some by blast

theorem autorelease_bracket_witness:
  "\<exists>token st1 st2 st3. push ex_options ex_thread = Some (token, st1) \<and> autorelease_all ex_options [0x1000, 0x1000] st1 = Some st2 \<and>
    pop ex_options token st2 = Some (Popped st3) \<and> {#0x1000, 0x1000#} \<subseteq># mset (released st3)"
proof -
  have "good_obj 0x1000" by (simp add: good_obj_def entry_ptr_def take_bit_eq_mod)
  then show ?thesis using autorelease_bracket [of ex_thread "[0x1000, 0x1000]" ex_options] ex_thread_ok by (auto simp: ex_thread_def)
qed

text \<open>C8. A pop with the address of a word that is not a boundary is refused, unless it is the very first slot.\<close>

theorem mismatched_pop_refused:
  assumes "pool_ok st" "this < length (pages st)" "stop < page_next (pages st ! this)"
    "slots (pages st ! this) ! stop \<noteq> POOL_BOUNDARY" "0 < this \<or> 0 < stop"
  shows "pop opts (page_begin (pages st ! this) + sizeof_id * stop) st = Some BadPop"
proof -
  have "pages_ok st" "page_ok (pages st ! this)" using assms(1,2) by (simp_all add: pool_ok_def pages_ok_def)
  then have "stop < capacity" using assms(3) by (simp add: page_ok_def)
  then show ?thesis using pop_address [OF \<open>pages_ok st\<close> assms(2)] assms(4,5) by (auto simp: pop_at_def)
qed

theorem mismatched_pop_refused_witness: "pop ex_options 4160 ex_pool = Some BadPop"
  using mismatched_pop_refused [of ex_pool 0 1 ex_options] ex_pool_ok
  by (simp add: ex_pool_def page_begin_def sizeof_page_def sizeof_id_def POOL_BOUNDARY_def)

subsection \<open>The end of a thread\<close>

text \<open>The histories of a thread: it opens pools, autoreleases and pops, with memory to spare.\<close>

inductive pool_run :: "pool_options \<Rightarrow> pool_state \<Rightarrow> bool" for opts where
  thread_start: "pool_ok st \<Longrightarrow> script_ok st \<Longrightarrow> tls st = NoPage \<Longrightarrow> pool_run opts st"
| opens: "pool_run opts st \<Longrightarrow> 2 \<le> pool_room st \<Longrightarrow> push opts st = Some (token, st') \<Longrightarrow> pool_run opts st'"
| autoreleases: "pool_run opts st \<Longrightarrow> 2 \<le> pool_room st \<Longrightarrow> good_obj obj \<Longrightarrow> autoreleaseFast opts obj st = Some (dest, st') \<Longrightarrow> pool_run opts st'"
| pops: "pool_run opts st \<Longrightarrow> valid_token st d token \<Longrightarrow> pop opts token st = Some (Popped st') \<Longrightarrow> pool_run opts st'"

text \<open>The cold page is empty only when it is hot too, and then no debugging mode has a pop free it.\<close>

definition cold_ok :: "pool_options \<Rightarrow> pool_state \<Rightarrow> bool" where
  "cold_ok opts st \<longleftrightarrow> (\<forall>h. tls st = Hot h \<longrightarrow> page_next (pages st ! 0) = 0 \<longrightarrow>
     h = 0 \<and> \<not> DebugMissingPools opts \<and> \<not> DebugPoolAllocation opts)"

lemma add_nonempty: "0 < page_next (snd (add opts obj p))"
  by (auto simp: add_def coalesce_def page_empty_def Let_def split: option.split if_splits)

lemma add_at_cold:
  assumes "i < length (pages st)" "0 < i \<longrightarrow> 0 < page_next (pages st ! 0)"
  shows "cold_ok opts (snd (add_at opts' obj i st))"
  using assms add_nonempty [of opts' obj "pages st ! i"]
  by (cases "i = 0") (auto simp: cold_ok_def add_at_def update_page_def split: prod.splits)

lemma full_page_cold:
  assumes "h < length (pages st)" "0 < page_next (pages st ! 0)" "autoreleaseFullPage opts obj h st = Some r"
  shows "cold_ok opts (snd r)"
proof -
  have f: "i \<le> first_room ps i \<and> first_room ps i \<le> i + length ps" for i and ps :: "pool_page list"
  proof (induction ps arbitrary: i)
    case (Cons p ps)
    have "i + 1 \<le> first_room ps (i + 1) \<and> first_room ps (i + 1) \<le> i + 1 + length ps" by (rule Cons.IH)
    then show ?case by simp
  qed simp
  let ?i = "first_room (drop (h + 1) (pages st)) (h + 1)"
  have i: "h + 1 \<le> ?i" "?i \<le> length (pages st)" using f [of "h + 1" "drop (h + 1) (pages st)"] assms(1) by auto
  show ?thesis
  proof (cases "?i < length (pages st)")
    case True
    then show ?thesis using assms add_at_cold [OF True] by (auto simp: autoreleaseFullPage_def)
  next
    case False
    then obtain st1 where st1: "new_page st = Some st1" "r = add_at opts obj ?i st1" using assms(3) by (auto simp: autoreleaseFullPage_def)
    then obtain p where "pages st1 = pages st @ [p]" by (auto simp: new_page_def split: list.splits)
    then have "?i < length (pages st1)" "pages st1 ! 0 = pages st ! 0" using i assms(1) by (auto simp: nth_append)
    then show ?thesis using add_at_cold [of ?i st1] assms(2) st1(2) by simp
  qed
qed

lemma no_page_cold:
  assumes "autoreleaseNoPage opts obj st = Some r" "\<forall>h. tls st \<noteq> Hot h"
  shows "cold_ok opts (snd r)"
proof -
  have p: "pages (snd (add_at o1 x 0 st1)) \<noteq> []" if "pages st1 \<noteq> []" for o1 x st1
    using that by (auto simp: add_at_def update_page_def split: prod.split)
  have n: "pages st1 \<noteq> []" if "new_page st2 = Some st1" for st1 st2 using that by (auto simp: new_page_def split: list.splits)
  show ?thesis using assms p n
    by (auto simp: autoreleaseNoPage_def cold_ok_def [of opts st] cold_ok_def [of opts "st\<lparr>tls := Placeholder\<rparr>"]
        intro!: add_at_cold split: option.splits if_splits)
qed

lemma autorelease_cold:
  assumes "pool_ok st" "cold_ok opts st" "autoreleaseFast opts obj st = Some r"
  shows "cold_ok opts (snd r)"
proof (cases "tls st")
  case (Hot h)
  have h: "h < length (pages st)" using assms(1) Hot by (simp add: pool_ok_def)
  have c: "0 < h \<longrightarrow> 0 < page_next (pages st ! 0)" using assms(2) Hot by (auto simp: cold_ok_def)
  show ?thesis
  proof (cases "page_full (pages st ! h)")
    case False
    then show ?thesis using assms(3) Hot add_at_cold [OF h c] by (auto simp: autoreleaseFast_def)
  next
    case True
    then have "0 < page_next (pages st ! 0)" using c capacity_pos by (cases "h = 0") (auto simp: page_full_def)
    then show ?thesis using full_page_cold [OF h] assms(3) True Hot by (auto simp: autoreleaseFast_def)
  qed
qed (use assms(3) no_page_cold in \<open>auto simp: autoreleaseFast_def\<close>)

lemma push_cold:
  assumes "pool_ok st" "cold_ok opts st" "push opts st = Some r"
  shows "cold_ok opts (snd r)"
proof (cases "DebugPoolAllocation opts")
  case False
  then show ?thesis using autorelease_cold [OF assms(1,2)] assms(3) by (simp add: push_def)
next
  case True
  show ?thesis
  proof (cases "tls st")
    case (Hot h)
    have "h < length (pages st)" using assms(1) Hot by (simp add: pool_ok_def)
    moreover have "0 < page_next (pages st ! 0)" using assms(2) Hot True by (auto simp: cold_ok_def)
    ultimately show ?thesis using full_page_cold assms(3) True Hot by (auto simp: push_def autoreleaseNewPage_def)
  qed (use assms(3) True no_page_cold in \<open>auto simp: push_def autoreleaseNewPage_def\<close>)
qed

lemma popPage_cold:
  assumes ok: "pool_ok st" "script_ok st" and b: "boundary_at st this stop" and c: "cold_ok opts st" and p: "popPage opts this stop st = Some st'"
  shows "cold_ok opts st'"
proof -
  from releaseUntil_ok [OF boundary_loop_inv(1) [OF ok b], of opts] obtain st1 where
    1: "releaseUntil opts this stop st = Some st1" "kept this st st1" "tls st1 = Hot this" "this < length (pages st1)" by blast
  have l: "this < length (pages st)" "0 < page_next (pages st ! this)" using b by (auto simp: boundary_at_def)
  obtain h where h: "tls st = Hot h" using ok(1) l(1) by (cases "tls st") (auto simp: pool_ok_def)
  have le: "this \<le> h" using hot_above [OF ok(1) h] l by (metis less_irrefl not_le)
  have "0 < page_next (pages st1 ! 0)" if "0 < this"
  proof -
    have "0 < page_next (pages st ! 0)" using c h le that by (auto simp: cold_ok_def)
    moreover have "pages st1 ! 0 = pages st ! 0" using 1(2) that unfolding kept_def by (metis nth_take)
    ultimately show ?thesis by simp
  qed
  then show ?thesis using p 1(1,3,4)
    by (cases "this = 0") (auto simp: popPage_def cold_ok_def kill_def parent_slot_def page_empty_def split: if_splits)
qed

lemma pop_cold:
  assumes ok: "pool_ok st" "script_ok st" and v: "valid_token st d token" and c: "cold_ok opts st" and p: "pop opts token st = Some (Popped st')"
  shows "cold_ok opts st'"
proof (cases "tls st = Placeholder")
  case True
  then have "pages st = []" using ok(1) by (simp add: pool_ok_def)
  then have "token = EMPTY_POOL_PLACEHOLDER" using v by (auto simp: valid_token_def boundary_at_def)
  then show ?thesis using p True by (auto simp: pop_def cold_ok_def)
next
  case False
  then obtain this stop where b: "boundary_at st this stop"
      "token = page_begin (pages st ! this) + sizeof_id * stop \<or> token = EMPTY_POOL_PLACEHOLDER \<and> this = 0 \<and> stop = 0"
    using v by (auto simp: valid_token_hot)
  have po: "pages_ok st" using ok(1) by (simp add: pool_ok_def)
  have l: "this < length (pages st)" "stop < page_next (pages st ! this)" using b(1) by (auto simp: boundary_at_def)
  have "page_ok (pages st ! this)" using po l(1) by (simp add: pages_ok_def)
  then have "stop < capacity" using l(2) by (simp add: page_ok_def)
  moreover obtain h where "tls st = Hot h" using ok(1) b(1) by (cases "tls st") (auto simp: pool_ok_def boundary_at_def)
  ultimately have "pop opts token st = pop_at opts this stop st"
    using pop_address [OF po l(1), of stop opts] b(2) by (auto simp: pop_def)
  then have "map_option Popped (popPage opts this stop st) = Some (Popped st')" using p by (auto simp: pop_at_def split: if_splits)
  then have "popPage opts this stop st = Some st'" by auto
  then show ?thesis by (rule popPage_cold [OF ok b(1) c])
qed

lemma pool_run_ok: "pool_run opts st \<Longrightarrow> pool_ok st \<and> script_ok st \<and> cold_ok opts st"
proof (induction rule: pool_run.induct)
  case (thread_start st)
  then show ?case by (simp add: cold_ok_def)
next
  case (opens st token st')
  have "2 \<le> length (page_supply st)" using opens.hyps(2) by (simp add: pool_room_def)
  from push_frame [OF _ this, of opts] opens.IH opens.hyps(3) have "frame_added 0 st token st'" by auto
  then show ?case using frame_added_room [of 0 st token st'] opens push_cold [of st opts "(token, st')"] by (auto simp: frame_added_def)
next
  case (autoreleases st obj dest st')
  have c: "cold_ok opts st'" using autorelease_cold [of st opts obj "(dest, st')"] autoreleases by simp
  show ?case
  proof (cases "tls st = NoPage \<and> DebugMissingPools opts")
    case True
    then have "st' = st" using autoreleases.hyps(3,4) by (auto simp: autoreleaseFast_def autoreleaseNoPage_def good_obj_def POOL_BOUNDARY_def)
    then show ?thesis using autoreleases.IH by simp
  next
    case False
    have "2 \<le> length (page_supply st)" using autoreleases.hyps(2) by (simp add: pool_room_def)
    from autorelease_frame(1) [OF _ this, of obj opts] False autoreleases.IH autoreleases.hyps(3,4) have "frame_added obj st dest st'" by auto
    then show ?thesis using frame_added_room [of obj st dest st'] autoreleases c by (auto simp: frame_added_def)
  qed
next
  case (pops st d token st')
  from pop_frames [of st d token opts] pops have "frames_popped d st st'" by auto
  then show ?case using pop_cold [of st d token opts st'] pops by (auto simp: frames_popped_def)
qed

text \<open>C7. When a thread exits, whatever its history and whatever pools it has left open, all they hold is released, with what
  those releases autorelease in their turn, and no page is left.\<close>

theorem thread_exit_releases_all:
  assumes "pool_run opts st"
  shows "\<exists>st' rs. tls_dealloc opts st = Some st' \<and> (tls st \<noteq> Placeholder \<longrightarrow> tls st' = NoPage) \<and> pages st' = [] \<and> pool_ok st' \<and>
    released st' = released st @ rs \<and> scripts st' = drop (length rs) (scripts st) \<and>
    mset rs = sum_list (pool_frames st) + mset (concat (take (length rs) (scripts st)))"
proof -
  have ok: "pool_ok st" "script_ok st" "cold_ok opts st" using pool_run_ok [OF assms] by simp_all
  consider (none) "\<forall>h. tls st \<noteq> Hot h" | (empty) h where "tls st = Hot h" "page_next (pages st ! 0) = 0"
    | (used) h where "tls st = Hot h" "0 < page_next (pages st ! 0)" by blast
  then show ?thesis
  proof cases
    case none
    then have "pages st = []" using ok(1) by (cases "tls st") (auto simp: pool_ok_def)
    then show ?thesis using none ok(1) by (intro exI [of _ st] exI [of _ "[]"]) (cases "tls st"; simp add: tls_dealloc_def pool_frames_def stack_def)
  next
    case empty
    then have z: "tls st = Hot 0" "\<not> DebugMissingPools opts" "\<not> DebugPoolAllocation opts" using ok(3) by (auto simp: cold_ok_def)
    note k = kill_this_ok [OF ok(1) z(1) empty(2)]
    have d: "tls_dealloc opts st = Some ((kill 0 st)\<lparr>tls := NoPage\<rparr>)" using z empty(2) by (simp add: tls_dealloc_def page_empty_def kill_def)
    have "stack st = []" using k(2) by (simp add: kill_def stack_def parent_slot_def)
    then show ?thesis using d k(1) z(1)
      by (intro exI [of _ "(kill 0 st)\<lparr>tls := NoPage\<rparr>"] exI [of _ "[]"]) (simp add: kill_def parent_slot_def pool_frames_def)
  next
    case (used h)
    have l: "0 < length (pages st)" and po: "pages_ok st" using ok(1) used(1) by (auto simp: pool_ok_def)
    have "page_next (pages st ! 0) \<le> length (stack st)" using stack_bound(1) [OF po l] by (simp add: below_def)
    then have len: "0 < length (stack st)" using used(2) by linarith
    have "loop_inv 0 0 [] st" using ok(1,2) used l len by (auto simp: loop_inv_def below_def)
    from releaseUntil_ok [OF this, of opts] obtain st1 where
      1: "releaseUntil opts 0 0 st = Some st1" "pool_ok st1" "script_ok st1" "stack st1 = []" "settled st st1" "page_next (pages st1 ! 0) = 0"
        "tls st1 = Hot 0" "0 < length (pages st1)" by blast
    have "page_begin (pages st ! 0) + sizeof_id * 0 = page_begin (pages st ! 0)" by simp
    then have pop: "pop opts (page_begin (pages st ! 0)) st = map_option Popped (popPage opts 0 0 st)"
      using pop_address [OF po l, of 0 opts] by (simp add: pop_at_def capacity_pos)
    have e: "page_empty (pages st1 ! 0)" "\<not> page_empty (pages st ! 0)" using 1(6) used(2) by (simp_all add: page_empty_def)
    have d: "tls_dealloc opts st = Some ((kill 0 st1)\<lparr>tls := NoPage\<rparr>)"
      using used(1) pop 1(1) e by (auto simp: tls_dealloc_def popPage_def kill_def parent_slot_def)
    note k = kill_this_ok [OF 1(2,7,6)]
    obtain rs where rs: "released st1 = released st @ rs" "scripts st1 = drop (length rs) (scripts st)"
        "mset rs + owed (stack st1) = owed (stack st) + mset (concat (take (length rs) (scripts st)))" using 1(5) by (auto simp: settled_def)
    have "sum_list (pool_frames st) = owed (stack st)" using used(1) by (simp add: pool_frames_def sum_frames)
    then show ?thesis using d k(1) rs 1(4) by (intro exI [of _ "(kill 0 st1)\<lparr>tls := NoPage\<rparr>"] exI [of _ rs]) (simp add: kill_def parent_slot_def)
  qed
qed

text \<open>A thread that opens a pool, autoreleases an object and exits.\<close>

theorem thread_exit_releases_all_witness:
  "\<exists>st st'. pool_run ex_options st \<and> pool_frames st = [{#}, {#0x1000#}] \<and> tls_dealloc ex_options st = Some st' \<and> pages st' = [] \<and>
     0x1000 \<in># mset (released st')"
proof -
  have s: "pool_run ex_options ex_thread" by (rule pool_run.thread_start) (simp_all add: ex_thread_ok, simp add: ex_thread_def)
  from push_frame [OF ex_thread_ok(1), of ex_options] ex_thread_ok(4) obtain token st1 where
    1: "push ex_options ex_thread = Some (token, st1)" "frame_added 0 ex_thread token st1" by auto
  have r1: "pool_run ex_options st1" by (rule pool_run.opens [OF s _ 1(1)]) (simp add: ex_thread_ok)
  have g: "good_obj 0x1000" by (simp add: good_obj_def entry_ptr_def take_bit_eq_mod)
  have p1: "pool_ok st1" "pool_frames st1 = [{#}, {#}]" "4 \<le> length (page_supply st1)" "3 \<le> pool_room st1"
    using 1(2) ex_thread_ok frame_added_room(2) [OF 1(2)] by (auto simp: frame_added_def pool_frames_def ex_thread_def stack_def)
  have "\<not> (tls st1 = NoPage \<and> 0x1000 \<noteq> (0 :: u64)) \<or> \<not> DebugMissingPools ex_options" by (simp add: ex_options_def)
  then obtain dest st2 where 2: "autoreleaseFast ex_options 0x1000 st1 = Some (dest, st2)" "frame_added 0x1000 st1 dest st2"
    using autorelease_frame(1) [OF p1(1), of "0x1000" ex_options] g p1(3) by auto
  have r2: "pool_run ex_options st2" by (rule pool_run.autoreleases [OF r1 _ g 2(1)]) (use p1(4) in simp)
  have f2: "pool_frames st2 = [{#}, {#0x1000#}]" using 2(2) p1(2) by (simp add: frame_added_def add_top_def)
  obtain st' rs where e: "tls_dealloc ex_options st2 = Some st'" "pages st' = []" "released st' = released st2 @ rs"
    "mset rs = sum_list (pool_frames st2) + mset (concat (take (length rs) (scripts st2)))"
    using thread_exit_releases_all [OF r2] by blast
  have "0x1000 \<in># mset rs" unfolding e(4) f2 by simp
  then show ?thesis using r2 f2 e(1-3) by (intro exI [of _ st2] exI [of _ st']) auto
qed

end
