(* ===== verification/PlatformMem.thy ===== *)
theory PlatformMem
  imports Prelude
begin

text \<open>
  The portable memory primitives of \<open>libplatform/src/string/generic\<close>. Memory is a function from
  addresses to bytes, addresses are natural numbers, and every routine takes the memory and
  returns the new one. A load or store of a \<open>long\<close> reads its eight bytes before it writes any.
\<close>

type_synonym memory = "nat \<Rightarrow> u8"

definition wsize :: nat where "wsize = 8"
definition wmask :: nat where "wmask = wsize - 1"

subsection \<open>Copying\<close>

type_synonym copy_state = "nat \<times> nat \<times> memory"    \<comment> \<open>\<open>dst\<close>, \<open>src\<close> and the memory\<close>

text \<open>
  \<open>TLOOP1\<close> is a do-while on a 64-bit counter decremented before its test, so that a count of
  zero would run \<open>2 ^ 64\<close> times.
\<close>

definition TLOOP1 :: "('s \<Rightarrow> 's) \<Rightarrow> nat \<Rightarrow> 's \<Rightarrow> 's" where
  "TLOOP1 f t st = (f ^^ (if t = 0 then 2 ^ 64 else t)) st"

definition TLOOP :: "('s \<Rightarrow> 's) \<Rightarrow> nat \<Rightarrow> 's \<Rightarrow> 's" where
  "TLOOP f t st = (if t \<noteq> 0 then TLOOP1 f t st else st)"

definition copy_word :: "nat \<Rightarrow> nat \<Rightarrow> memory \<Rightarrow> memory" where
  "copy_word dst src m = (\<lambda>a. if dst \<le> a \<and> a < dst + wsize then m (src + (a - dst)) else m a)"

fun byte_forward :: "copy_state \<Rightarrow> copy_state" where
  "byte_forward (dst, src, m) = (dst + 1, src + 1, m(dst := m src))"

fun word_forward :: "copy_state \<Rightarrow> copy_state" where
  "word_forward (dst, src, m) = (dst + wsize, src + wsize, copy_word dst src m)"

fun byte_backward :: "copy_state \<Rightarrow> copy_state" where
  "byte_backward (dst, src, m) = (dst - 1, src - 1, m(dst - 1 := m (src - 1)))"

fun word_backward :: "copy_state \<Rightarrow> copy_state" where
  "word_backward (dst, src, m) = (dst - wsize, src - wsize, copy_word (dst - wsize) (src - wsize) m)"

definition memmove_forward :: "nat \<Rightarrow> nat \<Rightarrow> nat \<Rightarrow> memory \<Rightarrow> memory" where
  "memmove_forward dst src len m =
     (let aligned = ((src OR dst) AND wmask = 0);
          t = (if (src XOR dst) AND wmask \<noteq> 0 \<or> len < wsize then len else wsize - (src AND wmask));
          st1 = (if \<not> aligned then TLOOP1 byte_forward t (dst, src, m) else (dst, src, m));
          len1 = (if \<not> aligned then len - t else len);
          st2 = TLOOP word_forward (len1 div wsize) st1;
          st3 = TLOOP byte_forward (len1 AND wmask) st2
      in snd (snd st3))"

definition memmove_backward :: "nat \<Rightarrow> nat \<Rightarrow> nat \<Rightarrow> memory \<Rightarrow> memory" where
  "memmove_backward dst0 src0 len m =
     (let src = src0 + len; dst = dst0 + len;
          aligned = ((src OR dst) AND wmask = 0);
          t = (if (src XOR dst) AND wmask \<noteq> 0 \<or> len \<le> wsize then len else src AND wmask);
          st1 = (if \<not> aligned then TLOOP1 byte_backward t (dst, src, m) else (dst, src, m));
          len1 = (if \<not> aligned then len - t else len);
          st2 = TLOOP word_backward (len1 div wsize) st1;
          st3 = TLOOP byte_backward (len1 AND wmask) st2
      in snd (snd st3))"

definition memmove :: "nat \<Rightarrow> nat \<Rightarrow> nat \<Rightarrow> memory \<Rightarrow> memory" where
  "memmove dst0 src0 len m =
     (if len = 0 \<or> dst0 = src0 then m
      else if dst0 < src0 then memmove_forward dst0 src0 len m
      else memmove_backward dst0 src0 len m)"

subsection \<open>Filling\<close>

text \<open>The loop of the three \<open>memset_pattern\<close> routines, which differ in the width \<open>k\<close> only.\<close>

function memset_pattern :: "nat \<Rightarrow> nat \<Rightarrow> nat \<Rightarrow> nat \<Rightarrow> memory \<Rightarrow> memory" where
  "memset_pattern k finish p pattern m =
     (if 0 < k \<and> k \<le> finish - p then memset_pattern k finish (p + k) pattern (memmove p pattern k m)
      else if finish - p \<noteq> 0 then memmove p pattern (finish - p) m
      else m)"
  by pat_completeness auto
termination
  by (relation "measure (\<lambda>(k, finish, p, pattern, m). finish - p)") auto

definition memset_pattern4 :: "nat \<Rightarrow> nat \<Rightarrow> nat \<Rightarrow> memory \<Rightarrow> memory" where
  "memset_pattern4 b pattern4 len m = memset_pattern 4 (b + len) b pattern4 m"

definition memset_pattern8 :: "nat \<Rightarrow> nat \<Rightarrow> nat \<Rightarrow> memory \<Rightarrow> memory" where
  "memset_pattern8 b pattern8 len m = memset_pattern 8 (b + len) b pattern8 m"

definition memset_pattern16 :: "nat \<Rightarrow> nat \<Rightarrow> nat \<Rightarrow> memory \<Rightarrow> memory" where
  "memset_pattern16 b pattern16 len m = memset_pattern 16 (b + len) b pattern16 m"

text \<open>\<open>memset\<close> builds its four byte pattern in a local array, at the stack address \<open>local\<close>.\<close>

definition memset :: "nat \<Rightarrow> nat \<Rightarrow> u32 \<Rightarrow> nat \<Rightarrow> memory \<Rightarrow> memory" where
  "memset local b c len m =
     memset_pattern4 b local len
       (m(local := ucast c, local + 1 := ucast c, local + 2 := ucast c, local + 3 := ucast c))"

definition bzero :: "nat \<Rightarrow> nat \<Rightarrow> nat \<Rightarrow> memory \<Rightarrow> memory" where
  "bzero local s n m = memset local s 0 n m"

subsection \<open>Searching and comparing\<close>

primrec memchr_loop :: "memory \<Rightarrow> u8 \<Rightarrow> nat \<Rightarrow> nat \<Rightarrow> nat option" where
  "memchr_loop m c 0 p = None"
| "memchr_loop m c (Suc n) p = (if m p = c then Some p else memchr_loop m c n (p + 1))"

definition memchr :: "memory \<Rightarrow> nat \<Rightarrow> u32 \<Rightarrow> nat \<Rightarrow> nat option" where
  "memchr m s c n = memchr_loop m (ucast c) n s"

primrec memcmp_loop :: "memory \<Rightarrow> nat \<Rightarrow> nat \<Rightarrow> nat \<Rightarrow> int" where
  "memcmp_loop m 0 p1 p2 = 0"
| "memcmp_loop m (Suc n) p1 p2 = (if m p1 \<noteq> m p2 then uint (m p1) - uint (m p2) else memcmp_loop m n (p1 + 1) (p2 + 1))"

definition memcmp :: "memory \<Rightarrow> nat \<Rightarrow> nat \<Rightarrow> nat \<Rightarrow> int" where
  "memcmp m s1 s2 n = memcmp_loop m n s1 s2"

definition memccpy :: "nat \<Rightarrow> nat \<Rightarrow> u32 \<Rightarrow> nat \<Rightarrow> memory \<Rightarrow> nat option \<times> memory" where
  "memccpy t f c n m =
     (if n = 0 then (None, m)
      else case memchr m f c n of
        None \<Rightarrow> (None, memmove t f n m)
      | Some l \<Rightarrow> (Some (t + (l - f + 1)), memmove t f (l - f + 1) m))"

declare memset_pattern.simps [simp del]

subsection \<open>Copying is a simultaneous assignment\<close>

definition blit :: "nat \<Rightarrow> nat \<Rightarrow> nat \<Rightarrow> memory \<Rightarrow> memory" where
  "blit dst src n m = (\<lambda>a. if dst \<le> a \<and> a < dst + n then m (src + (a - dst)) else m a)"

lemma blit_0 [simp]: "blit dst src 0 m = m"
  by (auto simp: blit_def fun_eq_iff)

lemma blit_same [simp]: "blit dst dst n m = m"
  by (auto simp: blit_def fun_eq_iff)

lemma blit_one: "blit dst src 1 m = m(dst := m src)"
  by (auto simp: blit_def fun_eq_iff)

lemma blit_up: "dst \<le> src \<Longrightarrow> blit (dst + k) (src + k) n (blit dst src k m) = blit dst src (k + n) m"
  by (auto simp: blit_def fun_eq_iff)

lemma blit_down: "src \<le> dst \<Longrightarrow> blit dst src n (blit (dst + n) (src + n) k m) = blit dst src (n + k) m"
  by (auto simp: blit_def fun_eq_iff)

lemma copy_word_blit: "copy_word dst src m = blit dst src wsize m"
  by (simp add: copy_word_def blit_def)

text \<open>A loop of \<open>n\<close> copies of \<open>w\<close> bytes, upwards and downwards.\<close>

lemma loop_up:
  assumes step: "\<And>d s m. f (d, s, m) = (d + w, s + w, blit d s w m)" and le: "dst \<le> src"
  shows "(f ^^ n) (dst, src, m) = (dst + n * w, src + n * w, blit dst src (n * w) m)"
proof (induction n)
  case (Suc n)
  then show ?case using blit_up [OF le, of "n * w" w m] by (simp add: step algebra_simps)
qed simp

lemma loop_down:
  assumes step: "\<And>d s m. f (d, s, m) = (d - w, s - w, blit (d - w) (s - w) w m)" and le: "src \<le> dst"
  shows "(f ^^ n) (dst + n * w, src + n * w, m) = (dst, src, blit dst src (n * w) m)"
  using le
proof (induction n arbitrary: dst src)
  case (Suc n)
  have "(f ^^ n) (dst + (w + n * w), src + (w + n * w), m) = (dst + w, src + w, blit (dst + w) (src + w) (n * w) m)"
    using Suc.IH [of "src + w" "dst + w"] Suc.prems by (simp add: add.assoc)
  then show ?case using blit_down [OF Suc.prems, of w "n * w" m] by (simp add: step)
qed simp

lemma byte_forward_step: "byte_forward (d, s, m) = (d + 1, s + 1, blit d s 1 m)"
  by (simp add: blit_one [unfolded One_nat_def])

lemma word_forward_step: "word_forward (d, s, m) = (d + wsize, s + wsize, blit d s wsize m)"
  by (simp add: copy_word_blit)

lemma byte_backward_step: "byte_backward (d, s, m) = (d - 1, s - 1, blit (d - 1) (s - 1) 1 m)"
  by (simp add: blit_one [unfolded One_nat_def])

lemma word_backward_step: "word_backward (d, s, m) = (d - wsize, s - wsize, blit (d - wsize) (s - wsize) wsize m)"
  by (simp add: copy_word_blit)

lemmas forward_loops = loop_up [where f = byte_forward and w = 1, OF byte_forward_step, simplified]
  loop_up [where f = word_forward and w = wsize, OF word_forward_step]

lemmas backward_loops = loop_down [where f = byte_backward and w = 1, OF byte_backward_step, simplified]
  loop_down [where f = word_backward and w = wsize, OF word_backward_step]

lemma TLOOP_funpow: "TLOOP f t st = (f ^^ t) st"
  by (simp add: TLOOP_def TLOOP1_def)

lemma TLOOP1_funpow: "0 < t \<Longrightarrow> TLOOP1 f t st = (f ^^ t) st"
  by (simp add: TLOOP1_def)

lemma and_wmask: "x AND wmask = x mod 8" for x :: nat
  using and_pow2 [of x 3] by (simp add: wmask_def wsize_def)


lemma unaligned_count:
  fixes src dst :: nat
  assumes "(src OR dst) AND wmask \<noteq> 0" "(src XOR dst) AND wmask = 0"
  shows "0 < src AND wmask"
proof -
  have "(src XOR dst) AND wmask = (src AND wmask) XOR (dst AND wmask)" by (rule bit_eqI) (auto simp: bit_simps)
  then have "(src AND wmask) XOR (dst AND wmask) = 0" using assms(2) by simp
  then have "src AND wmask = dst AND wmask" by (metis xor.left_neutral xor.assoc xor_self_eq xor.right_neutral)
  moreover have "(src OR dst) AND wmask = (src AND wmask) OR (dst AND wmask)" by (rule bit_eqI) (auto simp: bit_simps)
  ultimately have "(src OR dst) AND wmask = src AND wmask" by simp
  then show ?thesis using assms(1) by simp
qed

lemma memmove_forward_blit:
  assumes "dst < src" "0 < len"
  shows "memmove_forward dst src len m = blit dst src len m"
proof -
  define aligned where "aligned = ((src OR dst) AND wmask = 0)"
  define t where "t = (if (src XOR dst) AND wmask \<noteq> 0 \<or> len < wsize then len else wsize - (src AND wmask))"
  define t' where "t' = (if aligned then 0 else t)"
  have t: "0 < t" "t \<le> len" using assms(2) by (auto simp: t_def and_wmask wsize_def)
  have st1: "(if \<not> aligned then TLOOP1 byte_forward t (dst, src, m) else (dst, src, m)) = (dst + t', src + t', blit dst src t' m)"
    using forward_loops(1) [of dst src t m] assms(1) t by (simp add: TLOOP1_funpow t'_def)
  define n where "n = len - t'"
  have n: "(if \<not> aligned then len - t else len) = n" by (simp add: n_def t'_def)
  have sp: "t' + (n div wsize * wsize + n mod 8) = len" using t by (simp add: n_def t'_def wsize_def)
  show ?thesis
    unfolding memmove_forward_def Let_def aligned_def [symmetric] t_def [symmetric] st1 n TLOOP_funpow
    using assms(1) forward_loops(1) [of "dst + t' + n div wsize * wsize" "src + t' + n div wsize * wsize"] forward_loops(2) [of "dst + t'" "src + t'"]
      blit_up [of dst src "t' + n div wsize * wsize" "n mod 8" m] blit_up [of dst src t'] sp
    by (simp add: and_wmask add.assoc)
qed

lemma memmove_backward_blit:
  assumes "src < dst" "0 < len"
  shows "memmove_backward dst src len m = blit dst src len m"
proof -
  define aligned where "aligned = ((src + len OR dst + len) AND wmask = 0)"
  define t where "t = (if (src + len XOR dst + len) AND wmask \<noteq> 0 \<or> len \<le> wsize then len else src + len AND wmask)"
  define t' where "t' = (if aligned then 0 else t)"
  have t: "t \<le> len" "\<not> aligned \<Longrightarrow> 0 < t"
    using assms(2) unaligned_count [of "src + len" "dst + len"] by (auto simp: t_def aligned_def and_wmask wsize_def)
  define n where "n = len - t'"
  have len: "len = n + t'" using t by (simp add: n_def t'_def)
  have st1: "(if \<not> aligned then TLOOP1 byte_backward t (dst + len, src + len, m) else (dst + len, src + len, m)) =
      (dst + n, src + n, blit (dst + n) (src + n) t' m)"
    using backward_loops(1) [of "src + n" "dst + n" t' m] assms(1) t by (auto simp: TLOOP1_funpow t'_def len add.assoc)
  have n: "(if \<not> aligned then len - t else len) = n" by (simp add: n_def t'_def)
  define r where "r = n mod 8"
  have nr: "n = r + n div wsize * wsize" by (simp add: r_def wsize_def)
  have st2: "(word_backward ^^ (n div wsize)) (dst + n, src + n, blit (dst + n) (src + n) t' m) =
      (dst + r, src + r, blit (dst + r) (src + r) (n div wsize * wsize) (blit (dst + n) (src + n) t' m))"
    using backward_loops(2) [of "src + r" "dst + r" "n div wsize"] assms(1) nr by (metis add.assoc add_le_mono1 less_imp_le)
  have st3: "(byte_backward ^^ r) (dst + r, src + r, m') = (dst, src, blit dst src r m')" for m'
    using backward_loops(1) [of src dst r m'] assms(1) by simp
  have "blit dst src r (blit (dst + r) (src + r) (n div wsize * wsize) (blit (dst + n) (src + n) t' m)) = blit dst src len m"
    using blit_down [of src dst r "n div wsize * wsize"] blit_down [of src dst n t'] assms(1) nr len by simp
  then show ?thesis
    unfolding memmove_backward_def Let_def aligned_def [symmetric] t_def [symmetric] st1 n TLOOP_funpow st2
    by (simp add: and_wmask r_def [symmetric] st3)
qed

lemma memmove_blit: "memmove dst src len m = blit dst src len m"
  using memmove_forward_blit [of dst src len m] memmove_backward_blit [of src dst len m]
  by (cases dst src rule: linorder_cases) (auto simp: memmove_def)


subsection \<open>Filling with a pattern\<close>

definition apart :: "nat \<Rightarrow> nat \<Rightarrow> nat \<Rightarrow> nat \<Rightarrow> bool" where
  "apart p n q k \<longleftrightarrow> p + n \<le> q \<or> q + k \<le> p"

lemma memset_pattern_fills:
  assumes "0 < k" "p \<le> finish" "apart p (finish - p) pattern k"
  shows "memset_pattern k finish p pattern m = (\<lambda>a. if p \<le> a \<and> a < finish then m (pattern + (a - p) mod k) else m a)"
  using assms
proof (induction k finish p pattern m rule: memset_pattern.induct)
  case (1 k finish p pattern m)
  show ?case
  proof (cases "k \<le> finish - p")
    case True
    let ?m = "memmove p pattern k m"
    have ih: "memset_pattern k finish (p + k) pattern ?m =
        (\<lambda>a. if p + k \<le> a \<and> a < finish then ?m (pattern + (a - (p + k)) mod k) else ?m a)"
      using 1 True by (intro "1.IH") (auto simp: apart_def)
    have pat: "?m (pattern + i mod k) = m (pattern + i mod k)" for i
    proof -
      have "i mod k < k" using 1(2) by (rule mod_less_divisor)
      then have "pattern + i mod k < p \<or> p + k \<le> pattern + i mod k" using 1(4) True unfolding apart_def by linarith
      then show ?thesis by (auto simp: memmove_blit blit_def)
    qed
    have md: "(a - (p + k)) mod k = (a - p) mod k" if "p + k \<le> a" for a
      using that by (metis diff_diff_left le_diff_conv2 le_add1 le_mod_geq le_trans add.commute)
    have low: "(a - p) mod k = a - p" if "p \<le> a" "a < p + k" for a using that by simp
    have at: "?m a = (if p \<le> a \<and> a < p + k then m (pattern + (a - p)) else m a)" for a by (simp add: memmove_blit blit_def)
    have "memset_pattern k finish p pattern m = memset_pattern k finish (p + k) pattern ?m"
      using True 1(2) by (subst memset_pattern.simps) simp
    then show ?thesis unfolding ih pat using True by (auto simp: fun_eq_iff at md low)
  next
    case False
    then show ?thesis by (subst memset_pattern.simps) (auto simp: fun_eq_iff memmove_blit blit_def)
  qed
qed

lemma memset_fills:
  assumes "apart b len local 4"
  shows "memset local b c len m a =
     (if b \<le> a \<and> a < b + len then ucast c else if local \<le> a \<and> a < local + 4 then ucast c else m a)"
proof -
  let ?m = "m(local := ucast c, local + 1 := ucast c, local + 2 := ucast c, local + 3 := ucast c)"
  have l: "?m x = (if local \<le> x \<and> x < local + 4 then ucast c else m x)" for x
  proof -
    have "local \<le> x \<and> x < local + 4 \<longleftrightarrow> x = local \<or> x = local + 1 \<or> x = local + 2 \<or> x = local + 3" by auto
    then show ?thesis by auto
  qed
  have "memset_pattern 4 (b + len) b local ?m = (\<lambda>a. if b \<le> a \<and> a < b + len then ?m (local + (a - b) mod 4) else ?m a)"
    using assms by (intro memset_pattern_fills) simp_all
  then show ?thesis unfolding memset_def memset_pattern4_def l by (simp only: l) simp
qed

subsection \<open>Searching and comparing\<close>

lemma memchr_loop_Some: "memchr_loop m c n p = Some q \<longleftrightarrow> p \<le> q \<and> q < p + n \<and> m q = c \<and> (\<forall>a. p \<le> a \<and> a < q \<longrightarrow> m a \<noteq> c)"
proof (induction n arbitrary: p)
  case (Suc n)
  show ?case
  proof (cases "m p = c")
    case True
    then show ?thesis by auto
  next
    case False
    then show ?thesis using Suc.IH [of "p + 1"] by (auto simp: Suc_le_eq) (metis le_neq_implies_less)+
  qed
qed auto

lemma memchr_loop_None: "memchr_loop m c n p = None \<longleftrightarrow> (\<forall>a. p \<le> a \<and> a < p + n \<longrightarrow> m a \<noteq> c)"
proof (induction n arbitrary: p)
  case (Suc n)
  have "(\<forall>a. p \<le> a \<and> a < p + Suc n \<longrightarrow> m a \<noteq> c) \<longleftrightarrow> m p \<noteq> c \<and> (\<forall>a. p + 1 \<le> a \<and> a < p + 1 + n \<longrightarrow> m a \<noteq> c)"
  proof -
    have "p \<le> a \<and> a < p + Suc n \<longleftrightarrow> a = p \<or> p + 1 \<le> a \<and> a < p + 1 + n" for a by auto
    then show ?thesis by metis
  qed
  then show ?case using Suc.IH [of "p + 1"] by simp
qed auto

text \<open>The comparison is decided by the first byte that differs, as unsigned bytes.\<close>

lemma memcmp_loop_cases:
  "(\<forall>i < n. m (p1 + i) = m (p2 + i)) \<and> memcmp_loop m n p1 p2 = 0 \<or>
   (\<exists>i < n. m (p1 + i) \<noteq> m (p2 + i) \<and> (\<forall>j < i. m (p1 + j) = m (p2 + j)) \<and>
      memcmp_loop m n p1 p2 = uint (m (p1 + i)) - uint (m (p2 + i)))"
proof (induction n arbitrary: p1 p2)
  case (Suc n)
  show ?case
  proof (cases "m p1 = m p2")
    case False
    then show ?thesis by (intro disjI2 exI [of _ 0]) simp
  next
    case True
    from Suc.IH [of "p1 + 1" "p2 + 1"] show ?thesis
    proof (elim disjE exE conjE)
      fix i
      assume i: "i < n" "m (p1 + 1 + i) \<noteq> m (p2 + 1 + i)" "\<forall>j < i. m (p1 + 1 + j) = m (p2 + 1 + j)"
        "memcmp_loop m n (p1 + 1) (p2 + 1) = uint (m (p1 + 1 + i)) - uint (m (p2 + 1 + i))"
      have "\<forall>j < Suc i. m (p1 + j) = m (p2 + j)" using i(3) True by (auto simp: less_Suc_eq_0_disj)
      then show ?thesis using i True by (intro disjI2 exI [of _ "Suc i"]) simp
    next
      assume "\<forall>i < n. m (p1 + 1 + i) = m (p2 + 1 + i)" "memcmp_loop m n (p1 + 1) (p2 + 1) = 0"
      then show ?thesis using True by (intro disjI1) (auto simp: less_Suc_eq_0_disj)
    qed
  qed
qed simp

subsection \<open>Properties\<close>

text \<open>
  C29. \<open>memmove\<close> is a simultaneous copy: for every source, destination and length, aligned or not and
  overlapping in either direction, each destination byte gets the value its source byte had before
  the call and no other byte changes. No do-while of the implementation is entered with a zero count.
\<close>

theorem memmove_correct:
  "memmove dst src len m = (\<lambda>a. if dst \<le> a \<and> a < dst + len then m (src + (a - dst)) else m a)"
  by (simp add: memmove_blit blit_def)

text \<open>
  The pattern fills repeat the pattern over the whole range, the truncated last copy included, and
  \<open>memset\<close> sets every byte of the range to the low byte of its argument; nothing else changes but
  \<open>memset\<close>'s own local array. The pattern must lie outside the range.
\<close>

lemma memset_correct:
  assumes "apart b len pattern4 4" "apart b len pattern8 8" "apart b len pattern16 16"
  shows "memset_pattern4 b pattern4 len m = (\<lambda>a. if b \<le> a \<and> a < b + len then m (pattern4 + (a - b) mod 4) else m a) \<and>
    memset_pattern8 b pattern8 len m = (\<lambda>a. if b \<le> a \<and> a < b + len then m (pattern8 + (a - b) mod 8) else m a) \<and>
    memset_pattern16 b pattern16 len m = (\<lambda>a. if b \<le> a \<and> a < b + len then m (pattern16 + (a - b) mod 16) else m a) \<and>
    (\<forall>a. memset pattern4 b c len m a = (if b \<le> a \<and> a < b + len \<or> pattern4 \<le> a \<and> a < pattern4 + 4 then ucast c else m a))"
  using assms by (simp add: memset_pattern4_def memset_pattern8_def memset_pattern16_def memset_pattern_fills memset_fills)

lemma memset_correct_witness:
  "memset_pattern4 100 0 6 (\<lambda>a. of_nat a) 105 = 1 \<and> memset 0 100 0x1ff 6 (\<lambda>_. 0) 105 = 0xff"
  using memset_correct [of 100 6 0 0 0 "\<lambda>a. of_nat a" 0] memset_correct [of 100 6 0 0 0 "\<lambda>_. 0" "0x1ff"]
  by (simp add: apart_def)

text \<open>
  \<open>memchr\<close> finds the first matching byte or none, \<open>memcmp\<close> is decided by the first difference taken
  as unsigned bytes, and \<open>memccpy\<close> copies through the first match and returns the byte after it in the
  destination, or copies everything and returns null.
\<close>

lemma memchr_memcmp_memccpy_correct:
  "(case memchr m s c n of
      Some q \<Rightarrow> s \<le> q \<and> q < s + n \<and> m q = ucast c \<and> (\<forall>a. s \<le> a \<and> a < q \<longrightarrow> m a \<noteq> ucast c) \<and>
        memccpy t s c n m = (Some (t + (q - s + 1)), \<lambda>a. if t \<le> a \<and> a < t + (q - s + 1) then m (s + (a - t)) else m a)
    | None \<Rightarrow> (\<forall>a. s \<le> a \<and> a < s + n \<longrightarrow> m a \<noteq> ucast c) \<and>
        memccpy t s c n m = (None, \<lambda>a. if t \<le> a \<and> a < t + n then m (s + (a - t)) else m a)) \<and>
   (memcmp m s1 s2 n = 0 \<longleftrightarrow> (\<forall>i < n. m (s1 + i) = m (s2 + i))) \<and>
   (memcmp m s1 s2 n < 0 \<longleftrightarrow> (\<exists>i < n. m (s1 + i) < m (s2 + i) \<and> (\<forall>j < i. m (s1 + j) = m (s2 + j))))"
proof (intro conjI)
  show "(case memchr m s c n of
      Some q \<Rightarrow> s \<le> q \<and> q < s + n \<and> m q = ucast c \<and> (\<forall>a. s \<le> a \<and> a < q \<longrightarrow> m a \<noteq> ucast c) \<and>
        memccpy t s c n m = (Some (t + (q - s + 1)), \<lambda>a. if t \<le> a \<and> a < t + (q - s + 1) then m (s + (a - t)) else m a)
    | None \<Rightarrow> (\<forall>a. s \<le> a \<and> a < s + n \<longrightarrow> m a \<noteq> ucast c) \<and>
        memccpy t s c n m = (None, \<lambda>a. if t \<le> a \<and> a < t + n then m (s + (a - t)) else m a))"
  proof (cases "memchr_loop m (ucast c) n s")
    case None
    then show ?thesis using memchr_loop_None [of m "ucast c" n s]
      by (auto simp: memccpy_def memchr_def memmove_blit blit_def fun_eq_iff)
  next
    case (Some q)
    then show ?thesis using memchr_loop_Some [of m "ucast c" n s q]
      by (simp add: memccpy_def memchr_def memmove_blit blit_def fun_eq_iff)
  qed
  show "memcmp m s1 s2 n = 0 \<longleftrightarrow> (\<forall>i < n. m (s1 + i) = m (s2 + i))"
    using memcmp_loop_cases [of n m s1 s2] unfolding memcmp_def by (metis eq_iff_diff_eq_0 word_uint_eqI)
  show "memcmp m s1 s2 n < 0 \<longleftrightarrow> (\<exists>i < n. m (s1 + i) < m (s2 + i) \<and> (\<forall>j < i. m (s1 + j) = m (s2 + j)))"
    using memcmp_loop_cases [of n m s1 s2] unfolding memcmp_def word_less_def
    by (elim disjE exE conjE) (auto, metis linorder_neqE_nat order_less_irrefl)
qed

end
