(* ===== verification/Blocks.thy ===== *)
theory Blocks
  imports PlatformMem
begin

text \<open>
  The blocks runtime (\<open>libclosure/runtime.cpp\<close>, \<open>Block_private.h\<close>): the latching reference count in a block's
  flags, the accessors of block descriptors, copying and releasing blocks and \<open>__block\<close> variables, and the
  entry points of the compiler's copy and dispose helpers. Blocks and variables are cells of one heap, with what they
  capture as words; descriptors are read from memory. A helper is compiled code: a script of the fields
  for which it calls the runtime. Ports with pointer authentication are not modelled.
\<close>

subsection \<open>Flags\<close>

definition BLOCK_DEALLOCATING :: u32 where "BLOCK_DEALLOCATING = 0x0001"
definition BLOCK_REFCOUNT_MASK :: u32 where "BLOCK_REFCOUNT_MASK = 0xfffe"
definition BLOCK_INLINE_LAYOUT_STRING :: u32 where "BLOCK_INLINE_LAYOUT_STRING = push_bit 21 1"
definition BLOCK_SMALL_DESCRIPTOR :: u32 where "BLOCK_SMALL_DESCRIPTOR = push_bit 22 1"
definition BLOCK_NEEDS_FREE :: u32 where "BLOCK_NEEDS_FREE = push_bit 24 1"
definition BLOCK_HAS_COPY_DISPOSE :: u32 where "BLOCK_HAS_COPY_DISPOSE = push_bit 25 1"
definition BLOCK_IS_GLOBAL :: u32 where "BLOCK_IS_GLOBAL = push_bit 28 1"
definition BLOCK_USE_STRET :: u32 where "BLOCK_USE_STRET = push_bit 29 1"
definition BLOCK_HAS_SIGNATURE :: u32 where "BLOCK_HAS_SIGNATURE = push_bit 30 1"
definition BLOCK_HAS_EXTENDED_LAYOUT :: u32 where "BLOCK_HAS_EXTENDED_LAYOUT = push_bit 31 1"

definition BLOCK_BYREF_LAYOUT_EXTENDED :: u32 where "BLOCK_BYREF_LAYOUT_EXTENDED = push_bit 28 1"
definition BLOCK_BYREF_HAS_COPY_DISPOSE :: u32 where "BLOCK_BYREF_HAS_COPY_DISPOSE = push_bit 25 1"
definition BLOCK_BYREF_NEEDS_FREE :: u32 where "BLOCK_BYREF_NEEDS_FREE = push_bit 24 1"

definition BLOCK_FIELD_IS_OBJECT :: u32 where "BLOCK_FIELD_IS_OBJECT = 3"
definition BLOCK_FIELD_IS_BLOCK :: u32 where "BLOCK_FIELD_IS_BLOCK = 7"
definition BLOCK_FIELD_IS_BYREF :: u32 where "BLOCK_FIELD_IS_BYREF = 8"
definition BLOCK_FIELD_IS_WEAK :: u32 where "BLOCK_FIELD_IS_WEAK = 16"
definition BLOCK_BYREF_CALLER :: u32 where "BLOCK_BYREF_CALLER = 128"
definition BLOCK_ALL_COPY_DISPOSE_FLAGS :: u32 where
  "BLOCK_ALL_COPY_DISPOSE_FLAGS =
     BLOCK_FIELD_IS_OBJECT OR BLOCK_FIELD_IS_BLOCK OR BLOCK_FIELD_IS_BYREF OR BLOCK_FIELD_IS_WEAK OR BLOCK_BYREF_CALLER"

subsection \<open>The latching count\<close>

text \<open>A compare-and-swap fails once for every word in the list, and finds that word next. Results are the value returned
  and the word left.\<close>

definition latched :: "u32 \<Rightarrow> bool" where "latched w \<longleftrightarrow> w AND BLOCK_REFCOUNT_MASK = BLOCK_REFCOUNT_MASK"

fun latching_incr_int :: "u32 \<Rightarrow> u32 list \<Rightarrow> u32 \<times> u32" where
  "latching_incr_int old_value [] =
     (if latched old_value then (BLOCK_REFCOUNT_MASK, old_value) else (old_value + 2, old_value + 2))"
| "latching_incr_int old_value (w # ws) =
     (if latched old_value then (BLOCK_REFCOUNT_MASK, old_value) else latching_incr_int w ws)"

fun latching_incr_int_not_deallocating :: "u32 \<Rightarrow> u32 list \<Rightarrow> bool \<times> u32" where
  "latching_incr_int_not_deallocating old_value [] =
     (if old_value AND BLOCK_DEALLOCATING \<noteq> 0 then (False, old_value)
      else if latched old_value then (True, old_value) else (True, old_value + 2))"
| "latching_incr_int_not_deallocating old_value (w # ws) =
     (if old_value AND BLOCK_DEALLOCATING \<noteq> 0 then (False, old_value)
      else if latched old_value then (True, old_value) else latching_incr_int_not_deallocating w ws)"

definition decr_value :: "u32 \<Rightarrow> bool \<times> u32" where
  "decr_value old_value =
     (if old_value AND (BLOCK_REFCOUNT_MASK OR BLOCK_DEALLOCATING) = 2 then (True, old_value - 1) else (False, old_value - 2))"

fun latching_decr_int_should_deallocate :: "u32 \<Rightarrow> u32 list \<Rightarrow> bool \<times> u32" where
  "latching_decr_int_should_deallocate old_value [] =
     (if latched old_value then (False, old_value)
      else if old_value AND BLOCK_REFCOUNT_MASK = 0 then (False, old_value) else decr_value old_value)"
| "latching_decr_int_should_deallocate old_value (w # ws) =
     (if latched old_value then (False, old_value)
      else if old_value AND BLOCK_REFCOUNT_MASK = 0 then (False, old_value) else latching_decr_int_should_deallocate w ws)"

subsection \<open>Blocks, variables and the heap\<close>

datatype block_isa = NSConcreteStackBlock | NSConcreteMallocBlock | NSConcreteGlobalBlock

record Block_layout =
  block_isa :: block_isa
  block_flags :: u32
  block_reserved :: u32
  block_invoke :: u64
  block_descriptor :: u64
  captured :: "u64 list"

text \<open>The words behind the header of a variable are its helpers, its layout and its contents.\<close>

record Block_byref =
  byref_isa :: u64
  forwarding :: u64
  byref_flags :: u32
  byref_size :: u32
  byref_words :: "u64 list"

datatype cell = BlockCell Block_layout | ByrefCell Block_byref

datatype callback = DefaultCallback | Registered u64

record Block_callbacks_RR =
  cb_retain :: callback
  cb_release :: callback
  cb_destructInstance :: callback

record block_state =
  heap :: "u64 \<Rightarrow> cell option"
  callbacks :: Block_callbacks_RR
  calls :: "(u64 \<times> u64) list"

text \<open>Compiled code and the allocator: the fields for which the helper at an address calls the runtime, with the flags it
  passes; what \<open>malloc\<close> returns, 0 when it fails; the contents of fresh memory; and the memory of descriptors.\<close>

record block_env =
  helper :: "u64 \<Rightarrow> (nat \<times> u32) list"
  bmalloc :: "block_state \<Rightarrow> nat \<Rightarrow> u64"
  uninitialized :: u64
  descriptors :: memory

datatype block_error = BadAccess | NullWrite | AssertFailed | Unfinished

definition get_block :: "block_state \<Rightarrow> u64 \<Rightarrow> Block_layout option" where
  "get_block st p = (case heap st p of Some (BlockCell b) \<Rightarrow> Some b | _ \<Rightarrow> None)"

definition get_byref :: "block_state \<Rightarrow> u64 \<Rightarrow> Block_byref option" where
  "get_byref st p = (case heap st p of Some (ByrefCell c) \<Rightarrow> Some c | _ \<Rightarrow> None)"

definition put_block :: "u64 \<Rightarrow> Block_layout \<Rightarrow> block_state \<Rightarrow> block_state" where
  "put_block p b st = st\<lparr>heap := (heap st)(p \<mapsto> BlockCell b)\<rparr>"

definition put_byref :: "u64 \<Rightarrow> Block_byref \<Rightarrow> block_state \<Rightarrow> block_state" where
  "put_byref p c st = st\<lparr>heap := (heap st)(p \<mapsto> ByrefCell c)\<rparr>"

definition free_cell :: "u64 \<Rightarrow> block_state \<Rightarrow> block_state" where
  "free_cell p st = st\<lparr>heap := (heap st)(p := None)\<rparr>"

fun cell_words :: "cell \<Rightarrow> u64 list" where
  "cell_words (BlockCell b) = captured b"
| "cell_words (ByrefCell c) = byref_words c"

fun set_cell_words :: "u64 list \<Rightarrow> cell \<Rightarrow> cell" where
  "set_cell_words ws (BlockCell b) = BlockCell (b\<lparr>captured := ws\<rparr>)"
| "set_cell_words ws (ByrefCell c) = ByrefCell (c\<lparr>byref_words := ws\<rparr>)"

definition load_field :: "block_state \<Rightarrow> u64 \<Rightarrow> nat \<Rightarrow> u64 option" where
  "load_field st p i =
     (case heap st p of None \<Rightarrow> None | Some c \<Rightarrow> if i < length (cell_words c) then Some (cell_words c ! i) else None)"

definition store_field :: "u64 \<Rightarrow> nat \<Rightarrow> u64 option \<Rightarrow> block_state \<Rightarrow> block_state option" where
  "store_field p i w st =
     (case heap st p of None \<Rightarrow> None
      | Some c \<Rightarrow> if length (cell_words c) \<le> i then None
                  else Some (case w of None \<Rightarrow> st
                             | Some v \<Rightarrow> st\<lparr>heap := (heap st)(p \<mapsto> set_cell_words ((cell_words c)[i := v]) c)\<rparr>))"

definition call_back :: "callback \<Rightarrow> u64 \<Rightarrow> block_state \<Rightarrow> block_state" where
  "call_back cb p st = (case cb of DefaultCallback \<Rightarrow> st | Registered f \<Rightarrow> st\<lparr>calls := calls st @ [(f, p)]\<rparr>)"

definition Block_use_RR2 :: "Block_callbacks_RR \<Rightarrow> block_state \<Rightarrow> block_state" where
  "Block_use_RR2 cbs st =
     st\<lparr>callbacks := \<lparr>cb_retain = cb_retain cbs, cb_release = cb_release cbs, cb_destructInstance = cb_destructInstance cbs\<rparr>\<rparr>"

subsection \<open>Descriptors\<close>

primrec load_le :: "memory \<Rightarrow> nat \<Rightarrow> nat \<Rightarrow> nat" where
  "load_le m a 0 = 0"
| "load_le m a (Suc n) = unat (m a) + 256 * load_le m (a + 1) n"

definition load32 :: "memory \<Rightarrow> u64 \<Rightarrow> u32" where "load32 m a = of_nat (load_le m (unat a) 4)"
definition load64 :: "memory \<Rightarrow> u64 \<Rightarrow> u64" where "load64 m a = of_nat (load_le m (unat a) 8)"

definition unwrap_relative_pointer :: "memory \<Rightarrow> u64 \<Rightarrow> u64" where
  "unwrap_relative_pointer m a = (if load32 m a = 0 then 0 else a + scast (load32 m a))"

definition get_relative_function_pointer :: "memory \<Rightarrow> u64 \<Rightarrow> u64" where
  "get_relative_function_pointer m a = scast (load32 m a) + a"

definition Block_get_descriptor :: "Block_layout \<Rightarrow> u64" where "Block_get_descriptor b = block_descriptor b"

definition Block_descriptor_2 :: "Block_layout \<Rightarrow> u64" where "Block_descriptor_2 b = Block_get_descriptor b + 16"

definition Block_descriptor_3 :: "Block_layout \<Rightarrow> u64" where
  "Block_descriptor_3 b =
     Block_get_descriptor b + 16 + (if block_flags b AND BLOCK_HAS_COPY_DISPOSE \<noteq> 0 then 16 else 0)"

definition Block_get_copy_function :: "memory \<Rightarrow> Block_layout \<Rightarrow> u64" where
  "Block_get_copy_function m b =
     (if block_flags b AND BLOCK_HAS_COPY_DISPOSE = 0 then 0
      else if block_flags b AND BLOCK_SMALL_DESCRIPTOR \<noteq> 0 then get_relative_function_pointer m (Block_get_descriptor b + 12)
      else load64 m (Block_descriptor_2 b))"

definition Block_get_dispose_function :: "memory \<Rightarrow> Block_layout \<Rightarrow> u64" where
  "Block_get_dispose_function m b =
     (if block_flags b AND BLOCK_HAS_COPY_DISPOSE = 0 then 0
      else if block_flags b AND BLOCK_SMALL_DESCRIPTOR \<noteq> 0 then get_relative_function_pointer m (Block_get_descriptor b + 16)
      else load64 m (Block_descriptor_2 b + 8))"

definition Block_size :: "memory \<Rightarrow> Block_layout \<Rightarrow> nat" where
  "Block_size m b =
     (if block_flags b AND BLOCK_SMALL_DESCRIPTOR \<noteq> 0 then unat (load32 m (Block_get_descriptor b))
      else unat (load64 m (Block_get_descriptor b + 8)))"

definition Block_use_stret :: "Block_layout \<Rightarrow> bool" where
  "Block_use_stret b \<longleftrightarrow>
     block_flags b AND (BLOCK_HAS_SIGNATURE OR BLOCK_USE_STRET) = BLOCK_HAS_SIGNATURE OR BLOCK_USE_STRET"

definition Block_signature :: "memory \<Rightarrow> Block_layout \<Rightarrow> u64" where
  "Block_signature m b =
     (if block_flags b AND BLOCK_HAS_SIGNATURE = 0 then 0
      else if block_flags b AND BLOCK_SMALL_DESCRIPTOR \<noteq> 0 then unwrap_relative_pointer m (Block_get_descriptor b + 4)
      else load64 m (Block_descriptor_3 b))"

definition Block_has_signature :: "memory \<Rightarrow> Block_layout \<Rightarrow> bool" where
  "Block_has_signature m b \<longleftrightarrow> Block_signature m b \<noteq> 0"

definition layout_field :: "memory \<Rightarrow> Block_layout \<Rightarrow> u64" where
  "layout_field m b =
     (if block_flags b AND BLOCK_SMALL_DESCRIPTOR \<noteq> 0 then unwrap_relative_pointer m (Block_get_descriptor b + 8)
      else load64 m (Block_descriptor_3 b + 8))"

definition block_layout_of :: "memory \<Rightarrow> Block_layout \<Rightarrow> u64" where
  "block_layout_of m b =
     (if block_flags b AND BLOCK_HAS_EXTENDED_LAYOUT \<noteq> 0 \<or> block_flags b AND BLOCK_HAS_SIGNATURE = 0 then 0 else layout_field m b)"

text \<open>\<open>None\<close> is the null pointer; \<open>none\<close> is the address of the empty string.\<close>

definition Block_extended_layout :: "memory \<Rightarrow> u64 \<Rightarrow> Block_layout \<Rightarrow> u64 option" where
  "Block_extended_layout m none b =
     (if block_flags b AND BLOCK_HAS_EXTENDED_LAYOUT = 0 \<or> block_flags b AND BLOCK_HAS_SIGNATURE = 0 then None
      else let extLayout = (if block_flags b AND BLOCK_SMALL_DESCRIPTOR \<noteq> 0 \<and> block_flags b AND BLOCK_INLINE_LAYOUT_STRING \<noteq> 0
                            then scast (load32 m (Block_get_descriptor b + 8)) else layout_field m b)
           in Some (if extLayout = 0 then none else extLayout))"

definition copy_script :: "block_env \<Rightarrow> Block_layout \<Rightarrow> (nat \<times> u32) list" where
  "copy_script env b =
     (let pFn = Block_get_copy_function (descriptors env) b in if pFn = 0 then [] else helper env pFn)"

definition dispose_script :: "block_env \<Rightarrow> Block_layout \<Rightarrow> (nat \<times> u32) list" where
  "dispose_script env b =
     (let pFn = Block_get_dispose_function (descriptors env) b in if pFn = 0 then [] else helper env pFn)"

subsection \<open>Copying\<close>

type_synonym assign_function = "u64 \<Rightarrow> u32 \<Rightarrow> block_state \<Rightarrow> block_error + u64 option \<times> block_state"

text \<open>A copy helper: for each field, the runtime's assignment of the source's word to the same word of the copy. The
  assignment may leave its destination alone (\<open>None\<close>).\<close>

fun copy_helper :: "assign_function \<Rightarrow> (nat \<times> u32) list \<Rightarrow> u64 \<Rightarrow> u64 \<Rightarrow> block_state \<Rightarrow> block_error + block_state" where
  "copy_helper assign [] dst src st = Inr st"
| "copy_helper assign ((i, fl) # fs) dst src st =
     (case load_field st src i of None \<Rightarrow> Inl BadAccess
      | Some v \<Rightarrow>
          (case assign v fl st of Inl e \<Rightarrow> Inl e
           | Inr (w, st1) \<Rightarrow>
               (case store_field dst i w st1 of None \<Rightarrow> Inl BadAccess
                | Some st2 \<Rightarrow> copy_helper assign fs dst src st2)))"

definition copied_block :: "Block_layout \<Rightarrow> Block_layout" where
  "copied_block b = b\<lparr>block_flags :=
     (block_flags b AND NOT (BLOCK_REFCOUNT_MASK OR BLOCK_DEALLOCATING)) OR (BLOCK_NEEDS_FREE OR 2)\<rparr>"

definition set_malloc_isa :: "u64 \<Rightarrow> block_state \<Rightarrow> block_state" where
  "set_malloc_isa p st = (case get_block st p of None \<Rightarrow> st | Some b \<Rightarrow> put_block p (b\<lparr>block_isa := NSConcreteMallocBlock\<rparr>) st)"

text \<open>A descriptor's size that is not that of the block makes the copy read or write out of bounds.\<close>

definition block_copy_with :: "block_env \<Rightarrow> assign_function \<Rightarrow> u64 \<Rightarrow> block_state \<Rightarrow> block_error + u64 \<times> block_state" where
  "block_copy_with env assign arg st =
     (if arg = 0 then Inr (0, st)
      else case get_block st arg of None \<Rightarrow> Inl BadAccess
      | Some b \<Rightarrow>
          if block_flags b AND BLOCK_NEEDS_FREE \<noteq> 0
          then Inr (arg, put_block arg (b\<lparr>block_flags := snd (latching_incr_int (block_flags b) [])\<rparr>) st)
          else if block_flags b AND BLOCK_IS_GLOBAL \<noteq> 0 then Inr (arg, st)
          else let size = Block_size (descriptors env) b; result = bmalloc env st size
               in if result = 0 then Inr (0, st)
                  else if size \<noteq> 32 + 8 * length (captured b) then Inl BadAccess
                  else (case copy_helper assign (copy_script env b) result arg (put_block result (copied_block b) st) of
                          Inl e \<Rightarrow> Inl e
                        | Inr st1 \<Rightarrow> Inr (result, set_malloc_isa result st1)))"

text \<open>The copy of a variable before its helper runs, or all of it if it has none.\<close>

definition copied_byref :: "block_env \<Rightarrow> u64 \<Rightarrow> Block_byref \<Rightarrow> Block_byref option" where
  "copied_byref env copy src =
     (let c = \<lparr>byref_isa = 0, forwarding = copy, byref_flags = byref_flags src OR BLOCK_BYREF_NEEDS_FREE OR 4,
               byref_size = byref_size src, byref_words = replicate (length (byref_words src)) (uninitialized env)\<rparr>;
          n = (if byref_flags src AND BLOCK_BYREF_LAYOUT_EXTENDED \<noteq> 0 then 3 else 2)
      in if unat (byref_size src) \<noteq> 24 + 8 * length (byref_words src) then None
         else if byref_flags src AND BLOCK_BYREF_HAS_COPY_DISPOSE = 0 then Some (c\<lparr>byref_words := byref_words src\<rparr>)
         else if length (byref_words src) < n then None
         else Some (c\<lparr>byref_words := take n (byref_words src) @ drop n (byref_words c)\<rparr>))"

definition keep_script :: "block_env \<Rightarrow> Block_byref \<Rightarrow> (nat \<times> u32) list" where
  "keep_script env c = (if byref_flags c AND BLOCK_BYREF_HAS_COPY_DISPOSE = 0 then [] else helper env (byref_words c ! 0))"

definition destroy_script :: "block_env \<Rightarrow> Block_byref \<Rightarrow> (nat \<times> u32) list" where
  "destroy_script env c = (if byref_flags c AND BLOCK_BYREF_HAS_COPY_DISPOSE = 0 then [] else helper env (byref_words c ! 1))"

definition byref_copy_with :: "block_env \<Rightarrow> assign_function \<Rightarrow> u64 \<Rightarrow> block_state \<Rightarrow> block_error + u64 \<times> block_state" where
  "byref_copy_with env assign arg st =
     (case get_byref st arg of None \<Rightarrow> Inl BadAccess
      | Some src \<Rightarrow>
          (case get_byref st (forwarding src) of None \<Rightarrow> Inl BadAccess
           | Some fwd \<Rightarrow>
               if byref_flags fwd AND BLOCK_REFCOUNT_MASK = 0 then
                 (let copy = bmalloc env st (unat (byref_size src))
                  in if copy = 0 then Inl NullWrite
                     else case copied_byref env copy src of None \<Rightarrow> Inl BadAccess
                     | Some c \<Rightarrow>
                         (case copy_helper assign (keep_script env src) copy arg
                                 (put_byref arg (src\<lparr>forwarding := copy\<rparr>) (put_byref copy c st)) of
                            Inl e \<Rightarrow> Inl e
                          | Inr st1 \<Rightarrow> (case get_byref st1 arg of None \<Rightarrow> Inl BadAccess | Some s \<Rightarrow> Inr (forwarding s, st1))))
               else if byref_flags fwd AND BLOCK_BYREF_NEEDS_FREE = BLOCK_BYREF_NEEDS_FREE then
                 Inr (forwarding src, put_byref (forwarding src) (fwd\<lparr>byref_flags := snd (latching_incr_int (byref_flags fwd) [])\<rparr>) st)
               else Inr (forwarding src, st)))"

definition map_dest :: "block_error + u64 \<times> block_state \<Rightarrow> block_error + u64 option \<times> block_state" where
  "map_dest r = (case r of Inl e \<Rightarrow> Inl e | Inr (v, st) \<Rightarrow> Inr (Some v, st))"

text \<open>The switch on the flags, where helpers of captured blocks and variables call back; the number bounds the nesting.\<close>

primrec Block_object_assign :: "block_env \<Rightarrow> nat \<Rightarrow> assign_function" where
  "Block_object_assign env 0 = (\<lambda>object fl st. Inl Unfinished)"
| "Block_object_assign env (Suc n) = (\<lambda>object fl st.
     (let k = fl AND BLOCK_ALL_COPY_DISPOSE_FLAGS
      in if k = BLOCK_FIELD_IS_OBJECT then Inr (Some object, call_back (cb_retain (callbacks st)) object st)
         else if k = BLOCK_FIELD_IS_BLOCK then map_dest (block_copy_with env (Block_object_assign env n) object st)
         else if k = BLOCK_FIELD_IS_BYREF OR BLOCK_FIELD_IS_WEAK \<or> k = BLOCK_FIELD_IS_BYREF
         then map_dest (byref_copy_with env (Block_object_assign env n) object st)
         else if k = BLOCK_BYREF_CALLER OR BLOCK_FIELD_IS_OBJECT \<or> k = BLOCK_BYREF_CALLER OR BLOCK_FIELD_IS_BLOCK \<or>
                 k = BLOCK_BYREF_CALLER OR BLOCK_FIELD_IS_OBJECT OR BLOCK_FIELD_IS_WEAK \<or>
                 k = BLOCK_BYREF_CALLER OR BLOCK_FIELD_IS_BLOCK OR BLOCK_FIELD_IS_WEAK
         then Inr (Some object, st)
         else Inr (None, st)))"

definition Block_copy :: "block_env \<Rightarrow> nat \<Rightarrow> u64 \<Rightarrow> block_state \<Rightarrow> block_error + u64 \<times> block_state" where
  "Block_copy env n = block_copy_with env (Block_object_assign env n)"

definition Block_byref_copy :: "block_env \<Rightarrow> nat \<Rightarrow> u64 \<Rightarrow> block_state \<Rightarrow> block_error + u64 \<times> block_state" where
  "Block_byref_copy env n = byref_copy_with env (Block_object_assign env n)"

subsection \<open>Releasing\<close>

type_synonym dispose_function = "u64 \<Rightarrow> u32 \<Rightarrow> block_state \<Rightarrow> block_error + block_state"

fun dispose_helper :: "dispose_function \<Rightarrow> (nat \<times> u32) list \<Rightarrow> u64 \<Rightarrow> block_state \<Rightarrow> block_error + block_state" where
  "dispose_helper dispose [] p st = Inr st"
| "dispose_helper dispose ((i, fl) # fs) p st =
     (case load_field st p i of None \<Rightarrow> Inl BadAccess
      | Some v \<Rightarrow> (case dispose v fl st of Inl e \<Rightarrow> Inl e | Inr st1 \<Rightarrow> dispose_helper dispose fs p st1))"

definition block_release_with :: "block_env \<Rightarrow> dispose_function \<Rightarrow> u64 \<Rightarrow> block_state \<Rightarrow> block_error + block_state" where
  "block_release_with env dispose arg st =
     (if arg = 0 then Inr st
      else case get_block st arg of None \<Rightarrow> Inl BadAccess
      | Some b \<Rightarrow>
          if block_flags b AND BLOCK_IS_GLOBAL \<noteq> 0 then Inr st
          else if block_flags b AND BLOCK_NEEDS_FREE = 0 then Inr st
          else let (should_deallocate, w) = latching_decr_int_should_deallocate (block_flags b) [];
                   st1 = put_block arg (b\<lparr>block_flags := w\<rparr>) st
               in if \<not> should_deallocate then Inr st1
                  else case dispose_helper dispose (dispose_script env b) arg st1 of Inl e \<Rightarrow> Inl e
                       | Inr st2 \<Rightarrow> Inr (free_cell arg (call_back (cb_destructInstance (callbacks st2)) arg st2)))"

definition byref_release_with :: "block_env \<Rightarrow> dispose_function \<Rightarrow> u64 \<Rightarrow> block_state \<Rightarrow> block_error + block_state" where
  "byref_release_with env dispose arg st =
     (case get_byref st arg of None \<Rightarrow> Inl BadAccess
      | Some src \<Rightarrow>
          (case get_byref st (forwarding src) of None \<Rightarrow> Inl BadAccess
           | Some fwd \<Rightarrow>
               if byref_flags fwd AND BLOCK_BYREF_NEEDS_FREE = 0 then Inr st
               else if byref_flags fwd AND BLOCK_REFCOUNT_MASK = 0 then Inl AssertFailed
               else let (should_deallocate, w) = latching_decr_int_should_deallocate (byref_flags fwd) [];
                        st1 = put_byref (forwarding src) (fwd\<lparr>byref_flags := w\<rparr>) st
                    in if \<not> should_deallocate then Inr st1
                       else if byref_flags fwd AND BLOCK_BYREF_HAS_COPY_DISPOSE \<noteq> 0 \<and> length (byref_words fwd) < 2 then Inl BadAccess
                       else case dispose_helper dispose (destroy_script env fwd) (forwarding src) st1 of Inl e \<Rightarrow> Inl e
                            | Inr st2 \<Rightarrow> Inr (free_cell (forwarding src) st2)))"

primrec Block_object_dispose :: "block_env \<Rightarrow> nat \<Rightarrow> dispose_function" where
  "Block_object_dispose env 0 = (\<lambda>object fl st. Inl Unfinished)"
| "Block_object_dispose env (Suc n) = (\<lambda>object fl st.
     (let k = fl AND BLOCK_ALL_COPY_DISPOSE_FLAGS
      in if k = BLOCK_FIELD_IS_BYREF OR BLOCK_FIELD_IS_WEAK \<or> k = BLOCK_FIELD_IS_BYREF
         then byref_release_with env (Block_object_dispose env n) object st
         else if k = BLOCK_FIELD_IS_BLOCK then block_release_with env (Block_object_dispose env n) object st
         else if k = BLOCK_FIELD_IS_OBJECT then Inr (call_back (cb_release (callbacks st)) object st)
         else Inr st))"

definition Block_release :: "block_env \<Rightarrow> nat \<Rightarrow> u64 \<Rightarrow> block_state \<Rightarrow> block_error + block_state" where
  "Block_release env n = block_release_with env (Block_object_dispose env n)"

definition Block_byref_release :: "block_env \<Rightarrow> nat \<Rightarrow> u64 \<Rightarrow> block_state \<Rightarrow> block_error + block_state" where
  "Block_byref_release env n = byref_release_with env (Block_object_dispose env n)"

subsection \<open>Weak references to blocks\<close>

definition Block_tryRetain :: "u64 \<Rightarrow> block_state \<Rightarrow> (bool \<times> block_state) option" where
  "Block_tryRetain arg st =
     (case get_block st arg of None \<Rightarrow> None
      | Some b \<Rightarrow> (let (r, w) = latching_incr_int_not_deallocating (block_flags b) []
                   in Some (r, put_block arg (b\<lparr>block_flags := w\<rparr>) st)))"

definition Block_isDeallocating :: "u64 \<Rightarrow> block_state \<Rightarrow> bool option" where
  "Block_isDeallocating arg st = map_option (\<lambda>b. block_flags b AND BLOCK_DEALLOCATING \<noteq> 0) (get_block st arg)"

end
