(* ===== verification/BlockCounts.thy ===== *)
theory BlockCounts
  imports Blocks RetainContract
begin

text \<open>
  The latching count of blocks and variables: a 15-bit count above a deallocating bit, which stops for good at its
  largest value. Below that it keeps the contract of retain and release that objects have.
\<close>

subsection \<open>The bits of the flags\<close>

definition rc :: "u32 \<Rightarrow> nat" where "rc w = unat w div 2 mod 2 ^ 15"

lemma rc_less: "rc w < 2 ^ 15" by (simp add: rc_def)

lemma refcount_value: "unat (w AND BLOCK_REFCOUNT_MASK) = 2 * rc w"
proof -
  have "BLOCK_REFCOUNT_MASK = push_bit 1 (mask 15)" by (simp add: BLOCK_REFCOUNT_MASK_def mask_numeral)
  then show ?thesis using unat_and_field_mask [of 1 15 w] by (simp add: rc_def)
qed

lemma latched_iff: "latched w \<longleftrightarrow> rc w = 2 ^ 15 - 1"
  unfolding latched_def word_unat_eq_iff refcount_value by (simp add: BLOCK_REFCOUNT_MASK_def)

lemma no_refcount_iff: "w AND BLOCK_REFCOUNT_MASK = 0 \<longleftrightarrow> rc w = 0"
  unfolding word_unat_eq_iff refcount_value by simp

lemma low_bits: "unat (w AND (BLOCK_REFCOUNT_MASK OR BLOCK_DEALLOCATING)) = unat w mod 2 ^ 16"
proof -
  have "BLOCK_REFCOUNT_MASK OR BLOCK_DEALLOCATING = push_bit 0 (mask 16)"
    by (simp add: BLOCK_REFCOUNT_MASK_def BLOCK_DEALLOCATING_def mask_numeral)
  then show ?thesis using unat_and_field_mask [of 0 16 w] by simp
qed

lemma deallocating_iff: "w AND BLOCK_DEALLOCATING = 0 \<longleftrightarrow> \<not> bit w 0"
  using and_single_eq_0 [of 0 w] by (simp add: BLOCK_DEALLOCATING_def)

lemma bit_0_unat: "bit w 0 \<longleftrightarrow> odd (unat w)" for w :: u32
  using bit_iff_odd_unat [of w 0] by simp

lemma low_split: "unat w mod 2 ^ 16 = 2 * rc w + of_bool (bit w 0)"
proof -
  have "unat w mod 2 ^ 16 = unat w mod 2 + 2 * (unat w div 2 mod 2 ^ 15)"
    using mod_mult2_eq [of "unat w" 2 "2 ^ 15"] by simp
  moreover have "unat w mod 2 = of_bool (bit w 0)" using bit_0_unat [of w] by (auto simp: odd_iff_mod_2_eq_one)
  ultimately show ?thesis by (simp add: rc_def)
qed

lemma single_iff: "w AND (BLOCK_REFCOUNT_MASK OR BLOCK_DEALLOCATING) = 2 \<longleftrightarrow> rc w = 1 \<and> \<not> bit w 0"
proof -
  have "unat w mod 2 ^ 16 = 2 \<longleftrightarrow> rc w = 1 \<and> \<not> bit w 0" unfolding low_split by (cases "bit w 0") auto
  then show ?thesis unfolding word_unat_eq_iff low_bits by simp
qed

lemma word_of_parts: 
  assumes "unat v mod 2 ^ 16 = 2 * r + of_bool d" "r < 2 ^ 15"
  shows "rc v = r" "bit v 0 \<longleftrightarrow> d"
proof -
  have e: "2 * rc v + of_bool (bit v 0) = 2 * r + of_bool d" using assms(1) low_split [of v] by simp
  then have "odd (2 * rc v + of_bool (bit v 0)) = odd (2 * r + of_bool d)" by simp
  then show d: "bit v 0 \<longleftrightarrow> d" by simp
  show "rc v = r" using e d by simp
qed

lemma unat_halves: "unat w = 2 ^ 16 * unat (drop_bit 16 w) + unat w mod 2 ^ 16" for w :: u32
  by (simp add: unat_drop_bit)

lemma high_add: "unat w mod 2 ^ 16 + unat k < 2 ^ 16 \<Longrightarrow>
    unat (w + k) mod 2 ^ 16 = unat w mod 2 ^ 16 + unat k \<and> drop_bit 16 (w + k) = drop_bit 16 w" for w k :: u32
proof -
  assume a: "unat w mod 2 ^ 16 + unat k < 2 ^ 16"
  let ?h = "unat (drop_bit 16 w)" and ?l = "unat w mod 2 ^ 16 + unat k"
  have "unat w < 2 ^ LENGTH(32)" by (rule unsigned_less)
  then have h: "?h < 2 ^ 16" unfolding unat_drop_bit by (intro less_mult_imp_div_less) simp
  have s: "unat w + unat k = 2 ^ 16 * ?h + ?l" using unat_halves [of w] by simp
  have "2 ^ 16 * ?h + ?l < 2 ^ 32" using h a by simp
  then have u: "unat (w + k) = 2 ^ 16 * ?h + ?l" using s by (simp add: unat_word_ariths)
  then have "unat (w + k) mod 2 ^ 16 = ?l" "unat (w + k) div 2 ^ 16 = ?h" using a by simp_all
  then show ?thesis by (simp add: word_unat_eq_iff unat_drop_bit)
qed

lemma incr_bits:
  assumes "\<not> latched w"
  shows "rc (w + 2) = rc w + 1" "bit (w + 2) 0 = bit w 0" "drop_bit 16 (w + 2) = drop_bit 16 w"
proof -
  have r: "rc w + 1 < 2 ^ 15" using assms rc_less [of w] by (simp add: latched_iff)
  then have "2 * rc w + of_bool (bit w 0) + 2 < 2 ^ 16" by simp
  then have h: "unat (w + 2) mod 2 ^ 16 = 2 * (rc w + 1) + of_bool (bit w 0) \<and> drop_bit 16 (w + 2) = drop_bit 16 w"
    using high_add [of w 2] low_split [of w] by simp
  then show "rc (w + 2) = rc w + 1" "bit (w + 2) 0 = bit w 0" "drop_bit 16 (w + 2) = drop_bit 16 w"
    using word_of_parts [of "w + 2" "rc w + 1" "bit w 0"] r by simp_all
qed

lemma decr_bits:
  assumes "rc w \<noteq> 0"
  shows "rc (w - 2) = rc w - 1" "bit (w - 2) 0 = bit w 0" "drop_bit 16 (w - 2) = drop_bit 16 w"
proof -
  let ?v = "w - 2"
  have le: "2 \<le> unat w mod 2 ^ 16" using assms low_split [of w] by simp
  then have "2 \<le> unat w" using mod_less_eq_dividend [of "unat w" "2 ^ 16"] by linarith
  then have u: "unat ?v = unat w - 2" using unat_sub [of 2 w] by (simp add: word_le_nat_alt)
  have "unat w - 2 = 2 ^ 16 * unat (drop_bit 16 w) + (unat w mod 2 ^ 16 - 2)" using unat_halves [of w] le by linarith
  then have m: "unat ?v mod 2 ^ 16 = unat w mod 2 ^ 16 - 2" "unat ?v div 2 ^ 16 = unat (drop_bit 16 w)"
    using u mod_less_divisor [of "2 ^ 16" "unat w"] by simp_all
  then have "unat ?v mod 2 ^ 16 = 2 * (rc w - 1) + of_bool (bit w 0)" using assms low_split [of w] by simp
  then show "rc ?v = rc w - 1" "bit ?v 0 = bit w 0" using word_of_parts [of ?v "rc w - 1" "bit w 0"] rc_less [of w] by simp_all
  show "drop_bit 16 ?v = drop_bit 16 w" using m(2) by (simp add: word_unat_eq_iff unat_drop_bit)
qed

lemma last_bits:
  assumes "rc w = 1" "\<not> bit w 0"
  shows "rc (w - 1) = 0" "bit (w - 1) 0" "drop_bit 16 (w - 1) = drop_bit 16 w"
proof -
  let ?v = "w - 2"
  have v: "rc ?v = 0" "\<not> bit ?v 0" "drop_bit 16 ?v = drop_bit 16 w" using decr_bits [of w] assms by simp_all
  have e: "w - 1 = ?v + 1" by simp
  have "unat ?v mod 2 ^ 16 = 0" using low_split [of ?v] v by simp
  then have h: "unat (w - 1) mod 2 ^ 16 = 2 * 0 + of_bool True \<and> drop_bit 16 (w - 1) = drop_bit 16 ?v"
    using high_add [of ?v 1] unfolding e by simp
  then show "rc (w - 1) = 0" "bit (w - 1) 0" "drop_bit 16 (w - 1) = drop_bit 16 w" using word_of_parts [of "w - 1" 0 True] v by simp_all
qed

subsection \<open>Retaining and releasing\<close>

lemma incr_int: "latching_incr_int w [] = (if latched w then (BLOCK_REFCOUNT_MASK, w) else (w + 2, w + 2))" by simp

lemma decr_int: "latching_decr_int_should_deallocate w [] =
    (if latched w \<or> rc w = 0 then (False, w) else if rc w = 1 \<and> \<not> bit w 0 then (True, w - 1) else (False, w - 2))"
  by (simp add: decr_value_def single_iff no_refcount_iff)

lemmas latching_simps = latching_incr_int.simps latching_incr_int_not_deallocating.simps latching_decr_int_should_deallocate.simps
declare latching_simps [simp del]

lemma incr_high: "drop_bit 16 (snd (latching_incr_int w [])) = drop_bit 16 w" unfolding incr_int using incr_bits(3) [of w] by simp
lemma decr_high: "drop_bit 16 (snd (latching_decr_int_should_deallocate w [])) = drop_bit 16 w"
  unfolding decr_int using decr_bits(3) [of w] last_bits(3) [of w] by simp

lemma incr_dealloc: "bit (snd (latching_incr_int w [])) 0 = bit w 0" unfolding incr_int using incr_bits(2) [of w] by simp

text \<open>Whatever other threads store, each operation takes effect in the step in which it returns.\<close>

lemma incr_linear: "\<exists>v \<in> set (w # ws). latching_incr_int w ws = latching_incr_int v []"
proof (induction ws arbitrary: w)
  case (Cons v vs)
  show ?case
  proof (cases "latched w")
    case True
    then have "latching_incr_int w (v # vs) = latching_incr_int w []" by (simp add: latching_simps)
    then show ?thesis by (meson list.set_intros(1))
  next
    case False
    then have "latching_incr_int w (v # vs) = latching_incr_int v vs" by (simp add: latching_simps)
    then show ?thesis using Cons.IH [of v] by (metis list.set_intros(2))
  qed
qed (metis list.set_intros(1))

lemma try_linear: "\<exists>v \<in> set (w # ws). latching_incr_int_not_deallocating w ws = latching_incr_int_not_deallocating v []"
proof (induction ws arbitrary: w)
  case (Cons v vs)
  show ?case
  proof (cases "w AND BLOCK_DEALLOCATING \<noteq> 0 \<or> latched w")
    case True
    then have "latching_incr_int_not_deallocating w (v # vs) = latching_incr_int_not_deallocating w []" by (auto simp: latching_simps)
    then show ?thesis by (meson list.set_intros(1))
  next
    case False
    then have "latching_incr_int_not_deallocating w (v # vs) = latching_incr_int_not_deallocating v vs" by (simp add: latching_simps)
    then show ?thesis using Cons.IH [of v] by (metis list.set_intros(2))
  qed
qed (metis list.set_intros(1))

lemma decr_linear: "\<exists>v \<in> set (w # ws). latching_decr_int_should_deallocate w ws = latching_decr_int_should_deallocate v []"
proof (induction ws arbitrary: w)
  case (Cons v vs)
  show ?case
  proof (cases "latched w \<or> w AND BLOCK_REFCOUNT_MASK = 0")
    case True
    then have "latching_decr_int_should_deallocate w (v # vs) = latching_decr_int_should_deallocate w []" by (auto simp: latching_simps)
    then show ?thesis by (meson list.set_intros(1))
  next
    case False
    then have "latching_decr_int_should_deallocate w (v # vs) = latching_decr_int_should_deallocate v vs" by (simp add: latching_simps)
    then show ?thesis using Cons.IH [of v] by (metis list.set_intros(2))
  qed
qed (metis list.set_intros(1))

text \<open>The third provider of the contract: the limit is the largest count that can still come down.\<close>

definition block_count_inv :: "u32 \<times> nat \<Rightarrow> bool" where
  "block_count_inv = (\<lambda>(w, sent). \<not> latched w \<and> (bit w 0 \<longleftrightarrow> rc w = 0))"

definition block_retain :: "u32 \<times> nat \<Rightarrow> u32 \<times> nat" where
  "block_retain = (\<lambda>(w, sent). (snd (latching_incr_int w []), sent))"

definition block_release :: "u32 \<times> nat \<Rightarrow> bool \<times> u32 \<times> nat" where
  "block_release = (\<lambda>(w, sent). let (d, w') = latching_decr_int_should_deallocate w [] in (d, w', sent + of_bool d))"

interpretation latching: retain_release block_count_inv "\<lambda>x. rc (fst x)" "2 ^ 15 - 2" block_retain block_release snd
proof (unfold_locales, goal_cases)
  case (1 x) then show ?case using incr_bits [of "fst x"] by (auto simp: block_count_inv_def block_retain_def latched_iff incr_int)
next
  case (2 x) then show ?case using incr_bits [of "fst x"] by (auto simp: block_count_inv_def block_retain_def incr_int)
next
  case (3 x) then show ?case by (auto simp: block_retain_def split: prod.splits)
next
  case (4 x) then show ?case using decr_bits [of "fst x"] last_bits [of "fst x"] rc_less [of "fst x"]
    by (auto simp: block_count_inv_def block_release_def decr_int latched_iff split: prod.splits if_splits)
next
  case (5 x) then show ?case using decr_bits [of "fst x"] last_bits [of "fst x"]
    by (auto simp: block_count_inv_def block_release_def decr_int split: prod.splits if_splits)
next
  case (6 x) then show ?case by (auto simp: block_count_inv_def block_release_def decr_int split: prod.splits if_splits)
next
  case (7 x) then show ?case by (auto simp: block_count_inv_def block_release_def decr_int split: prod.splits if_splits)
qed

end
