(* ===== verification/BlockHeap.thy ===== *)
theory BlockHeap
  imports BlockCounts "HOL-Library.Multiset"
begin

text \<open>
  The accounting of references among blocks, \<open>__block\<close> variables and objects: what every cell of the heap holds,
  and the invariant that each count is the number of references there are.
\<close>

subsection \<open>Flags as bits\<close>

lemma flag_bits:
  "w AND BLOCK_NEEDS_FREE = 0 \<longleftrightarrow> \<not> bit w 24" "w AND BLOCK_IS_GLOBAL = 0 \<longleftrightarrow> \<not> bit w 28"
  "w AND BLOCK_HAS_COPY_DISPOSE = 0 \<longleftrightarrow> \<not> bit w 25" "w AND BLOCK_SMALL_DESCRIPTOR = 0 \<longleftrightarrow> \<not> bit w 22"
  "w AND BLOCK_BYREF_NEEDS_FREE = 0 \<longleftrightarrow> \<not> bit w 24" "w AND BLOCK_BYREF_HAS_COPY_DISPOSE = 0 \<longleftrightarrow> \<not> bit w 25"
  "w AND BLOCK_BYREF_LAYOUT_EXTENDED = 0 \<longleftrightarrow> \<not> bit w 28"
  unfolding BLOCK_NEEDS_FREE_def BLOCK_IS_GLOBAL_def BLOCK_HAS_COPY_DISPOSE_def BLOCK_SMALL_DESCRIPTOR_def BLOCK_BYREF_NEEDS_FREE_def
    BLOCK_BYREF_HAS_COPY_DISPOSE_def BLOCK_BYREF_LAYOUT_EXTENDED_def by (rule and_single_eq_0; simp)+

lemma word_bits:
  "bit BLOCK_NEEDS_FREE k \<longleftrightarrow> k = 24" "bit BLOCK_BYREF_NEEDS_FREE k \<longleftrightarrow> k = 24" "bit (2 :: u32) k \<longleftrightarrow> k = 1" "bit (4 :: u32) k \<longleftrightarrow> k = 2"
  "bit BLOCK_REFCOUNT_MASK k \<longleftrightarrow> 1 \<le> k \<and> k < 16" "bit BLOCK_DEALLOCATING k \<longleftrightarrow> k = 0"
proof -
  have p: "bit (push_bit n 1 :: u32) k \<longleftrightarrow> k = n" if "n < 32" for n using that by (simp only: bit_simps) auto
  show "bit BLOCK_NEEDS_FREE k \<longleftrightarrow> k = 24" "bit BLOCK_BYREF_NEEDS_FREE k \<longleftrightarrow> k = 24" "bit BLOCK_DEALLOCATING k \<longleftrightarrow> k = 0"
    unfolding BLOCK_NEEDS_FREE_def BLOCK_BYREF_NEEDS_FREE_def BLOCK_DEALLOCATING_def using p [of 24] p [of 0] by simp_all
  show "bit (2 :: u32) k \<longleftrightarrow> k = 1" "bit (4 :: u32) k \<longleftrightarrow> k = 2" using p [of 1] p [of 2] by simp_all
  have "BLOCK_REFCOUNT_MASK = push_bit 1 (mask 15)" by (simp add: BLOCK_REFCOUNT_MASK_def mask_numeral)
  then have "bit BLOCK_REFCOUNT_MASK k \<longleftrightarrow> bit (push_bit 1 (mask 15) :: u32) k" by (rule arg_cong)
  also have "\<dots> \<longleftrightarrow> 1 \<le> k \<and> k < 16" by (simp only: bit_simps) auto
  finally show "bit BLOCK_REFCOUNT_MASK k \<longleftrightarrow> 1 \<le> k \<and> k < 16" .
qed

lemma needs_free_full: "w AND BLOCK_BYREF_NEEDS_FREE = BLOCK_BYREF_NEEDS_FREE \<longleftrightarrow> bit w 24"
proof
  assume e: "w AND BLOCK_BYREF_NEEDS_FREE = BLOCK_BYREF_NEEDS_FREE"
  have "BLOCK_BYREF_NEEDS_FREE \<noteq> 0" by (simp add: BLOCK_BYREF_NEEDS_FREE_def)
  then show "bit w 24" using e flag_bits(5) [of w] by auto
next
  assume "bit w 24"
  then show "w AND BLOCK_BYREF_NEEDS_FREE = BLOCK_BYREF_NEEDS_FREE"
    by (intro bit_word_eqI) (auto simp: bit_and_iff word_bits)
qed

lemma high_bit: "drop_bit 16 v = drop_bit 16 w \<Longrightarrow> 16 \<le> k \<Longrightarrow> bit v k = bit w k" for v w :: u32
proof -
  assume "drop_bit 16 v = drop_bit 16 w" "16 \<le> k"
  then have "bit (drop_bit 16 v) (k - 16) = bit (drop_bit 16 w) (k - 16)" by simp
  then show ?thesis using \<open>16 \<le> k\<close> by (simp add: bit_drop_bit_eq)
qed

lemma copied_flags:
  "rc (block_flags (copied_block b)) = 1" "\<not> bit (block_flags (copied_block b)) 0" "bit (block_flags (copied_block b)) 24"
  "16 \<le> k \<Longrightarrow> k \<noteq> 24 \<Longrightarrow> bit (block_flags (copied_block b)) k = bit (block_flags b) k"
proof -
  let ?w = "block_flags (copied_block b)"
  have bits: "bit ?w k \<longleftrightarrow> k < 32 \<and> (bit (block_flags b) k \<and> \<not> k < 16 \<or> k = 24 \<or> k = 1)"
    for k
  proof -
    have w: "?w = (block_flags b AND NOT (BLOCK_REFCOUNT_MASK OR BLOCK_DEALLOCATING)) OR (BLOCK_NEEDS_FREE OR 2)"
      by (simp add: copied_block_def)
    show ?thesis unfolding w bit_or_iff bit_and_iff bit_not_iff word_bits by (auto dest: bit_imp_le_length)
  qed
  have "?w AND (BLOCK_REFCOUNT_MASK OR BLOCK_DEALLOCATING) = 2"
    by (rule bit_word_eqI) (auto simp only: bit_and_iff bit_or_iff bits word_bits)
  then show "rc ?w = 1" "\<not> bit ?w 0" by (simp_all add: single_iff)
  show "bit ?w 24" "16 \<le> k \<Longrightarrow> k \<noteq> 24 \<Longrightarrow> bit ?w k = bit (block_flags b) k"
    unfolding bits by (auto dest: bit_imp_le_length)
qed

lemma copied_byref_flags:
  assumes "rc w = 0" "\<not> bit w 0"
  shows "rc (w OR BLOCK_BYREF_NEEDS_FREE OR 4) = 2" "\<not> bit (w OR BLOCK_BYREF_NEEDS_FREE OR 4) 0" "bit (w OR BLOCK_BYREF_NEEDS_FREE OR 4) 24"
    "16 \<le> k \<Longrightarrow> k \<noteq> 24 \<Longrightarrow> bit (w OR BLOCK_BYREF_NEEDS_FREE OR 4) k = bit w k"
proof -
  let ?v = "w OR BLOCK_BYREF_NEEDS_FREE OR 4"
  have bits: "bit ?v k \<longleftrightarrow> k < 32 \<and> (bit w k \<or> k = 24 \<or> k = 2)" for k
    unfolding bit_or_iff word_bits by (auto dest: bit_imp_le_length)
  have "unat (w AND (BLOCK_REFCOUNT_MASK OR BLOCK_DEALLOCATING)) = 0" unfolding low_bits low_split using assms by simp
  then have z: "w AND (BLOCK_REFCOUNT_MASK OR BLOCK_DEALLOCATING) = 0" by (simp add: unat_eq_zero)
  have wz: "\<not> bit w k" if "k < 16" for k
    using arg_cong [OF z, of "\<lambda>x. bit x k"] that by (auto simp: bit_and_iff bit_or_iff word_bits)
  have "?v AND (BLOCK_REFCOUNT_MASK OR BLOCK_DEALLOCATING) = 4"
    proof (rule bit_word_eqI)
    show "bit (?v AND (BLOCK_REFCOUNT_MASK OR BLOCK_DEALLOCATING)) k \<longleftrightarrow> bit (4 :: u32) k" if "k < LENGTH(32)" for k
      unfolding bit_and_iff [of ?v] bits bit_or_iff [of BLOCK_REFCOUNT_MASK] word_bits using wz [of k] by auto
  qed
  then have "unat ?v mod 2 ^ 16 = 4" using low_bits [of ?v] by simp
  then show "rc ?v = 2" "\<not> bit ?v 0" using word_of_parts [of ?v 2 False] by simp_all
  show "bit ?v 24" "16 \<le> k \<Longrightarrow> k \<noteq> 24 \<Longrightarrow> bit ?v k = bit w k"
    unfolding bits by (auto dest: bit_imp_le_length)
qed

subsection \<open>Fields and references\<close>

datatype field_kind = ObjectField | BlockField | ByrefField | CallerField | OtherField

definition field_kind :: "u32 \<Rightarrow> field_kind" where
  "field_kind fl =
     (let k = fl AND BLOCK_ALL_COPY_DISPOSE_FLAGS
      in if k = 3 then ObjectField else if k = 7 then BlockField else if k = 8 \<or> k = 24 then ByrefField
         else if k = 131 \<or> k = 135 \<or> k = 147 \<or> k = 151 then CallerField else OtherField)"

lemmas field_flags = BLOCK_FIELD_IS_OBJECT_def BLOCK_FIELD_IS_BLOCK_def BLOCK_FIELD_IS_BYREF_def BLOCK_FIELD_IS_WEAK_def BLOCK_BYREF_CALLER_def

lemma assign_Suc: "Block_object_assign env (Suc n) v fl st =
    (case field_kind fl of ObjectField \<Rightarrow> Inr (Some v, call_back (cb_retain (callbacks st)) v st)
     | BlockField \<Rightarrow> map_dest (Block_copy env n v st)
     | ByrefField \<Rightarrow> map_dest (Block_byref_copy env n v st)
     | CallerField \<Rightarrow> Inr (Some v, st)
     | OtherField \<Rightarrow> Inr (None, st))"
  by (simp add: field_kind_def Let_def field_flags Block_copy_def Block_byref_copy_def)

lemma dispose_Suc: "Block_object_dispose env (Suc n) v fl st =
    (case field_kind fl of ObjectField \<Rightarrow> Inr (call_back (cb_release (callbacks st)) v st)
     | BlockField \<Rightarrow> Block_release env n v st
     | ByrefField \<Rightarrow> Block_byref_release env n v st
     | _ \<Rightarrow> Inr st)"
  by (simp add: field_kind_def Let_def field_flags Block_release_def Block_byref_release_def)

datatype ref = BlockRef u64 | ByrefRef u64 | ObjRef u64

definition own :: "u64 \<Rightarrow> u32 \<Rightarrow> ref multiset" where
  "own v fl = (case field_kind fl of ObjectField \<Rightarrow> {#ObjRef v#} | BlockField \<Rightarrow> if v = 0 then {#} else {#BlockRef v#}
                | ByrefField \<Rightarrow> {#ByrefRef v#} | _ \<Rightarrow> {#})"

definition fields_own :: "(nat \<times> u32) list \<Rightarrow> u64 list \<Rightarrow> ref multiset" where
  "fields_own fs ws = (\<Sum>(i, fl) \<leftarrow> fs. own (ws ! i) fl)"

lemma fields_own_simps [simp]: "fields_own [] ws = {#}" "fields_own ((i, fl) # fs) ws = own (ws ! i) fl + fields_own fs ws"
  by (simp_all add: fields_own_def)

text \<open>A block on the heap owns what its fields hold; a variable on the stack owns the heap copy it forwards to.\<close>

fun cell_refs :: "block_env \<Rightarrow> u64 \<Rightarrow> cell \<Rightarrow> ref multiset" where
  "cell_refs env x (BlockCell b) = (if bit (block_flags b) 24 then fields_own (copy_script env b) (captured b) else {#})"
| "cell_refs env x (ByrefCell c) = (if \<not> bit (byref_flags c) 24 \<and> forwarding c \<noteq> x then {#ByrefRef (forwarding c)#} else {#})"

definition refs_at :: "block_env \<Rightarrow> u64 set \<Rightarrow> block_state \<Rightarrow> u64 \<Rightarrow> ref multiset" where
  "refs_at env U st x = (if x \<in> U then {#} else case heap st x of None \<Rightarrow> {#} | Some c \<Rightarrow> cell_refs env x c)"

definition owned :: "block_env \<Rightarrow> u64 set \<Rightarrow> block_state \<Rightarrow> ref multiset" where
  "owned env U st = (\<Sum>x \<in> UNIV. refs_at env U st x)"

lemma owned_upd:
  assumes "\<And>y. y \<noteq> x \<Longrightarrow> refs_at env U' st' y = refs_at env U st y"
  shows "owned env U' st' + refs_at env U st x = owned env U st + refs_at env U' st' x"
proof -
  have "owned env V s = refs_at env V s x + (\<Sum>y \<in> UNIV - {x}. refs_at env V s y)" for V s
    unfolding owned_def by (rule sum.remove) simp_all
  moreover have "(\<Sum>y \<in> UNIV - {x}. refs_at env U' st' y) = (\<Sum>y \<in> UNIV - {x}. refs_at env U st y)"
    using assms by (intro sum.cong) auto
  ultimately show ?thesis by (simp add: ac_simps)
qed

lemma owned_same: "(\<And>y. refs_at env U' st' y = refs_at env U st y) \<Longrightarrow> owned env U' st' = owned env U st"
  unfolding owned_def by (intro sum.cong) auto

subsection \<open>The invariant\<close>

definition block_ok :: "block_env \<Rightarrow> Block_layout \<Rightarrow> bool" where
  "block_ok env b \<longleftrightarrow> Block_size (descriptors env) b = 32 + 8 * length (captured b) \<and> distinct (map fst (copy_script env b)) \<and>
     (\<forall>(i, fl) \<in> set (copy_script env b). i < length (captured b)) \<and> mset (dispose_script env b) = mset (copy_script env b)"

definition caller_script :: "(nat \<times> u32) list \<Rightarrow> nat \<Rightarrow> bool" where
  "caller_script fs n \<longleftrightarrow> (\<forall>(i, fl) \<in> set fs. 2 \<le> i \<and> i < n \<and> field_kind fl = CallerField)"

definition byref_ok :: "block_env \<Rightarrow> Block_byref \<Rightarrow> bool" where
  "byref_ok env c \<longleftrightarrow> unat (byref_size c) = 24 + 8 * length (byref_words c) \<and>
     (bit (byref_flags c) 25 \<longrightarrow> (if bit (byref_flags c) 28 then 3 else 2) \<le> length (byref_words c)) \<and>
     caller_script (keep_script env c) (length (byref_words c)) \<and> caller_script (destroy_script env c) (length (byref_words c))"

text \<open>A latched count says nothing. A count of zero goes with the deallocating bit.\<close>

definition cnt_ok :: "u32 \<Rightarrow> nat \<Rightarrow> bool" where
  "cnt_ok w n \<longleftrightarrow> latched w \<or> rc w = n \<and> (bit w 0 \<longleftrightarrow> n = 0)"

fun slot_ok :: "block_env \<Rightarrow> ref multiset \<Rightarrow> u64 \<Rightarrow> cell option \<Rightarrow> bool" where
  "slot_ok env T x None \<longleftrightarrow> count T (BlockRef x) = 0 \<and> count T (ByrefRef x) = 0"
| "slot_ok env T x (Some (BlockCell b)) \<longleftrightarrow> block_ok env b \<and> count T (ByrefRef x) = 0 \<and>
     (if bit (block_flags b) 24 then \<not> bit (block_flags b) 28 \<and> cnt_ok (block_flags b) (count T (BlockRef x))
      else bit (block_flags b) 28 \<or> count T (BlockRef x) = 0)"
| "slot_ok env T x (Some (ByrefCell c)) \<longleftrightarrow> byref_ok env c \<and> count T (BlockRef x) = 0 \<and>
     (if bit (byref_flags c) 24 then forwarding c = x \<and> cnt_ok (byref_flags c) (count T (ByrefRef x))
      else rc (byref_flags c) = 0 \<and> \<not> bit (byref_flags c) 0 \<and> count T (ByrefRef x) = 0)"

definition objects_ok :: "block_state \<Rightarrow> ref multiset \<Rightarrow> bool" where
  "objects_ok st T \<longleftrightarrow> (\<forall>f g. cb_retain (callbacks st) = Registered f \<and> cb_release (callbacks st) = Registered g \<and> f \<noteq> g \<and>
       cb_destructInstance (callbacks st) \<notin> {Registered f, Registered g} \<longrightarrow>
     (\<forall>ob. count_list (calls st) (f, ob) = count_list (calls st) (g, ob) + count T (ObjRef ob)))"

definition ranked :: "block_env \<Rightarrow> u64 set \<Rightarrow> block_state \<Rightarrow> (u64 \<Rightarrow> nat) \<Rightarrow> bool" where
  "ranked env U st rank \<longleftrightarrow> (\<forall>x y. BlockRef y \<in># refs_at env U st x \<longrightarrow> rank y < rank x)"

text \<open>The cells in \<open>U\<close> are blocks under construction or being torn down; \<open>E\<close> are the references outside the heap.\<close>

definition acct :: "block_env \<Rightarrow> u64 set \<Rightarrow> ref multiset \<Rightarrow> block_state \<Rightarrow> bool" where
  "acct env U E st \<longleftrightarrow> heap st 0 = None \<and> (\<forall>x. slot_ok env (E + owned env U st) x (heap st x)) \<and>
     objects_ok st (E + owned env U st) \<and> (\<exists>rank. ranked env U st rank)"

lemma cnt_ok_incr: "cnt_ok w n \<Longrightarrow> latched w \<or> \<not> bit w 0 \<Longrightarrow> cnt_ok (snd (latching_incr_int w [])) (n + 1)"
  unfolding incr_int cnt_ok_def using incr_bits [of w] by (auto simp: latched_iff)

lemma incr_nonzero: "rc w \<noteq> 0 \<Longrightarrow> rc (snd (latching_incr_int w [])) \<noteq> 0"
  unfolding incr_int using incr_bits(1) [of w] by simp

lemma decr_more: "cnt_ok w (Suc n) \<Longrightarrow> \<not> fst (latching_decr_int_should_deallocate w []) \<Longrightarrow>
    rc (snd (latching_decr_int_should_deallocate w [])) \<noteq> 0"
  unfolding decr_int cnt_ok_def using decr_bits(1) [of w] by (auto simp: latched_iff split: if_splits)

lemma cnt_ok_decr: "cnt_ok w (n + 1) \<Longrightarrow> cnt_ok (snd (latching_decr_int_should_deallocate w [])) n"
  unfolding decr_int cnt_ok_def using decr_bits [of w] last_bits [of w] by (auto simp: latched_iff)

lemma decr_last: "cnt_ok w (n + 1) \<Longrightarrow> fst (latching_decr_int_should_deallocate w []) \<longleftrightarrow> \<not> latched w \<and> n = 0"
  unfolding decr_int cnt_ok_def by (auto simp: latched_iff)

lemma decr_last_word: "fst (latching_decr_int_should_deallocate w []) \<Longrightarrow>
    rc (snd (latching_decr_int_should_deallocate w [])) = 0 \<and> bit (snd (latching_decr_int_should_deallocate w [])) 0"
  unfolding decr_int using last_bits [of w] by (auto split: if_splits)

end
