(* ===== verification/BlockCopy.thy ===== *)
theory BlockCopy
  imports BlockHeap
begin

text \<open>
  Copying blocks and \<open>__block\<close> variables keeps the accounts: every reference a copy takes is counted, the heap
  only grows, and nothing else is touched.
\<close>

subsection \<open>Looking at cells\<close>

lemma get_block_iff [simp]: "get_block st x = Some b \<longleftrightarrow> heap st x = Some (BlockCell b)"
  by (auto simp: get_block_def split: option.splits cell.splits)

lemma get_byref_iff [simp]: "get_byref st x = Some c \<longleftrightarrow> heap st x = Some (ByrefCell c)"
  by (auto simp: get_byref_def split: option.splits cell.splits)

lemma heap_put [simp]: "heap (put_block p b st) = (heap st)(p \<mapsto> BlockCell b)" "heap (put_byref p c st) = (heap st)(p \<mapsto> ByrefCell c)"
  "heap (free_cell p st) = (heap st)(p := None)"
  "callbacks (put_block p b st) = callbacks st" "callbacks (put_byref p c st) = callbacks st" "callbacks (free_cell p st) = callbacks st"
  "calls (put_block p b st) = calls st" "calls (put_byref p c st) = calls st" "calls (free_cell p st) = calls st"
  by (simp_all add: put_block_def put_byref_def free_cell_def)

lemma heap_call_back [simp]: "heap (call_back cb p st) = heap st" "callbacks (call_back cb p st) = callbacks st"
  by (simp_all add: call_back_def split: callback.splits)

text \<open>What a block's descriptor says depends on the upper half of its flags alone.\<close>

lemma copy_script_cong:
  assumes "block_descriptor b' = block_descriptor b" "\<And>k. k \<in> {22, 25} \<Longrightarrow> bit (block_flags b') k = bit (block_flags b) k"
  shows "copy_script env b' = copy_script env b" "dispose_script env b' = dispose_script env b"
    "Block_size (descriptors env) b' = Block_size (descriptors env) b"
proof -
  have f: "block_flags b' AND BLOCK_HAS_COPY_DISPOSE = 0 \<longleftrightarrow> block_flags b AND BLOCK_HAS_COPY_DISPOSE = 0"
    "block_flags b' AND BLOCK_SMALL_DESCRIPTOR = 0 \<longleftrightarrow> block_flags b AND BLOCK_SMALL_DESCRIPTOR = 0"
    using assms(2) by (simp_all add: flag_bits)
  show "copy_script env b' = copy_script env b" "dispose_script env b' = dispose_script env b"
    "Block_size (descriptors env) b' = Block_size (descriptors env) b"
    by (simp_all add: copy_script_def dispose_script_def Block_get_copy_function_def Block_get_dispose_function_def Block_size_def
        Block_descriptor_2_def Block_get_descriptor_def f assms(1) cong: if_cong)
qed

lemma block_ok_cong:
  assumes "block_descriptor b' = block_descriptor b" "\<And>k. k \<in> {22, 25} \<Longrightarrow> bit (block_flags b') k = bit (block_flags b) k"
    "length (captured b') = length (captured b)"
  shows "block_ok env b' = block_ok env b"
proof -
  have "copy_script env b' = copy_script env b" "dispose_script env b' = dispose_script env b"
    "Block_size (descriptors env) b' = Block_size (descriptors env) b"
    using copy_script_cong [of b' b env] assms(1,2) by auto
  then show ?thesis using assms(3) by (simp add: block_ok_def)
qed

lemma reflag_block:
  assumes "drop_bit 16 w = drop_bit 16 (block_flags b)"
  shows "block_ok env (b\<lparr>block_flags := w\<rparr>) = block_ok env b" "cell_refs env x (BlockCell (b\<lparr>block_flags := w\<rparr>)) = cell_refs env x (BlockCell b)"
    "dispose_script env (b\<lparr>block_flags := w\<rparr>) = dispose_script env b"
proof -
  have bits: "\<And>k. 16 \<le> k \<Longrightarrow> bit w k = bit (block_flags b) k" by (rule high_bit [OF assms])
  then show "block_ok env (b\<lparr>block_flags := w\<rparr>) = block_ok env b" by (intro block_ok_cong) auto
  have "copy_script env (b\<lparr>block_flags := w\<rparr>) = copy_script env b" by (rule copy_script_cong) (use bits in auto)
  then show "cell_refs env x (BlockCell (b\<lparr>block_flags := w\<rparr>)) = cell_refs env x (BlockCell b)" using bits by simp
  show "dispose_script env (b\<lparr>block_flags := w\<rparr>) = dispose_script env b" by (rule copy_script_cong) (use bits in auto)
qed

lemma reflag_byref:
  assumes "drop_bit 16 w = drop_bit 16 (byref_flags c)"
  shows "byref_ok env (c\<lparr>byref_flags := w\<rparr>) = byref_ok env c" "cell_refs env x (ByrefCell (c\<lparr>byref_flags := w\<rparr>)) = cell_refs env x (ByrefCell c)"
    "destroy_script env (c\<lparr>byref_flags := w\<rparr>) = destroy_script env c"
proof -
  have bits: "\<And>k. 16 \<le> k \<Longrightarrow> bit w k = bit (byref_flags c) k" by (rule high_bit [OF assms])
  then show "byref_ok env (c\<lparr>byref_flags := w\<rparr>) = byref_ok env c" "destroy_script env (c\<lparr>byref_flags := w\<rparr>) = destroy_script env c"
    by (simp_all add: byref_ok_def keep_script_def destroy_script_def flag_bits)
  show "cell_refs env x (ByrefCell (c\<lparr>byref_flags := w\<rparr>)) = cell_refs env x (ByrefCell c)" using bits by simp
qed

subsection \<open>States that grow\<close>

fun same_cell :: "cell \<Rightarrow> cell \<Rightarrow> bool" where
  "same_cell (BlockCell b) (BlockCell b') \<longleftrightarrow> block_isa b' = block_isa b \<and> block_invoke b' = block_invoke b \<and> block_descriptor b' = block_descriptor b \<and> captured b' = captured b \<and>
     drop_bit 16 (block_flags b') = drop_bit 16 (block_flags b) \<and> bit (block_flags b') 0 = bit (block_flags b) 0 \<and>
     (rc (block_flags b) \<noteq> 0 \<longrightarrow> rc (block_flags b') \<noteq> 0) \<and>
     (\<not> bit (block_flags b) 24 \<longrightarrow> b' = b)"
| "same_cell (ByrefCell c) (ByrefCell c') \<longleftrightarrow> byref_size c' = byref_size c \<and> byref_words c' = byref_words c \<and>
     drop_bit 16 (byref_flags c') = drop_bit 16 (byref_flags c) \<and> bit (byref_flags c') 0 = bit (byref_flags c) 0 \<and>
     (rc (byref_flags c) \<noteq> 0 \<longrightarrow> rc (byref_flags c') \<noteq> 0)"
| "same_cell _ _ \<longleftrightarrow> False"

text \<open>No cell of the heap with a count of zero appears.\<close>

fun undying :: "cell \<Rightarrow> bool" where
  "undying (BlockCell b) \<longleftrightarrow> (bit (block_flags b) 24 \<longrightarrow> rc (block_flags b) \<noteq> 0)"
| "undying (ByrefCell c) \<longleftrightarrow> (bit (byref_flags c) 24 \<longrightarrow> rc (byref_flags c) \<noteq> 0)"

text \<open>The code of every block stays, and so does where a variable forwards to once it is on the heap or has been copied there.\<close>

definition grows :: "block_state \<Rightarrow> block_state \<Rightarrow> bool" where
  "grows st st' \<longleftrightarrow>
     (\<forall>x b. heap st x = Some (BlockCell b) \<longrightarrow>
        (\<exists>b'. heap st' x = Some (BlockCell b') \<and> block_invoke b' = block_invoke b \<and> block_descriptor b' = block_descriptor b \<and>
          drop_bit 16 (block_flags b') = drop_bit 16 (block_flags b))) \<and>
     (\<forall>x c. heap st x = Some (ByrefCell c) \<longrightarrow> bit (byref_flags c) 24 \<or> forwarding c \<noteq> x \<longrightarrow>
        (\<exists>c'. heap st' x = Some (ByrefCell c') \<and> forwarding c' = forwarding c \<and> bit (byref_flags c') 24 = bit (byref_flags c) 24))"

definition extends :: "block_state \<Rightarrow> block_state \<Rightarrow> bool" where
  "extends st st' \<longleftrightarrow> callbacks st' = callbacks st \<and> (\<forall>x c. heap st x = Some c \<longrightarrow> (\<exists>c'. heap st' x = Some c' \<and> same_cell c c')) \<and>
     (\<forall>x c. heap st x = None \<longrightarrow> heap st' x = Some c \<longrightarrow> undying c) \<and> grows st st'"

lemma grows_refl [simp]: "grows st st" by (auto simp: grows_def)

lemma grows_block: "grows st st' \<Longrightarrow> heap st x = Some (BlockCell b) \<Longrightarrow>
    \<exists>b'. heap st' x = Some (BlockCell b') \<and> block_invoke b' = block_invoke b \<and> block_descriptor b' = block_descriptor b \<and> drop_bit 16 (block_flags b') = drop_bit 16 (block_flags b)"
  unfolding grows_def by blast

lemma grows_byref: "grows st st' \<Longrightarrow> heap st x = Some (ByrefCell c) \<Longrightarrow> bit (byref_flags c) 24 \<or> forwarding c \<noteq> x \<Longrightarrow>
    \<exists>c'. heap st' x = Some (ByrefCell c') \<and> forwarding c' = forwarding c \<and> bit (byref_flags c') 24 = bit (byref_flags c) 24"
  unfolding grows_def by blast

lemma grows_trans:
  assumes "grows st st'" "grows st' st''"
  shows "grows st st''"
  unfolding grows_def
proof (intro conjI allI impI)
  fix x b assume "heap st x = Some (BlockCell b)"
  from grows_block [OF assms(1) this] obtain b' where b': "heap st' x = Some (BlockCell b')" "block_invoke b' = block_invoke b"
    "block_descriptor b' = block_descriptor b" "drop_bit 16 (block_flags b') = drop_bit 16 (block_flags b)" by blast
  from grows_block [OF assms(2) b'(1)] b'(2-4)
  show "\<exists>b'. heap st'' x = Some (BlockCell b') \<and> block_invoke b' = block_invoke b \<and> block_descriptor b' = block_descriptor b \<and> drop_bit 16 (block_flags b') = drop_bit 16 (block_flags b)" by auto
next
  fix x c assume c: "heap st x = Some (ByrefCell c)" "bit (byref_flags c) 24 \<or> forwarding c \<noteq> x"
  from grows_byref [OF assms(1) c] obtain c' where c': "heap st' x = Some (ByrefCell c')" "forwarding c' = forwarding c"
    "bit (byref_flags c') 24 = bit (byref_flags c) 24" by blast
  then have "bit (byref_flags c') 24 \<or> forwarding c' \<noteq> x" using c(2) by simp
  from grows_byref [OF assms(2) c'(1) this] c'(2,3)
  show "\<exists>c'. heap st'' x = Some (ByrefCell c') \<and> forwarding c' = forwarding c \<and> bit (byref_flags c') 24 = bit (byref_flags c) 24" by simp
qed

lemma same_cell_refl [simp]: "same_cell c c" by (cases c) simp_all

lemma same_cell_block: "same_cell (BlockCell b) c' \<Longrightarrow> (\<exists>b'. c' = BlockCell b' \<and> same_cell (BlockCell b) (BlockCell b'))"
  by (cases c') simp_all
lemma same_cell_byref: "same_cell (ByrefCell b) c' \<Longrightarrow> (\<exists>b'. c' = ByrefCell b' \<and> same_cell (ByrefCell b) (ByrefCell b'))"
  by (cases c') simp_all

lemma same_cell_trans: "same_cell c c' \<Longrightarrow> same_cell c' c'' \<Longrightarrow> same_cell c c''"
proof -
  assume a: "same_cell c c'" "same_cell c' c''"
  show ?thesis
  proof (cases c)
    case (BlockCell b)
    obtain b' where b': "c' = BlockCell b'" "same_cell (BlockCell b) (BlockCell b')" using a(1) BlockCell same_cell_block by blast
    obtain b'' where b'': "c'' = BlockCell b''" "same_cell (BlockCell b') (BlockCell b'')" using a(2) b'(1) same_cell_block by blast
    have "bit (block_flags b') 24 = bit (block_flags b) 24" using b'(2) high_bit [of "block_flags b'" "block_flags b" 24] by simp
    then show ?thesis using BlockCell b' b'' by auto
  next
    case (ByrefCell b)
    obtain b' where b': "c' = ByrefCell b'" "same_cell (ByrefCell b) (ByrefCell b')" using a(1) ByrefCell same_cell_byref by blast
    obtain b'' where b'': "c'' = ByrefCell b''" "same_cell (ByrefCell b') (ByrefCell b'')" using a(2) b'(1) same_cell_byref by blast
    show ?thesis using ByrefCell b' b'' by auto
  qed
qed

lemma extends_refl [simp]: "extends st st" unfolding extends_def using same_cell_refl grows_refl by (metis option.distinct(1))

lemma extends_grows: "extends st st' \<Longrightarrow> grows st st'" by (simp add: extends_def)

lemma extendsD: "extends st st' \<Longrightarrow> heap st x = Some c \<Longrightarrow> \<exists>c'. heap st' x = Some c' \<and> same_cell c c'"
  unfolding extends_def by blast

lemma extends_new: "extends st st' \<Longrightarrow> heap st x = None \<Longrightarrow> heap st' x = Some c \<Longrightarrow> undying c"
  unfolding extends_def by blast

lemma same_cell_undying: "same_cell c c' \<Longrightarrow> undying c \<Longrightarrow> undying c'"
proof -
  assume a: "same_cell c c'" "undying c"
  show ?thesis
  proof (cases c)
    case (BlockCell b)
    from same_cell_block [OF a(1) [unfolded BlockCell]] obtain b' where "c' = BlockCell b'" "same_cell (BlockCell b) (BlockCell b')" by blast
    then show ?thesis using a(2) BlockCell high_bit [of "block_flags b'" "block_flags b" 24] by auto
  next
    case (ByrefCell b)
    from same_cell_byref [OF a(1) [unfolded ByrefCell]] obtain b' where "c' = ByrefCell b'" "same_cell (ByrefCell b) (ByrefCell b')" by blast
    then show ?thesis using a(2) ByrefCell high_bit [of "byref_flags b'" "byref_flags b" 24] by auto
  qed
qed

lemma extends_trans:
  assumes "extends st st'" "extends st' st''"
  shows "extends st st''"
  unfolding extends_def
proof (intro conjI allI impI)
  show "callbacks st'' = callbacks st" using assms by (simp add: extends_def)
next
  fix x c assume "heap st x = Some c"
  from extendsD [OF assms(1) this] obtain c' where c': "heap st' x = Some c'" "same_cell c c'" by blast
  from extendsD [OF assms(2) c'(1)] obtain c'' where "heap st'' x = Some c''" "same_cell c' c''" by blast
  then show "\<exists>c'. heap st'' x = Some c' \<and> same_cell c c'" using c'(2) same_cell_trans [of c c' c''] by blast
next
  fix x c assume n: "heap st x = None" "heap st'' x = Some c"
  show "undying c"
  proof (cases "heap st' x")
    case None
    then show ?thesis using extends_new [OF assms(2) _ n(2)] by blast
  next
    case (Some c')
    from extendsD [OF assms(2) Some] obtain c'' where "heap st'' x = Some c''" "same_cell c' c''" by blast
    then show ?thesis using same_cell_undying [of c' c''] extends_new [OF assms(1) n(1) Some] n(2) by simp
  qed
next
  show "grows st st''" by (rule grows_trans [OF assms [THEN extends_grows]])
qed

lemma extends_upd:
  assumes "heap st' = (heap st)(x \<mapsto> c')" "callbacks st' = callbacks st" "\<And>c. heap st x = Some c \<Longrightarrow> same_cell c c'"
    "heap st x = None \<Longrightarrow> undying c'"
    "\<And>c d. heap st x = Some (ByrefCell c) \<Longrightarrow> bit (byref_flags c) 24 \<or> forwarding c \<noteq> x \<Longrightarrow> c' = ByrefCell d \<Longrightarrow> forwarding d = forwarding c"
  shows "extends st st'"
  unfolding extends_def
proof (intro conjI allI impI)
  fix y c assume "heap st y = Some c"
  then show "\<exists>c'. heap st' y = Some c' \<and> same_cell c c'" using assms(1,3) by (cases "y = x") simp_all
next
  fix y c assume "heap st y = None" "heap st' y = Some c"
  then show "undying c" using assms(1,4) by (cases "y = x") simp_all
next
  show "grows st st'" unfolding grows_def
  proof (intro conjI allI impI)
    fix y b assume b: "heap st y = Some (BlockCell b)"
    show "\<exists>b'. heap st' y = Some (BlockCell b') \<and> block_invoke b' = block_invoke b \<and> block_descriptor b' = block_descriptor b \<and> drop_bit 16 (block_flags b') = drop_bit 16 (block_flags b)"
    proof (cases "y = x")
      case True
      from assms(3) [of "BlockCell b"] b True have "same_cell (BlockCell b) c'" by simp
      from same_cell_block [OF this] show ?thesis using assms(1) True by auto
    qed (use b assms(1) in simp)
  next
    fix y c assume c: "heap st y = Some (ByrefCell c)" "bit (byref_flags c) 24 \<or> forwarding c \<noteq> y"
    show "\<exists>d. heap st' y = Some (ByrefCell d) \<and> forwarding d = forwarding c \<and> bit (byref_flags d) 24 = bit (byref_flags c) 24"
    proof (cases "y = x")
      case True
      from assms(3) [of "ByrefCell c"] c(1) True have "same_cell (ByrefCell c) c'" by simp
      from same_cell_byref [OF this] obtain d where d: "c' = ByrefCell d" "same_cell (ByrefCell c) (ByrefCell d)" by blast
      have "forwarding d = forwarding c" by (rule assms(5) [OF _ _ d(1)]) (use c True in simp_all)
      moreover have "bit (byref_flags d) 24 = bit (byref_flags c) 24" by (rule high_bit) (use d(2) in simp_all)
      moreover have "heap st' y = Some (ByrefCell d)" using assms(1) True d(1) by simp
      ultimately show ?thesis by blast
    next
      case False
      then have "heap st' y = Some (ByrefCell c)" using c(1) assms(1) by simp
      then show ?thesis by blast
    qed
  qed
qed (rule assms(2))

subsection \<open>What can be copied\<close>

text \<open>The number bounds the nesting of stack blocks that capture stack blocks.\<close>

primrec ready :: "block_env \<Rightarrow> nat \<Rightarrow> u64 set \<Rightarrow> block_state \<Rightarrow> u64 \<Rightarrow> u32 \<Rightarrow> bool" where
  "ready env 0 U st v fl = False"
| "ready env (Suc n) U st v fl =
     (case field_kind fl of
        BlockField \<Rightarrow> v = 0 \<or> (case heap st v of
            Some (BlockCell b) \<Rightarrow>
              if bit (block_flags b) 24 then \<not> bit (block_flags b) 0 \<and> v \<notin> U
              else bit (block_flags b) 28 \<or> (\<forall>(i, g) \<in> set (copy_script env b). ready env n U st (captured b ! i) g)
          | _ \<Rightarrow> False)
      | ByrefField \<Rightarrow> 0 < n \<and> (case heap st v of
            Some (ByrefCell c) \<Rightarrow> bit (byref_flags c) 24 \<longrightarrow> \<not> bit (byref_flags c) 0
          | _ \<Rightarrow> False)
      | _ \<Rightarrow> True)"

lemma ready_block:
  assumes "field_kind fl = BlockField" "v \<noteq> 0"
  shows "ready env (Suc n) U st v fl \<longleftrightarrow> (\<exists>b. heap st v = Some (BlockCell b) \<and>
    (if bit (block_flags b) 24 then \<not> bit (block_flags b) 0 \<and> v \<notin> U
     else bit (block_flags b) 28 \<or> (\<forall>(i, g) \<in> set (copy_script env b). ready env n U st (captured b ! i) g)))"
proof (cases "heap st v")
  case (Some c)
  then show ?thesis using assms by (cases c) simp_all
qed (use assms in simp)

lemma ready_byref:
  assumes "field_kind fl = ByrefField"
  shows "ready env (Suc n) U st v fl \<longleftrightarrow> 0 < n \<and> (\<exists>c. heap st v = Some (ByrefCell c) \<and> (bit (byref_flags c) 24 \<longrightarrow> \<not> bit (byref_flags c) 0))"
proof (cases "heap st v")
  case (Some c)
  then show ?thesis using assms by (cases c) simp_all
qed (use assms in simp)

lemma ready_extends:
  "ready env n U st v fl \<Longrightarrow> extends st st' \<Longrightarrow> (\<And>x. x \<in> U' \<Longrightarrow> x \<in> U \<or> heap st x = None) \<Longrightarrow> ready env n U' st' v fl"
proof (induction n arbitrary: v fl)
  case (Suc n)
  have cell: "\<exists>c'. heap st' x = Some c' \<and> same_cell c c'" if "heap st x = Some c" for x c
    by (rule extendsD [OF Suc.prems(2) that])
  show ?case
  proof (cases "field_kind fl")
    case BlockField
    show ?thesis
    proof (cases "v = 0")
      case False
      from Suc.prems(1) [unfolded ready_block [OF BlockField False]] obtain b where b: "heap st v = Some (BlockCell b)"
        and r: "if bit (block_flags b) 24 then \<not> bit (block_flags b) 0 \<and> v \<notin> U
          else bit (block_flags b) 28 \<or> (\<forall>(i, g) \<in> set (copy_script env b). ready env n U st (captured b ! i) g)" by blast
      from cell [OF b] obtain b' where b': "heap st' v = Some (BlockCell b')" "same_cell (BlockCell b) (BlockCell b')"
        using same_cell_block [of b] by blast
      have bits: "bit (block_flags b') 24 = bit (block_flags b) 24" using b'(2) high_bit [of "block_flags b'" "block_flags b" 24] by simp
      show ?thesis
      proof (cases "bit (block_flags b) 24")
        case True
        then have "\<not> bit (block_flags b') 0" "v \<notin> U'" using r b'(2) b Suc.prems(3) [of v] by auto
        then show ?thesis unfolding ready_block [OF BlockField False] using True b' bits by simp
      next
        case st: False
        then have e: "b' = b" using b'(2) by simp
        have "ready env n U' st' (captured b ! i) g" if "(i, g) \<in> set (copy_script env b)" "\<not> bit (block_flags b) 28" for i g
        proof (rule Suc.IH [OF _ Suc.prems(2)])
          show "ready env n U st (captured b ! i) g" using r st that by auto
        qed (rule Suc.prems(3))
        then show ?thesis unfolding ready_block [OF BlockField False] using b'(1) e st by auto
      qed
    qed (use BlockField in simp)
  next
    case ByrefField
    from Suc.prems(1) [unfolded ready_byref [OF ByrefField]] obtain c where
      c: "0 < n" "heap st v = Some (ByrefCell c)" "bit (byref_flags c) 24 \<longrightarrow> \<not> bit (byref_flags c) 0" by blast
    from cell [OF c(2)] obtain c' where c': "heap st' v = Some (ByrefCell c')" "same_cell (ByrefCell c) (ByrefCell c')"
      using same_cell_byref [of c] by blast
    have "bit (byref_flags c') 24 = bit (byref_flags c) 24" using c'(2) high_bit [of "byref_flags c'" "byref_flags c" 24] by simp
    then show ?thesis unfolding ready_byref [OF ByrefField] using c c' by simp
  qed (simp_all)
qed simp

subsection \<open>Single steps of the accounts\<close>

lemma refs_at_owned: "r \<in># refs_at env U st y \<Longrightarrow> r \<in># owned env U st"
  unfolding owned_def by (subst sum.remove [of UNIV y]) simp_all

lemma slot_ok_cong:
  "count T' (BlockRef x) = count T (BlockRef x) \<Longrightarrow> count T' (ByrefRef x) = count T (ByrefRef x) \<Longrightarrow> slot_ok env T' x oc = slot_ok env T x oc"
proof (cases oc)
  case (Some c)
  assume "count T' (BlockRef x) = count T (BlockRef x)" "count T' (ByrefRef x) = count T (ByrefRef x)"
  then show ?thesis using Some by (cases c) simp_all
qed simp

text \<open>What a reference leads to.\<close>

lemma live_byref:
  assumes "slot_ok env T f oc" "count T (ByrefRef f) = Suc k"
  shows "\<exists>c. oc = Some (ByrefCell c) \<and> byref_ok env c \<and> bit (byref_flags c) 24 \<and> forwarding c = f \<and> cnt_ok (byref_flags c) (Suc k)"
proof (cases oc)
  case (Some y)
  then show ?thesis using assms by (cases y) (auto split: if_splits)
qed (use assms in simp)

lemma live_block:
  assumes "slot_ok env T x oc" "count T (BlockRef x) = Suc k"
  shows "\<exists>b. oc = Some (BlockCell b) \<and> block_ok env b \<and>
    (if bit (block_flags b) 24 then \<not> bit (block_flags b) 28 \<and> cnt_ok (block_flags b) (Suc k) else bit (block_flags b) 28)"
proof (cases oc)
  case (Some y)
  then show ?thesis using assms by (cases y) (auto split: if_splits)
qed (use assms in simp)

lemma slot_ok_block_cong:
  "block_ok env b' = block_ok env b \<Longrightarrow> block_flags b' = block_flags b \<Longrightarrow>
     slot_ok env T x (Some (BlockCell b')) = slot_ok env T x (Some (BlockCell b))"
  by simp

lemma acct_step:
  assumes "acct env U E st" "heap st' 0 = None"
    "\<And>y. y \<notin> X \<Longrightarrow> heap st' y = heap st y \<and> count (E' + owned env U' st') (BlockRef y) = count (E + owned env U st) (BlockRef y) \<and>
       count (E' + owned env U' st') (ByrefRef y) = count (E + owned env U st) (ByrefRef y)"
    "\<And>y. y \<in> X \<Longrightarrow> slot_ok env (E' + owned env U' st') y (heap st' y)"
    "objects_ok st' (E' + owned env U' st')" "ranked env U' st' rank"
  shows "acct env U' E' st'"
  unfolding acct_def
proof (intro conjI allI exI)
  fix y show "slot_ok env (E' + owned env U' st') y (heap st' y)"
  proof (cases "y \<in> X")
    case False
    note h = assms(3) [OF False]
    have "slot_ok env (E' + owned env U' st') y (heap st y) = slot_ok env (E + owned env U st) y (heap st y)"
      by (rule slot_ok_cong) (use h in blast)+
    moreover have "slot_ok env (E + owned env U st) y (heap st y)" using assms(1) unfolding acct_def by blast
    ultimately show ?thesis using h by simp
  qed (rule assms(4))
qed (rule assms)+

lemma acctD:
  assumes "acct env U E st"
  shows "heap st 0 = None" "slot_ok env (E + owned env U st) x (heap st x)" "objects_ok st (E + owned env U st)"
    "\<exists>rank. ranked env U st rank"
  using assms unfolding acct_def by blast+

lemma acct_slot: "acct env U E st \<Longrightarrow> heap st x = oc \<Longrightarrow> slot_ok env (E + owned env U st) x oc"
  unfolding acct_def by blast

lemma objects_ok_cong:
  "objects_ok st T \<Longrightarrow> callbacks st' = callbacks st \<Longrightarrow> calls st' = calls st \<Longrightarrow> (\<And>ob. count T' (ObjRef ob) = count T (ObjRef ob)) \<Longrightarrow>
     objects_ok st' T'"
  by (simp add: objects_ok_def)

lemma ranked_cong: "(\<And>x. refs_at env U' st' x = refs_at env U st x) \<Longrightarrow> ranked env U' st' rank = ranked env U st rank"
  by (simp add: ranked_def)

lemma retain_block:
  assumes "acct env U E st" "heap st x = Some (BlockCell b)" "bit (block_flags b) 24" "latched (block_flags b) \<or> \<not> bit (block_flags b) 0"
  shows "acct env U (add_mset (BlockRef x) E) (put_block x (b\<lparr>block_flags := snd (latching_incr_int (block_flags b) [])\<rparr>) st)"
    (is "acct env U ?E ?st")
proof -
  let ?w = "snd (latching_incr_int (block_flags b) [])"
  note f = reflag_block [OF incr_high [of "block_flags b"]]
  have r: "refs_at env U ?st y = refs_at env U st y" for y
    using assms(2) f(2) by (simp add: refs_at_def del: cell_refs.simps)
  have o: "owned env U ?st = owned env U st" by (rule owned_same) (rule r)
  obtain rank where rk: "ranked env U st rank" using acctD(4) [OF assms(1)] by blast
  have x0: "x \<noteq> 0" using acctD(1) [OF assms(1)] assms(2) by auto
  have "slot_ok env (E + owned env U st) x (Some (BlockCell b))" by (rule acct_slot [OF assms(1,2)])
  moreover have "bit ?w 24" "bit ?w 28 = bit (block_flags b) 28" using high_bit [OF incr_high [of "block_flags b"]] assms(3) by simp_all
  ultimately have s: "slot_ok env (?E + owned env U ?st) x (heap ?st x)"
    using assms(3) cnt_ok_incr [OF _ assms(4)] by (simp add: o f(1) split: if_splits)
  show ?thesis
  proof (rule acct_step [OF assms(1), where X = "{x}"])
    show "heap ?st 0 = None" using x0 acctD(1) [OF assms(1)] by simp
    show "objects_ok ?st (?E + owned env U ?st)" by (rule objects_ok_cong [OF acctD(3) [OF assms(1)]]) (simp_all add: o)
    show "ranked env U ?st rank" using rk ranked_cong [OF r] by simp
    show "slot_ok env (?E + owned env U ?st) y (heap ?st y)" if "y \<in> {x}" for y using s that by (simp only: singleton_iff)
  qed (auto simp: o)
qed

lemma retain_byref:
  assumes "acct env U E st" "heap st x = Some (ByrefCell b)" "bit (byref_flags b) 24" "latched (byref_flags b) \<or> \<not> bit (byref_flags b) 0"
  shows "acct env U (add_mset (ByrefRef x) E) (put_byref x (b\<lparr>byref_flags := snd (latching_incr_int (byref_flags b) [])\<rparr>) st)"
    (is "acct env U ?E ?st")
proof -
  let ?w = "snd (latching_incr_int (byref_flags b) [])"
  note f = reflag_byref [OF incr_high [of "byref_flags b"]]
  have r: "refs_at env U ?st y = refs_at env U st y" for y
    using assms(2) f(2) by (simp add: refs_at_def del: cell_refs.simps)
  have o: "owned env U ?st = owned env U st" by (rule owned_same) (rule r)
  obtain rank where rk: "ranked env U st rank" using acctD(4) [OF assms(1)] by blast
  have x0: "x \<noteq> 0" using acctD(1) [OF assms(1)] assms(2) by auto
  have "slot_ok env (E + owned env U st) x (Some (ByrefCell b))" by (rule acct_slot [OF assms(1,2)])
  moreover have "bit ?w 24" using high_bit [OF incr_high [of "byref_flags b"]] assms(3) by simp_all
  ultimately have s: "slot_ok env (?E + owned env U ?st) x (heap ?st x)"
    using assms(3) cnt_ok_incr [OF _ assms(4)] by (simp add: o f(1) split: if_splits)
  show ?thesis
  proof (rule acct_step [OF assms(1), where X = "{x}"])
    show "heap ?st 0 = None" using x0 acctD(1) [OF assms(1)] by simp
    show "objects_ok ?st (?E + owned env U ?st)" by (rule objects_ok_cong [OF acctD(3) [OF assms(1)]]) (simp_all add: o)
    show "ranked env U ?st rank" using rk ranked_cong [OF r] by simp
    show "slot_ok env (?E + owned env U ?st) y (heap ?st y)" if "y \<in> {x}" for y using s that by (simp only: singleton_iff)
  qed (auto simp: o)
qed

lemma retain_object:
  assumes "acct env U E st"
  shows "acct env U (add_mset (ObjRef ob) E) (call_back (cb_retain (callbacks st)) ob st)" (is "acct env U ?E ?st")
proof -
  have r: "refs_at env U ?st y = refs_at env U st y" for y by (simp add: refs_at_def)
  have o: "owned env U ?st = owned env U st" by (rule owned_same) (rule r)
  obtain rank where rk: "ranked env U st rank" using acctD(4) [OF assms(1)] by blast
  show ?thesis
  proof (rule acct_step [OF assms(1), where X = "{}"])
    show "heap ?st 0 = None" using acctD(1) [OF assms(1)] by simp
    show "ranked env U ?st rank" using rk ranked_cong [OF r] by simp
    show "objects_ok ?st (?E + owned env U ?st)"
      unfolding objects_ok_def
    proof (intro allI impI)
      fix f g ob'
      assume c: "cb_retain (callbacks ?st) = Registered f \<and> cb_release (callbacks ?st) = Registered g \<and> f \<noteq> g \<and>
        cb_destructInstance (callbacks ?st) \<notin> {Registered f, Registered g}"
      then have "count_list (calls st) (f, ob') = count_list (calls st) (g, ob') + count (E + owned env U st) (ObjRef ob')"
        using acctD(3) [OF assms(1)] unfolding objects_ok_def heap_call_back(2) by blast
      moreover have "cb_retain (callbacks st) = Registered f" "f \<noteq> g" using c [unfolded heap_call_back(2)] by blast+
      moreover from this have "calls ?st = calls st @ [(f, ob)]" by (simp add: call_back_def)
      ultimately show "count_list (calls ?st) (f, ob') = count_list (calls ?st) (g, ob') + count (?E + owned env U ?st) (ObjRef ob')"
        unfolding o by simp
    qed
  qed (auto simp: o)
qed

lemma alloc_block:
  assumes "acct env U E st" "heap st x = None" "x \<noteq> 0" "block_ok env b" "bit (block_flags b) 24" "\<not> bit (block_flags b) 28"
    "rc (block_flags b) = 1" "\<not> bit (block_flags b) 0"
  shows "acct env (insert x U) (add_mset (BlockRef x) E) (put_block x b st)" (is "acct env ?U ?E ?st")
proof -
  have r: "refs_at env ?U ?st y = refs_at env U st y" for y using assms(2) by (simp add: refs_at_def)
  have o: "owned env ?U ?st = owned env U st" by (rule owned_same) (rule r)
  obtain rank where rk: "ranked env U st rank" using acctD(4) [OF assms(1)] by blast
  have n: "count (E + owned env U st) (BlockRef x) = 0" "count (E + owned env U st) (ByrefRef x) = 0"
    using acct_slot [OF assms(1,2)] by simp_all
  show ?thesis
  proof (rule acct_step [OF assms(1), where X = "{x}"])
    show "heap ?st 0 = None" using acctD(1) [OF assms(1)] assms(3) by simp
    show "ranked env ?U ?st rank" using rk ranked_cong [OF r] by simp
    show "objects_ok ?st (?E + owned env ?U ?st)" by (rule objects_ok_cong [OF acctD(3) [OF assms(1)]]) (simp_all add: o)
    show "slot_ok env (?E + owned env ?U ?st) y (heap ?st y)" if "y \<in> {x}" for y
      using that n assms(4-8) by (simp add: o cnt_ok_def)
  qed (auto simp: o)
qed

lemma store_block:
  assumes "acct env U E st" "heap st x = Some (BlockCell b)" "x \<in> U" "length ws = length (captured b)"
  shows "acct env U E (put_block x (b\<lparr>captured := ws\<rparr>) st)" (is "acct env U E ?st")
proof -
  have r: "refs_at env U ?st y = refs_at env U st y" for y using assms(2,3) by (simp add: refs_at_def)
  have o: "owned env U ?st = owned env U st" by (rule owned_same) (rule r)
  obtain rank where rk: "ranked env U st rank" using acctD(4) [OF assms(1)] by blast
  have x0: "x \<noteq> 0" using acctD(1) [OF assms(1)] assms(2) by auto
  have k: "block_ok env (b\<lparr>captured := ws\<rparr>) = block_ok env b" by (rule block_ok_cong) (use assms(4) in simp_all)
  have "slot_ok env (E + owned env U st) x (Some (BlockCell b))" by (rule acct_slot [OF assms(1,2)])
  then have s: "slot_ok env (E + owned env U ?st) x (heap ?st x)" by (simp add: o k split: if_splits)
  show ?thesis
  proof (rule acct_step [OF assms(1), where X = "{x}"])
    show "heap ?st 0 = None" using x0 acctD(1) [OF assms(1)] by simp
    show "objects_ok ?st (E + owned env U ?st)" by (rule objects_ok_cong [OF acctD(3) [OF assms(1)]]) (simp_all add: o)
    show "ranked env U ?st rank" using rk ranked_cong [OF r] by simp
    show "slot_ok env (E + owned env U ?st) y (heap ?st y)" if "y \<in> {x}" for y using s that by (simp only: singleton_iff)
  qed (auto simp: o)
qed

text \<open>A block that is complete owns what its fields hold. Nothing else holds it yet, so it can be ranked above all.\<close>

lemma finish_block:
  assumes "acct env (insert x U) (add_mset (BlockRef x) (E + fields_own (copy_script env b) (captured b))) st"
    "heap st x = Some (BlockCell b)" "bit (block_flags b) 24" "rc (block_flags b) = 1" "x \<notin> U"
  shows "acct env U (add_mset (BlockRef x) E) (set_malloc_isa x st)" (is "acct env U ?E ?st")
proof -
  let ?F = "fields_own (copy_script env b) (captured b)" and ?b = "b\<lparr>block_isa := NSConcreteMallocBlock\<rparr>"
  let ?T = "add_mset (BlockRef x) (E + ?F) + owned env (insert x U) st"
  have "get_block st x = Some b" using assms(2) by simp
  then have h: "heap ?st = (heap st)(x \<mapsto> BlockCell ?b)" "callbacks ?st = callbacks st" "calls ?st = calls st"
    unfolding set_malloc_isa_def by (simp_all del: get_block_iff)
  have sc: "copy_script env ?b = copy_script env b" "block_ok env ?b = block_ok env b"
    by (rule copy_script_cong block_ok_cong; simp)+
  have r: "refs_at env U ?st y = refs_at env (insert x U) st y" if "y \<noteq> x" for y using that by (simp add: refs_at_def h)
  have "owned env U ?st + refs_at env (insert x U) st x = owned env (insert x U) st + refs_at env U ?st x" by (rule owned_upd) (rule r)
  moreover have rx: "refs_at env U ?st x = ?F" using assms(3,5) by (simp add: refs_at_def h sc)
  ultimately have o: "owned env U ?st = owned env (insert x U) st + ?F" by (simp add: refs_at_def)
  then have T: "?E + owned env U ?st = ?T" by simp
  have "slot_ok env ?T x (Some (BlockCell b))" by (rule acct_slot [OF assms(1,2)])
  then have "cnt_ok (block_flags b) (count ?T (BlockRef x))" using assms(3) by (simp split: if_splits)
  then have "count ?T (BlockRef x) = 1" using assms(4) by (simp add: cnt_ok_def latched_iff)
  then have nh: "count ?F (BlockRef x) = 0" "count (owned env (insert x U) st) (BlockRef x) = 0" by simp_all
  obtain rank where rk: "ranked env (insert x U) st rank" using acctD(4) [OF assms(1)] by blast
  let ?rank = "rank(x := Suc (Max (range rank)))"
  have mx: "rank z \<le> Max (range rank)" for z by (rule Max_ge) simp_all
  have "ranked env U ?st ?rank"
    unfolding ranked_def
  proof (intro allI impI)
    fix y z assume z: "BlockRef z \<in># refs_at env U ?st y"
    show "?rank z < ?rank y"
    proof (cases "y = x")
      case True
      then have "BlockRef z \<in># ?F" using z rx by simp
      then have "z \<noteq> x" using nh(1) by (auto simp: count_eq_zero_iff)
      then have "?rank z = rank z" "?rank y = Suc (Max (range rank))" using True by simp_all
      then show ?thesis using mx [of z] by linarith
    next
      case False
      then have m: "BlockRef z \<in># refs_at env (insert x U) st y" using z r by simp
      then have "z \<noteq> x" using refs_at_owned [OF m] nh(2) by (auto simp: count_eq_zero_iff)
      then show ?thesis using False m rk by (simp add: ranked_def)
    qed
  qed
  moreover have "slot_ok env ?T x (Some (BlockCell ?b))"
    by (rule slot_ok_block_cong [THEN iffD2, OF sc(2) _ acct_slot [OF assms(1,2)]]) simp
  ultimately have rs: "ranked env U ?st ?rank" "slot_ok env ?T x (Some (BlockCell ?b))" by blast+
  have x0: "x \<noteq> 0" using acctD(1) [OF assms(1)] assms(2) by auto
  show ?thesis
  proof (rule acct_step [OF assms(1), where X = "{x}"])
    show "heap ?st 0 = None" using x0 acctD(1) [OF assms(1)] by (simp add: h)
    show "objects_ok ?st (?E + owned env U ?st)"
      unfolding T by (rule objects_ok_cong [OF acctD(3) [OF assms(1)] h(2,3)]) simp
    show "slot_ok env (?E + owned env U ?st) y (heap ?st y)" if "y \<in> {x}" for y
      using rs(2) that unfolding T h(1) by (simp only: singleton_iff fun_upd_same)
    show "heap ?st y = heap st y \<and> count (?E + owned env U ?st) (BlockRef y) = count ?T (BlockRef y) \<and>
      count (?E + owned env U ?st) (ByrefRef y) = count ?T (ByrefRef y)" if "y \<notin> {x}" for y
      using that unfolding T h(1) by simp
  qed (rule rs(1))
qed

lemma copy_byref_step:
  assumes "acct env U E st" "heap st s = Some (ByrefCell src)" "\<not> bit (byref_flags src) 24" "forwarding src = s" "s \<notin> U"
    "heap st x = None" "x \<noteq> 0" "byref_ok env c" "forwarding c = x" "bit (byref_flags c) 24" "rc (byref_flags c) = 2" "\<not> bit (byref_flags c) 0"
    "heap st' = (heap st)(x \<mapsto> ByrefCell c, s \<mapsto> ByrefCell (src\<lparr>forwarding := x\<rparr>))" "callbacks st' = callbacks st" "calls st' = calls st"
  shows "acct env U (add_mset (ByrefRef x) E) st'" (is "acct env U ?E st'")
proof -
  have xs: "x \<noteq> s" "s \<noteq> 0" using assms(2,6) acctD(1) [OF assms(1)] by auto
  have r: "refs_at env U st' y = refs_at env U st y" if "y \<noteq> s" for y using that assms(6,9,10) by (simp add: refs_at_def assms(13))
  have rs: "refs_at env U st' s = {#ByrefRef x#}" "refs_at env U st s = {#}"
    using assms(2-5) xs by (simp_all add: refs_at_def assms(13))
  have "owned env U st' + refs_at env U st s = owned env U st + refs_at env U st' s" by (rule owned_upd) (rule r)
  then have o: "owned env U st' = add_mset (ByrefRef x) (owned env U st)" using rs by simp
  have n: "count (E + owned env U st) (BlockRef x) = 0" "count (E + owned env U st) (ByrefRef x) = 0"
    using acct_slot [OF assms(1,6)] by simp_all
  have k: "byref_ok env (src\<lparr>forwarding := x\<rparr>) = byref_ok env src" by (simp add: byref_ok_def keep_script_def destroy_script_def)
  have ss: "slot_ok env (E + owned env U st) s (Some (ByrefCell src))" by (rule acct_slot [OF assms(1,2)])
  obtain rank where rk: "ranked env U st rank" using acctD(4) [OF assms(1)] by blast
  show ?thesis
  proof (rule acct_step [OF assms(1), where X = "{x, s}"])
    show "heap st' 0 = None" using acctD(1) [OF assms(1)] assms(7) xs by (simp add: assms(13))
    show "objects_ok st' (?E + owned env U st')" by (rule objects_ok_cong [OF acctD(3) [OF assms(1)] assms(14,15)]) (simp add: o)
    show "ranked env U st' rank"
      unfolding ranked_def
    proof (intro allI impI)
      fix y z assume z: "BlockRef z \<in># refs_at env U st' y"
      then have "y \<noteq> s" using rs(1) by auto
      then show "rank z < rank y" using z r [of y] rk by (simp add: ranked_def)
    qed
    show "slot_ok env (?E + owned env U st') y (heap st' y)" if "y \<in> {x, s}" for y
    proof (cases "y = x")
      case True
      then show ?thesis using n assms(8-12) xs by (simp add: assms(13) o cnt_ok_def)
    next
      case False
      then have "y = s" using that by simp
      then show ?thesis using ss xs assms(3) k by (simp add: assms(13) o)
    qed
  qed (auto simp: o assms(13))
qed

end
