(* ===== verification/BlockCopyOk.thy ===== *)
theory BlockCopyOk
  imports BlockCopy
begin

text \<open>
  The copying of blocks as a whole: by induction on the nesting, every assignment of the runtime to a field of a copy
  takes exactly the reference that the field then owns.
\<close>

subsection \<open>Fields of a block\<close>

definition own_opt :: "u64 option \<Rightarrow> u32 \<Rightarrow> ref multiset" where
  "own_opt w fl = (case w of None \<Rightarrow> {#} | Some v \<Rightarrow> own v fl)"

definition blocks_in :: "u64 set \<Rightarrow> block_state \<Rightarrow> bool" where
  "blocks_in U st \<longleftrightarrow> (\<forall>x \<in> U. \<exists>b. heap st x = Some (BlockCell b))"

definition good_malloc :: "block_env \<Rightarrow> bool" where
  "good_malloc env \<longleftrightarrow> (\<forall>st n. bmalloc env st n = 0 \<or> heap st (bmalloc env st n) = None)"

text \<open>What an assignment leaves in a field: for a variable, the place on the heap it forwards to from now on; for a block, one
  with the same code that is not on the stack, or null if memory ran out in between.\<close>

definition ran_out :: "block_env \<Rightarrow> block_state \<Rightarrow> block_state \<Rightarrow> bool" where
  "ran_out env st st' \<longleftrightarrow> (\<exists>s n. grows st s \<and> grows s st' \<and> bmalloc env s n = 0)"

definition block_copied :: "block_env \<Rightarrow> block_state \<Rightarrow> block_state \<Rightarrow> u64 \<Rightarrow> u64 \<Rightarrow> bool" where
  "block_copied env st st' v w \<longleftrightarrow>
     (if v = 0 then w = 0
      else w = 0 \<and> ran_out env st st' \<or>
        (\<exists>b b'. heap st v = Some (BlockCell b) \<and> heap st' w = Some (BlockCell b') \<and> block_invoke b' = block_invoke b \<and>
           block_descriptor b' = block_descriptor b \<and> (bit (block_flags b') 24 \<or> bit (block_flags b') 28)))"

definition field_copied :: "block_env \<Rightarrow> block_state \<Rightarrow> block_state \<Rightarrow> u32 \<Rightarrow> u64 \<Rightarrow> u64 \<Rightarrow> bool" where
  "field_copied env st st' fl v w \<longleftrightarrow>
     (case field_kind fl of
        BlockField \<Rightarrow> block_copied env st st' v w
      | ByrefField \<Rightarrow> (\<exists>c. heap st' v = Some (ByrefCell c) \<and> forwarding c = w \<and> (bit (byref_flags c) 24 \<or> w \<noteq> v))
      | _ \<Rightarrow> w = v)"

lemma block_copied_later:
  assumes "block_copied env st st' v w" "grows st' st''"
  shows "block_copied env st st'' v w"
proof (cases "w = 0 \<and> (v = 0 \<or> ran_out env st st')")
  case True
  then show ?thesis using grows_trans [OF _ assms(2)] unfolding block_copied_def ran_out_def by auto
next
  case False
  then obtain b b' where b: "v \<noteq> 0" "heap st v = Some (BlockCell b)" "heap st' w = Some (BlockCell b')" "block_invoke b' = block_invoke b"
    "block_descriptor b' = block_descriptor b" "bit (block_flags b') 24 \<or> bit (block_flags b') 28"
    using assms(1) unfolding block_copied_def by (auto split: if_splits)
  from grows_block [OF assms(2) b(3)] obtain d where d: "heap st'' w = Some (BlockCell d)" "block_invoke d = block_invoke b'"
    "block_descriptor d = block_descriptor b'" "drop_bit 16 (block_flags d) = drop_bit 16 (block_flags b')" by blast
  then have "bit (block_flags d) 24 \<or> bit (block_flags d) 28" using b(6) high_bit [OF d(4)] by simp
  then show ?thesis using b d unfolding block_copied_def by auto
qed

lemma field_copied_later: "field_copied env st st' fl v w \<Longrightarrow> grows st' st'' \<Longrightarrow> field_copied env st st'' fl v w"
proof (cases "field_kind fl")
  case ByrefField
  assume f: "field_copied env st st' fl v w" and g: "grows st' st''"
  then obtain c where c: "heap st' v = Some (ByrefCell c)" "forwarding c = w" "bit (byref_flags c) 24 \<or> w \<noteq> v"
    using ByrefField by (auto simp: field_copied_def)
  from grows_byref [OF g c(1)] c(2,3) show ?thesis using ByrefField by (auto simp: field_copied_def)
qed (auto simp: field_copied_def intro: block_copied_later)

lemma field_copied_before:
  assumes "field_copied env st st' fl v w" "grows st0 st" "field_kind fl = BlockField \<Longrightarrow> v \<noteq> 0 \<Longrightarrow> \<exists>b. heap st0 v = Some (BlockCell b)"
  shows "field_copied env st0 st' fl v w"
proof (cases "field_kind fl = BlockField \<and> v \<noteq> 0")
  case True
  then obtain b0 where b0: "heap st0 v = Some (BlockCell b0)" using assms(3) by blast
  have "ran_out env st0 st'" if "ran_out env st st'" using that grows_trans [OF assms(2)] unfolding ran_out_def by blast
  then show ?thesis using assms(1) True grows_block [OF assms(2) b0] b0 by (auto simp: field_copied_def block_copied_def)
next
  case False
  then show ?thesis using assms(1) by (auto simp: field_copied_def block_copied_def split: field_kind.splits)
qed

definition assigned :: "block_env \<Rightarrow> u64 set \<Rightarrow> ref multiset \<Rightarrow> u32 \<Rightarrow> u64 \<Rightarrow> block_state \<Rightarrow> block_error + u64 option \<times> block_state \<Rightarrow> bool" where
  "assigned env U E fl v st r \<longleftrightarrow> r = Inl NullWrite \<or>
     (\<exists>w st'. r = Inr (w, st') \<and> acct env U (own_opt w fl + E) st' \<and> extends st st' \<and> (\<forall>x \<in> U. heap st' x = heap st x) \<and>
        (case w of None \<Rightarrow> field_kind fl = OtherField | Some u \<Rightarrow> field_copied env st st' fl v u))"

definition assign_ok :: "block_env \<Rightarrow> nat \<Rightarrow> assign_function \<Rightarrow> bool" where
  "assign_ok env n asn \<longleftrightarrow> (\<forall>v fl st U E. acct env U E st \<longrightarrow> blocks_in U st \<longrightarrow> ready env n U st v fl \<longrightarrow> assigned env U E fl v st (asn v fl st))"

lemma extends_put:
  assumes "heap st0 r = None" "extends st0 st" "rc (block_flags b) \<noteq> 0"
  shows "extends st0 (put_block r b st)"
  unfolding extends_def
proof (intro conjI allI impI)
  show "callbacks (put_block r b st) = callbacks st0" using assms(2) by (simp add: extends_def)
next
  fix x c assume x: "heap st0 x = Some c"
  then have "x \<noteq> r" using assms(1) by auto
  then show "\<exists>c'. heap (put_block r b st) x = Some c' \<and> same_cell c c'" using extendsD [OF assms(2) x] by simp
next
  fix x c assume "heap st0 x = None" "heap (put_block r b st) x = Some c"
  then show "undying c" using extends_new [OF assms(2), of x c] assms(3) by (cases "x = r") auto
next
  have g: "grows st0 st" by (rule extends_grows [OF assms(2)])
  show "grows st0 (put_block r b st)" unfolding grows_def
  proof (intro conjI allI impI)
    fix x d assume x: "heap st0 x = Some (BlockCell d)"
    then have "heap (put_block r b st) x = heap st x" using assms(1) by auto
    then show "\<exists>b'. heap (put_block r b st) x = Some (BlockCell b') \<and> block_invoke b' = block_invoke d \<and> block_descriptor b' = block_descriptor d \<and>
      drop_bit 16 (block_flags b') = drop_bit 16 (block_flags d)" using grows_block [OF g x] by simp
  next
    fix x c assume x: "heap st0 x = Some (ByrefCell c)" "bit (byref_flags c) 24 \<or> forwarding c \<noteq> x"
    then have "heap (put_block r b st) x = heap st x" using assms(1) by auto
    then show "\<exists>c'. heap (put_block r b st) x = Some (ByrefCell c') \<and> forwarding c' = forwarding c \<and> bit (byref_flags c') 24 = bit (byref_flags c) 24"
      using grows_byref [OF g x] by simp
  qed
qed

lemma grows_store: "heap st r = Some (BlockCell d) \<Longrightarrow> grows st (put_block r (d\<lparr>captured := ws\<rparr>) st)"
  by (auto simp: grows_def)

lemma extends_stack:
  assumes "extends st st'" "heap st a = Some (BlockCell s)" "\<not> bit (block_flags s) 24"
  shows "heap st' a = Some (BlockCell s)"
proof -
  from extendsD [OF assms(1,2)] obtain c' where c: "heap st' a = Some c'" "same_cell (BlockCell s) c'" by blast
  from same_cell_block [OF c(2)] obtain b' where "c' = BlockCell b'" "same_cell (BlockCell s) (BlockCell b')" by blast
  then show ?thesis using c(1) assms(3) by simp
qed

lemma copy_fields_ok:
  assumes asn: "assign_ok env n asn" and r: "heap st0 r = None" and a: "heap st0 a = Some (BlockCell s)" "\<not> bit (block_flags s) 24"
    and U: "blocks_in U st0"
  shows "\<forall>(i, g) \<in> set fs. i < length (captured s) \<and> ready env n U st0 (captured s ! i) g \<Longrightarrow> distinct (map fst fs) \<Longrightarrow>
    acct env (insert r U) E st \<Longrightarrow> extends st0 st \<Longrightarrow> \<forall>x \<in> U. heap st x = heap st0 x \<Longrightarrow>
    heap st r = Some (BlockCell d) \<Longrightarrow> length (captured d) = length (captured s) \<Longrightarrow> rc (block_flags d) \<noteq> 0 \<Longrightarrow>
    \<forall>i \<in> fst ` set fs. captured d ! i = captured s ! i \<Longrightarrow>
    copy_helper asn fs r a st = Inl NullWrite \<or>
    (\<exists>ws st'. copy_helper asn fs r a st = Inr st' \<and> heap st' r = Some (BlockCell (d\<lparr>captured := ws\<rparr>)) \<and>
       length ws = length (captured d) \<and> (\<forall>j. j \<notin> fst ` set fs \<longrightarrow> ws ! j = captured d ! j) \<and>
       acct env (insert r U) (fields_own fs ws + E) st' \<and> extends st0 st' \<and> (\<forall>x \<in> U. heap st' x = heap st0 x) \<and> grows st st' \<and>
       (\<forall>(i, g) \<in> set fs. field_copied env st0 st' g (captured s ! i) (ws ! i)))"
proof (induction fs arbitrary: st E d)
  case Nil
  have "d\<lparr>captured := captured d\<rparr> = d" by simp
  then show ?case using Nil.prems by (intro disjI2 exI [of _ "captured d"] exI [of _ st]) simp
next
  case (Cons f fs)
  obtain i g where f: "f = (i, g)" by fastforce
  have i: "i < length (captured s)" "ready env n U st0 (captured s ! i) g" using Cons.prems(1) f by auto
  have rU: "r \<notin> U" using U r by (auto simp: blocks_in_def)
  have la: "load_field st a i = Some (captured s ! i)"
    using extends_stack [OF Cons.prems(4) a] i(1) by (simp add: load_field_def)
  have "blocks_in (insert r U) st" using U Cons.prems(5,6) by (simp add: blocks_in_def)
  moreover have "ready env n (insert r U) st (captured s ! i) g"
    by (rule ready_extends [OF i(2) Cons.prems(4)]) (use r in auto)
  ultimately have ad: "assigned env (insert r U) E g (captured s ! i) st (asn (captured s ! i) g st)"
    using asn Cons.prems(3) by (simp add: assign_ok_def)
  show ?case
  proof (cases "asn (captured s ! i) g st = Inl NullWrite")
    case True
    then show ?thesis using la f by simp
  next
    case False
    then obtain w st1 where w: "asn (captured s ! i) g st = Inr (w, st1)" "acct env (insert r U) (own_opt w g + E) st1" "extends st st1"
      "\<forall>x \<in> insert r U. heap st1 x = heap st x"
      "case w of None \<Rightarrow> field_kind g = OtherField | Some u \<Rightarrow> field_copied env st st1 g (captured s ! i) u"
      using ad unfolding assigned_def by blast
    let ?ws = "(case w of None \<Rightarrow> captured d | Some v \<Rightarrow> (captured d)[i := v])"
    let ?d = "d\<lparr>captured := ?ws\<rparr>"
    define st2 where "st2 = (case w of None \<Rightarrow> st1 | Some v \<Rightarrow> put_block r ?d st1)"
    have h1: "heap st1 r = Some (BlockCell d)" using w(4) Cons.prems(6) by simp
    have len: "length ?ws = length (captured d)" by (simp split: option.splits)
    have sw: "store_field r i w st1 = Some st2"
      using h1 i(1) Cons.prems(7) by (simp add: store_field_def st2_def put_block_def split: option.splits)
    have h2: "heap st2 r = Some (BlockCell ?d)" using h1 by (simp add: st2_def split: option.splits)
    have a2: "acct env (insert r U) (own_opt w g + E) st2"
    proof (cases w)
      case (Some v)
      then show ?thesis using store_block [OF w(2) h1, of ?ws] len by (simp add: st2_def)
    qed (use w(2) in \<open>simp add: st2_def\<close>)
    have e1: "extends st0 st1" by (rule extends_trans [OF Cons.prems(4) w(3)])
    have e2: "extends st0 st2" using e1 extends_put [OF r e1, of ?d] Cons.prems(8) by (simp add: st2_def split: option.splits)
    have g2: "grows st1 st2" using grows_store [OF h1, of ?ws] by (simp add: st2_def split: option.splits)
    have v0: "\<exists>b. heap st0 (captured s ! i) = Some (BlockCell b)" if k: "field_kind g = BlockField" "captured s ! i \<noteq> 0"
    proof (cases n)
      case (Suc m)
      then show ?thesis using i(2) [unfolded Suc ready_block [OF k]] by blast
    qed (use i(2) in simp)
    have keep: "captured d ! i = captured s ! i" using Cons.prems(9) f by simp
    have fc: "field_copied env st0 st2 g (captured s ! i) (?ws ! i)"
    proof (cases w)
      case None
      then show ?thesis using w(5) keep by (simp add: field_copied_def)
    next
      case (Some u)
      have "field_copied env st st2 g (captured s ! i) u" using w(5) Some field_copied_later [OF _ g2] by simp
      from field_copied_before [OF this extends_grows [OF Cons.prems(4)] v0] show ?thesis using Some i(1) Cons.prems(7) by simp
    qed
    have u2: "\<forall>x \<in> U. heap st2 x = heap st0 x"
      using w(4) Cons.prems(5) rU by (auto simp: st2_def split: option.splits)
    have "copy_helper asn fs r a st2 = Inl NullWrite \<or>
      (\<exists>ws st'. copy_helper asn fs r a st2 = Inr st' \<and> heap st' r = Some (BlockCell (?d\<lparr>captured := ws\<rparr>)) \<and>
         length ws = length (captured ?d) \<and> (\<forall>j. j \<notin> fst ` set fs \<longrightarrow> ws ! j = captured ?d ! j) \<and>
         acct env (insert r U) (fields_own fs ws + (own_opt w g + E)) st' \<and> extends st0 st' \<and> (\<forall>x \<in> U. heap st' x = heap st0 x) \<and> grows st2 st' \<and>
         (\<forall>(i, g) \<in> set fs. field_copied env st0 st' g (captured s ! i) (ws ! i)))"
    proof (rule Cons.IH [OF _ _ a2 e2 u2 h2])
      show "\<forall>(i, g) \<in> set fs. i < length (captured s) \<and> ready env n U st0 (captured s ! i) g" using Cons.prems(1) by simp
      show "distinct (map fst fs)" using Cons.prems(2) by simp
      show "length (captured ?d) = length (captured s)" using len Cons.prems(7) by simp
      show "rc (block_flags ?d) \<noteq> 0" using Cons.prems(8) by simp
      show "\<forall>j \<in> fst ` set fs. captured ?d ! j = captured s ! j"
      proof
        fix j assume j: "j \<in> fst ` set fs"
        then have "j \<noteq> i" using Cons.prems(2) f by auto
        moreover have "captured d ! j = captured s ! j" by (rule bspec [OF Cons.prems(9)]) (use j in simp)
        ultimately show "captured ?d ! j = captured s ! j" by (simp split: option.splits)
      qed
    qed
    moreover have ch: "copy_helper asn (f # fs) r a st = copy_helper asn fs r a st2" using la w(1) sw f by simp
    moreover have "fields_own (f # fs) ws = own_opt w g + fields_own fs ws" if "\<forall>j. j \<notin> fst ` set fs \<longrightarrow> ws ! j = captured ?d ! j" for ws
    proof -
      have "i \<notin> fst ` set fs" using Cons.prems(2) f by auto
      then have wi: "ws ! i = ?ws ! i" using that by simp
      have "own (ws ! i) g = own_opt w g"
      proof (cases w)
        case None
        then show ?thesis using w(5) by (simp add: own_opt_def own_def)
      next
        case (Some v)
        then show ?thesis using wi i(1) Cons.prems(7) by (simp add: own_opt_def)
      qed
      then show ?thesis by (simp add: f)
    qed
    ultimately show ?thesis
    proof (elim disjE exE conjE, goal_cases)
      case 1
      then show ?thesis by simp
    next
      case (2 ws st')
      have "ws ! j = captured d ! j" if "j \<notin> fst ` set (f # fs)" for j
      proof -
        have "j \<noteq> i" using that f by auto
        then show ?thesis using 2(6) that by (simp split: option.splits)
      qed
      moreover have "acct env (insert r U) (fields_own (f # fs) ws + E) st'" using 2(7) 2(2) [OF 2(6)] by (simp add: ac_simps)
      moreover have "length ws = length (captured d)" using 2(5) len by simp
      moreover have "grows st st'" by (rule grows_trans [OF extends_grows [OF w(3)] grows_trans [OF g2 2(10)]])
      moreover have "\<forall>(k, h) \<in> set (f # fs). field_copied env st0 st' h (captured s ! k) (ws ! k)"
      proof -
        have "i \<notin> fst ` set fs" using Cons.prems(2) f by auto
        then have "ws ! i = ?ws ! i" using 2(6) by simp
        then show ?thesis using field_copied_later [OF fc 2(10)] 2(11) f by simp
      qed
      ultimately show ?thesis using 2(1,3,4,8,9) by (intro disjI2 exI [of _ ws] exI [of _ st']) simp
    qed
  qed
qed

subsection \<open>Blocks\<close>

definition block_refs :: "u64 \<Rightarrow> ref multiset" where "block_refs v = (if v = 0 then {#} else {#BlockRef v#})"

definition copied :: "block_env \<Rightarrow> u64 set \<Rightarrow> ref multiset \<Rightarrow> u64 \<Rightarrow> block_state \<Rightarrow> block_error + u64 \<times> block_state \<Rightarrow> bool" where
  "copied env U E v st res \<longleftrightarrow> res = Inl NullWrite \<or>
     (\<exists>w st'. res = Inr (w, st') \<and> acct env U (block_refs w + E) st' \<and> extends st st' \<and> (\<forall>x \<in> U. heap st' x = heap st x) \<and>
        block_copied env st st' v w)"

lemma retain_global:
  assumes "acct env U E st" "heap st x = Some (BlockCell b)" "\<not> bit (block_flags b) 24" "bit (block_flags b) 28"
  shows "acct env U (add_mset (BlockRef x) E) st"
proof -
  obtain rank where rk: "ranked env U st rank" using acctD(4) [OF assms(1)] by blast
  have "slot_ok env (E + owned env U st) x (Some (BlockCell b))" by (rule acct_slot [OF assms(1,2)])
  then have s: "slot_ok env (add_mset (BlockRef x) E + owned env U st) x (Some (BlockCell b))" using assms(3,4) by simp
  show ?thesis
  proof (rule acct_step [OF assms(1), where X = "{x}"])
    show "objects_ok st (add_mset (BlockRef x) E + owned env U st)" by (rule objects_ok_cong [OF acctD(3) [OF assms(1)]]) simp_all
    show "slot_ok env (add_mset (BlockRef x) E + owned env U st) y (heap st y)" if "y \<in> {x}" for y
      using that s assms(2) by (simp only: singleton_iff)
  qed (use acctD(1) [OF assms(1)] rk in auto)
qed

text \<open>The copy of a stack block: a block of its own on the heap, the same words but for the fields its helper copies.\<close>

definition stack_copied :: "block_env \<Rightarrow> u64 set \<Rightarrow> ref multiset \<Rightarrow> block_state \<Rightarrow> Block_layout \<Rightarrow> block_error + u64 \<times> block_state \<Rightarrow> bool" where
  "stack_copied env U E st b res \<longleftrightarrow> res = Inl NullWrite \<or> res = Inr (0, st) \<and> bmalloc env st (Block_size (descriptors env) b) = 0 \<or>
     (\<exists>x ws st'. res = Inr (x, st') \<and> x \<noteq> 0 \<and> heap st x = None \<and> acct env U (add_mset (BlockRef x) E) st' \<and> extends st st' \<and>
        (\<forall>y \<in> U. heap st' y = heap st y) \<and>
        heap st' x = Some (BlockCell ((copied_block b)\<lparr>captured := ws, block_isa := NSConcreteMallocBlock\<rparr>)) \<and>
        length ws = length (captured b) \<and> (\<forall>j. j \<notin> fst ` set (copy_script env b) \<longrightarrow> ws ! j = captured b ! j) \<and>
        (\<forall>(i, g) \<in> set (copy_script env b). field_copied env st st' g (captured b ! i) (ws ! i)))"

lemma block_copy_stack:
  assumes asn: "assign_ok env n asn" and m: "good_malloc env" and a: "acct env U E st" and U: "blocks_in U st" and v: "v \<noteq> 0"
    and b: "heap st v = Some (BlockCell b)" and st: "\<not> bit (block_flags b) 24" and False: "\<not> bit (block_flags b) 28"
    and r: "\<forall>(i, g) \<in> set (copy_script env b). ready env n U st (captured b ! i) g"
  shows "stack_copied env U E st b (block_copy_with env asn v st)"
proof -
  let ?x = "bmalloc env st (Block_size (descriptors env) b)" and ?c = "copied_block b"
  have g: "get_block st v = Some b" using b by simp
  have ok: "block_ok env b" using acct_slot [OF a b] by simp
  show ?thesis
  proof (cases "?x = 0")
    case True
    then show ?thesis using v False st by (simp add: block_copy_with_def g flag_bits stack_copied_def del: get_block_iff)
  next
    case x: False
    have xn: "heap st ?x = None" using m x unfolding good_malloc_def by blast
    have xv: "?x \<noteq> v" using b xn by auto
    have cd: "block_descriptor ?c = block_descriptor b" "length (captured ?c) = length (captured b)" by (simp_all add: copied_block_def)
    have cb: "bit (block_flags ?c) k = bit (block_flags b) k" if "k \<in> {22, 25}" for k by (rule copied_flags(4)) (use that in auto)
    have sc: "copy_script env ?c = copy_script env b" by (rule copy_script_cong(1) [OF cd(1) cb])
    have okc: "block_ok env ?c" using block_ok_cong [OF cd(1) cb cd(2)] ok by simp
    have fc: "captured ?c = captured b" by (simp add: copied_block_def)
    have size: "Block_size (descriptors env) b = 32 + 8 * length (captured b)" using ok by (simp add: block_ok_def)
    let ?st1 = "put_block ?x ?c st"
    have a1: "acct env (insert ?x U) (add_mset (BlockRef ?x) E) ?st1"
      by (rule alloc_block [OF a xn x okc copied_flags(3) _ copied_flags(1,2)]) (use copied_flags(4) [of 28 b] False in simp)
    have "copy_helper asn (copy_script env b) ?x v ?st1 = Inl NullWrite \<or>
      (\<exists>ws st'. copy_helper asn (copy_script env b) ?x v ?st1 = Inr st' \<and> heap st' ?x = Some (BlockCell (?c\<lparr>captured := ws\<rparr>)) \<and>
         length ws = length (captured ?c) \<and> (\<forall>j. j \<notin> fst ` set (copy_script env b) \<longrightarrow> ws ! j = captured ?c ! j) \<and>
         acct env (insert ?x U) (fields_own (copy_script env b) ws + add_mset (BlockRef ?x) E) st' \<and> extends st st' \<and>
         (\<forall>y \<in> U. heap st' y = heap st y) \<and> grows ?st1 st' \<and>
         (\<forall>(i, g) \<in> set (copy_script env b). field_copied env st st' g (captured b ! i) (ws ! i)))"
    proof (rule copy_fields_ok [OF asn xn b st U _ _ a1])
      show "\<forall>(i, g) \<in> set (copy_script env b). i < length (captured b) \<and> ready env n U st (captured b ! i) g"
        using r ok by (auto simp: block_ok_def)
      show "distinct (map fst (copy_script env b))" using ok by (simp add: block_ok_def)
      show "extends st ?st1" by (rule extends_put [OF xn extends_refl]) (simp add: copied_flags(1))
      show "\<forall>y \<in> U. heap ?st1 y = heap st y" using U xn by (auto simp: blocks_in_def)
    qed (simp_all add: fc copied_flags(1))
    moreover have res: "block_copy_with env asn v st = (case copy_helper asn (copy_script env b) ?x v ?st1 of
        Inl e \<Rightarrow> Inl e | Inr st1 \<Rightarrow> Inr (?x, set_malloc_isa ?x st1))"
      using v st False x size by (simp add: block_copy_with_def g flag_bits Let_def del: get_block_iff cong: sum.case_cong)
    ultimately show ?thesis
    proof (elim disjE exE conjE, goal_cases)
      case 1
      then show ?thesis by (simp add: stack_copied_def)
    next
      case (2 ws st')
      let ?d = "?c\<lparr>captured := ws\<rparr>"
      have scd: "copy_script env ?d = copy_script env ?c" by (rule copy_script_cong) simp_all
      have xU: "?x \<notin> U" using U xn by (auto simp: blocks_in_def)
      have ad: "acct env (insert ?x U) (add_mset (BlockRef ?x) (E + fields_own (copy_script env ?d) (captured ?d))) st'"
        using 2(6) by (simp add: scd sc ac_simps)
      have fin: "acct env U (add_mset (BlockRef ?x) E) (set_malloc_isa ?x st')"
        by (rule finish_block [OF ad 2(3)]) (use copied_flags(1,3) xU in simp_all)
      have gx: "get_block st' ?x = Some ?d" using 2(3) by simp
      have sm: "set_malloc_isa ?x st' = put_block ?x (?d\<lparr>block_isa := NSConcreteMallocBlock\<rparr>) st'"
        unfolding set_malloc_isa_def gx by simp
      have "extends st (set_malloc_isa ?x st')" unfolding sm by (rule extends_put [OF xn 2(7)]) (simp add: copied_flags(1))
      moreover have "\<forall>y \<in> U. heap (set_malloc_isa ?x st') y = heap st y" unfolding sm using 2(8) xU by auto
      moreover have "block_copy_with env asn v st = Inr (?x, set_malloc_isa ?x st')" using 2(1,2) by simp
      moreover have "heap (set_malloc_isa ?x st') ?x = Some (BlockCell (?d\<lparr>block_isa := NSConcreteMallocBlock\<rparr>))" unfolding sm by simp
      moreover have "length ws = length (captured b)" "\<forall>j. j \<notin> fst ` set (copy_script env b) \<longrightarrow> ws ! j = captured b ! j"
        using 2(4,5) by (simp_all add: fc)
      moreover have "grows st' (set_malloc_isa ?x st')" unfolding sm using 2(3) by (auto simp: grows_def)
      then have "\<forall>(i, g) \<in> set (copy_script env b). field_copied env st (set_malloc_isa ?x st') g (captured b ! i) (ws ! i)"
        using 2(10) field_copied_later by fast
      ultimately show ?thesis unfolding stack_copied_def using x xn fin
        by (intro disjI2 exI [of _ ?x] exI [of _ ws] exI [of _ "set_malloc_isa ?x st'"] conjI)
    qed
  qed
qed

lemma block_copy_ok:
  assumes asn: "assign_ok env n asn" and m: "good_malloc env" and a: "acct env U E st" and U: "blocks_in U st"
    and rd: "ready env (Suc n) U st v BLOCK_FIELD_IS_BLOCK"
  shows "copied env U E v st (block_copy_with env asn v st)"
proof (cases "v = 0")
  case True
  then show ?thesis using a by (simp add: copied_def block_copy_with_def block_refs_def block_copied_def)
next
  case v: False
  have k: "field_kind BLOCK_FIELD_IS_BLOCK = BlockField" by (simp add: field_kind_def BLOCK_ALL_COPY_DISPOSE_FLAGS_def field_flags)
  from rd [unfolded ready_block [OF k v]] obtain b where b: "heap st v = Some (BlockCell b)"
    and r: "if bit (block_flags b) 24 then \<not> bit (block_flags b) 0 \<and> v \<notin> U
      else bit (block_flags b) 28 \<or> (\<forall>(i, g) \<in> set (copy_script env b). ready env n U st (captured b ! i) g)" by blast
  have g: "get_block st v = Some b" using b by simp
  show ?thesis
  proof (cases "bit (block_flags b) 24")
    case True
    let ?b = "b\<lparr>block_flags := snd (latching_incr_int (block_flags b) [])\<rparr>"
    have res: "block_copy_with env asn v st = Inr (v, put_block v ?b st)"
      using v True by (simp add: block_copy_with_def g flag_bits del: get_block_iff)
    have nb: "\<not> bit (block_flags b) 0" "v \<notin> U" using r True by simp_all
    have "acct env U (block_refs v + E) (put_block v ?b st)" using retain_block [OF a b True disjI2 [OF nb(1)]] v by (simp add: block_refs_def)
    moreover have "extends st (put_block v ?b st)"
      by (rule extends_upd [where x = v and c' = "BlockCell ?b"])
        (use b incr_high [of "block_flags b"] incr_dealloc [of "block_flags b"] incr_nonzero [of "block_flags b"] True in auto)
    moreover have "\<forall>x \<in> U. heap (put_block v ?b st) x = heap st x" using nb(2) by auto
    moreover have "block_copied env st (put_block v ?b st) v v"
      using b v True high_bit [OF incr_high [of "block_flags b"], of 24] by (simp add: block_copied_def)
    ultimately show ?thesis unfolding res copied_def by blast
  next
    case st: False
    show ?thesis
    proof (cases "bit (block_flags b) 28")
      case True
      have "block_copy_with env asn v st = Inr (v, st)" using v True st by (simp add: block_copy_with_def g flag_bits del: get_block_iff)
      moreover have "acct env U (block_refs v + E) st" using retain_global [OF a b st True] v by (simp add: block_refs_def)
      moreover have "block_copied env st st v v" using b v True by (simp add: block_copied_def)
      ultimately show ?thesis by (simp add: copied_def)
    next
      case False
      have "\<forall>(i, g) \<in> set (copy_script env b). ready env n U st (captured b ! i) g" using r st False by simp
      from block_copy_stack [OF asn m a U v b st False this] show ?thesis
        unfolding stack_copied_def
      proof (elim disjE exE conjE, goal_cases)
        case 1
        then show ?thesis by (simp add: copied_def)
      next
        case 2
        then have "ran_out env st st" using grows_refl unfolding ran_out_def by blast
        then show ?thesis using 2 a v by (simp add: copied_def block_refs_def block_copied_def)
      next
        case (3 x ws st')
        have "block_copied env st st' v x"
          using 3(7) b v copied_flags(3) [of b] by (simp add: block_copied_def copied_block_def)
        then show ?thesis using 3(1,2,4,5,6) unfolding copied_def by (simp add: block_refs_def)
      qed
    qed
  qed
qed

subsection \<open>Variables\<close>

lemma caller_copy:
  assumes "\<And>v fl s. field_kind fl = CallerField \<Longrightarrow> asn v fl s = Inr (Some v, s)"
  shows "caller_script fs (length (byref_words s)) \<Longrightarrow> heap st a = Some (ByrefCell s) \<Longrightarrow> heap st x = Some (ByrefCell c) \<Longrightarrow> x \<noteq> a \<Longrightarrow>
    length (byref_words c) = length (byref_words s) \<Longrightarrow>
    \<exists>ws. copy_helper asn fs x a st = Inr (put_byref x (c\<lparr>byref_words := ws\<rparr>) st) \<and> length ws = length (byref_words c) \<and>
      take 2 ws = take 2 (byref_words c) \<and> (\<forall>j < length ws. j \<in> fst ` set fs \<longrightarrow> ws ! j = byref_words s ! j) \<and>
      (\<forall>j < length ws. j \<notin> fst ` set fs \<longrightarrow> ws ! j = byref_words c ! j)"
proof (induction fs arbitrary: st c)
  case Nil
  have "put_byref x (c\<lparr>byref_words := byref_words c\<rparr>) st = st" using Nil.prems(3) by (simp add: put_byref_def fun_upd_idem)
  then show ?case by (intro exI [of _ "byref_words c"]) simp
next
  case (Cons f fs)
  obtain i g where f: "f = (i, g)" by fastforce
  have i: "2 \<le> i" "i < length (byref_words s)" "field_kind g = CallerField" using Cons.prems(1) f by (auto simp: caller_script_def)
  let ?v = "byref_words s ! i"
  let ?c = "c\<lparr>byref_words := (byref_words c)[i := ?v]\<rparr>"
  have "store_field x i (Some ?v) st = Some (put_byref x ?c st)"
    using Cons.prems(3,5) i by (simp add: store_field_def put_byref_def)
  then have ch: "copy_helper asn (f # fs) x a st = copy_helper asn fs x a (put_byref x ?c st)"
    using Cons.prems(2) i assms f by (simp add: load_field_def)
  obtain ws where ws: "copy_helper asn fs x a (put_byref x ?c st) = Inr (put_byref x (?c\<lparr>byref_words := ws\<rparr>) (put_byref x ?c st))"
    "length ws = length (byref_words ?c)" "take 2 ws = take 2 (byref_words ?c)"
    "\<forall>j < length ws. j \<in> fst ` set fs \<longrightarrow> ws ! j = byref_words s ! j" "\<forall>j < length ws. j \<notin> fst ` set fs \<longrightarrow> ws ! j = byref_words ?c ! j"
    using Cons.IH [of "put_byref x ?c st" ?c] Cons.prems f by (auto simp: caller_script_def)
  have "put_byref x (?c\<lparr>byref_words := ws\<rparr>) (put_byref x ?c st) = put_byref x (c\<lparr>byref_words := ws\<rparr>) st" by (simp add: put_byref_def)
  moreover have "ws ! j = byref_words s ! j" if "j < length ws" "j \<in> fst ` set (f # fs)" for j
    using that ws(2,4,5) f Cons.prems(5) i(2) by (cases "j \<in> fst ` set fs") auto
  moreover have "ws ! j = byref_words c ! j" if "j < length ws" "j \<notin> fst ` set (f # fs)" for j
    using that ws(2,5) f by auto
  ultimately show ?case using ws(1-3) i(1) ch by (intro exI [of _ ws]) (simp add: take_update_cancel)
qed

lemma copied_byref_ok:
  assumes "byref_ok env src" "rc (byref_flags src) = 0" "\<not> bit (byref_flags src) 0"
  shows "\<exists>c. copied_byref env x src = Some c \<and> byref_size c = byref_size src \<and> length (byref_words c) = length (byref_words src) \<and>
    forwarding c = x \<and> bit (byref_flags c) 24 \<and> rc (byref_flags c) = 2 \<and> \<not> bit (byref_flags c) 0 \<and>
    (\<forall>k \<in> {25, 28}. bit (byref_flags c) k = bit (byref_flags src) k) \<and>
    (bit (byref_flags src) 25 \<longrightarrow> take 2 (byref_words c) = take 2 (byref_words src)) \<and>
    (bit (byref_flags src) 25 \<and> bit (byref_flags src) 28 \<longrightarrow> take 3 (byref_words c) = take 3 (byref_words src)) \<and>
    (\<not> bit (byref_flags src) 25 \<longrightarrow> byref_words c = byref_words src)"
proof -
  note f = copied_byref_flags [OF assms(2,3)]
  have k: "bit (byref_flags src OR BLOCK_BYREF_NEEDS_FREE OR 4) k = bit (byref_flags src) k" if "k \<in> {25, 28}" for k
    by (rule f(4)) (use that in auto)
  let ?n = "if bit (byref_flags src) 28 then 3 else 2 :: nat"
  have size: "unat (byref_size src) = 24 + 8 * length (byref_words src)"
    and n: "bit (byref_flags src) 25 \<longrightarrow> ?n \<le> length (byref_words src)" using assms(1) by (simp_all add: byref_ok_def)
  have t: "take 2 (take ?n (byref_words src) @ drop ?n ws) = take 2 (byref_words src)" if "?n \<le> length (byref_words src)" for ws
    using that by (simp split: if_splits)
  show ?thesis
  proof (cases "bit (byref_flags src) 25")
    case True
    then show ?thesis using size n t f(1-3) k by (auto simp: copied_byref_def flag_bits Let_def)
  next
    case False
    then show ?thesis using size f(1-3) k by (simp add: copied_byref_def flag_bits Let_def)
  qed
qed

lemma forwards_to_heap:
  assumes "acct env U E st" "heap st v = Some (ByrefCell src)" "\<not> bit (byref_flags src) 24" "forwarding src \<noteq> v" "v \<notin> U"
  obtains c where "heap st (forwarding src) = Some (ByrefCell c)" "bit (byref_flags c) 24" "forwarding c = forwarding src"
    "latched (byref_flags c) \<or> \<not> bit (byref_flags c) 0" "rc (byref_flags c) \<noteq> 0"
proof -
  let ?f = "forwarding src" and ?T = "E + owned env U st"
  have "ByrefRef ?f \<in># refs_at env U st v" using assms(2-5) by (simp add: refs_at_def)
  then have "ByrefRef ?f \<in># owned env U st" by (rule refs_at_owned)
  then have "count ?T (ByrefRef ?f) \<noteq> 0" by simp
  then obtain k where k: "count ?T (ByrefRef ?f) = Suc k" using not0_implies_Suc by blast
  obtain c where c: "heap st ?f = Some (ByrefCell c)" "bit (byref_flags c) 24" "forwarding c = ?f" "cnt_ok (byref_flags c) (Suc k)"
    using live_byref [OF acct_slot [OF assms(1) refl] k] by blast
  moreover have "latched (byref_flags c) \<or> \<not> bit (byref_flags c) 0" "rc (byref_flags c) \<noteq> 0"
    using c(4) by (auto simp: cnt_ok_def latched_iff)
  ultimately show thesis using that by blast
qed

text \<open>A variable that moves to the heap leaves its size, and its words: all of them without helpers, else the helpers, the
  layout if there is one, and what the copy helper copies.\<close>

definition moved :: "block_env \<Rightarrow> Block_byref \<Rightarrow> Block_byref \<Rightarrow> bool" where
  "moved env src c \<longleftrightarrow> byref_size c = byref_size src \<and> length (byref_words c) = length (byref_words src) \<and>
     (\<forall>j < length (byref_words src). \<not> bit (byref_flags src) 25 \<or> j < 2 \<or> j = 2 \<and> bit (byref_flags src) 28 \<or> j \<in> fst ` set (keep_script env src) \<longrightarrow>
        byref_words c ! j = byref_words src ! j)"

definition byref_copied :: "block_env \<Rightarrow> u64 set \<Rightarrow> ref multiset \<Rightarrow> block_state \<Rightarrow> u64 \<Rightarrow> block_error + u64 \<times> block_state \<Rightarrow> bool" where
  "byref_copied env U E st v res \<longleftrightarrow> res = Inl NullWrite \<or>
     (\<exists>w st' s. res = Inr (w, st') \<and> acct env U (add_mset (ByrefRef w) E) st' \<and> extends st st' \<and> (\<forall>x \<in> U. heap st' x = heap st x) \<and>
        heap st' v = Some (ByrefCell s) \<and> forwarding s = w \<and> (bit (byref_flags s) 24 \<or> w \<noteq> v) \<and>
        (\<forall>src. heap st v = Some (ByrefCell src) \<longrightarrow> \<not> bit (byref_flags src) 24 \<longrightarrow> forwarding src = v \<longrightarrow>
           heap st w = None \<and> (\<exists>c. heap st' w = Some (ByrefCell c) \<and> moved env src c)))"

lemma byref_retained:
  assumes a: "acct env U E st" and U: "blocks_in U st" and f: "heap st f = Some (ByrefCell c)" "bit (byref_flags c) 24"
    "latched (byref_flags c) \<or> \<not> bit (byref_flags c) 0"
    and v: "heap st v = Some (ByrefCell src)" "forwarding src = f" "v = f \<longrightarrow> src = c"
  shows "byref_copied env U E st v (Inr (f, put_byref f (c\<lparr>byref_flags := snd (latching_incr_int (byref_flags c) [])\<rparr>) st))"
proof -
  let ?c = "c\<lparr>byref_flags := snd (latching_incr_int (byref_flags c) [])\<rparr>"
  have "acct env U (add_mset (ByrefRef f) E) (put_byref f ?c st)" by (rule retain_byref [OF a f])
  moreover have "extends st (put_byref f ?c st)"
    by (rule extends_upd [where x = f and c' = "ByrefCell ?c"])
      (use f incr_high [of "byref_flags c"] incr_dealloc [of "byref_flags c"] incr_nonzero [of "byref_flags c"] in auto)
  moreover have "f \<notin> U" using U f(1) by (auto simp: blocks_in_def)
  then have "\<forall>x \<in> U. heap (put_byref f ?c st) x = heap st x" by auto
  moreover have "\<exists>s. heap (put_byref f ?c st) v = Some (ByrefCell s) \<and> forwarding s = f \<and> (bit (byref_flags s) 24 \<or> f \<noteq> v)"
    using v f(2) high_bit [OF incr_high [of "byref_flags c"], of 24] by (cases "v = f") auto
  moreover have "\<not> (heap st v = Some (ByrefCell s) \<and> \<not> bit (byref_flags s) 24 \<and> forwarding s = v)" for s using v f(2) by auto
  ultimately show ?thesis unfolding byref_copied_def by blast
qed

lemma byref_copy_ok:
  assumes asn: "\<And>v fl s. field_kind fl = CallerField \<Longrightarrow> asn v fl s = Inr (Some v, s)" and m: "good_malloc env"
    and a: "acct env U E st" and U: "blocks_in U st" and v: "heap st v = Some (ByrefCell src)"
    and d: "bit (byref_flags src) 24 \<longrightarrow> \<not> bit (byref_flags src) 0"
  shows "byref_copied env U E st v (byref_copy_with env asn v st)"
proof -
  have vU: "v \<notin> U" using U v by (auto simp: blocks_in_def)
  have g: "get_byref st v = Some src" using v by simp
  have s: "slot_ok env (E + owned env U st) v (Some (ByrefCell src))" by (rule acct_slot [OF a v])
  show ?thesis
  proof (cases "bit (byref_flags src) 24")
    case True
    then have f: "forwarding src = v" "cnt_ok (byref_flags src) (count (E + owned env U st) (ByrefRef v))" using s by (auto split: if_splits)
    then have "rc (byref_flags src) \<noteq> 0" using True d by (auto simp: cnt_ok_def latched_iff)
    then have "byref_copy_with env asn v st = Inr (v, put_byref v (src\<lparr>byref_flags := snd (latching_incr_int (byref_flags src) [])\<rparr>) st)"
      using True f(1) by (simp add: byref_copy_with_def g no_refcount_iff needs_free_full del: get_byref_iff)
    then show ?thesis using byref_retained [OF a U v True _ v f(1)] d True by simp
  next
    case st: False
    show ?thesis
    proof (cases "forwarding src = v")
      case False
      obtain c where c: "heap st (forwarding src) = Some (ByrefCell c)" "bit (byref_flags c) 24" "forwarding c = forwarding src"
        "latched (byref_flags c) \<or> \<not> bit (byref_flags c) 0" "rc (byref_flags c) \<noteq> 0"
        by (rule forwards_to_heap [OF a v st False vU])
      have gc: "get_byref st (forwarding src) = Some c" using c(1) by simp
      have "byref_copy_with env asn v st = Inr (forwarding src, put_byref (forwarding src) (c\<lparr>byref_flags := snd (latching_incr_int (byref_flags c) [])\<rparr>) st)"
        using c(2,5) by (simp add: byref_copy_with_def g gc no_refcount_iff needs_free_full del: get_byref_iff)
      then show ?thesis using byref_retained [OF a U c(1,2,4) v refl] False by simp
    next
      case self: True
      have sz: "byref_ok env src" "rc (byref_flags src) = 0" "\<not> bit (byref_flags src) 0" using s st by simp_all
      let ?x = "bmalloc env st (unat (byref_size src))"
      show ?thesis
      proof (cases "?x = 0")
        case True
        then show ?thesis using self sz(2) by (simp add: byref_copy_with_def g no_refcount_iff byref_copied_def del: get_byref_iff)
      next
        case x: False
        have xn: "heap st ?x = None" using m x unfolding good_malloc_def by blast
        have xv: "?x \<noteq> v" using v xn by auto
        obtain c where c: "copied_byref env ?x src = Some c" "byref_size c = byref_size src" "length (byref_words c) = length (byref_words src)"
          "forwarding c = ?x" "bit (byref_flags c) 24" "rc (byref_flags c) = 2" "\<not> bit (byref_flags c) 0"
          "\<forall>k \<in> {25, 28}. bit (byref_flags c) k = bit (byref_flags src) k"
          "bit (byref_flags src) 25 \<longrightarrow> take 2 (byref_words c) = take 2 (byref_words src)"
          "bit (byref_flags src) 25 \<and> bit (byref_flags src) 28 \<longrightarrow> take 3 (byref_words c) = take 3 (byref_words src)"
          "\<not> bit (byref_flags src) 25 \<longrightarrow> byref_words c = byref_words src"
          using copied_byref_ok [OF sz, of ?x] by blast
        let ?src = "src\<lparr>forwarding := ?x\<rparr>"
        let ?st1 = "put_byref v ?src (put_byref ?x c st)"
        have "caller_script (keep_script env src) (length (byref_words ?src))" using sz(1) by (simp add: byref_ok_def)
        then obtain ws where ws: "copy_helper asn (keep_script env src) ?x v ?st1 = Inr (put_byref ?x (c\<lparr>byref_words := ws\<rparr>) ?st1)"
          "length ws = length (byref_words c)" "take 2 ws = take 2 (byref_words c)"
          "\<forall>j < length ws. j \<in> fst ` set (keep_script env src) \<longrightarrow> ws ! j = byref_words ?src ! j"
          "\<forall>j < length ws. j \<notin> fst ` set (keep_script env src) \<longrightarrow> ws ! j = byref_words c ! j"
          using caller_copy [where asn = asn and fs = "keep_script env src" and s = ?src and st = ?st1 and a = v and x = ?x and c = c, OF asn] xv c(3) by auto
        let ?c = "c\<lparr>byref_words := ws\<rparr>" let ?st2 = "put_byref ?x ?c ?st1"
        have okc: "byref_ok env ?c"
        proof -
          have k: "keep_script env ?c = keep_script env src \<and> destroy_script env ?c = destroy_script env src"
          proof (cases "bit (byref_flags src) 25")
            case True
            then have t: "take 2 ws = take 2 (byref_words src)" using ws(3) c(9) by simp
            have l: "2 \<le> length (byref_words src)" using sz(1) True by (auto simp: byref_ok_def split: if_splits)
            have "ws ! 0 = byref_words src ! 0" "ws ! 1 = byref_words src ! 1"
              using arg_cong [OF t, of "\<lambda>l. l ! 0"] arg_cong [OF t, of "\<lambda>l. l ! 1"] by simp_all
            then show ?thesis using c(8) True by (simp add: keep_script_def destroy_script_def flag_bits)
          next
            case False
            then show ?thesis using c(8) by (simp add: keep_script_def destroy_script_def flag_bits)
          qed
          then show ?thesis using sz(1) c(2,3,8) ws(2) by (simp add: byref_ok_def)
        qed
        have gs: "get_byref ?st2 v = Some ?src" using xv by simp
        have res: "byref_copy_with env asn v st = Inr (?x, ?st2)"
          using self sz(2) x c(1) ws(1) gs by (simp add: byref_copy_with_def g no_refcount_iff Let_def del: get_byref_iff)
        have "acct env U (add_mset (ByrefRef ?x) E) ?st2"
          by (rule copy_byref_step [OF a v st self vU xn x okc]) (use c(4-7) xv in \<open>simp_all add: fun_upd_twist\<close>)
        moreover have "extends st ?st2"
        proof -
          have e1: "extends st (put_byref v ?src st)"
            by (rule extends_upd [where x = v and c' = "ByrefCell ?src"]) (use v st self in auto)
          have e2: "extends (put_byref v ?src st) (put_byref ?x ?c (put_byref v ?src st))"
            by (rule extends_upd [where x = ?x and c' = "ByrefCell ?c"]) (use xn xv c(6) in simp_all)
          have "extends st (put_byref ?x ?c (put_byref v ?src st))" by (rule extends_trans [OF e1 e2])
          moreover have "?st2 = put_byref ?x ?c (put_byref v ?src st)" using xv by (simp add: put_byref_def fun_upd_twist)
          ultimately show ?thesis by (simp only:)
        qed
        moreover have "\<forall>y \<in> U. heap ?st2 y = heap st y" using vU U xn by (auto simp: blocks_in_def)
        moreover have "moved env src ?c" unfolding moved_def
        proof (intro conjI allI impI)
          show "byref_size ?c = byref_size src" "length (byref_words ?c) = length (byref_words src)" using c(2,3) ws(2) by simp_all
          fix j assume j: "j < length (byref_words src)"
            "\<not> bit (byref_flags src) 25 \<or> j < 2 \<or> j = 2 \<and> bit (byref_flags src) 28 \<or> j \<in> fst ` set (keep_script env src)"
          have l: "j < length ws" using j(1) ws(2) c(3) by simp
          show "byref_words ?c ! j = byref_words src ! j"
          proof (cases "j \<in> fst ` set (keep_script env src)")
            case True
            then show ?thesis using ws(4) l by simp
          next
            case False
            then have "ws ! j = byref_words c ! j" using ws(5) l by simp
            moreover have "byref_words c ! j = byref_words src ! j"
            proof (cases "bit (byref_flags src) 25")
              case b25: True
              show ?thesis
              proof (cases "j < 2")
                case True
                then show ?thesis using b25 c(9) by (metis nth_take)
              next
                case no: False
                then have "j = 2" "bit (byref_flags src) 28" using j(2) b25 False by simp_all
                then have "take 3 (byref_words c) = take 3 (byref_words src)" "j < 3" using b25 c(10) by simp_all
                then show ?thesis by (metis nth_take)
              qed
            qed (use c(11) in simp)
            ultimately show ?thesis by simp
          qed
        qed
        ultimately show ?thesis unfolding res byref_copied_def using xv xn v
          by (intro disjI2 exI [of _ ?x] exI [of _ ?st2] exI [of _ ?src]) (simp del: cell_refs.simps)
      qed
    qed
  qed
qed

subsection \<open>All fields\<close>

lemma assign_caller: "field_kind fl = CallerField \<Longrightarrow> Block_object_assign env (Suc n) v fl st = Inr (Some v, st)"
  unfolding assign_Suc by simp

lemma map_dest_ok:
  assumes "copied env U E v st r" "field_kind fl = BlockField"
  shows "assigned env U E fl v st (map_dest r)"
proof -
  have o: "own_opt (Some w) fl = block_refs w" for w using assms(2) by (simp add: own_opt_def own_def block_refs_def)
  from assms(1) show ?thesis unfolding copied_def
  proof (elim disjE exE conjE)
    fix w st' assume r: "r = Inr (w, st')" "acct env U (block_refs w + E) st'" "extends st st'" "\<forall>x \<in> U. heap st' x = heap st x"
      "block_copied env st st' v w"
    have "field_copied env st st' fl v w" using r(5) assms(2) by (simp add: field_copied_def)
    then show ?thesis using r(1-4) o [of w] unfolding assigned_def map_dest_def by simp
  qed (simp add: assigned_def map_dest_def)
qed

lemma ready_kind: "field_kind fl = field_kind fl' \<Longrightarrow> ready env n U st v fl \<Longrightarrow> ready env n U st v fl'"
  by (cases n) simp_all

lemma Block_object_assign_ok: "good_malloc env \<Longrightarrow> assign_ok env n (Block_object_assign env n)"
proof (induction n)
  case 0
  then show ?case by (simp add: assign_ok_def)
next
  case (Suc n)
  have "assigned env U E fl v st (Block_object_assign env (Suc n) v fl st)"
    if a: "acct env U E st" and U: "blocks_in U st" and r: "ready env (Suc n) U st v fl" for v fl st U E
  proof (cases "field_kind fl")
    case ObjectField
    let ?st = "call_back (cb_retain (callbacks st)) v st"
    have "extends st ?st" using extends_refl [of st] unfolding extends_def grows_def heap_call_back by blast
    then show ?thesis using retain_object [OF a, of v] ObjectField
      unfolding assign_Suc assigned_def by (intro disjI2 exI [of _ "Some v"] exI [of _ ?st]) (simp add: own_opt_def own_def field_copied_def)
  next
    case BlockField
    have k: "field_kind BLOCK_FIELD_IS_BLOCK = BlockField" by (simp add: field_kind_def BLOCK_ALL_COPY_DISPOSE_FLAGS_def field_flags)
    have "ready env (Suc n) U st v BLOCK_FIELD_IS_BLOCK" by (rule ready_kind [OF _ r]) (simp only: k BlockField)
    from block_copy_ok [OF Suc.IH [OF Suc.prems] Suc.prems a U this] show ?thesis
      unfolding assign_Suc Block_copy_def using BlockField map_dest_ok by simp
  next
    case ByrefField
    from r [unfolded ready_byref [OF ByrefField]] obtain c where c: "0 < n" "heap st v = Some (ByrefCell c)"
      "bit (byref_flags c) 24 \<longrightarrow> \<not> bit (byref_flags c) 0" by blast
    obtain k where k: "n = Suc k" using c(1) gr0_implies_Suc by blast
    have "byref_copied env U E st v (byref_copy_with env (Block_object_assign env n) v st)"
      by (rule byref_copy_ok [OF _ Suc.prems a U c(2,3)]) (simp only: k assign_caller)
    then show ?thesis
      unfolding assign_Suc Block_byref_copy_def byref_copied_def assigned_def map_dest_def using ByrefField
      by (auto simp: own_opt_def own_def field_copied_def)
  next
    case CallerField
    then show ?thesis using a unfolding assign_Suc assigned_def
      by (intro disjI2 exI [of _ "Some v"] exI [of _ st]) (simp add: own_opt_def own_def field_copied_def)
  next
    case OtherField
    then show ?thesis using a unfolding assign_Suc assigned_def
      by (intro disjI2 exI [of _ None] exI [of _ st]) (simp add: own_opt_def)
  qed
  then show ?case unfolding assign_ok_def by blast
qed

end
