(* ===== verification/BlockRelease.thy ===== *)
theory BlockRelease
  imports BlockCopyOk
begin

text \<open>
  Releasing blocks and variables: the last reference tears a cell down, which gives back exactly what it owned; the
  nesting is bounded by the number of cells that are alive.
\<close>

subsection \<open>Steps of the accounts\<close>

lemma fields_own_mset: "mset fs = mset gs \<Longrightarrow> fields_own fs ws = fields_own gs ws"
proof -
  assume "mset fs = mset gs"
  then have "image_mset (\<lambda>(i, fl). own (ws ! i) fl) (mset fs) = image_mset (\<lambda>(i, fl). own (ws ! i) fl) (mset gs)" by simp
  then have "\<Sum>\<^sub># (mset (map (\<lambda>(i, fl). own (ws ! i) fl) fs)) = \<Sum>\<^sub># (mset (map (\<lambda>(i, fl). own (ws ! i) fl) gs))" by simp
  then show ?thesis by (simp only: fields_own_def sum_mset_sum_list)
qed

lemma release_block_step:
  assumes "acct env U (add_mset (BlockRef x) E) st" "heap st x = Some (BlockCell b)" "bit (block_flags b) 24"
  shows "acct env U E (put_block x (b\<lparr>block_flags := snd (latching_decr_int_should_deallocate (block_flags b) [])\<rparr>) st)"
    (is "acct env U E ?st")
proof -
  let ?w = "snd (latching_decr_int_should_deallocate (block_flags b) [])"
  note f = reflag_block [OF decr_high [of "block_flags b"]]
  have r: "refs_at env U ?st y = refs_at env U st y" for y
    using assms(2) f(2) by (simp add: refs_at_def del: cell_refs.simps)
  have o: "owned env U ?st = owned env U st" by (rule owned_same) (rule r)
  obtain rank where rk: "ranked env U st rank" using acctD(4) [OF assms(1)] by blast
  have x0: "x \<noteq> 0" using acctD(1) [OF assms(1)] assms(2) by auto
  have "slot_ok env (add_mset (BlockRef x) E + owned env U st) x (Some (BlockCell b))" by (rule acct_slot [OF assms(1,2)])
  moreover have "bit ?w 24" "bit ?w 28 = bit (block_flags b) 28" using high_bit [OF decr_high [of "block_flags b"]] assms(3) by simp_all
  ultimately have s: "slot_ok env (E + owned env U ?st) x (heap ?st x)"
    using assms(3) cnt_ok_decr [of "block_flags b" "count (E + owned env U st) (BlockRef x)"] by (simp add: o f(1) split: if_splits)
  show ?thesis
  proof (rule acct_step [OF assms(1), where X = "{x}"])
    show "heap ?st 0 = None" using x0 acctD(1) [OF assms(1)] by simp
    show "objects_ok ?st (E + owned env U ?st)" by (rule objects_ok_cong [OF acctD(3) [OF assms(1)]]) (simp_all add: o)
    show "ranked env U ?st rank" using rk ranked_cong [OF r] by simp
    show "slot_ok env (E + owned env U ?st) y (heap ?st y)" if "y \<in> {x}" for y using s that by (simp only: singleton_iff)
  qed (auto simp: o)
qed

lemma release_byref_step:
  assumes "acct env U (add_mset (ByrefRef x) E) st" "heap st x = Some (ByrefCell b)" "bit (byref_flags b) 24"
  shows "acct env U E (put_byref x (b\<lparr>byref_flags := snd (latching_decr_int_should_deallocate (byref_flags b) [])\<rparr>) st)"
    (is "acct env U E ?st")
proof -
  let ?w = "snd (latching_decr_int_should_deallocate (byref_flags b) [])"
  note f = reflag_byref [OF decr_high [of "byref_flags b"]]
  have r: "refs_at env U ?st y = refs_at env U st y" for y
    using assms(2) f(2) by (simp add: refs_at_def del: cell_refs.simps)
  have o: "owned env U ?st = owned env U st" by (rule owned_same) (rule r)
  obtain rank where rk: "ranked env U st rank" using acctD(4) [OF assms(1)] by blast
  have x0: "x \<noteq> 0" using acctD(1) [OF assms(1)] assms(2) by auto
  have "slot_ok env (add_mset (ByrefRef x) E + owned env U st) x (Some (ByrefCell b))" by (rule acct_slot [OF assms(1,2)])
  moreover have "bit ?w 24" using high_bit [OF decr_high [of "byref_flags b"]] assms(3) by simp_all
  ultimately have s: "slot_ok env (E + owned env U ?st) x (heap ?st x)"
    using assms(3) cnt_ok_decr [of "byref_flags b" "count (E + owned env U st) (ByrefRef x)"] by (simp add: o f(1) split: if_splits)
  show ?thesis
  proof (rule acct_step [OF assms(1), where X = "{x}"])
    show "heap ?st 0 = None" using x0 acctD(1) [OF assms(1)] by simp
    show "objects_ok ?st (E + owned env U ?st)" by (rule objects_ok_cong [OF acctD(3) [OF assms(1)]]) (simp_all add: o)
    show "ranked env U ?st rank" using rk ranked_cong [OF r] by simp
    show "slot_ok env (E + owned env U ?st) y (heap ?st y)" if "y \<in> {x}" for y using s that by (simp only: singleton_iff)
  qed (auto simp: o)
qed

lemma release_global:
  assumes "acct env U (add_mset (BlockRef x) E) st" "heap st x = Some (BlockCell b)" "\<not> bit (block_flags b) 24" "bit (block_flags b) 28"
  shows "acct env U E st"
proof -
  obtain rank where rk: "ranked env U st rank" using acctD(4) [OF assms(1)] by blast
  have "slot_ok env (add_mset (BlockRef x) E + owned env U st) x (Some (BlockCell b))" by (rule acct_slot [OF assms(1,2)])
  then have s: "slot_ok env (E + owned env U st) x (Some (BlockCell b))" using assms(3,4) by simp
  show ?thesis
  proof (rule acct_step [OF assms(1), where X = "{x}"])
    show "objects_ok st (E + owned env U st)" by (rule objects_ok_cong [OF acctD(3) [OF assms(1)]]) simp_all
    show "slot_ok env (E + owned env U st) y (heap st y)" if "y \<in> {x}" for y
      using that s assms(2) by (simp only: singleton_iff)
  qed (use acctD(1) [OF assms(1)] rk in auto)
qed

lemma release_object:
  assumes "acct env U (add_mset (ObjRef ob) E) st"
  shows "acct env U E (call_back (cb_release (callbacks st)) ob st)" (is "acct env U E ?st")
proof -
  have r: "refs_at env U ?st y = refs_at env U st y" for y by (simp add: refs_at_def)
  have o: "owned env U ?st = owned env U st" by (rule owned_same) (rule r)
  obtain rank where rk: "ranked env U st rank" using acctD(4) [OF assms(1)] by blast
  show ?thesis
  proof (rule acct_step [OF assms(1), where X = "{}"])
    show "heap ?st 0 = None" using acctD(1) [OF assms(1)] by simp
    show "ranked env U ?st rank" using rk ranked_cong [OF r] by simp
    show "objects_ok ?st (E + owned env U ?st)"
      unfolding objects_ok_def
    proof (intro allI impI)
      fix f g ob'
      assume c: "cb_retain (callbacks ?st) = Registered f \<and> cb_release (callbacks ?st) = Registered g \<and> f \<noteq> g \<and>
        cb_destructInstance (callbacks ?st) \<notin> {Registered f, Registered g}"
      then have "count_list (calls st) (f, ob') = count_list (calls st) (g, ob') + count (add_mset (ObjRef ob) E + owned env U st) (ObjRef ob')"
        using acctD(3) [OF assms(1)] unfolding objects_ok_def heap_call_back(2) by blast
      moreover have "cb_release (callbacks st) = Registered g" "f \<noteq> g" using c [unfolded heap_call_back(2)] by blast+
      moreover from this have "calls ?st = calls st @ [(g, ob)]" by (simp add: call_back_def)
      ultimately show "count_list (calls ?st) (f, ob') = count_list (calls ?st) (g, ob') + count (E + owned env U ?st) (ObjRef ob')"
        unfolding o by simp
    qed
  qed (auto simp: o)
qed

text \<open>A cell is taken out of the accounts: what it owned is then owed from outside.\<close>

lemma take_out:
  assumes "acct env U E st" "x \<notin> U"
  shows "acct env (insert x U) (refs_at env U st x + E) st" (is "acct env ?U ?E st")
proof -
  have r: "refs_at env ?U st y = refs_at env U st y" if "y \<noteq> x" for y using that by (simp add: refs_at_def)
  have "owned env ?U st + refs_at env U st x = owned env U st + refs_at env ?U st x" by (rule owned_upd) (rule r)
  then have T: "?E + owned env ?U st = E + owned env U st" by (simp add: refs_at_def ac_simps)
  obtain rank where rk: "ranked env U st rank" using acctD(4) [OF assms(1)] by blast
  have "ranked env ?U st rank" using rk by (simp add: ranked_def refs_at_def)
  then show ?thesis using assms(1) unfolding acct_def T by blast
qed

lemma drop_cell:
  assumes "acct env (insert x U) E st" "x \<notin> U" "slot_ok env (E + owned env (insert x U) st) x None"
  shows "acct env U E (free_cell x st)" (is "acct env U E ?st")
proof -
  have r: "refs_at env U ?st y = refs_at env (insert x U) st y" for y by (simp add: refs_at_def)
  have o: "owned env U ?st = owned env (insert x U) st" by (rule owned_same) (rule r)
  obtain rank where rk: "ranked env (insert x U) st rank" using acctD(4) [OF assms(1)] by blast
  show ?thesis
  proof (rule acct_step [OF assms(1), where X = "{x}"])
    show "heap ?st 0 = None" using acctD(1) [OF assms(1)] by simp
    show "objects_ok ?st (E + owned env U ?st)" by (rule objects_ok_cong [OF acctD(3) [OF assms(1)]]) (simp_all add: o)
    show "ranked env U ?st rank" using rk ranked_cong [OF r] by simp
    show "slot_ok env (E + owned env U ?st) y (heap ?st y)" if "y \<in> {x}" for y using that assms(3) by (simp add: o)
  qed (auto simp: o)
qed

lemma destruct_call:
  assumes "acct env U E st"
  shows "acct env U E (call_back (cb_destructInstance (callbacks st)) x st)" (is "acct env U E ?st")
proof -
  have r: "refs_at env U ?st y = refs_at env U st y" for y by (simp add: refs_at_def)
  have o: "owned env U ?st = owned env U st" by (rule owned_same) (rule r)
  obtain rank where rk: "ranked env U st rank" using acctD(4) [OF assms(1)] by blast
  show ?thesis
  proof (rule acct_step [OF assms(1), where X = "{}"])
    show "heap ?st 0 = None" using acctD(1) [OF assms(1)] by simp
    show "ranked env U ?st rank" using rk ranked_cong [OF r] by simp
    show "objects_ok ?st (E + owned env U ?st)"
      unfolding objects_ok_def
    proof (intro allI impI)
      fix f g ob'
      assume c: "cb_retain (callbacks ?st) = Registered f \<and> cb_release (callbacks ?st) = Registered g \<and> f \<noteq> g \<and>
        cb_destructInstance (callbacks ?st) \<notin> {Registered f, Registered g}"
      then have "count_list (calls st) (f, ob') = count_list (calls st) (g, ob') + count (E + owned env U st) (ObjRef ob')"
        using acctD(3) [OF assms(1)] unfolding objects_ok_def heap_call_back(2) by blast
      moreover have "cb_destructInstance (callbacks st) \<notin> {Registered f, Registered g}" using c [unfolded heap_call_back(2)] by blast
      then have "count_list (calls ?st) (h, ob') = count_list (calls st) (h, ob')" if "h \<in> {f, g}" for h
        using that by (auto simp: call_back_def split: callback.splits)
      ultimately show "count_list (calls ?st) (f, ob') = count_list (calls ?st) (g, ob') + count (E + owned env U ?st) (ObjRef ob')"
        unfolding o by simp
    qed
  qed (auto simp: o)
qed

subsection \<open>Cells that are alive\<close>

fun alive :: "cell \<Rightarrow> bool" where
  "alive (BlockCell b) \<longleftrightarrow> bit (block_flags b) 24 \<and> rc (block_flags b) \<noteq> 0"
| "alive (ByrefCell c) \<longleftrightarrow> bit (byref_flags c) 24 \<and> rc (byref_flags c) \<noteq> 0"

definition live :: "block_state \<Rightarrow> u64 set" where
  "live st = {x. case heap st x of None \<Rightarrow> False | Some c \<Rightarrow> alive c}"

lemma live_iff: "x \<in> live st \<longleftrightarrow> (\<exists>c. heap st x = Some c \<and> alive c)" by (auto simp: live_def split: option.splits)

definition keeps :: "block_state \<Rightarrow> block_state \<Rightarrow> bool" where
  "keeps st st' \<longleftrightarrow> callbacks st' = callbacks st \<and> live st' \<subseteq> live st \<and> (\<forall>x. x \<notin> live st \<longrightarrow> heap st' x = heap st x) \<and>
     (\<forall>x \<in> live st. heap st' x = None \<or> x \<in> live st')"

lemma keeps_refl [simp]: "keeps st st" by (simp add: keeps_def)

lemma keeps_trans:
  assumes "keeps st st1" "keeps st1 st2"
  shows "keeps st st2"
  unfolding keeps_def
proof (intro conjI allI impI ballI)
  fix x
  show "heap st2 x = heap st x" if "x \<notin> live st" using that assms unfolding keeps_def by (metis subset_iff)
  show "heap st2 x = None \<or> x \<in> live st2" if "x \<in> live st"
  proof (cases "x \<in> live st1")
    case False
    then have "heap st1 x = None" "heap st2 x = heap st1 x" using that assms unfolding keeps_def by blast+
    then show ?thesis by simp
  qed (use assms(2) in \<open>simp add: keeps_def\<close>)
qed (use assms in \<open>auto simp: keeps_def\<close>)

lemma keeps_upd:
  assumes "heap st' = (heap st)(x := oc)" "callbacks st' = callbacks st" "x \<in> live st" "x \<notin> live st' \<Longrightarrow> oc = None"
  shows "keeps st st'"
proof -
  have l: "y \<in> live st' \<longleftrightarrow> y \<in> live st" if "y \<noteq> x" for y using assms(1) that by (simp add: live_iff)
  have "live st' \<subseteq> live st"
  proof
    fix y assume "y \<in> live st'"
    then show "y \<in> live st" using l [of y] assms(3) by (cases "y = x") simp_all
  qed
  moreover have "\<forall>y. y \<notin> live st \<longrightarrow> heap st' y = heap st y" using assms(1,3) by auto
  moreover have "heap st' y = None \<or> y \<in> live st'" if "y \<in> live st" for y using l [of y] that assms(1,4) by (cases "y = x") auto
  ultimately show ?thesis using assms(2) unfolding keeps_def by blast
qed

lemma keeps_freed:
  assumes "keeps st1 st2" "heap st1 = (heap st)(v := oc)" "callbacks st1 = callbacks st" "v \<in> live st" "v \<notin> live st1"
    "heap st3 = (heap st2)(v := None)" "callbacks st3 = callbacks st2"
  shows "keeps st st3"
proof -
  have l1: "y \<in> live st1 \<longleftrightarrow> y \<in> live st" if "y \<noteq> v" for y using assms(2) that by (simp add: live_iff)
  have l3: "y \<in> live st3 \<longleftrightarrow> y \<in> live st2 \<and> y \<noteq> v" for y using assms(6) by (simp add: live_iff)
  have "live st3 \<subseteq> live st"
  proof
    fix y assume "y \<in> live st3"
    then have "y \<in> live st2" "y \<noteq> v" using l3 by simp_all
    then show "y \<in> live st" using l1 [of y] assms(1) unfolding keeps_def by blast
  qed
  moreover have "heap st3 y = heap st y" if "y \<notin> live st" for y
  proof -
    have y: "y \<noteq> v" using that assms(4) by blast
    then have "y \<notin> live st1" using that l1 by simp
    then have "heap st2 y = heap st1 y" using assms(1) unfolding keeps_def by blast
    then show ?thesis using y assms(2,6) by simp
  qed
  moreover have "heap st3 y = None \<or> y \<in> live st3" if "y \<in> live st" for y
  proof (cases "y = v")
    case False
    then have "heap st2 y = None \<or> y \<in> live st2" using that l1 assms(1) unfolding keeps_def by blast
    then show ?thesis using False l3 assms(6) by auto
  qed (use assms(6) in simp)
  ultimately show ?thesis using assms(1,3,7) unfolding keeps_def by simp
qed

lemma card_live: "live st' \<subseteq> live st \<Longrightarrow> card (live st) \<le> n \<Longrightarrow> card (live st') \<le> n"
  using card_mono [of "live st" "live st'"] by simp

lemma card_live_less:
  assumes "live st' \<subseteq> live st" "x \<in> live st" "x \<notin> live st'" "card (live st) \<le> n"
  obtains m where "n = Suc m" "card (live st') \<le> m"
proof -
  have "live st' \<subset> live st" using assms(1-3) by auto
  then have "card (live st') < card (live st)" by (intro psubset_card_mono) simp_all
  then obtain m where "n = Suc m" "card (live st') \<le> m" using assms(4) by (cases n) auto
  then show thesis using that by blast
qed

definition released :: "block_env \<Rightarrow> u64 set \<Rightarrow> ref multiset \<Rightarrow> block_state \<Rightarrow> block_error + block_state \<Rightarrow> bool" where
  "released env U E st res \<longleftrightarrow> (\<exists>st'. res = Inr st' \<and> acct env U E st' \<and> keeps st st')"

definition dispose_ok :: "block_env \<Rightarrow> nat \<Rightarrow> dispose_function \<Rightarrow> bool" where
  "dispose_ok env n dsp \<longleftrightarrow> (\<forall>v fl st U E. acct env U (own v fl + E) st \<longrightarrow> U \<inter> live st = {} \<longrightarrow> card (live st) \<le> n \<longrightarrow>
     released env U E st (dsp v fl st))"

lemma dispose_fields_ok:
  assumes "dispose_ok env n dsp"
  shows "\<forall>(i, g) \<in> set fs. i < length (captured b) \<Longrightarrow> heap st x = Some (BlockCell b) \<Longrightarrow> x \<notin> live st \<Longrightarrow>
    acct env U (fields_own fs (captured b) + E) st \<Longrightarrow> U \<inter> live st = {} \<Longrightarrow> card (live st) \<le> n \<Longrightarrow>
    released env U E st (dispose_helper dsp fs x st)"
proof (induction fs arbitrary: st)
  case Nil
  then show ?case by (simp add: released_def)
next
  case (Cons f fs)
  obtain i g where f: "f = (i, g)" by fastforce
  have i: "i < length (captured b)" using Cons.prems(1) f by simp
  have "acct env U (own (captured b ! i) g + (fields_own fs (captured b) + E)) st" using Cons.prems(4) f by (simp add: ac_simps)
  then have "released env U (fields_own fs (captured b) + E) st (dsp (captured b ! i) g st)"
    using assms Cons.prems(5,6) unfolding dispose_ok_def by blast
  then obtain st1 where s1: "dsp (captured b ! i) g st = Inr st1" "acct env U (fields_own fs (captured b) + E) st1" "keeps st st1"
    unfolding released_def by blast
  have l: "live st1 \<subseteq> live st" using s1(3) by (simp add: keeps_def)
  have h1: "heap st1 x = Some (BlockCell b)" using s1(3) Cons.prems(2,3) by (simp add: keeps_def)
  have "released env U E st1 (dispose_helper dsp fs x st1)"
    by (rule Cons.IH [OF _ h1 _ s1(2)]) (use Cons.prems(1,3,5) l card_live [OF l Cons.prems(6)] in auto)
  moreover have "dispose_helper dsp (f # fs) x st = dispose_helper dsp fs x st1"
    using Cons.prems(2) i f s1(1) by (simp add: load_field_def)
  ultimately show ?case using keeps_trans [OF s1(3)] unfolding released_def by auto
qed

subsection \<open>Blocks\<close>

lemma block_release_ok:
  assumes dsp: "\<And>m. n = Suc m \<Longrightarrow> dispose_ok env m dsp" and a: "acct env U (block_refs v + E) st" and U: "U \<inter> live st = {}"
    and c: "card (live st) \<le> n"
  shows "released env U E st (block_release_with env dsp v st)"
proof (cases "v = 0")
  case True
  then show ?thesis using a by (simp add: block_release_with_def released_def block_refs_def)
next
  case v: False
  then have a: "acct env U (add_mset (BlockRef v) E) st" using a by (simp add: block_refs_def)
  let ?T = "add_mset (BlockRef v) E + owned env U st"
  obtain k where "count ?T (BlockRef v) = Suc k" by simp
  from live_block [OF acct_slot [OF a refl] this] obtain b where b: "heap st v = Some (BlockCell b)" "block_ok env b"
    "if bit (block_flags b) 24 then \<not> bit (block_flags b) 28 \<and> cnt_ok (block_flags b) (Suc k) else bit (block_flags b) 28" by blast
  have g: "get_block st v = Some b" using b(1) by simp
  show ?thesis
  proof (cases "bit (block_flags b) 24")
    case False
    then have "block_release_with env dsp v st = Inr st"
      using v b(3) by (simp add: block_release_with_def g flag_bits del: get_block_iff)
    moreover have "acct env U E st" using release_global [OF a b(1) False] b(3) False by simp
    ultimately show ?thesis by (simp add: released_def)
  next
    case True
    let ?d = "latching_decr_int_should_deallocate (block_flags b) []"
    let ?b = "b\<lparr>block_flags := snd ?d\<rparr>"
    let ?st1 = "put_block v ?b st"
    have n28: "\<not> bit (block_flags b) 28" and cnt: "cnt_ok (block_flags b) (Suc k)" using b(3) True by simp_all
    have rc: "rc (block_flags b) \<noteq> 0" using cnt by (auto simp: cnt_ok_def latched_iff)
    have vl: "v \<in> live st" using b(1) True rc by (simp add: live_iff)
    have a1: "acct env U E ?st1" by (rule release_block_step [OF a b(1) True])
    have res: "block_release_with env dsp v st = (if \<not> fst ?d then Inr ?st1
        else case dispose_helper dsp (dispose_script env b) v ?st1 of Inl e \<Rightarrow> Inl e
             | Inr st2 \<Rightarrow> Inr (free_cell v (call_back (cb_destructInstance (callbacks st2)) v st2)))"
      using v True n28 by (simp add: block_release_with_def g flag_bits case_prod_beta del: get_block_iff)
    show ?thesis
    proof (cases "fst ?d")
      case False
      have "bit (snd ?d) 24" using high_bit [OF decr_high [of "block_flags b"]] True by simp
      then have "v \<in> live ?st1" using decr_more [OF cnt False] by (simp add: live_iff)
      then have "keeps st ?st1" by (intro keeps_upd [OF heap_put(1) heap_put(4) vl]) simp
      then show ?thesis using res a1 False by (simp add: released_def)
    next
      case last: True
      note w = decr_last_word [OF last]
      have w24: "bit (snd ?d) 24" using high_bit [OF decr_high [of "block_flags b"]] True by simp
      have nl: "v \<notin> live ?st1" using w by (simp add: live_iff)
      have l1: "live ?st1 = live st - {v}"
      proof (rule set_eqI)
        fix y show "y \<in> live ?st1 \<longleftrightarrow> y \<in> live st - {v}" using nl by (cases "y = v") (simp_all add: live_iff)
      qed
      obtain m where m: "n = Suc m" "card (live ?st1) \<le> m" by (rule card_live_less [OF _ vl nl c]) (use l1 in auto)
      have vU: "v \<notin> U" using U vl by auto
      have bits: "bit (snd ?d) k = bit (block_flags b) k" if "k \<in> {22, 25}" for k
        by (rule high_bit [OF decr_high]) (use that in auto)
      have sc: "copy_script env ?b = copy_script env b" by (rule copy_script_cong) (use bits in simp_all)
      have F: "refs_at env U ?st1 v = fields_own (dispose_script env b) (captured ?b)"
        using vU w24 sc b(2) fields_own_mset [of "dispose_script env b" "copy_script env b" "captured b"]
        by (simp add: refs_at_def block_ok_def)
      have a2: "acct env (insert v U) (fields_own (dispose_script env b) (captured ?b) + E) ?st1"
        using take_out [OF a1 vU] unfolding F .
      have "\<forall>(i, g) \<in> set (dispose_script env b). i < length (captured ?b)"
        using b(2) mset_eq_setD [of "dispose_script env b" "copy_script env b"] by (simp add: block_ok_def)
      from dispose_fields_ok [OF dsp [OF m(1)] this _ nl a2 _ m(2)]
      have "released env (insert v U) E ?st1 (dispose_helper dsp (dispose_script env b) v ?st1)"
        using U l1 nl by auto
      then obtain st2 where s2: "dispose_helper dsp (dispose_script env b) v ?st1 = Inr st2" "acct env (insert v U) E st2" "keeps ?st1 st2"
        unfolding released_def by blast
      let ?st3 = "call_back (cb_destructInstance (callbacks st2)) v st2"
      have a3: "acct env (insert v U) E ?st3" by (rule destruct_call [OF s2(2)])
      have h3: "heap ?st3 v = Some (BlockCell ?b)" using s2(3) nl by (simp add: keeps_def)
      have "slot_ok env (E + owned env (insert v U) ?st3) v (Some (BlockCell ?b))" by (rule acct_slot [OF a3 h3])
      then have "slot_ok env (E + owned env (insert v U) ?st3) v None"
        using w w24 by (simp add: cnt_ok_def latched_iff split: if_splits)
      then have a4: "acct env U E (free_cell v ?st3)" by (rule drop_cell [OF a3 vU])
      have "keeps st (free_cell v ?st3)" by (rule keeps_freed [OF s2(3) heap_put(1) heap_put(4) vl nl]) simp_all
      then show ?thesis using res last s2(1) a4 by (simp add: released_def)
    qed
  qed
qed

subsection \<open>Variables\<close>

lemma dispose_callers:
  assumes "\<And>v fl s. field_kind fl = CallerField \<Longrightarrow> dsp v fl s = Inr s"
  shows "caller_script fs (length (byref_words c)) \<Longrightarrow> heap st x = Some (ByrefCell c) \<Longrightarrow> dispose_helper dsp fs x st = Inr st"
proof (induction fs)
  case (Cons f fs)
  then show ?case using assms by (cases f) (auto simp: caller_script_def load_field_def)
qed simp

lemma byref_release_ok:
  assumes dsp: "\<And>m v fl s. n = Suc m \<Longrightarrow> field_kind fl = CallerField \<Longrightarrow> dsp v fl s = Inr s"
    and a: "acct env U (add_mset (ByrefRef f) E) st" and U: "U \<inter> live st = {}" and c: "card (live st) \<le> n"
    and v: "heap st v = Some (ByrefCell src)" "forwarding src = f"
  shows "released env U E st (byref_release_with env dsp v st)"
proof -
  let ?T = "add_mset (ByrefRef f) E + owned env U st"
  obtain k where "count ?T (ByrefRef f) = Suc k" by simp
  from live_byref [OF acct_slot [OF a refl] this] obtain b where b: "heap st f = Some (ByrefCell b)" "byref_ok env b"
    "bit (byref_flags b) 24" "forwarding b = f" "cnt_ok (byref_flags b) (Suc k)" by blast
  have g: "get_byref st v = Some src" "get_byref st f = Some b" using v(1) b(1) by simp_all
  let ?d = "latching_decr_int_should_deallocate (byref_flags b) []"
  let ?b = "b\<lparr>byref_flags := snd ?d\<rparr>"
  let ?st1 = "put_byref f ?b st"
  have rc: "rc (byref_flags b) \<noteq> 0" using b(5) by (auto simp: cnt_ok_def latched_iff)
  have fl: "f \<in> live st" using b(1,3) rc by (simp add: live_iff)
  have a1: "acct env U E ?st1" by (rule release_byref_step [OF a b(1,3)])
  have b24: "bit (snd ?d) 24" using high_bit [OF decr_high [of "byref_flags b"]] b(3) by simp
  have okw: "(bit (byref_flags b) 25 \<and> length (byref_words b) < 2) = False" using b(2) by (auto simp: byref_ok_def split: if_splits)
  have res: "byref_release_with env dsp v st = (if \<not> fst ?d then Inr ?st1
      else case dispose_helper dsp (destroy_script env b) f ?st1 of Inl e \<Rightarrow> Inl e | Inr st2 \<Rightarrow> Inr (free_cell f st2))"
    using b(3) rc by (simp add: okw byref_release_with_def g v(2) flag_bits no_refcount_iff case_prod_beta del: get_byref_iff cong: sum.case_cong)
  show ?thesis
  proof (cases "fst ?d")
    case False
    then have "f \<in> live ?st1" using decr_more [OF b(5) False] b24 by (simp add: live_iff)
    then have "keeps st ?st1" by (intro keeps_upd [OF heap_put(2) heap_put(5) fl]) simp
    then show ?thesis using res a1 False by (simp add: released_def)
  next
    case last: True
    note w = decr_last_word [OF last]
    have nl: "f \<notin> live ?st1" using w by (simp add: live_iff)
    have "card (live st) \<noteq> 0" using fl by auto
    then obtain m where m: "n = Suc m" using c by (cases n) auto
    have "caller_script (destroy_script env b) (length (byref_words ?b))" using b(2) by (simp add: byref_ok_def)
    then have dh: "dispose_helper dsp (destroy_script env b) f ?st1 = Inr ?st1"
      by (intro dispose_callers [where c = ?b]) (simp_all add: dsp [OF m])
    have fU: "f \<notin> U" using U fl by auto
    have "refs_at env U ?st1 f = {#}" using b24 by (simp add: refs_at_def)
    then have a2: "acct env (insert f U) E ?st1" using take_out [OF a1 fU] by simp
    have h: "heap ?st1 f = Some (ByrefCell ?b)" by simp
    have "slot_ok env (E + owned env (insert f U) ?st1) f (Some (ByrefCell ?b))" by (rule acct_slot [OF a2 h])
    then have "slot_ok env (E + owned env (insert f U) ?st1) f None" using w b24 by (simp add: cnt_ok_def latched_iff split: if_splits)
    then have "acct env U E (free_cell f ?st1)" by (rule drop_cell [OF a2 fU])
    moreover have "keeps st (free_cell f ?st1)" by (rule keeps_freed [OF keeps_refl heap_put(2) heap_put(5) fl nl]) simp_all
    ultimately show ?thesis using res last dh by (simp add: released_def)
  qed
qed

subsection \<open>All fields\<close>

lemma dispose_caller: "field_kind fl = CallerField \<Longrightarrow> Block_object_dispose env (Suc n) v fl st = Inr st"
  unfolding dispose_Suc by simp

lemma Block_object_dispose_ok: "dispose_ok env n (Block_object_dispose env (Suc n))"
proof (induction n rule: less_induct)
  case (less n)
  have IH: "dispose_ok env m (Block_object_dispose env n)" if "n = Suc m" for m using less.IH [of m] that by simp
  have CA: "Block_object_dispose env n v fl s = Inr s" if "n = Suc m" "field_kind fl = CallerField" for m v fl s
    using dispose_caller that by simp
  have "released env U E st (Block_object_dispose env (Suc n) v fl st)"
    if a: "acct env U (own v fl + E) st" and U: "U \<inter> live st = {}" and c: "card (live st) \<le> n" for v fl st U E
  proof (cases "field_kind fl")
    case ObjectField
    let ?st = "call_back (cb_release (callbacks st)) v st"
    have "acct env U E ?st" using release_object [of env U v E st] a ObjectField by (simp add: own_def)
    moreover have "live ?st = live st" by (simp add: live_def)
    then have "keeps st ?st" by (simp add: keeps_def)
    ultimately show ?thesis unfolding dispose_Suc released_def using ObjectField by simp
  next
    case BlockField
    have "acct env U (block_refs v + E) st" using a BlockField by (simp add: own_def block_refs_def)
    from block_release_ok [OF IH this U c] show ?thesis unfolding dispose_Suc Block_release_def using BlockField by simp
  next
    case ByrefField
    have a1: "acct env U (add_mset (ByrefRef v) E) st" using a ByrefField by (simp add: own_def)
    obtain k where "count (add_mset (ByrefRef v) E + owned env U st) (ByrefRef v) = Suc k" by simp
    from live_byref [OF acct_slot [OF a1 refl] this] obtain b where b: "heap st v = Some (ByrefCell b)" "forwarding b = v" by blast
    from byref_release_ok [OF CA a1 U c b] show ?thesis unfolding dispose_Suc Block_byref_release_def using ByrefField by simp
  next
    case CallerField
    then show ?thesis using a unfolding dispose_Suc released_def by (simp add: own_def)
  next
    case OtherField
    then show ?thesis using a unfolding dispose_Suc released_def by (simp add: own_def)
  qed
  then show ?case unfolding dispose_ok_def by blast
qed

lemma Block_release_ok:
  assumes "acct env U (block_refs v + E) st" "U \<inter> live st = {}" "card (live st) \<le> n"
  shows "released env U E st (Block_release env n v st)"
  unfolding Block_release_def by (rule block_release_ok [OF _ assms]) (simp only: Block_object_dispose_ok)

lemma Block_byref_release_ok:
  assumes "acct env U (add_mset (ByrefRef f) E) st" "U \<inter> live st = {}" "card (live st) \<le> n"
    "heap st v = Some (ByrefCell src)" "forwarding src = f"
  shows "released env U E st (Block_byref_release env n v st)"
  unfolding Block_byref_release_def by (rule byref_release_ok [OF _ assms]) (simp only: dispose_caller)

end
