(* ===== verification/BlockContract.thy ===== *)
theory BlockContract
  imports BlockRelease
begin

text \<open>
  What clients of the blocks runtime rely on: any sequence of declarations, copies, releases and ends of scope runs
  without a bad access, every count is the number of references, and nothing is left when the last reference is gone.
\<close>

subsection \<open>Clients\<close>

text \<open>The references a client holds, and the state. A block or variable comes onto the stack when it is declared; at the
  end of a variable's scope the compiler calls \<open>_Block_object_dispose\<close> on it.\<close>

definition no_callbacks :: Block_callbacks_RR where
  "no_callbacks = \<lparr>cb_retain = DefaultCallback, cb_release = DefaultCallback, cb_destructInstance = DefaultCallback\<rparr>"

definition start_state :: "Block_callbacks_RR \<Rightarrow> block_state" where
  "start_state cbs = Block_use_RR2 cbs \<lparr>heap = (\<lambda>_. None), callbacks = no_callbacks, calls = []\<rparr>"

inductive block_reach :: "block_env \<Rightarrow> nat \<Rightarrow> Block_callbacks_RR \<Rightarrow> ref multiset \<Rightarrow> block_state \<Rightarrow> bool" for env n cbs where
  start: "block_reach env n cbs {#} (start_state cbs)"
| declare_block: "block_reach env n cbs held st \<Longrightarrow> heap st a = None \<Longrightarrow> a \<noteq> 0 \<Longrightarrow> block_ok env b \<Longrightarrow> \<not> bit (block_flags b) 24 \<Longrightarrow>
    block_reach env n cbs held (put_block a b st)"
| declare_byref: "block_reach env n cbs held st \<Longrightarrow> heap st a = None \<Longrightarrow> a \<noteq> 0 \<Longrightarrow> byref_ok env c \<Longrightarrow> \<not> bit (byref_flags c) 24 \<Longrightarrow>
    rc (byref_flags c) = 0 \<Longrightarrow> \<not> bit (byref_flags c) 0 \<Longrightarrow> forwarding c = a \<Longrightarrow> block_reach env n cbs held (put_byref a c st)"
| copy: "block_reach env n cbs held st \<Longrightarrow> ready env (Suc n) {} st a BLOCK_FIELD_IS_BLOCK \<Longrightarrow> Block_copy env n a st = Inr (r, st') \<Longrightarrow>
    block_reach env n cbs (block_refs r + held) st'"
| release: "block_reach env n cbs (block_refs a + held) st \<Longrightarrow> card (live st) \<le> n \<Longrightarrow> Block_release env n a st = Inr st' \<Longrightarrow>
    block_reach env n cbs held st'"
| try_retain: "block_reach env n cbs held st \<Longrightarrow> heap st a = Some (BlockCell b) \<Longrightarrow> bit (block_flags b) 24 \<Longrightarrow>
    Block_tryRetain a st = Some (True, st') \<Longrightarrow> block_reach env n cbs (add_mset (BlockRef a) held) st'"
| leave_block: "block_reach env n cbs held st \<Longrightarrow> heap st a = Some (BlockCell b) \<Longrightarrow> \<not> bit (block_flags b) 24 \<Longrightarrow>
    \<not> bit (block_flags b) 28 \<Longrightarrow> block_reach env n cbs held (free_cell a st)"
| leave_byref: "block_reach env n cbs held st \<Longrightarrow> heap st a = Some (ByrefCell c) \<Longrightarrow> \<not> bit (byref_flags c) 24 \<Longrightarrow> card (live st) \<le> n \<Longrightarrow>
    Block_object_dispose env (Suc n) a BLOCK_FIELD_IS_BYREF st = Inr st' \<Longrightarrow> block_reach env n cbs held (free_cell a st')"

subsection \<open>The invariant\<close>

definition block_inv :: "block_env \<Rightarrow> Block_callbacks_RR \<Rightarrow> ref multiset \<Rightarrow> block_state \<Rightarrow> bool" where
  "block_inv env cbs held st \<longleftrightarrow> acct env {} held st \<and> callbacks st = cbs \<and> (\<forall>x c. heap st x = Some c \<longrightarrow> undying c)"

lemma start_inv: "block_inv env cbs {#} (start_state cbs)"
proof -
  have h: "heap (start_state cbs) = (\<lambda>_. None)" "calls (start_state cbs) = []" "callbacks (start_state cbs) = cbs"
    by (simp_all add: start_state_def Block_use_RR2_def)
  then have "owned env {} (start_state cbs) = {#}" by (simp add: owned_def refs_at_def)
  then show ?thesis using h by (simp add: block_inv_def acct_def objects_ok_def ranked_def refs_at_def)
qed

lemma enter_cell:
  assumes "acct env {} E st" "heap st a = None" "a \<noteq> 0" "heap st' = (heap st)(a \<mapsto> c)" "callbacks st' = callbacks st" "calls st' = calls st"
    "cell_refs env a c = {#}" "slot_ok env (E + owned env {} st) a (Some c)"
  shows "acct env {} E st'"
proof -
  have r: "refs_at env {} st' y = refs_at env {} st y" for y using assms(2,4,7) by (simp add: refs_at_def)
  have o: "owned env {} st' = owned env {} st" by (rule owned_same) (rule r)
  obtain rank where rk: "ranked env {} st rank" using acctD(4) [OF assms(1)] by blast
  show ?thesis
  proof (rule acct_step [OF assms(1), where X = "{a}"])
    show "heap st' 0 = None" using acctD(1) [OF assms(1)] assms(3,4) by simp
    show "objects_ok st' (E + owned env {} st')" by (rule objects_ok_cong [OF acctD(3) [OF assms(1)] assms(5,6)]) (simp add: o)
    show "ranked env {} st' rank" using rk ranked_cong [OF r] by simp
    show "slot_ok env (E + owned env {} st') y (heap st' y)" if "y \<in> {a}" for y
      using that assms(8) unfolding o assms(4) by (simp only: singleton_iff fun_upd_same)
  qed (auto simp: o assms(4))
qed

lemma extends_undying:
  assumes "extends st st'" "\<forall>x c. heap st x = Some c \<longrightarrow> undying c"
  shows "\<forall>x c. heap st' x = Some c \<longrightarrow> undying c"
proof (intro allI impI)
  fix x c assume c: "heap st' x = Some c"
  show "undying c"
  proof (cases "heap st x")
    case None
    then show ?thesis using extends_new [OF assms(1) _ c] by blast
  next
    case (Some d)
    from extendsD [OF assms(1) Some] obtain c' where "heap st' x = Some c'" "same_cell d c'" by blast
    then show ?thesis using c same_cell_undying [of d c'] assms(2) Some by simp
  qed
qed

lemma keeps_undying:
  assumes "keeps st st'" "\<forall>x c. heap st x = Some c \<longrightarrow> undying c"
  shows "\<forall>x c. heap st' x = Some c \<longrightarrow> undying c"
proof (intro allI impI)
  fix x c assume c: "heap st' x = Some c"
  show "undying c"
  proof (cases "x \<in> live st")
    case True
    then have "x \<in> live st'" using assms(1) c unfolding keeps_def by auto
    then show ?thesis using c by (cases c) (simp_all add: live_iff)
  next
    case False
    then have "heap st x = Some c" using assms(1) c unfolding keeps_def by simp
    then show ?thesis using assms(2) by blast
  qed
qed

lemma undying_not_deallocating:
  assumes "acct env U E st" "heap st x = Some (BlockCell b)" "bit (block_flags b) 24" "undying (BlockCell b)"
  shows "latched (block_flags b) \<or> \<not> bit (block_flags b) 0"
proof -
  have "slot_ok env (E + owned env U st) x (Some (BlockCell b))" by (rule acct_slot [OF assms(1,2)])
  then show ?thesis using assms(3,4) by (auto simp: cnt_ok_def)
qed

lemma leave_byref_ok:
  assumes a: "acct env {} held st" and c: "heap st a = Some (ByrefCell c)" "\<not> bit (byref_flags c) 24" and n: "card (live st) \<le> n"
  shows "\<exists>st'. Block_object_dispose env (Suc n) a BLOCK_FIELD_IS_BYREF st = Inr st' \<and> acct env {} held (free_cell a st') \<and> keeps st st'"
proof -
  have k: "field_kind BLOCK_FIELD_IS_BYREF = ByrefField" by (simp add: field_kind_def BLOCK_ALL_COPY_DISPOSE_FLAGS_def field_flags)
  have d: "Block_object_dispose env (Suc n) a BLOCK_FIELD_IS_BYREF st = Block_byref_release env n a st"
    unfolding dispose_Suc k by simp
  have al: "a \<notin> live st" using c by (simp add: live_iff)
  have out: "acct env {a} (refs_at env {} st a + held) st" using take_out [OF a, of a] by simp
  have fin: "acct env {} held (free_cell a st')" if s: "acct env {a} held st'" "heap st' a = Some (ByrefCell c)" for st'
  proof (rule drop_cell)
    show "acct env (insert a {}) held st'" using s(1) by simp
    have "slot_ok env (held + owned env {a} st') a (Some (ByrefCell c))" by (rule acct_slot [OF s])
    then show "slot_ok env (held + owned env (insert a {}) st') a None" using c(2) by simp
  qed simp
  show ?thesis
  proof (cases "forwarding c = a")
    case True
    have g: "get_byref st a = Some c" using c(1) by simp
    have "Block_byref_release env n a st = Inr st"
      using c(2) True by (simp add: Block_byref_release_def byref_release_with_def g flag_bits del: get_byref_iff)
    moreover have "acct env {a} held st" using out c(1) True by (simp add: refs_at_def)
    ultimately show ?thesis unfolding d using fin [of st] c(1) by simp
  next
    case False
    then have "acct env {a} (add_mset (ByrefRef (forwarding c)) held) st" using out c by (simp add: refs_at_def)
    from Block_byref_release_ok [OF this _ n c(1) refl] al
    obtain st' where s: "Block_byref_release env n a st = Inr st'" "acct env {a} held st'" "keeps st st'" unfolding released_def by auto
    have "heap st' a = Some (ByrefCell c)" using s(3) al c(1) unfolding keeps_def by simp
    then show ?thesis unfolding d using s fin [of st'] by simp
  qed
qed

lemma free_stack_undying: "\<forall>x c. heap st x = Some c \<longrightarrow> undying c \<Longrightarrow> \<forall>x c. heap (free_cell a st) x = Some c \<longrightarrow> undying c" by simp

lemma copied_inv:
  assumes "block_inv env cbs held st" "good_malloc env" "ready env (Suc n) {} st a BLOCK_FIELD_IS_BLOCK"
  shows "Block_copy env n a st = Inl NullWrite \<or>
    (\<exists>r st'. Block_copy env n a st = Inr (r, st') \<and> block_inv env cbs (block_refs r + held) st')"
proof -
  have a: "acct env {} held st" using assms(1) by (simp add: block_inv_def)
  have "copied env {} held a st (Block_copy env n a st)"
    unfolding Block_copy_def
    by (rule block_copy_ok [OF Block_object_assign_ok [OF assms(2)] assms(2) a _ assms(3)]) (simp add: blocks_in_def)
  moreover have "block_inv env cbs (block_refs r + held) st'" if "acct env {} (block_refs r + held) st'" "extends st st'" for r st'
    using that extends_undying [OF that(2)] assms(1) unfolding block_inv_def extends_def by blast
  ultimately show ?thesis unfolding copied_def by blast
qed

lemma released_inv:
  assumes "block_inv env cbs (block_refs a + held) st" "card (live st) \<le> n"
  shows "\<exists>st'. Block_release env n a st = Inr st' \<and> block_inv env cbs held st'"
proof -
  have "acct env {} (block_refs a + held) st" using assms(1) by (simp add: block_inv_def)
  from Block_release_ok [OF this _ assms(2)] obtain st' where s: "Block_release env n a st = Inr st'" "acct env {} held st'" "keeps st st'"
    unfolding released_def by auto
  have "block_inv env cbs held st'"
    using s(2,3) keeps_undying [OF s(3)] assms(1) unfolding block_inv_def keeps_def by blast
  then show ?thesis using s(1) by blast
qed

lemma reach_inv:
  assumes "block_reach env n cbs held st" "good_malloc env"
  shows "block_inv env cbs held st"
  using assms(1)
proof (induction rule: block_reach.induct)
  case start
  then show ?case by (rule start_inv)
next
  case (declare_block held st a b)
  then have i: "acct env {} held st" "callbacks st = cbs" "\<forall>x c. heap st x = Some c \<longrightarrow> undying c" by (simp_all add: block_inv_def)
  have "slot_ok env (held + owned env {} st) a None" by (rule acct_slot [OF i(1) declare_block.hyps(2)])
  then have "acct env {} held (put_block a b st)"
    using declare_block.hyps by (intro enter_cell [OF i(1), where a = a and c = "BlockCell b"]) simp_all
  moreover have "\<forall>x c. heap (put_block a b st) x = Some c \<longrightarrow> undying c" using i(3) declare_block.hyps(5) by simp
  ultimately show ?case using i(2) by (simp add: block_inv_def)
next
  case (declare_byref held st a c)
  then have i: "acct env {} held st" "callbacks st = cbs" "\<forall>x c. heap st x = Some c \<longrightarrow> undying c" by (simp_all add: block_inv_def)
  have "slot_ok env (held + owned env {} st) a None" by (rule acct_slot [OF i(1) declare_byref.hyps(2)])
  then have "acct env {} held (put_byref a c st)"
    using declare_byref.hyps by (intro enter_cell [OF i(1), where a = a and c = "ByrefCell c"]) simp_all
  moreover have "\<forall>x c'. heap (put_byref a c st) x = Some c' \<longrightarrow> undying c'" using i(3) declare_byref.hyps(5) by simp
  ultimately show ?case using i(2) by (simp add: block_inv_def)
next
  case (copy held st a r st')
  from copied_inv [OF copy.IH assms(2) copy.hyps(2)] copy.hyps(3) show ?case by auto
next
  case (release a held st st')
  from released_inv [OF release.IH release.hyps(2)] release.hyps(3) show ?case by auto
next
  case (try_retain held st a b st')
  then have i: "acct env {} held st" "callbacks st = cbs" "\<forall>x c. heap st x = Some c \<longrightarrow> undying c" by (simp_all add: block_inv_def)
  let ?b = "b\<lparr>block_flags := snd (latching_incr_int (block_flags b) [])\<rparr>"
  have g: "get_block st a = Some b" using try_retain.hyps(2) by simp
  have nd: "\<not> bit (block_flags b) 0" and st': "st' = put_block a ?b st"
    using try_retain.hyps(4)
    by (auto simp: Block_tryRetain_def g latching_simps deallocating_iff Let_def simp del: get_block_iff split: if_splits)
  have "acct env {} (add_mset (BlockRef a) held) st'" unfolding st' using nd by (intro retain_block [OF i(1) try_retain.hyps(2,3)]) simp
  moreover have "undying (BlockCell b)" using i(3) try_retain.hyps(2) by blast
  then have "undying (BlockCell ?b)" using try_retain.hyps(3) incr_nonzero [of "block_flags b"] by auto
  then have "\<forall>x c. heap st' x = Some c \<longrightarrow> undying c" unfolding st' using i(3) by auto
  ultimately show ?case using i(2) by (simp add: block_inv_def st')
next
  case (leave_block held st a b)
  then have i: "acct env {} held st" "callbacks st = cbs" "\<forall>x c. heap st x = Some c \<longrightarrow> undying c" by (simp_all add: block_inv_def)
  have "refs_at env {} st a = {#}" using leave_block.hyps by (simp add: refs_at_def)
  then have t: "acct env (insert a {}) held st" using take_out [OF i(1), of a] by simp
  have "slot_ok env (held + owned env (insert a {}) st) a (Some (BlockCell b))" by (rule acct_slot [OF t leave_block.hyps(2)])
  then have "slot_ok env (held + owned env (insert a {}) st) a None" using leave_block.hyps(3,4) by simp
  then have "acct env {} held (free_cell a st)" by (intro drop_cell [OF t]) simp_all
  then show ?case using i(2) free_stack_undying [OF i(3)] by (simp add: block_inv_def)
next
  case (leave_byref held st a c st')
  then have i: "acct env {} held st" "callbacks st = cbs" "\<forall>x c. heap st x = Some c \<longrightarrow> undying c" by (simp_all add: block_inv_def)
  from leave_byref_ok [OF i(1) leave_byref.hyps(2,3,4)] leave_byref.hyps(5)
  have s: "acct env {} held (free_cell a st')" "keeps st st'" by auto
  then show ?case using i(2) free_stack_undying [OF keeps_undying [OF s(2) i(3)]] unfolding block_inv_def keeps_def by simp
qed

lemma ref_live:
  assumes "block_inv env cbs held st" "r \<in># held + owned env {} st"
  shows "case r of BlockRef x \<Rightarrow> \<exists>b. heap st x = Some (BlockCell b) | ObjRef ob \<Rightarrow> True
    | ByrefRef x \<Rightarrow> \<exists>c. heap st x = Some (ByrefCell c) \<and> bit (byref_flags c) 24 \<and> forwarding c = x"
proof -
  have a: "acct env {} held st" using assms(1) by (simp add: block_inv_def)
  have "count (held + owned env {} st) r \<noteq> 0" using assms(2) by simp
  then obtain k where k: "count (held + owned env {} st) r = Suc k" using not0_implies_Suc by blast
  show ?thesis
  proof (cases r)
    case (BlockRef x)
    from live_block [OF acct_slot [OF a refl] k [unfolded BlockRef]] show ?thesis using BlockRef by auto
  next
    case (ByrefRef x)
    from live_byref [OF acct_slot [OF a refl] k [unfolded ByrefRef]] show ?thesis using ByrefRef by auto
  qed simp
qed

text \<open>The count of a block on the heap.\<close>

lemma block_count:
  assumes "block_inv env cbs held st" "heap st x = Some (BlockCell b)" "bit (block_flags b) 24" "\<not> latched (block_flags b)"
  shows "rc (block_flags b) = count (held + owned env {} st) (BlockRef x) \<and> 0 < rc (block_flags b)"
proof -
  have a: "acct env {} held st" "undying (BlockCell b)" using assms(1,2) unfolding block_inv_def by blast+
  have "slot_ok env (held + owned env {} st) x (Some (BlockCell b))" by (rule acct_slot [OF a(1) assms(2)])
  then have "cnt_ok (block_flags b) (count (held + owned env {} st) (BlockRef x))" using assms(3) by (simp only: slot_ok.simps if_True)
  then show ?thesis using assms(3,4) a(2) by (simp add: cnt_ok_def)
qed

lemma byref_count:
  assumes "block_inv env cbs held st" "heap st x = Some (ByrefCell c)" "bit (byref_flags c) 24" "\<not> latched (byref_flags c)"
  shows "rc (byref_flags c) = count (held + owned env {} st) (ByrefRef x) \<and> 0 < rc (byref_flags c)"
proof -
  have a: "acct env {} held st" "undying (ByrefCell c)" using assms(1,2) unfolding block_inv_def by blast+
  have "slot_ok env (held + owned env {} st) x (Some (ByrefCell c))" by (rule acct_slot [OF a(1) assms(2)])
  then have "cnt_ok (byref_flags c) (count (held + owned env {} st) (ByrefRef x))" using assms(3) by (simp only: slot_ok.simps if_True)
  then show ?thesis using assms(3,4) a(2) by (simp add: cnt_ok_def)
qed

text \<open>Blocks cannot hold each other in a cycle, so the one ranked highest is held by none.\<close>

lemma unheld_block:
  assumes "ranked env U st rank" "H \<noteq> {}" "\<And>x y. BlockRef y \<in># refs_at env U st x \<Longrightarrow> x \<in> H"
  shows "\<exists>x \<in> H. BlockRef x \<notin># owned env U st"
proof -
  have "Max (rank ` H) \<in> rank ` H" using assms(2) by (intro Max_in) simp_all
  then obtain x where x: "x \<in> H" "rank x = Max (rank ` H)" by (metis imageE)
  have "BlockRef x \<notin># owned env U st"
  proof
    assume "BlockRef x \<in># owned env U st"
    then obtain y where y: "BlockRef x \<in># refs_at env U st y" unfolding owned_def by (auto simp: set_mset_sum)
    then have "rank x < rank y" "y \<in> H" using assms(1,3) by (auto simp: ranked_def)
    then have "rank y \<le> Max (rank ` H)" by (intro Max_ge) simp_all
    then show False using x(2) \<open>rank x < rank y\<close> by simp
  qed
  then show ?thesis using x(1) by blast
qed

subsection \<open>Two small programs\<close>

text \<open>A block on the stack that captures a variable, and its copy.\<close>

definition ex_mem :: memory where "ex_mem = (\<lambda>_. 0)(0x1008 := 40, 0x1011 := 0x90, 0x1019 := 0x90)"
definition ex_env :: "u32 \<Rightarrow> block_env" where
  "ex_env fl = \<lparr>helper = (\<lambda>f. if f = 0x9000 then [(0, fl)] else []),
     bmalloc = (\<lambda>st n. if heap st 0x5000 = None then 0x5000 else if heap st 0x6000 = None then 0x6000 else 0),
     uninitialized = 0, descriptors = ex_mem\<rparr>"
definition ex_block :: "u32 \<Rightarrow> u64 \<Rightarrow> Block_layout" where
  "ex_block fl v = \<lparr>block_isa = NSConcreteStackBlock, block_flags = fl, block_reserved = 0, block_invoke = 0x8000,
     block_descriptor = 0x1000, captured = [v]\<rparr>"
definition ex_byref :: "u32 \<Rightarrow> u64 \<Rightarrow> Block_byref" where
  "ex_byref fl f = \<lparr>byref_isa = 0, forwarding = f, byref_flags = fl, byref_size = 32, byref_words = [7]\<rparr>"
definition ex_cbs :: Block_callbacks_RR where
  "ex_cbs = \<lparr>cb_retain = Registered 1, cb_release = Registered 2, cb_destructInstance = Registered 3\<rparr>"

lemma load_le_8: "load_le m a 8 = unat (m a) + 256 * (unat (m (a + 1)) + 256 * (unat (m (a + 2)) + 256 * (unat (m (a + 3)) +
    256 * (unat (m (a + 4)) + 256 * (unat (m (a + 5)) + 256 * (unat (m (a + 6)) + 256 * unat (m (a + 7))))))))"
proof -
  have "(8 :: nat) = Suc (Suc (Suc (Suc (Suc (Suc (Suc (Suc 0)))))))" by simp
  then show ?thesis by (simp only: load_le.simps) (simp only: add.assoc one_add_one mult_0_right add_0_right numeral_plus_one one_plus_numeral num.simps add_num_simps arith_simps arith_special)
qed

lemma ex_loads: "load64 ex_mem 0x1010 = 0x9000" "load64 ex_mem 0x1008 = 40" "load64 ex_mem 0x1018 = 0x9000"
  by (simp_all add: load64_def load_le_8 ex_mem_def)

lemma ex_flags: "(0x2000000 :: u32) AND BLOCK_HAS_COPY_DISPOSE \<noteq> 0" "(0x2000000 :: u32) AND BLOCK_SMALL_DESCRIPTOR = 0"
  "(0x3000002 :: u32) AND BLOCK_HAS_COPY_DISPOSE \<noteq> 0" "(0x3000002 :: u32) AND BLOCK_SMALL_DESCRIPTOR = 0"
  "(0x3000001 :: u32) AND BLOCK_HAS_COPY_DISPOSE \<noteq> 0" "(0x3000001 :: u32) AND BLOCK_SMALL_DESCRIPTOR = 0"
  by (simp_all add: BLOCK_HAS_COPY_DISPOSE_def BLOCK_SMALL_DESCRIPTOR_def)

lemma ex_scripts: "fl \<in> {0x2000000, 0x3000002, 0x3000001} \<Longrightarrow> copy_script (ex_env k) (ex_block fl v) = [(0, k)] \<and> dispose_script (ex_env k) (ex_block fl v) = [(0, k)]
   \<and> Block_size (descriptors (ex_env k)) (ex_block fl v) = 40"
  using ex_flags ex_loads by (auto simp: copy_script_def dispose_script_def Block_get_copy_function_def Block_get_dispose_function_def Block_size_def Block_descriptor_2_def Block_get_descriptor_def ex_env_def ex_block_def)

definition ex_st1 :: block_state where
  "ex_st1 = put_block 0x2000 (ex_block 0x2000000 0x3000) (put_byref 0x3000 (ex_byref 0 0x3000) (start_state ex_cbs))"

lemma ex_start: "heap (start_state ex_cbs) = (\<lambda>_. None)" "calls (start_state ex_cbs) = []" "callbacks (start_state ex_cbs) = ex_cbs"
  by (simp_all add: start_state_def Block_use_RR2_def ex_cbs_def)

lemma kind_8: "field_kind 8 = ByrefField" by (simp add: field_kind_def BLOCK_ALL_COPY_DISPOSE_FLAGS_def field_flags)

lemma ex_bits: "bit (0x2000000 :: u32) 24 = False" "bit (0x2000000 :: u32) 28 = False" "bit (0x3000002 :: u32) 24" "bit (0x1000004 :: u32) 24"  "bit (0x1000002 :: u32) 24" "\<not> bit (0x1000004 :: u32) 25"
  by simp_all

definition ex_st2 :: block_state where
  "ex_st2 = (start_state ex_cbs)\<lparr>heap := (\<lambda>_. None)(0x2000 \<mapsto> BlockCell (ex_block 0x2000000 0x3000), 0x3000 \<mapsto> ByrefCell (ex_byref 0 0x6000),
     0x5000 \<mapsto> BlockCell ((ex_block 0x3000002 0x6000)\<lparr>block_isa := NSConcreteMallocBlock\<rparr>), 0x6000 \<mapsto> ByrefCell (ex_byref 0x1000004 0x6000))\<rparr>"

lemma ex_byref_copy: "byref_copy_with (ex_env 8) asn 0x3000 (put_block 0x5000 b ex_st1) = Inr (0x6000, put_byref 0x3000 (ex_byref 0 0x6000) (put_byref 0x6000 (ex_byref 0x1000004 0x6000) (put_block 0x5000 b ex_st1)))"
  by (simp add: byref_copy_with_def get_byref_def ex_st1_def ex_start ex_byref_def no_refcount_iff rc_def copied_byref_def ex_env_def keep_script_def BLOCK_BYREF_HAS_COPY_DISPOSE_def BLOCK_BYREF_NEEDS_FREE_def
   del: get_byref_iff)

lemma ex_copy: "Block_copy (ex_env 8) 2 0x2000 ex_st1 = Inr (0x5000, ex_st2)"
proof -
  let ?b = "ex_block 0x2000000 0x3000" let ?st = "put_block 0x5000 (copied_block ?b) ex_st1"
  have g: "get_block ex_st1 0x2000 = Some ?b" by (simp add: get_block_def ex_st1_def)
  have cb: "copied_block ?b = ex_block 0x3000002 0x3000"
    by (simp add: copied_block_def ex_block_def BLOCK_REFCOUNT_MASK_def BLOCK_DEALLOCATING_def BLOCK_NEEDS_FREE_def)
  have m: "bmalloc (ex_env 8) ex_st1 40 = 0x5000" by (simp add: ex_env_def ex_st1_def ex_start)
  have two: "(2 :: nat) = Suc 1" by simp
  let ?st2 = "put_byref 0x3000 (ex_byref 0 0x6000) (put_byref 0x6000 (ex_byref 0x1000004 0x6000) ?st)"
  have as: "Block_object_assign (ex_env 8) 2 0x3000 8 ?st = Inr (Some 0x6000, ?st2)"
    unfolding two assign_Suc kind_8 Block_byref_copy_def ex_byref_copy by (simp add: map_dest_def)
  have l: "load_field ?st 0x2000 0 = Some 0x3000" by (simp add: load_field_def ex_st1_def ex_block_def)
  have s: "store_field 0x5000 0 (Some 0x6000) ?st2 = Some (put_block 0x5000 (ex_block 0x3000002 0x6000) ?st2)"
    unfolding cb by (simp add: store_field_def put_block_def ex_block_def)
  have ch: "copy_helper (Block_object_assign (ex_env 8) 2) (copy_script (ex_env 8) ?b) 0x5000 0x2000 ?st = Inr (put_block 0x5000 (ex_block 0x3000002 0x6000) ?st2)"
    using ex_scripts [of "0x2000000" 8 "0x3000"] l as s by simp
  have g2: "get_block (put_block 0x5000 (ex_block 0x3000002 0x6000) ?st2) 0x5000 = Some (ex_block 0x3000002 0x6000)" by (simp add: get_block_def)
  let ?st3 = "put_block 0x5000 (ex_block 0x3000002 0x6000) ?st2"
  have e1: "set_malloc_isa 0x5000 ?st3 = put_block 0x5000 ((ex_block 0x3000002 0x6000)\<lparr>block_isa := NSConcreteMallocBlock\<rparr>) ?st3"
    by (simp only: set_malloc_isa_def g2 option.case)
  have e2: "put_block 0x5000 ((ex_block 0x3000002 0x6000)\<lparr>block_isa := NSConcreteMallocBlock\<rparr>) ?st3 = ex_st2"
    unfolding ex_st2_def ex_st1_def put_block_def put_byref_def by (rule block_state.equality) (auto simp: ex_start fun_eq_iff)
  have sz: "Block_size (descriptors (ex_env 8)) ?b = 40" "copy_script (ex_env 8) ?b = [(0, 8)]" using ex_scripts [of "0x2000000" 8] by simp_all
  have fl: "block_flags ?b AND BLOCK_NEEDS_FREE = 0" "block_flags ?b AND BLOCK_IS_GLOBAL = 0"
    by (simp_all add: ex_block_def BLOCK_NEEDS_FREE_def BLOCK_IS_GLOBAL_def)
  have nz: "(0x2000 :: u64) \<noteq> 0" "(0x5000 :: u64) \<noteq> 0" by simp_all
  have ln: "\<not> (40 \<noteq> 32 + 8 * length (captured ?b))" by (simp add: ex_block_def)
  show ?thesis
    unfolding Block_copy_def block_copy_with_def g sz m Let_def ch
    by (simp only: fl nz if_False if_True option.case sum.case ch [unfolded sz] ln e1 e2 not_True_eq_False not_False_eq_True simp_thms sz m)
qed

lemma ex_malloc: "good_malloc (ex_env k)" by (simp add: good_malloc_def ex_env_def)

lemma ex_kinds: "field_kind 8 = ByrefField" "field_kind 3 = ObjectField" "field_kind BLOCK_FIELD_IS_BLOCK = BlockField"
  by (simp_all add: field_kind_def BLOCK_ALL_COPY_DISPOSE_FLAGS_def field_flags)

lemma ex_ok: "block_ok (ex_env k) (ex_block 0x2000000 v)" "byref_ok (ex_env k) (ex_byref 0 f)"
  using ex_scripts [of "0x2000000" k v]
  by (simp_all add: block_ok_def byref_ok_def ex_block_def ex_byref_def caller_script_def keep_script_def destroy_script_def
      BLOCK_BYREF_HAS_COPY_DISPOSE_def)

lemma ex_sel: "block_flags (ex_block w v) = w" "captured (ex_block w v) = [v]" "byref_flags (ex_byref w f) = w" "forwarding (ex_byref w f) = f"
    "block_flags ((ex_block w v)\<lparr>block_isa := NSConcreteMallocBlock\<rparr>) = w"
  by (simp_all add: ex_block_def ex_byref_def)

lemma ex_reach1: "block_reach (ex_env 8) 2 ex_cbs {#} ex_st1"
proof -
  have "block_reach (ex_env 8) 2 ex_cbs {#} (put_byref 0x3000 (ex_byref 0 0x3000) (start_state ex_cbs))"
    by (rule block_reach.declare_byref [OF block_reach.start]) (simp_all add: ex_start ex_ok ex_sel rc_def)
  then show ?thesis unfolding ex_st1_def
    by (rule block_reach.declare_block) (simp_all add: ex_start ex_ok ex_sel put_byref_def)
qed

lemma ex_heap1: "heap ex_st1 0x2000 = Some (BlockCell (ex_block 0x2000000 0x3000))" "heap ex_st1 0x3000 = Some (ByrefCell (ex_byref 0 0x3000))"
  by (simp_all add: ex_st1_def put_byref_def put_block_def)

lemma ex_ready: "ready (ex_env 8) (Suc 2) {} ex_st1 0x2000 BLOCK_FIELD_IS_BLOCK"
proof -
  have sc: "copy_script (ex_env 8) (ex_block 0x2000000 0x3000) = [(0, 8)]" using ex_scripts [of "0x2000000" 8 "0x3000"] by simp
  have two: "Suc 2 = Suc (Suc (Suc 0))" by simp
  show ?thesis unfolding two by (simp add: ex_kinds ex_heap1 sc ex_sel)
qed

lemma ex_reach: "block_reach (ex_env 8) 2 ex_cbs {#BlockRef 0x5000#} ex_st2"
  using block_reach.copy [OF ex_reach1 ex_ready ex_copy] by (simp add: block_refs_def)

lemma ex_heap: "heap ex_st2 0x5000 = Some (BlockCell ((ex_block 0x3000002 0x6000)\<lparr>block_isa := NSConcreteMallocBlock\<rparr>))"
    "heap ex_st2 0x6000 = Some (ByrefCell (ex_byref 0x1000004 0x6000))" "heap ex_st2 0x3000 = Some (ByrefCell (ex_byref 0 0x6000))"
  by (simp_all add: ex_st2_def)

lemma ex_words: "bit (0x3000002 :: u32) 24" "\<not> latched 0x3000002" "rc 0x3000002 = 1" "bit (0x1000004 :: u32) 24" "\<not> latched 0x1000004" "rc 0x1000004 = 2"
  by (simp_all add: latched_def rc_def BLOCK_REFCOUNT_MASK_def)

lemma ex_live: "card (live ex_st2) \<le> 2"
proof -
  have "live ex_st2 \<subseteq> {0x5000, 0x6000}" by (auto simp: live_iff ex_st2_def ex_sel split: if_splits)
  from card_mono [OF _ this] show ?thesis by simp
qed

text \<open>A block that captures an object, from its declaration to the release of its copy.\<close>

definition ex_obj1 :: block_state where "ex_obj1 = put_block 0x2000 (ex_block 0x2000000 7) (start_state ex_cbs)"

definition ex_obj2 :: block_state where
  "ex_obj2 = (start_state ex_cbs)\<lparr>heap := (\<lambda>_. None)(0x2000 \<mapsto> BlockCell (ex_block 0x2000000 7),
     0x5000 \<mapsto> BlockCell ((ex_block 0x3000002 7)\<lparr>block_isa := NSConcreteMallocBlock\<rparr>)), calls := [(1, 7)]\<rparr>"

definition ex_obj3 :: block_state where "ex_obj3 = (start_state ex_cbs)\<lparr>calls := [(1, 7), (2, 7), (3, 0x5000)]\<rparr>"

lemma ex_obj_copy: "Block_copy (ex_env 3) 2 0x2000 ex_obj1 = Inr (0x5000, ex_obj2)"
proof -
  let ?b = "ex_block 0x2000000 7" let ?st = "put_block 0x5000 (copied_block ?b) ex_obj1"
  have g: "get_block ex_obj1 0x2000 = Some ?b" by (simp add: get_block_def ex_obj1_def)
  have cb: "copied_block ?b = ex_block 0x3000002 7"
    by (simp add: copied_block_def ex_block_def BLOCK_REFCOUNT_MASK_def BLOCK_DEALLOCATING_def BLOCK_NEEDS_FREE_def)
  have m: "bmalloc (ex_env 3) ex_obj1 40 = 0x5000" by (simp add: ex_env_def ex_obj1_def ex_start)
  have two: "(2 :: nat) = Suc 1" by simp
  have cbs: "callbacks ?st = ex_cbs" and cls: "calls ?st = []" by (simp_all add: ex_obj1_def put_block_def ex_start)
  have cl1: "calls ex_obj1 = []" by (simp add: ex_obj1_def put_block_def ex_start)
  have as: "Block_object_assign (ex_env 3) 2 7 3 ?st = Inr (Some 7, ?st\<lparr>calls := [(1, 7)]\<rparr>)"
    unfolding two assign_Suc ex_kinds field_kind.case cbs by (simp add: call_back_def ex_cbs_def cls cl1)
  have l: "load_field ?st 0x2000 0 = Some 7" by (simp add: load_field_def ex_obj1_def ex_block_def)
  have s: "store_field 0x5000 0 (Some 7) (?st\<lparr>calls := [(1, 7)]\<rparr>) = Some (?st\<lparr>calls := [(1, 7)]\<rparr>)"
    unfolding cb by (simp add: store_field_def put_block_def ex_block_def)
  have sz: "Block_size (descriptors (ex_env 3)) ?b = 40" "copy_script (ex_env 3) ?b = [(0, 3)]" using ex_scripts [of "0x2000000" 3 7] by simp_all
  have ch: "copy_helper (Block_object_assign (ex_env 3) 2) [(0, 3)] 0x5000 0x2000 ?st = Inr (?st\<lparr>calls := [(1, 7)]\<rparr>)"
    using l as s by simp
  have e: "set_malloc_isa 0x5000 (?st\<lparr>calls := [(1, 7)]\<rparr>) = ex_obj2"
    unfolding cb ex_obj2_def ex_obj1_def set_malloc_isa_def put_block_def get_block_def
    by (rule block_state.equality) (auto simp: ex_start fun_eq_iff)
  have fl: "block_flags ?b AND BLOCK_NEEDS_FREE = 0" "block_flags ?b AND BLOCK_IS_GLOBAL = 0"
    by (simp_all add: ex_block_def BLOCK_NEEDS_FREE_def BLOCK_IS_GLOBAL_def)
  have nz: "(0x2000 :: u64) \<noteq> 0" "(0x5000 :: u64) \<noteq> 0" by simp_all
  have ln: "\<not> (40 \<noteq> 32 + 8 * length (captured ?b))" by (simp add: ex_block_def)
  show ?thesis
    unfolding Block_copy_def block_copy_with_def g sz m Let_def ch
    by (simp only: fl nz if_False if_True option.case sum.case ch ln e not_True_eq_False not_False_eq_True simp_thms sz m)
qed

lemma ex_obj_release: "Block_release (ex_env 3) 2 0x5000 (free_cell 0x2000 ex_obj2) = Inr ex_obj3"
proof -
  let ?b = "(ex_block 0x3000002 7)\<lparr>block_isa := NSConcreteMallocBlock\<rparr>"
  let ?st = "free_cell 0x2000 ex_obj2" let ?st1 = "put_block 0x5000 (?b\<lparr>block_flags := 0x3000001\<rparr>) ?st"
  have g: "get_block ?st 0x5000 = Some ?b" by (simp add: get_block_def ex_obj2_def)
  have d: "latching_decr_int_should_deallocate (block_flags ?b) [] = (True, 0x3000001)"
    by (simp add: ex_sel latching_simps latched_def decr_value_def BLOCK_REFCOUNT_MASK_def BLOCK_DEALLOCATING_def)
  have sc: "dispose_script (ex_env 3) ?b = [(0, 3)]"
    using ex_scripts [of "0x3000002" 3 7] by (simp add: dispose_script_def Block_get_dispose_function_def Block_descriptor_2_def Block_get_descriptor_def cong: if_cong)
  have two: "(2 :: nat) = Suc 1" by simp
  have l: "load_field ?st1 0x5000 0 = Some 7" by (simp add: load_field_def ex_sel)
  have cbs: "callbacks ?st1 = ex_cbs" and cls: "calls ?st1 = [(1, 7)]" by (simp_all add: ex_obj2_def free_cell_def put_block_def ex_start)
  have cl1: "calls ex_obj2 = [(1, 7)]" by (simp add: ex_obj2_def)
  have di: "Block_object_dispose (ex_env 3) 2 7 3 ?st1 = Inr (?st1\<lparr>calls := [(1, 7), (2, 7)]\<rparr>)"
    unfolding two dispose_Suc ex_kinds field_kind.case cbs by (simp add: call_back_def ex_cbs_def cls cl1)
  have dh: "dispose_helper (Block_object_dispose (ex_env 3) 2) [(0, 3)] 0x5000 ?st1 = Inr (?st1\<lparr>calls := [(1, 7), (2, 7)]\<rparr>)"
    using l di by simp
  have ds: "cb_destructInstance (callbacks (?st1\<lparr>calls := [(1, 7), (2, 7)]\<rparr>)) = Registered 3" using cbs by (simp add: ex_cbs_def)
  have e: "free_cell 0x5000 (call_back (cb_destructInstance (callbacks (?st1\<lparr>calls := [(1, 7), (2, 7)]\<rparr>))) 0x5000 (?st1\<lparr>calls := [(1, 7), (2, 7)]\<rparr>)) = ex_obj3"
    unfolding ex_obj3_def ds call_back_def callback.case
    by (rule block_state.equality) (auto simp: ex_obj2_def free_cell_def put_block_def ex_start fun_eq_iff)
  have fl: "\<not> (block_flags ?b AND BLOCK_NEEDS_FREE = 0)" "block_flags ?b AND BLOCK_IS_GLOBAL = 0"
    by (simp_all add: ex_block_def BLOCK_NEEDS_FREE_def BLOCK_IS_GLOBAL_def)
  have nz: "(0x5000 :: u64) \<noteq> 0" by simp
  show ?thesis
    unfolding Block_release_def block_release_with_def g option.case d Let_def prod.case sc dh
    by (simp only: fl nz if_False if_True sum.case e not_True_eq_False not_False_eq_True simp_thms)
qed

lemma ex_obj_reach: "block_reach (ex_env 3) 2 ex_cbs {#} ex_obj3"
proof -
  let ?env = "ex_env 3"
  have r: "block_reach ?env 2 ex_cbs {#} ex_obj1" unfolding ex_obj1_def
    by (rule block_reach.declare_block [OF block_reach.start]) (simp_all add: ex_start ex_ok ex_sel)
  have sc: "copy_script ?env (ex_block 0x2000000 7) = [(0, 3)]" using ex_scripts [of "0x2000000" 3 7] by simp
  have h: "heap ex_obj1 0x2000 = Some (BlockCell (ex_block 0x2000000 7))" by (simp add: ex_obj1_def put_block_def)
  have two: "Suc 2 = Suc (Suc (Suc 0))" by simp
  have "ready ?env (Suc 2) {} ex_obj1 0x2000 BLOCK_FIELD_IS_BLOCK" unfolding two by (simp add: ex_kinds h sc ex_sel)
  from block_reach.copy [OF r this ex_obj_copy] have "block_reach ?env 2 ex_cbs {#BlockRef 0x5000#} ex_obj2" by (simp add: block_refs_def)
  then have c: "block_reach ?env 2 ex_cbs {#BlockRef 0x5000#} (free_cell 0x2000 ex_obj2)"
    by (rule block_reach.leave_block [where b = "ex_block 0x2000000 7"]) (simp_all add: ex_obj2_def ex_sel)
  have "live (free_cell 0x2000 ex_obj2) \<subseteq> {0x5000}" by (auto simp: live_iff ex_obj2_def ex_sel split: if_splits)
  from card_mono [OF _ this] have n: "card (live (free_cell 0x2000 ex_obj2)) \<le> 2" by simp
  show ?thesis by (rule block_reach.release [OF _ n ex_obj_release]) (use c in \<open>simp add: block_refs_def\<close>)
qed

subsection \<open>Properties\<close>

text \<open>C21. No call of a client fails: a copy of a block whose captures are alive returns, unless the copy of a variable
  writes to memory it did not get; a release of a reference the client holds and the end of a variable's scope return,
  with nesting no deeper than the number of live cells.\<close>

theorem block_calls_return:
  assumes "block_reach env n cbs held st" "good_malloc env"
  shows "(\<forall>a. ready env (Suc n) {} st a BLOCK_FIELD_IS_BLOCK \<longrightarrow> Block_copy env n a st \<in> insert (Inl NullWrite) (range Inr)) \<and>
    (card (live st) \<le> n \<longrightarrow>
       (\<forall>a rest. held = block_refs a + rest \<longrightarrow> Block_release env n a st \<in> range Inr) \<and>
       (\<forall>a c. heap st a = Some (ByrefCell c) \<longrightarrow> \<not> bit (byref_flags c) 24 \<longrightarrow>
          Block_object_dispose env (Suc n) a BLOCK_FIELD_IS_BYREF st \<in> range Inr))"
proof (intro conjI allI impI)
  note i = reach_inv [OF assms]
  have a: "acct env {} held st" using i by (simp add: block_inv_def)
  show "Block_copy env n x st \<in> insert (Inl NullWrite) (range Inr)" if "ready env (Suc n) {} st x BLOCK_FIELD_IS_BLOCK" for x
    using copied_inv [OF i assms(2) that] by auto
  show "Block_release env n x st \<in> range Inr" if "card (live st) \<le> n" "held = block_refs x + rest" for x rest
    using released_inv [of env cbs x rest st n] i that by auto
  show "Block_object_dispose env (Suc n) x BLOCK_FIELD_IS_BYREF st \<in> range Inr"
    if "card (live st) \<le> n" "heap st x = Some (ByrefCell c)" "\<not> bit (byref_flags c) 24" for x c
    using leave_byref_ok [OF a that(2,3,1)] by auto
qed

theorem block_calls_return_witness: "Block_release (ex_env 8) 2 0x5000 ex_st2 \<in> range Inr \<and>
    Block_object_dispose (ex_env 8) 3 0x3000 BLOCK_FIELD_IS_BYREF ex_st2 \<in> range Inr"
proof -
  have s: "Suc 2 = 3" by simp
  have f: "\<not> bit (byref_flags (ex_byref 0 0x6000)) 24" "{#BlockRef 0x5000#} = block_refs 0x5000 + {#}" by (simp_all add: ex_sel block_refs_def)
  from block_calls_return [OF ex_reach ex_malloc, THEN conjunct2, rule_format, OF ex_live] ex_heap(3) f show ?thesis unfolding s by blast
qed

text \<open>C19. In every state a client can reach, every reference to a block or variable, held by the client, by a field of a
  block or by a variable on the stack, leads to a live cell of its kind, variables on the heap forward to themselves, and
  the count of every block and variable on the heap is the number of references to it, unless it has latched, and never zero.\<close>

theorem block_counts_exact:
  assumes "block_reach env n cbs held st" "good_malloc env"
  shows "(\<forall>r \<in># held + owned env {} st. case r of BlockRef x \<Rightarrow> \<exists>b. heap st x = Some (BlockCell b) | ObjRef ob \<Rightarrow> True
       | ByrefRef x \<Rightarrow> \<exists>c. heap st x = Some (ByrefCell c) \<and> bit (byref_flags c) 24 \<and> forwarding c = x) \<and>
    (\<forall>x b. heap st x = Some (BlockCell b) \<longrightarrow> bit (block_flags b) 24 \<longrightarrow> \<not> latched (block_flags b) \<longrightarrow>
       rc (block_flags b) = count (held + owned env {} st) (BlockRef x) \<and> 0 < rc (block_flags b)) \<and>
    (\<forall>x c. heap st x = Some (ByrefCell c) \<longrightarrow> bit (byref_flags c) 24 \<longrightarrow> \<not> latched (byref_flags c) \<longrightarrow>
       rc (byref_flags c) = count (held + owned env {} st) (ByrefRef x) \<and> 0 < rc (byref_flags c))"
  using ref_live [OF reach_inv [OF assms]] block_count [OF reach_inv [OF assms]] byref_count [OF reach_inv [OF assms]] by blast

theorem block_counts_exact_witness: "count ({#BlockRef 0x5000#} + owned (ex_env 8) {} ex_st2) (ByrefRef 0x6000) = 2 \<and>
    count ({#BlockRef 0x5000#} + owned (ex_env 8) {} ex_st2) (BlockRef 0x5000) = 1"
proof -
  note t = block_counts_exact [OF ex_reach ex_malloc, THEN conjunct2]
  have "rc (byref_flags (ex_byref 0x1000004 0x6000)) = count ({#BlockRef 0x5000#} + owned (ex_env 8) {} ex_st2) (ByrefRef 0x6000)"
    using t [THEN conjunct2, rule_format, OF ex_heap(2)] by (simp only: ex_sel ex_words simp_thms)
  moreover have "rc (block_flags ((ex_block 0x3000002 0x6000)\<lparr>block_isa := NSConcreteMallocBlock\<rparr>)) =
      count ({#BlockRef 0x5000#} + owned (ex_env 8) {} ex_st2) (BlockRef 0x5000)"
    using t [THEN conjunct1, rule_format, OF ex_heap(1)] by (simp only: ex_sel ex_words simp_thms)
  ultimately show ?thesis by (simp add: ex_sel ex_words)
qed



text \<open>C18. The copy of a \<open>__block\<close> variable: afterwards it forwards to a variable on the heap that forwards to itself,
  which every block that captures it shares. The first copy makes that variable, with the contents of the original; a
  later copy finds it and leaves its contents alone.\<close>

theorem block_variable_shared:
  assumes "block_reach env n cbs held st" "good_malloc env" "heap st v = Some (ByrefCell src)"
    "Block_object_assign env (Suc (Suc m)) v BLOCK_FIELD_IS_BYREF st = Inr (w, st')" "bit (byref_flags src) 24 \<longrightarrow> \<not> bit (byref_flags src) 0"
  shows "\<exists>f s c. w = Some f \<and> heap st' v = Some (ByrefCell s) \<and> forwarding s = f \<and> heap st' f = Some (ByrefCell c) \<and> forwarding c = f \<and>
    bit (byref_flags c) 24 \<and>
    (if \<not> bit (byref_flags src) 24 \<and> forwarding src = v then heap st f = None \<and> moved env src c
     else f = forwarding src \<and> (\<exists>d. heap st f = Some (ByrefCell d) \<and> byref_words c = byref_words d))"
proof -
  have a: "acct env {} held st" using reach_inv [OF assms(1,2)] by (simp add: block_inv_def)
  have k: "field_kind BLOCK_FIELD_IS_BYREF = ByrefField" by (simp add: field_kind_def BLOCK_ALL_COPY_DISPOSE_FLAGS_def field_flags)
  have r: "map_dest (Block_byref_copy env (Suc m) v st) = Inr (w, st')" using assms(4) unfolding assign_Suc k by simp
  have "byref_copied env {} held st v (Block_byref_copy env (Suc m) v st)" unfolding Block_byref_copy_def
    by (rule byref_copy_ok [OF _ assms(2) a _ assms(3,5)]) (simp_all only: assign_caller blocks_in_def ball_empty)
  then obtain f s where f: "w = Some f" "acct env {} (add_mset (ByrefRef f) held) st'" "extends st st'" "heap st' v = Some (ByrefCell s)" "forwarding s = f"
      "\<not> bit (byref_flags src) 24 \<longrightarrow> forwarding src = v \<longrightarrow> heap st f = None \<and> (\<exists>c. heap st' f = Some (ByrefCell c) \<and> moved env src c)"
    using r assms(3) unfolding byref_copied_def map_dest_def by (auto split: sum.splits)
  obtain j where "count (add_mset (ByrefRef f) held + owned env {} st') (ByrefRef f) = Suc j" by simp
  from live_byref [OF acct_slot [OF f(2) refl] this] obtain c where c: "heap st' f = Some (ByrefCell c)" "bit (byref_flags c) 24" "forwarding c = f" by blast
  have "f = forwarding src \<and> (\<exists>d. heap st f = Some (ByrefCell d) \<and> byref_words c = byref_words d)"
    if "bit (byref_flags src) 24 \<or> forwarding src \<noteq> v"
  proof -
    have e: "f = forwarding src" using grows_byref [OF extends_grows [OF f(3)] assms(3) that] f(4,5) by auto
    have "\<exists>d. heap st f = Some (ByrefCell d)"
    proof (cases "bit (byref_flags src) 24")
      case True
      then have "forwarding src = v" using acct_slot [OF a assms(3)] by simp
      then show ?thesis using e assms(3) by simp
    next
      case False
      then show ?thesis using forwards_to_heap [OF a assms(3)] that e by auto
    qed
    then obtain d where d: "heap st f = Some (ByrefCell d)" by blast
    from extendsD [OF f(3) d] c(1) have "same_cell (ByrefCell d) (ByrefCell c)" by auto
    then show ?thesis using e d by auto
  qed
  then show ?thesis using f(1,4-6) c by (auto split: if_splits)
qed

theorem block_variable_shared_witness: "Block_object_assign (ex_env 8) 2 0x3000 BLOCK_FIELD_IS_BYREF ex_st1 =
      Inr (Some 0x5000, put_byref 0x3000 (ex_byref 0 0x5000) (put_byref 0x5000 (ex_byref 0x1000004 0x5000) ex_st1)) \<and>
    heap ex_st1 0x5000 = None \<and> moved (ex_env 8) (ex_byref 0 0x3000) (ex_byref 0x1000004 0x5000)"
proof -
  have two: "2 = Suc (Suc 0)" by simp
  have k: "field_kind BLOCK_FIELD_IS_BYREF = ByrefField" by (simp add: field_kind_def BLOCK_ALL_COPY_DISPOSE_FLAGS_def field_flags)
  have m: "bmalloc (ex_env 8) ex_st1 32 = 0x5000" by (simp add: ex_env_def ex_st1_def ex_start)
  have "byref_copy_with (ex_env 8) asn 0x3000 ex_st1 =
      Inr (0x5000, put_byref 0x3000 (ex_byref 0 0x5000) (put_byref 0x5000 (ex_byref 0x1000004 0x5000) ex_st1))" for asn
    by (simp add: byref_copy_with_def get_byref_def ex_st1_def ex_start ex_byref_def no_refcount_iff rc_def copied_byref_def ex_env_def
        keep_script_def BLOCK_BYREF_HAS_COPY_DISPOSE_def BLOCK_BYREF_NEEDS_FREE_def del: get_byref_iff)
  then have c: "Block_object_assign (ex_env 8) (Suc (Suc 0)) 0x3000 BLOCK_FIELD_IS_BYREF ex_st1 =
      Inr (Some 0x5000, put_byref 0x3000 (ex_byref 0 0x5000) (put_byref 0x5000 (ex_byref 0x1000004 0x5000) ex_st1))"
    unfolding assign_Suc k Block_byref_copy_def by (simp add: map_dest_def)
  from block_variable_shared [OF ex_reach1 ex_malloc ex_heap1(2) c] have "heap ex_st1 0x5000 = None \<and> moved (ex_env 8) (ex_byref 0 0x3000) (ex_byref 0x1000004 0x5000)" by (auto simp: ex_sel)
  then show ?thesis unfolding two using c by blast
qed

text \<open>C20. Nothing leaks: when the client holds nothing, no variable on the stack forwards to the heap and no count has
  latched, no block or variable is left on the heap and every object has been released as often as retained.\<close>

theorem blocks_all_freed:
  assumes "block_reach env n cbs {#} st" "good_malloc env"
    "\<And>x c. heap st x = Some (ByrefCell c) \<Longrightarrow> \<not> bit (byref_flags c) 24 \<Longrightarrow> forwarding c = x"
    "\<And>x b. heap st x = Some (BlockCell b) \<Longrightarrow> \<not> latched (block_flags b)" "\<And>x c. heap st x = Some (ByrefCell c) \<Longrightarrow> \<not> latched (byref_flags c)"
  shows "(\<forall>x b. heap st x = Some (BlockCell b) \<longrightarrow> \<not> bit (block_flags b) 24) \<and>
    (\<forall>x c. heap st x = Some (ByrefCell c) \<longrightarrow> \<not> bit (byref_flags c) 24) \<and>
    (\<forall>f g d ob. cbs = \<lparr>cb_retain = Registered f, cb_release = Registered g, cb_destructInstance = Registered d\<rparr> \<longrightarrow>
       distinct [f, g, d] \<longrightarrow> count_list (calls st) (f, ob) = count_list (calls st) (g, ob))"
proof -
  note i = reach_inv [OF assms(1,2)]
  then have a: "acct env {} {#} st" "callbacks st = cbs" by (simp_all add: block_inv_def)
  obtain rank where rk: "ranked env {} st rank" using acctD(4) [OF a(1)] by blast
  let ?H = "{x. \<exists>b. heap st x = Some (BlockCell b) \<and> bit (block_flags b) 24}"
  have src: "x \<in> ?H" if "r \<in># refs_at env {} st x" for r x
  proof (cases "heap st x")
    case None
    then show ?thesis using that by (simp add: refs_at_def)
  next
    case (Some y)
    then show ?thesis using that assms(3) [of x] by (cases y) (auto simp: refs_at_def split: if_splits)
  qed
  have "?H = {}"
  proof (rule ccontr)
    assume "?H \<noteq> {}"
    then have "\<exists>x \<in> ?H. BlockRef x \<notin># owned env {} st" by (rule unheld_block [OF rk]) (rule src)
    then obtain x b where x: "heap st x = Some (BlockCell b)" "bit (block_flags b) 24" "BlockRef x \<notin># owned env {} st"
      by blast
    then show False using block_count [OF i x(1,2) assms(4) [OF x(1)]] by (auto simp: not_in_iff)
  qed
  then have H: "refs_at env {} st x = {#}" for x using src by (metis empty_iff multiset_nonemptyE)
  then have o: "owned env {} st = {#}" by (simp add: owned_def)
  show ?thesis
  proof (intro conjI allI impI)
    show "\<not> bit (block_flags b) 24" if "heap st x = Some (BlockCell b)" for x b using \<open>?H = {}\<close> that by blast
    show "\<not> bit (byref_flags c) 24" if "heap st x = Some (ByrefCell c)" for x c
      using byref_count [OF i that _ assms(5) [OF that]] o by auto
    show "count_list (calls st) (f, ob) = count_list (calls st) (g, ob)"
      if "cbs = \<lparr>cb_retain = Registered f, cb_release = Registered g, cb_destructInstance = Registered d\<rparr>" "distinct [f, g, d]" for f g d ob
      using acctD(3) [OF a(1)] that unfolding objects_ok_def a(2) o by auto
  qed
qed

theorem blocks_all_freed_witness: "calls ex_obj3 = [(1, 7), (2, 7), (3, 0x5000)] \<and>
    count_list (calls ex_obj3) (1, 7) = count_list (calls ex_obj3) (2, 7)"
proof
  show "calls ex_obj3 = [(1, 7), (2, 7), (3, 0x5000)]" by (simp add: ex_obj3_def)
  have n: "heap ex_obj3 x = None" for x by (simp add: ex_obj3_def ex_start)
  have d: "distinct [1, 2, 3 :: u64]" by simp
  show "count_list (calls ex_obj3) (1, 7) = count_list (calls ex_obj3) (2, 7)"
    by (rule blocks_all_freed [OF ex_obj_reach ex_malloc, THEN conjunct2, THEN conjunct2, rule_format, OF _ _ _ ex_cbs_def d]) (simp_all add: n)
qed

end
