(* ===== verification/PerfectHash.thy ===== *)
theory PerfectHash
  imports Prelude
begin

text \<open>
  The perfect hash generator of the shared cache's string tables (\<open>objc-shared-cache.h\<close>): the string hash, the
  scramble values, the assignment of tab values by augmenting paths and the search for a salt. Arrays are lists,
  pointers into them positions, and a list linked through \<open>nextb_k\<close> is a list of key positions. Sizes are
  natural numbers: there are at most \<open>2 ^ 31\<close> keys.
\<close>

subsection \<open>The string hash\<close>

definition mix_round :: "nat \<Rightarrow> nat \<Rightarrow> nat \<Rightarrow> u64 \<times> u64 \<times> u64 \<Rightarrow> u64 \<times> u64 \<times> u64" where
  "mix_round s t u = (\<lambda>(a, b, c).
     (let a' = (a - b - c) XOR drop_bit s c;
          b' = (b - c - a') XOR push_bit t a'
      in (a', b', (c - a' - b') XOR drop_bit u b')))"

definition mix64 :: "u64 \<times> u64 \<times> u64 \<Rightarrow> u64 \<times> u64 \<times> u64" where
  "mix64 abc = mix_round 12 18 22 (mix_round 35 49 11 (mix_round 38 23 5 (mix_round 43 9 8 abc)))"

primrec le_bytes :: "u8 list \<Rightarrow> u64" where
  "le_bytes [] = 0"
| "le_bytes (k # ks) = ucast k + push_bit 8 (le_bytes ks)"

function lookup8_blocks :: "u8 list \<Rightarrow> u64 \<times> u64 \<times> u64 \<Rightarrow> u8 list \<times> u64 \<times> u64 \<times> u64" where
  "lookup8_blocks k (a, b, c) =
     (if length k \<ge> 24
      then lookup8_blocks (drop 24 k)
        (mix64 (a + le_bytes (take 8 k), b + le_bytes (take 8 (drop 8 k)), c + le_bytes (take 8 (drop 16 k))))
      else (k, a, b, c))"
  by pat_completeness auto
termination by (relation "measure (\<lambda>(k, _). length k)") auto

declare lookup8_blocks.simps [simp del]

text \<open>The first byte of \<open>c\<close> is reserved for the length.\<close>

definition lookup8 :: "u8 list \<Rightarrow> u64 \<Rightarrow> u64" where
  "lookup8 key level =
     (let (k, a, b, c) = lookup8_blocks key (level, level, 0x9e3779b97f4a7c13);
          c1 = c + of_nat (length key)
      in snd (snd (mix64 (a + le_bytes (take 8 k), b + le_bytes (take 8 (drop 8 k)), c1 + push_bit 8 (le_bytes (drop 16 k))))))"

subsection \<open>Keys, tabs and queues\<close>

record hkey =
  name_k :: "u8 list"
  a_k :: u32
  b_k :: nat

record bstuff =
  val_b :: nat
  list_b :: "nat list"
  listlen_b :: nat
  water_b :: nat

record qstuff =
  b_q :: "nat option"
  parent_q :: nat
  newval_q :: nat
  oldval_q :: nat

definition zero_b :: bstuff where "zero_b = \<lparr>val_b = 0, list_b = [], listlen_b = 0, water_b = 0\<rparr>"
definition zero_q :: qstuff where "zero_q = \<lparr>b_q = None, parent_q = 0, newval_q = 0, oldval_q = 0\<rparr>"

record assignment =
  tabb :: "bstuff list"
  tabh :: "nat option list"
  tabq :: "qstuff list"
  tail :: nat

definition SCRAMBLE_LEN :: nat where "SCRAMBLE_LEN = 256"
definition RETRY_INITKEY :: nat where "RETRY_INITKEY = 2048"
definition RETRY_PERFECT :: nat where "RETRY_PERFECT = 4"
definition TAB_LIMIT :: nat where "TAB_LIMIT = 256"

function log2u_from :: "nat \<Rightarrow> nat \<Rightarrow> nat" where
  "log2u_from i val = (if 2 ^ i < val then log2u_from (i + 1) val else i)"
  by pat_completeness auto
termination
proof (relation "measure (\<lambda>(i, val). val - i)")
  show "((i + 1, val), (i, val)) \<in> measure (\<lambda>(i, val). val - i)" if "2 ^ i < val" for i val :: nat
    using that less_trans [OF less_exp [of i] that] by simp
qed simp

declare log2u_from.simps [simp del]

definition log2u :: "nat \<Rightarrow> nat" where "log2u val = log2u_from 0 val"

definition permute_round :: "nat \<Rightarrow> u32 \<Rightarrow> u32" where
  "permute_round nbits x0 =
     (let msk = push_bit nbits 1 - 1;
          x = (x0 + push_bit (1 + nbits div 2) x0) AND msk;
          x = x XOR drop_bit (1 + nbits div 3) x;
          x = (x + push_bit (1 + nbits div 4) x) AND msk
      in x XOR drop_bit (1 + nbits div 5) x)"

definition permute :: "u32 \<Rightarrow> nat \<Rightarrow> u32" where
  "permute x nbits = (permute_round nbits ^^ 20) x"

definition scrambleinit :: "nat \<Rightarrow> u32 list" where
  "scrambleinit smax = map (\<lambda>i. permute (of_nat i) (log2u smax)) [0..<SCRAMBLE_LEN]"

subsection \<open>The initial hash\<close>

definition initnorm :: "nat \<Rightarrow> nat \<Rightarrow> u64 \<Rightarrow> hkey list \<Rightarrow> hkey list" where
  "initnorm alen blen salt keys =
     (let loga = log2u alen
      in map (\<lambda>k. let hash = lookup8 (name_k k) salt
                   in k\<lparr>a_k := (if loga > 0 then ucast (drop_bit (64 - loga) hash) else 0),
                        b_k := (if blen > 1 then unat (hash AND of_nat (blen - 1)) else 0)\<rparr>) keys)"

definition add_key :: "hkey list \<Rightarrow> nat \<Rightarrow> bstuff list \<Rightarrow> bstuff list" where
  "add_key keys i tb =
     (let b = b_k (keys ! i)
      in tb[b := (tb ! b)\<lparr>listlen_b := listlen_b (tb ! b) + 1, list_b := i # list_b (tb ! b)\<rparr>])"

text \<open>Keys are put into the list of their \<open>b\<close> until two of them agree on \<open>a\<close> as well.\<close>

primrec inittab_loop :: "bool \<Rightarrow> hkey list \<Rightarrow> nat list \<Rightarrow> bool \<Rightarrow> bstuff list \<Rightarrow> bool \<times> bstuff list" where
  "inittab_loop complete keys [] nocollision tb = (nocollision, tb)"
| "inittab_loop complete keys (i # is) nocollision tb =
     (let collision = (\<exists>j \<in> set (list_b (tb ! b_k (keys ! i))). a_k (keys ! i) = a_k (keys ! j))
      in if collision \<and> \<not> complete then (False, tb)
         else inittab_loop complete keys is (nocollision \<and> \<not> collision) (add_key keys i tb))"

definition inittab :: "bool \<Rightarrow> hkey list \<Rightarrow> nat \<Rightarrow> bool \<times> bstuff list" where
  "inittab complete keys blen = inittab_loop complete keys [0..<length keys] True (replicate blen zero_b)"

subsection \<open>Augmenting paths\<close>

definition key_hash :: "hkey list \<Rightarrow> u32 list \<Rightarrow> nat \<Rightarrow> nat \<Rightarrow> nat" where
  "key_hash keys scramble v k = unat (a_k (keys ! k) XOR scramble ! v)"

definition erase_hashes :: "hkey list \<Rightarrow> u32 list \<Rightarrow> bstuff \<Rightarrow> nat option list \<Rightarrow> nat option list" where
  "erase_hashes keys scramble pb th =
     fold (\<lambda>k th. if th ! key_hash keys scramble (val_b pb) k = Some k then th[key_hash keys scramble (val_b pb) k := None] else th)
       (list_b pb) th"

text \<open>Entering the new hashes stops at a hash that is taken, unless rolling back.\<close>

primrec set_hashes :: "hkey list \<Rightarrow> u32 list \<Rightarrow> nat \<Rightarrow> bool \<Rightarrow> bool \<Rightarrow> nat list \<Rightarrow> nat option list \<Rightarrow> bool \<times> nat option list" where
  "set_hashes keys scramble v rollback root [] th = (True, th)"
| "set_hashes keys scramble v rollback root (k # ks) th =
     (if rollback \<and> root then set_hashes keys scramble v rollback root ks th
      else if \<not> rollback \<and> th ! key_hash keys scramble v k \<noteq> None then (False, th)
      else set_hashes keys scramble v rollback root ks (th[key_hash keys scramble v k := Some k]))"

text \<open>From a child to its parent, up to the root; \<open>None\<close> if the parents do not lead there.\<close>

function apply_walk :: "hkey list \<Rightarrow> u32 list \<Rightarrow> bool \<Rightarrow> nat \<Rightarrow> assignment \<Rightarrow> (bool \<times> assignment) option" where
  "apply_walk keys scramble rollback child st =
     (if child = 0 then Some (True, st)
      else let parent = parent_q (tabq st ! child)
           in case b_q (tabq st ! parent) of None \<Rightarrow> None
              | Some b \<Rightarrow>
                  (let pb = tabb st ! b;
                       th = erase_hashes keys scramble pb (tabh st);
                       v = (if rollback then oldval_q (tabq st ! child) else newval_q (tabq st ! child));
                       pb' = pb\<lparr>val_b := v\<rparr>;
                       (ok, th') = set_hashes keys scramble v rollback (parent = 0) (list_b pb) th;
                       st' = st\<lparr>tabb := (tabb st)[b := pb'], tabh := th'\<rparr>
                   in if \<not> ok then Some (False, st')
                      else if parent < child then apply_walk keys scramble rollback parent st' else None))"
  by pat_completeness auto
termination by (relation "measure (\<lambda>(_, _, _, child, _). child)") auto

declare apply_walk.simps [simp del]

definition apply_path :: "hkey list \<Rightarrow> u32 list \<Rightarrow> assignment \<Rightarrow> (bool \<times> assignment) option" where
  "apply_path keys scramble st =
     (case apply_walk keys scramble False (tail st - 1) st of None \<Rightarrow> None
      | Some (True, st') \<Rightarrow> Some (True, st')
      | Some (False, st') \<Rightarrow> map_option (\<lambda>(_, st''). (False, st'')) (apply_walk keys scramble True (tail st - 1) st'))"

text \<open>Which other \<open>b\<close> the keys of one hit with the value \<open>i\<close>: \<open>None\<close> if out of bounds, more than one, or seen before.\<close>

primrec scan_keys :: "hkey list \<Rightarrow> u32 list \<Rightarrow> nat \<Rightarrow> nat \<Rightarrow> assignment \<Rightarrow> nat \<Rightarrow> nat list \<Rightarrow> nat option \<Rightarrow> nat option option" where
  "scan_keys keys scramble smax highwater st i [] childb = Some childb"
| "scan_keys keys scramble smax highwater st i (k # ks) childb =
     (let hash = key_hash keys scramble i k
      in if hash \<ge> smax then None
         else case tabh st ! hash of
                None \<Rightarrow> scan_keys keys scramble smax highwater st i ks childb
              | Some childkey \<Rightarrow>
                  (let hitb = b_k (keys ! childkey)
                   in case childb of
                        Some c \<Rightarrow> if c \<noteq> hitb then None else scan_keys keys scramble smax highwater st i ks childb
                      | None \<Rightarrow> if water_b (tabb st ! hitb) = highwater then None
                                else scan_keys keys scramble smax highwater st i ks (Some hitb)))"

text \<open>A write past the end of the queue is \<open>None\<close>.\<close>

definition enqueue :: "nat option \<Rightarrow> nat \<Rightarrow> nat \<Rightarrow> nat \<Rightarrow> nat \<Rightarrow> assignment \<Rightarrow> assignment option" where
  "enqueue childb i myb q highwater st =
     (if length (tabq st) \<le> tail st then None
      else Some (st\<lparr>tabb := (case childb of None \<Rightarrow> tabb st | Some c \<Rightarrow> (tabb st)[c := (tabb st ! c)\<lparr>water_b := highwater\<rparr>]),
        tabq := (tabq st)[tail st := \<lparr>b_q = childb, parent_q = q, newval_q = i, oldval_q = val_b (tabb st ! myb)\<rparr>],
        tail := tail st + 1\<rparr>))"

text \<open>The values tried for one \<open>b\<close>; only the root of the tree is ever expanded.\<close>

primrec augment_tries :: "hkey list \<Rightarrow> u32 list \<Rightarrow> nat \<Rightarrow> nat \<Rightarrow> nat \<Rightarrow> nat list \<Rightarrow> assignment \<Rightarrow> (bool \<times> assignment) option" where
  "augment_tries keys scramble smax highwater myb [] st = Some (False, st)"
| "augment_tries keys scramble smax highwater myb (i # is) st =
     (case scan_keys keys scramble smax highwater st i (list_b (tabb st ! myb)) None of
        None \<Rightarrow> augment_tries keys scramble smax highwater myb is st
      | Some childb \<Rightarrow>
          (case enqueue childb i myb 0 highwater st of None \<Rightarrow> None
           | Some st1 \<Rightarrow>
               if childb \<noteq> None then augment_tries keys scramble smax highwater myb is st1
               else case apply_path keys scramble st1 of None \<Rightarrow> None
                    | Some (True, st2) \<Rightarrow> Some (True, st2)
                    | Some (False, st2) \<Rightarrow> augment_tries keys scramble smax highwater myb is (st2\<lparr>tail := tail st2 - 1\<rparr>)))"

definition augment :: "hkey list \<Rightarrow> u32 list \<Rightarrow> nat \<Rightarrow> nat \<Rightarrow> nat \<Rightarrow> assignment \<Rightarrow> (bool \<times> assignment) option" where
  "augment keys scramble smax item highwater st =
     augment_tries keys scramble smax highwater item [0..<TAB_LIMIT]
       (st\<lparr>tabq := (tabq st)[0 := (tabq st ! 0)\<lparr>b_q := Some item\<rparr>], tail := 1\<rparr>)"

primrec perfect_tries :: "hkey list \<Rightarrow> u32 list \<Rightarrow> nat \<Rightarrow> nat list \<Rightarrow> assignment \<Rightarrow> (bool \<times> assignment) option" where
  "perfect_tries keys scramble smax [] st = Some (True, st)"
| "perfect_tries keys scramble smax (i # is) st =
     (case augment keys scramble smax i (i + 1) st of None \<Rightarrow> None
      | Some (False, st') \<Rightarrow> Some (False, st')
      | Some (True, st') \<Rightarrow> perfect_tries keys scramble smax is st')"

text \<open>The \<open>b\<close>s in descending order by number of keys.\<close>

definition by_size :: "bstuff list \<Rightarrow> nat list" where
  "by_size tb = concat (map (\<lambda>j. filter (\<lambda>i. listlen_b (tb ! i) = j) [0..<length tb]) (rev [1..<Suc (fold max (map listlen_b tb) 0)]))"

definition perfect :: "hkey list \<Rightarrow> u32 list \<Rightarrow> nat \<Rightarrow> bstuff list \<Rightarrow> (bool \<times> bstuff list) option" where
  "perfect keys scramble smax tb =
     map_option (\<lambda>(ok, st). (ok, tabb st))
       (perfect_tries keys scramble smax (by_size tb)
          \<lparr>tabb = tb, tabh = replicate smax None, tabq = replicate (length tb + 1) zero_q, tail = 0\<rparr>)"

subsection \<open>The search for a salt\<close>

text \<open>\<open>smax * 0.6\<close> and \<open>smax * 0.8\<close> are products of a power of two with doubles just below \<open>3 / 5\<close> and above \<open>4 / 5\<close>.\<close>

definition initalen :: "nat \<Rightarrow> nat \<Rightarrow> nat \<times> nat" where
  "initalen smax nkeys =
     (max 1 smax, max 1 (if 5 * nkeys \<le> 3 * smax then smax div 16 else if 5 * nkeys \<le> 4 * smax then smax div 8 else smax div 4))"

definition golden :: u64 where "golden = 0x9e3779b97f4a7c13"

text \<open>One salt: two keys agree, or the assignment fails or succeeds.\<close>

datatype attempt = Colliding | Imperfect "bstuff list" | Perfect "bstuff list"

definition salt_of :: "u32 \<Rightarrow> u64" where "salt_of si = ucast si * golden"

definition attempt_salt :: "u32 list \<Rightarrow> nat \<Rightarrow> hkey list \<Rightarrow> nat \<Rightarrow> nat \<Rightarrow> u32 \<Rightarrow> attempt option" where
  "attempt_salt scramble smax keys alen blen si =
     (let ks = initnorm alen blen (salt_of si) keys
      in if \<not> fst (inittab False ks blen) then Some Colliding
         else map_option (\<lambda>(ok, tb). if ok then Perfect tb else Imperfect tb) (perfect ks scramble smax (snd (inittab False ks blen))))"

text \<open>Whether a perfect hash was found, the range of \<open>a\<close>, the salt and the tabs; \<open>None\<close> if the search does not end.\<close>

partial_function (option) findhash_loop ::
    "u32 list \<Rightarrow> nat \<Rightarrow> hkey list \<Rightarrow> nat \<Rightarrow> nat \<Rightarrow> u32 \<Rightarrow> nat \<Rightarrow> nat \<Rightarrow> (bool \<times> nat \<times> u64 \<times> bstuff list) option" where
  "findhash_loop scramble smax keys alen blen si bad_initkey bad_perfect =
     (case attempt_salt scramble smax keys alen blen si of
        None \<Rightarrow> None
      | Some r \<Rightarrow>
          (case r of
             Colliding \<Rightarrow>
               (if bad_initkey + 1 \<ge> RETRY_INITKEY then
                  (if alen < smax then findhash_loop scramble smax keys (alen * 2) blen (si + 1) 0 0
                   else if blen < smax then findhash_loop scramble smax keys alen (blen * 2) (si + 1) 0 0
                   else findhash_loop scramble smax keys alen blen (si + 1) 0 0)
                else findhash_loop scramble smax keys alen blen (si + 1) (bad_initkey + 1) bad_perfect)
           | Perfect tb \<Rightarrow> Some (True, alen, salt_of si, tb)
           | Imperfect tb \<Rightarrow>
               (if bad_perfect + 1 \<ge> RETRY_PERFECT then
                  (if blen < smax then findhash_loop scramble smax keys alen (blen * 2) si bad_initkey 0
                   else Some (False, alen, salt_of si, tb))
                else findhash_loop scramble smax keys alen blen (si + 1) bad_initkey (bad_perfect + 1))))"

definition findhash :: "nat \<Rightarrow> hkey list \<Rightarrow> (bool \<times> nat \<times> u64 \<times> bstuff list) option" where
  "findhash smax keys =
     (let (alen, blen) = initalen smax (length keys)
      in findhash_loop (scrambleinit smax) smax keys alen blen 1 0 0)"

record perfect_hash =
  ph_capacity :: nat
  ph_occupied :: nat
  ph_shift :: nat
  ph_mask :: u32
  ph_salt :: u64
  ph_scramble :: "u32 list"
  ph_tab :: "u8 list"

definition zero_hash :: perfect_hash where
  "zero_hash = \<lparr>ph_capacity = 0, ph_occupied = 0, ph_shift = 0, ph_mask = 0, ph_salt = 0, ph_scramble = replicate 256 0, ph_tab = []\<rparr>"

definition hash_result :: "nat \<Rightarrow> nat \<Rightarrow> nat \<times> u64 \<times> bstuff list \<Rightarrow> perfect_hash" where
  "hash_result smax nkeys = (\<lambda>(alen, salt, tb).
     \<lparr>ph_capacity = smax, ph_occupied = nkeys, ph_shift = 64 - log2u alen, ph_mask = of_nat (length tb) - 1, ph_salt = salt,
      ph_scramble = scrambleinit smax, ph_tab = map (\<lambda>b. of_nat (val_b b)) tb\<rparr>)"

definition make_key :: "u8 list \<Rightarrow> hkey" where "make_key s = \<lparr>name_k = s, a_k = 0, b_k = 0\<rparr>"

text \<open>Two attempts, the second with twice the range.\<close>

definition make_perfect :: "u8 list list \<Rightarrow> perfect_hash option" where
  "make_perfect strings =
     (let keys = map make_key strings; smax = 2 ^ log2u (length strings)
      in case findhash smax keys of None \<Rightarrow> None
         | Some (True, r) \<Rightarrow> Some (hash_result smax (length keys) r)
         | Some (False, _) \<Rightarrow>
             (case findhash (2 * smax) keys of None \<Rightarrow> None
              | Some (True, r) \<Rightarrow> Some (hash_result (2 * smax) (length keys) r)
              | Some (False, _) \<Rightarrow> Some zero_hash))"

end
