(* ===== verification/PerfectHashOk.thy ===== *)
theory PerfectHashOk
  imports PerfectHash
begin

text \<open>
  Why the generated hash is perfect: distinct \<open>(a, b)\<close> pairs from the salt, hash slots owned by at most one key
  throughout the assignment, and a queue that stays inside its array. The roll back of an augmenting path is
  never needed.
\<close>

subsection \<open>Ranges\<close>

lemma log2u_from_pow: "i \<le> l \<Longrightarrow> log2u_from i (2 ^ l) = l"
proof (induction "l - i" arbitrary: i)
  case (Suc m)
  then have "i < l" "m = l - (i + 1)" by simp_all
  then show ?case using Suc.hyps(1) [of "i + 1"] by (subst log2u_from.simps) simp
next
  case 0
  then show ?case by (subst log2u_from.simps) simp
qed

lemma log2u_pow [simp]: "log2u (2 ^ l) = l"
  by (simp add: log2u_def log2u_from_pow)

lemma log2u_from_covers: "val \<le> 2 ^ log2u_from i val"
proof (induction i val rule: log2u_from.induct)
  case (1 i val)
  then show ?case by (subst log2u_from.simps) simp
qed

lemma log2u_covers: "val \<le> 2 ^ log2u val"
  by (simp add: log2u_def log2u_from_covers)

lemma take_bit_xor_shift: "take_bit n (take_bit n x XOR drop_bit k (take_bit n x)) = take_bit n x XOR drop_bit k (take_bit n x)" for x :: u32
  by (rule bit_word_eqI) (auto simp: bit_simps)

lemma and_ones: "x AND (push_bit n 1 - 1) = take_bit n x" for x :: u32
  by (metis and.commute push_bit_of_1 mask_eq_exp_minus_1 take_bit_eq_mask)

lemma permute_round_range: "take_bit n (permute_round n x) = permute_round n x"
  unfolding permute_round_def Let_def and_ones by (rule take_bit_xor_shift)

lemma permute_range: "take_bit n (permute x n) = permute x n"
proof -
  have "permute x n = permute_round n ((permute_round n ^^ 19) x)" unfolding permute_def by (simp add: numeral_eq_Suc)
  then show ?thesis using permute_round_range by metis
qed

lemma permute_0 [simp]: "permute 0 n = 0"
proof -
  have "permute_round n 0 = 0" by (simp add: permute_round_def)
  then have "(permute_round n ^^ m) 0 = 0" for m by (induction m) auto
  then show ?thesis by (simp add: permute_def)
qed

definition in_range :: "nat \<Rightarrow> u32 list \<Rightarrow> bool" where
  "in_range l scramble \<longleftrightarrow> length scramble = TAB_LIMIT \<and> (\<forall>s \<in> set scramble. take_bit l s = s)"

lemma scrambleinit_in_range: "in_range l (scrambleinit (2 ^ l))"
  by (auto simp: in_range_def scrambleinit_def SCRAMBLE_LEN_def TAB_LIMIT_def permute_range)

lemma scrambleinit_0: "scrambleinit smax ! 0 = 0"
  by (simp add: scrambleinit_def SCRAMBLE_LEN_def)

lemma key_hash_less:
  assumes "in_range l scramble" "take_bit l (a_k (keys ! k)) = a_k (keys ! k)" "v < TAB_LIMIT"
  shows "key_hash keys scramble v k < 2 ^ l"
proof -
  have s: "take_bit l (scramble ! v) = scramble ! v" using assms(1,3) by (simp add: in_range_def)
  have "take_bit l (a_k (keys ! k) XOR scramble ! v) = a_k (keys ! k) XOR scramble ! v" using assms(2) s by (simp add: take_bit_xor)
  then have "unat (a_k (keys ! k) XOR scramble ! v) = unat (a_k (keys ! k) XOR scramble ! v) mod 2 ^ l" by (metis unat_take_bit)
  then show ?thesis unfolding key_hash_def by (metis mod_less_divisor zero_less_numeral zero_less_power)
qed

lemma key_hash_inj: "key_hash keys scramble v k = key_hash keys scramble v j \<Longrightarrow> a_k (keys ! k) = a_k (keys ! j)"
proof -
  assume "key_hash keys scramble v k = key_hash keys scramble v j"
  then have "a_k (keys ! k) XOR scramble ! v = a_k (keys ! j) XOR scramble ! v" unfolding key_hash_def by (rule word_unat_eq_iff [THEN iffD2])
  then have "(a_k (keys ! k) XOR scramble ! v) XOR scramble ! v = (a_k (keys ! j) XOR scramble ! v) XOR scramble ! v" by simp
  then show ?thesis by (simp add: xor.assoc)
qed

subsection \<open>Distinct pairs\<close>

text \<open>Hashed keys: every pair in range, and the lists by \<open>b\<close>.\<close>

definition keys_ok :: "nat \<Rightarrow> nat \<Rightarrow> hkey list \<Rightarrow> bool" where
  "keys_ok l blen keys \<longleftrightarrow> (\<forall>k \<in> set keys. take_bit l (a_k k) = a_k k \<and> b_k k < blen)"

lemma keys_okD: "keys_ok l blen keys \<Longrightarrow> k < length keys \<Longrightarrow> take_bit l (a_k (keys ! k)) = a_k (keys ! k) \<and> b_k (keys ! k) < blen"
  by (simp add: keys_ok_def)

definition apart_keys :: "hkey list \<Rightarrow> bool" where
  "apart_keys keys \<longleftrightarrow> (\<forall>i < length keys. \<forall>j < length keys. a_k (keys ! i) = a_k (keys ! j) \<and> b_k (keys ! i) = b_k (keys ! j) \<longrightarrow> i = j)"

definition lists_ok :: "hkey list \<Rightarrow> nat \<Rightarrow> bstuff list \<Rightarrow> bool" where
  "lists_ok keys n tb \<longleftrightarrow> (\<forall>b < length tb. set (list_b (tb ! b)) = {k. k < n \<and> b_k (keys ! k) = b} \<and> distinct (list_b (tb ! b)) \<and>
     listlen_b (tb ! b) = length (list_b (tb ! b)) \<and> val_b (tb ! b) = 0 \<and> water_b (tb ! b) = 0)"

lemma ucast_drop_range: "l \<le> 32 \<Longrightarrow> take_bit l (ucast (drop_bit (64 - l) (h :: u64)) :: u32) = ucast (drop_bit (64 - l) h)"
  by (rule bit_word_eqI) (auto simp: bit_simps dest: bit_imp_le_length)

lemma initnorm_ok:
  assumes "l \<le> 32" "0 < blen" "blen \<le> 2 ^ 32"
  shows "keys_ok l blen (initnorm (2 ^ l) blen salt keys)" "length (initnorm (2 ^ l) blen salt keys) = length keys"
proof -
  have "unat (h AND of_nat (blen - 1)) < blen" if "1 < blen" for h :: u64
  proof -
    have "unat (h AND of_nat (blen - 1)) \<le> unat (of_nat (blen - 1) :: u64)" by (metis word_and_le1 word_le_nat_alt)
    also have "\<dots> = blen - 1" using assms(3) by (simp add: unat_of_nat take_bit_eq_mod)
    finally show ?thesis using that by simp
  qed
  then show "keys_ok l blen (initnorm (2 ^ l) blen salt keys)"
    using assms(1,2) ucast_drop_range [OF assms(1)] by (auto simp: keys_ok_def initnorm_def Let_def)
  show "length (initnorm (2 ^ l) blen salt keys) = length keys" by (simp add: initnorm_def Let_def)
qed

lemma add_key_lists:
  assumes "lists_ok keys n tb" "b_k (keys ! n) < length tb"
  shows "lists_ok keys (Suc n) (add_key keys n tb)"
  unfolding lists_ok_def
proof (intro allI impI)
  fix b assume b: "b < length (add_key keys n tb)"
  then have l: "b < length tb" by (simp add: add_key_def Let_def)
  have o: "set (list_b (tb ! b)) = {k. k < n \<and> b_k (keys ! k) = b} \<and> distinct (list_b (tb ! b)) \<and>
     listlen_b (tb ! b) = length (list_b (tb ! b)) \<and> val_b (tb ! b) = 0 \<and> water_b (tb ! b) = 0" using assms(1) l by (simp add: lists_ok_def)
  show "set (list_b (add_key keys n tb ! b)) = {k. k < Suc n \<and> b_k (keys ! k) = b} \<and> distinct (list_b (add_key keys n tb ! b)) \<and>
     listlen_b (add_key keys n tb ! b) = length (list_b (add_key keys n tb ! b)) \<and> val_b (add_key keys n tb ! b) = 0 \<and> water_b (add_key keys n tb ! b) = 0"
    using o l by (cases "b = b_k (keys ! n)") (auto simp: add_key_def Let_def less_Suc_eq)
qed

definition apart_upto :: "hkey list \<Rightarrow> nat \<Rightarrow> bool" where
  "apart_upto keys n \<longleftrightarrow> (\<forall>i < n. \<forall>j < n. a_k (keys ! i) = a_k (keys ! j) \<and> b_k (keys ! i) = b_k (keys ! j) \<longrightarrow> i = j)"

lemma inittab_loop_ok:
  assumes "inittab_loop False keys [n..<length keys] True tb = (True, tb')" "lists_ok keys n tb" "apart_upto keys n"
    "\<forall>k < length keys. b_k (keys ! k) < length tb" "n \<le> length keys"
  shows "lists_ok keys (length keys) tb' \<and> apart_upto keys (length keys) \<and> length tb' = length tb"
  using assms
proof (induction "length keys - n" arbitrary: n tb)
  case 0
  then show ?case by simp
next
  case (Suc m)
  then have lt: "n < length keys" by simp
  then have u: "[n..<length keys] = n # [Suc n..<length keys]" by (simp add: upt_conv_Cons)
  have b: "b_k (keys ! n) < length tb" using Suc.prems(4) lt by simp
  have s: "set (list_b (tb ! b_k (keys ! n))) = {k. k < n \<and> b_k (keys ! k) = b_k (keys ! n)}"
    using Suc.prems(2) b by (simp add: lists_ok_def)
  define collision where "collision = (\<exists>j \<in> set (list_b (tb ! b_k (keys ! n))). a_k (keys ! n) = a_k (keys ! j))"
  have e: "(if collision then (False, tb) else inittab_loop False keys [Suc n..<length keys] (\<not> collision) (add_key keys n tb)) = (True, tb')"
    using Suc.prems(1) unfolding u by (simp add: Let_def collision_def cong: if_cong)
  then have nc: "\<not> collision" by (cases collision) simp_all
  then have r: "inittab_loop False keys [Suc n..<length keys] True (add_key keys n tb) = (True, tb')" using e by simp
  have new: "a_k (keys ! n) \<noteq> a_k (keys ! j)" if "j < n" "b_k (keys ! j) = b_k (keys ! n)" for j
  proof -
    have "j \<in> set (list_b (tb ! b_k (keys ! n)))" using s that by blast
    then show ?thesis using nc unfolding collision_def by blast
  qed
  have "apart_upto keys (Suc n)"
    unfolding apart_upto_def
  proof (intro allI impI)
    fix i j assume "i < Suc n" "j < Suc n" "a_k (keys ! i) = a_k (keys ! j) \<and> b_k (keys ! i) = b_k (keys ! j)"
    then show "i = j" using new [of i] new [of j] Suc.prems(3) unfolding apart_upto_def by (metis less_SucE)
  qed
  moreover have "length (add_key keys n tb) = length tb" by (simp add: add_key_def Let_def)
  ultimately show ?case using Suc.hyps(1) [OF _ r add_key_lists [OF Suc.prems(2) b]] Suc.hyps(2) Suc.prems(4) lt by simp
qed

lemma inittab_ok:
  assumes "keys_ok l blen keys" "inittab False keys blen = (True, tb)"
  shows "lists_ok keys (length keys) tb \<and> apart_keys keys \<and> length tb = blen"
proof -
  have "lists_ok keys 0 (replicate blen zero_b)" by (simp add: lists_ok_def zero_b_def)
  moreover have "\<forall>k < length keys. b_k (keys ! k) < length (replicate blen zero_b)" using assms(1) by (simp add: keys_ok_def)
  ultimately show ?thesis
    using inittab_loop_ok [of keys 0 "replicate blen zero_b" tb] assms(2)
    by (auto simp: inittab_def apart_upto_def apart_keys_def)
qed

subsection \<open>The assignment\<close>

lemma scan_keys_free:
  "scan_keys keys scramble smax hw st i ks childb = Some None \<Longrightarrow>
     childb = None \<and> (\<forall>k \<in> set ks. key_hash keys scramble i k < smax \<and> tabh st ! key_hash keys scramble i k = None)"
proof (induction ks arbitrary: childb)
  case (Cons k ks)
  then show ?case by (auto simp: Let_def split: if_splits option.splits)
qed simp

lemma scan_keys_child:
  "scan_keys keys scramble smax hw st i ks childb = Some (Some c) \<Longrightarrow>
     childb = Some c \<or> water_b (tabb st ! c) \<noteq> hw \<and> (\<exists>h < smax. \<exists>ck. tabh st ! h = Some ck \<and> c = b_k (keys ! ck))"
proof (induction ks arbitrary: childb)
  case (Cons k ks)
  let ?h = "key_hash keys scramble i k"
  have lt: "?h < smax" using Cons.prems by (auto simp: Let_def split: if_splits)
  show ?case
  proof (cases "tabh st ! ?h")
    case None
    then show ?thesis using Cons lt by (simp add: Let_def)
  next
    case (Some ck)
    show ?thesis
    proof (cases childb)
      case None
      then have "water_b (tabb st ! b_k (keys ! ck)) \<noteq> hw" "scan_keys keys scramble smax hw st i ks (Some (b_k (keys ! ck))) = Some (Some c)"
        using Cons.prems Some lt by (auto simp: Let_def split: if_splits)
      then show ?thesis using Cons.IH Some lt by blast
    next
      case (Some c')
      then show ?thesis using Cons \<open>tabh st ! ?h = Some ck\<close> lt by (auto simp: Let_def split: if_splits)
    qed
  qed
qed simp

lemma erase_hashes_none:
  assumes "\<forall>k \<in> set (list_b pb). th ! key_hash keys scramble (val_b pb) k \<noteq> Some k"
  shows "erase_hashes keys scramble pb th = th"
proof -
  have "fold (\<lambda>k th. if th ! key_hash keys scramble v k = Some k then th[key_hash keys scramble v k := None] else th) ks th = th"
    if "\<forall>k \<in> set ks. th ! key_hash keys scramble v k \<noteq> Some k" for ks v
    using that by (induction ks) auto
  then show ?thesis using assms by (simp add: erase_hashes_def)
qed

lemma set_hashes_ok:
  assumes "distinct ks" "inj_on (key_hash keys scramble v) (set ks)" "\<forall>k \<in> set ks. key_hash keys scramble v k < length th \<and> th ! key_hash keys scramble v k = None"
  shows "\<exists>th'. set_hashes keys scramble v False root ks th = (True, th') \<and> length th' = length th \<and>
    (\<forall>h < length th. \<forall>k. th' ! h = Some k \<longleftrightarrow> th ! h = Some k \<or> k \<in> set ks \<and> key_hash keys scramble v k = h)"
  using assms
proof (induction ks arbitrary: th)
  case (Cons x ks)
  let ?h = "key_hash keys scramble v" and ?th = "th[key_hash keys scramble v x := Some x]"
  have ne: "?h k \<noteq> ?h x" if "k \<in> set ks" for k using Cons.prems(1,2) that by (auto simp: inj_on_def)
  have "distinct ks" "inj_on ?h (set ks)" "\<forall>k \<in> set ks. ?h k < length ?th \<and> ?th ! ?h k = None"
    using Cons.prems ne by (auto simp: inj_on_def)
  from Cons.IH [OF this] obtain th' where
    i: "set_hashes keys scramble v False root ks ?th = (True, th')" "length th' = length ?th"
      "\<forall>h < length ?th. \<forall>k. th' ! h = Some k \<longleftrightarrow> ?th ! h = Some k \<or> k \<in> set ks \<and> ?h k = h" by blast
  have x: "?h x < length th" "th ! ?h x = None" using Cons.prems(3) by auto
  have "th' ! h = Some k \<longleftrightarrow> th ! h = Some k \<or> k \<in> set (x # ks) \<and> ?h k = h" if "h < length th" for h k
    using i(3) that x ne by (cases "h = ?h x") auto
  then show ?case using i(1,2) x by auto
qed simp

text \<open>The keys of the \<open>b\<close>s in \<open>D\<close>, and no others, own their hash slots.\<close>

definition owner :: "hkey list \<Rightarrow> u32 list \<Rightarrow> bstuff list \<Rightarrow> nat set \<Rightarrow> nat \<Rightarrow> nat \<Rightarrow> bool" where
  "owner keys scramble tb D h k \<longleftrightarrow> k < length keys \<and> b_k (keys ! k) \<in> D \<and> key_hash keys scramble (val_b (tb ! b_k (keys ! k))) k = h"

definition work_ok :: "hkey list \<Rightarrow> u32 list \<Rightarrow> nat \<Rightarrow> nat \<Rightarrow> nat set \<Rightarrow> nat set \<Rightarrow> assignment \<Rightarrow> bool" where
  "work_ok keys scramble l blen D W st \<longleftrightarrow>
     length (tabh st) = 2 ^ l \<and> length (tabq st) = blen + 1 \<and> length (tabb st) = blen \<and> D \<subseteq> {..<blen} \<and>
     (\<forall>b < blen. set (list_b (tabb st ! b)) = {k. k < length keys \<and> b_k (keys ! k) = b} \<and> distinct (list_b (tabb st ! b)) \<and>
        val_b (tabb st ! b) < TAB_LIMIT \<and> water_b (tabb st ! b) \<in> insert 0 (Suc ` W)) \<and>
     (\<forall>h < 2 ^ l. \<forall>k. tabh st ! h = Some k \<longleftrightarrow> owner keys scramble (tabb st) D h k)"

lemma work_okD:
  assumes "work_ok keys scramble l blen D W st" "b < blen"
  shows "set (list_b (tabb st ! b)) = {k. k < length keys \<and> b_k (keys ! k) = b}" "distinct (list_b (tabb st ! b))"
    "val_b (tabb st ! b) < TAB_LIMIT" "water_b (tabb st ! b) \<in> insert 0 (Suc ` W)"
  using assms by (simp_all add: work_ok_def)

lemma apply_root:
  assumes ok: "work_ok keys scramble l blen D W st" and ks: "keys_ok l blen keys" "apart_keys keys" "in_range l scramble"
    and r: "root < blen" "root \<notin> D" and q: "t = tail st - 1" "t \<noteq> 0" "parent_q (tabq st ! t) = 0" "b_q (tabq st ! 0) = Some root"
      "newval_q (tabq st ! t) = i" "i < TAB_LIMIT"
    and free: "\<forall>k \<in> set (list_b (tabb st ! root)). key_hash keys scramble i k < 2 ^ l \<and> tabh st ! key_hash keys scramble i k = None"
  shows "\<exists>st'. apply_path keys scramble st = Some (True, st') \<and> work_ok keys scramble l blen (insert root D) W st'"
proof -
  let ?pb = "tabb st ! root" and ?h = "key_hash keys scramble i"
  have l: "length (tabh st) = 2 ^ l" "length (tabb st) = blen" "length (tabq st) = blen + 1" using ok by (simp_all add: work_ok_def)
  note w = work_okD [OF ok r(1)]
  have own: "\<And>h k. h < 2 ^ l \<Longrightarrow> tabh st ! h = Some k \<longleftrightarrow> owner keys scramble (tabb st) D h k" using ok by (simp add: work_ok_def)
  have not_root: "tabh st ! key_hash keys scramble (val_b ?pb) k \<noteq> Some k" if "k \<in> set (list_b ?pb)" for k
  proof -
    have "k < length keys" "b_k (keys ! k) = root" using that w(1) by auto
    moreover have "key_hash keys scramble (val_b ?pb) k < 2 ^ l"
      by (rule key_hash_less [OF ks(3) _ w(3)]) (use keys_okD [OF ks(1)] calculation in auto)
    ultimately show ?thesis using own r(2) by (auto simp: owner_def)
  qed
  have e: "erase_hashes keys scramble ?pb (tabh st) = tabh st" by (rule erase_hashes_none) (use not_root in blast)
  have inj: "inj_on ?h (set (list_b ?pb))"
  proof (rule inj_onI)
    fix x y assume "x \<in> set (list_b ?pb)" "y \<in> set (list_b ?pb)" "?h x = ?h y"
    then show "x = y" using key_hash_inj [of keys scramble i x y] w(1) ks(2) unfolding apart_keys_def by auto
  qed
  from set_hashes_ok [OF w(2) inj, of "tabh st" True] free l(1) obtain th' where
    s: "set_hashes keys scramble i False True (list_b ?pb) (tabh st) = (True, th')" "length th' = 2 ^ l"
      "\<forall>h < 2 ^ l. \<forall>k. th' ! h = Some k \<longleftrightarrow> tabh st ! h = Some k \<or> k \<in> set (list_b ?pb) \<and> ?h k = h" by auto
  let ?st' = "st\<lparr>tabb := (tabb st)[root := ?pb\<lparr>val_b := i\<rparr>], tabh := th'\<rparr>"
  have "apply_walk keys scramble False t st = apply_walk keys scramble False 0 ?st'"
    using q e s(1) by (subst apply_walk.simps) (simp add: Let_def)
  also have "\<dots> = Some (True, ?st')" by (subst apply_walk.simps) simp
  finally have a: "apply_path keys scramble st = Some (True, ?st')" using q(1) by (simp add: apply_path_def)
  have "th' ! h = Some k \<longleftrightarrow> owner keys scramble (tabb ?st') (insert root D) h k" if "h < 2 ^ l" for h k
  proof -
    have "th' ! h = Some k \<longleftrightarrow> owner keys scramble (tabb st) D h k \<or> k < length keys \<and> b_k (keys ! k) = root \<and> ?h k = h"
      using s(3) that own w(1) by auto
    also have "\<dots> \<longleftrightarrow> owner keys scramble (tabb ?st') (insert root D) h k"
      using r l(2) by (cases "b_k (keys ! k) = root") (auto simp: owner_def)
    finally show ?thesis .
  qed
  moreover have "list_b (tabb ?st' ! b) = list_b (tabb st ! b)" "val_b (tabb ?st' ! b) < TAB_LIMIT" "water_b (tabb ?st' ! b) = water_b (tabb st ! b)"
    if "b < blen" for b using that l(2) work_okD(3) [OF ok that] q(6) by (cases "b = root"; simp)+
  ultimately have "work_ok keys scramble l blen (insert root D) W ?st'"
    using ok s(2) r(1) unfolding work_ok_def by simp
  then show ?thesis using a by blast
qed

text \<open>The queue holds the root and the \<open>b\<close>s marked for it, each once, so it has room for one more entry.\<close>

definition marked :: "nat \<Rightarrow> nat \<Rightarrow> assignment \<Rightarrow> nat set" where
  "marked blen item st = {b. b < blen \<and> water_b (tabb st ! b) = Suc item}"

definition try_ok :: "nat \<Rightarrow> nat \<Rightarrow> assignment \<Rightarrow> bool" where
  "try_ok blen item st \<longleftrightarrow> b_q (tabq st ! 0) = Some item \<and> item \<notin> marked blen item st \<and> tail st = Suc (card (marked blen item st))"

lemma tail_fits:
  assumes "try_ok blen item st" "item < blen"
  shows "tail st \<le> blen"
proof -
  have "marked blen item st \<subseteq> {..<blen} - {item}" using assms(1) by (auto simp: try_ok_def marked_def)
  then have "card (marked blen item st) \<le> card ({..<blen} - {item})" by (intro card_mono) auto
  then show ?thesis using assms by (simp add: try_ok_def)
qed

lemma augment_tries_ok:
  assumes "work_ok keys scramble l blen D (insert item W) st" "try_ok blen item st"
    and ks: "keys_ok l blen keys" "apart_keys keys" "in_range l scramble" and r: "item < blen" "item \<notin> D" and i: "\<forall>i \<in> set is. i < TAB_LIMIT"
  shows "\<exists>ok st'. augment_tries keys scramble (2 ^ l) (Suc item) item is st = Some (ok, st') \<and>
    (ok \<longrightarrow> work_ok keys scramble l blen (insert item D) (insert item W) st')"
  using assms(1,2) i
proof (induction "is" arbitrary: st)
  case (Cons i "is")
  note ok = Cons.prems(1) and tr = Cons.prems(2)
  have li: "i < TAB_LIMIT" "\<forall>i \<in> set is. i < TAB_LIMIT" using Cons.prems(3) by auto
  have l: "length (tabb st) = blen" "length (tabq st) = blen + 1" using ok by (simp_all add: work_ok_def)
  have fits: "tail st < length (tabq st)" using tail_fits [OF tr r(1)] l(2) by simp
  define sc where "sc = scan_keys keys scramble (2 ^ l) (Suc item) st i (list_b (tabb st ! item)) None"
  consider (skip) "sc = None" | (child) c where "sc = Some (Some c)" | (free) "sc = Some None" by (cases sc; cases "the sc") auto
  then show ?case
  proof cases
    case skip
    then show ?thesis using Cons.IH [OF ok tr li(2)] by (simp add: sc_def)
  next
    case (child c)
    then have c: "water_b (tabb st ! c) \<noteq> Suc item" "\<exists>h < 2 ^ l. \<exists>ck. tabh st ! h = Some ck \<and> c = b_k (keys ! ck)"
      using scan_keys_child [of keys scramble "2 ^ l" "Suc item" st i "list_b (tabb st ! item)" None c] by (auto simp: sc_def)
    have cD: "c \<in> D" "c < blen"
    proof -
      obtain h ck where "h < 2 ^ l" "tabh st ! h = Some ck" "c = b_k (keys ! ck)" using c(2) by blast
      then show "c \<in> D" using ok by (auto simp: work_ok_def owner_def)
      then show "c < blen" using ok by (auto simp: work_ok_def)
    qed
    let ?st1 = "st\<lparr>tabb := (tabb st)[c := (tabb st ! c)\<lparr>water_b := Suc item\<rparr>],
        tabq := (tabq st)[tail st := \<lparr>b_q = Some c, parent_q = 0, newval_q = i, oldval_q = val_b (tabb st ! item)\<rparr>], tail := tail st + 1\<rparr>"
    have e: "enqueue (Some c) i item 0 (Suc item) st = Some ?st1" using fits by (simp add: enqueue_def)
    have same: "list_b (tabb ?st1 ! b) = list_b (tabb st ! b)" "val_b (tabb ?st1 ! b) = val_b (tabb st ! b)"
      "water_b (tabb ?st1 ! b) \<in> insert 0 (Suc ` insert item W)" if "b < blen" for b
      using that l(1) work_okD(4) [OF ok that] by (cases "b = c"; simp)+
    have "owner keys scramble (tabb ?st1) D h k = owner keys scramble (tabb st) D h k" for h k
      using l(1) ok by (cases "b_k (keys ! k) = c") (auto simp: owner_def work_ok_def)
    then have w1: "work_ok keys scramble l blen D (insert item W) ?st1" using ok same by (simp add: work_ok_def)
    have "marked blen item ?st1 = insert c (marked blen item st)" using cD(2) l(1) by (auto simp: marked_def nth_list_update)
    moreover have "c \<notin> marked blen item st" "finite (marked blen item st)" using c(1) by (auto simp: marked_def)
    moreover have "tail st \<noteq> 0" "c \<noteq> item" using tr r(2) cD(1) by (auto simp: try_ok_def)
    ultimately have "try_ok blen item ?st1" using tr by (simp add: try_ok_def)
    from Cons.IH [OF w1 this li(2)] show ?thesis using child e by (simp add: sc_def)
  next
    case free
    then have f: "\<forall>k \<in> set (list_b (tabb st ! item)). key_hash keys scramble i k < 2 ^ l \<and> tabh st ! key_hash keys scramble i k = None"
      using scan_keys_free [of keys scramble "2 ^ l" "Suc item" st i "list_b (tabb st ! item)" None] by (simp add: sc_def)
    let ?st1 = "st\<lparr>tabq := (tabq st)[tail st := \<lparr>b_q = None, parent_q = 0, newval_q = i, oldval_q = val_b (tabb st ! item)\<rparr>], tail := tail st + 1\<rparr>"
    have e: "enqueue None i item 0 (Suc item) st = Some ?st1" using fits by (simp add: enqueue_def)
    have w1: "work_ok keys scramble l blen D (insert item W) ?st1" using ok by (simp add: work_ok_def)
    have "0 < tail st" using tr by (simp add: try_ok_def)
    then have "\<exists>st'. apply_path keys scramble ?st1 = Some (True, st') \<and> work_ok keys scramble l blen (insert item D) (insert item W) st'"
      by (intro apply_root [OF w1 ks r refl]) (use fits f tr li(1) in \<open>simp_all add: try_ok_def\<close>)
    then show ?thesis using free e by (auto simp: sc_def)
  qed
next
  case Nil
  have "augment_tries keys scramble (2 ^ l) (Suc item) item [] st = Some (False, st)" by simp
  then show ?case by blast
qed

lemma augment_ok:
  assumes "work_ok keys scramble l blen D W st" "keys_ok l blen keys" "apart_keys keys" "in_range l scramble" "item < blen" "item \<notin> D" "item \<notin> W"
  shows "\<exists>ok st'. augment keys scramble (2 ^ l) item (item + 1) st = Some (ok, st') \<and>
    (ok \<longrightarrow> work_ok keys scramble l blen (insert item D) (insert item W) st')"
proof -
  let ?st1 = "st\<lparr>tabq := (tabq st)[0 := (tabq st ! 0)\<lparr>b_q := Some item\<rparr>], tail := 1\<rparr>"
  have w1: "work_ok keys scramble l blen D (insert item W) ?st1" using assms(1) by (auto simp: work_ok_def)
  have "marked blen item ?st1 = {}" using assms(1,7) by (auto simp: marked_def work_ok_def)
  then have "try_ok blen item ?st1" using assms(1) by (simp add: try_ok_def work_ok_def)
  from augment_tries_ok [OF w1 this assms(2-6)] show ?thesis by (simp add: augment_def)
qed

lemma perfect_tries_ok:
  assumes "work_ok keys scramble l blen D D st" "keys_ok l blen keys" "apart_keys keys" "in_range l scramble"
    "distinct is" "set is \<subseteq> {..<blen}" "D \<inter> set is = {}"
  shows "\<exists>ok st'. perfect_tries keys scramble (2 ^ l) is st = Some (ok, st') \<and> (ok \<longrightarrow> work_ok keys scramble l blen (D \<union> set is) (D \<union> set is) st')"
  using assms(1,5-)
proof (induction "is" arbitrary: D st)
  case (Cons i "is")
  have i: "i < blen" "i \<notin> D" using Cons.prems by auto
  from augment_ok [OF Cons.prems(1) assms(2-4) i(1) i(2) i(2)] obtain ok st1 where
    a: "augment keys scramble (2 ^ l) i (i + 1) st = Some (ok, st1)" "ok \<longrightarrow> work_ok keys scramble l blen (insert i D) (insert i D) st1" by blast
  show ?case
  proof (cases ok)
    case True
    then have w: "work_ok keys scramble l blen (insert i D) (insert i D) st1" using a(2) by simp
    have "distinct is" "set is \<subseteq> {..<blen}" "insert i D \<inter> set is = {}" using Cons.prems by auto
    from Cons.IH [OF w this] show ?thesis using a(1) True by simp
  next
    case False
    then have "perfect_tries keys scramble (2 ^ l) (i # is) st = Some (False, st1)" using a(1) by simp
    then show ?thesis by blast
  qed
next
  case Nil
  then show ?case by (intro exI [of _ True] exI [of _ st]) simp
qed

text \<open>The order visits every \<open>b\<close> that has keys.\<close>

lemma fold_max_start: "m \<le> fold max xs m" for m :: nat
proof (induction xs arbitrary: m)
  case (Cons a xs)
  have "m \<le> max a m" by simp
  also have "\<dots> \<le> fold max xs (max a m)" by (rule Cons.IH)
  finally show ?case by simp
qed simp

lemma fold_max: "x \<in> set xs \<Longrightarrow> x \<le> fold max xs m" for x :: nat
proof (induction xs arbitrary: m)
  case (Cons a xs)
  show ?case
  proof (cases "x = a")
    case True
    then have "x \<le> max a m" by simp
    also have "\<dots> \<le> fold max xs (max a m)" by (rule fold_max_start)
    finally show ?thesis by simp
  qed (use Cons in simp)
qed simp

lemma by_size_order:
  shows "distinct (by_size tb)" "set (by_size tb) = {b. b < length tb \<and> 0 < listlen_b (tb ! b)}"
proof -
  define n where "n = fold max (map listlen_b tb) 0"
  have "distinct (concat (map (\<lambda>j. filter (\<lambda>i. listlen_b (tb ! i) = j) [0..<length tb]) js))" if "distinct js" for js
    using that by (induction js) auto
  then show "distinct (by_size tb)" unfolding by_size_def by simp
  have "listlen_b (tb ! b) < Suc n" if "b < length tb" for b
    unfolding n_def less_Suc_eq_le using that by (intro fold_max) simp
  moreover have "set (by_size tb) = {b. b < length tb \<and> 1 \<le> listlen_b (tb ! b) \<and> listlen_b (tb ! b) < Suc n}"
    unfolding by_size_def n_def [symmetric] by auto
  ultimately show "set (by_size tb) = {b. b < length tb \<and> 0 < listlen_b (tb ! b)}" by auto
qed

text \<open>A hash is perfect when every key has a slot of its own below \<open>smax\<close>.\<close>

definition is_perfect :: "hkey list \<Rightarrow> u32 list \<Rightarrow> nat \<Rightarrow> bstuff list \<Rightarrow> bool" where
  "is_perfect keys scramble smax tb \<longleftrightarrow>
     (\<forall>k < length keys. key_hash keys scramble (val_b (tb ! b_k (keys ! k))) k < smax) \<and>
     inj_on (\<lambda>k. key_hash keys scramble (val_b (tb ! b_k (keys ! k))) k) {..<length keys} \<and> (\<forall>b < length tb. val_b (tb ! b) < TAB_LIMIT)"

lemma perfect_ok:
  assumes ks: "keys_ok l blen keys" "apart_keys keys" "in_range l scramble" and tb: "lists_ok keys (length keys) tb" "length tb = blen"
  shows "\<exists>ok tb'. perfect keys scramble (2 ^ l) tb = Some (ok, tb') \<and> (ok \<longrightarrow> is_perfect keys scramble (2 ^ l) tb' \<and> length tb' = blen)"
proof -
  let ?st = "\<lparr>tabb = tb, tabh = replicate (2 ^ l) None, tabq = replicate (length tb + 1) zero_q, tail = 0\<rparr>"
  have "work_ok keys scramble l blen {} {} ?st" using tb by (auto simp: work_ok_def lists_ok_def owner_def TAB_LIMIT_def)
  moreover have "set (by_size tb) \<subseteq> {..<blen}" using by_size_order(2) [of tb] tb(2) by auto
  ultimately obtain ok st' where
    p: "perfect_tries keys scramble (2 ^ l) (by_size tb) ?st = Some (ok, st')" "ok \<longrightarrow> work_ok keys scramble l blen (set (by_size tb)) (set (by_size tb)) st'"
    using perfect_tries_ok [OF _ ks by_size_order(1) [of tb], of "{}" ?st] by (metis Int_empty_left Un_empty_left)
  have "is_perfect keys scramble (2 ^ l) (tabb st') \<and> length (tabb st') = blen" if ok
  proof -
    have w: "work_ok keys scramble l blen (set (by_size tb)) (set (by_size tb)) st'" using p(2) that by simp
    have v: "val_b (tabb st' ! b_k (keys ! k)) < TAB_LIMIT" if "k < length keys" for k using w keys_okD [OF ks(1) that] by (simp add: work_ok_def)
    have h: "key_hash keys scramble (val_b (tabb st' ! b_k (keys ! k))) k < 2 ^ l" if "k < length keys" for k
      by (rule key_hash_less [OF ks(3) _ v]) (use keys_okD [OF ks(1) that] that in auto)
    have D: "b_k (keys ! k) \<in> set (by_size tb)" if "k < length keys" for k
    proof -
      have b: "b_k (keys ! k) < length tb" using keys_okD [OF ks(1) that] tb(2) by simp
      have "set (list_b (tb ! b_k (keys ! k))) = {j. j < length keys \<and> b_k (keys ! j) = b_k (keys ! k)}"
        "listlen_b (tb ! b_k (keys ! k)) = length (list_b (tb ! b_k (keys ! k)))" using tb(1) b by (simp_all add: lists_ok_def)
      then have "0 < listlen_b (tb ! b_k (keys ! k))" using that length_pos_if_in_set [of k "list_b (tb ! b_k (keys ! k))"] by simp
      then show ?thesis using by_size_order(2) [of tb] b by simp
    qed
    have "tabh st' ! key_hash keys scramble (val_b (tabb st' ! b_k (keys ! k))) k = Some k" if "k < length keys" for k
      using w h [OF that] D [OF that] that by (auto simp: work_ok_def owner_def)
    then have "inj_on (\<lambda>k. key_hash keys scramble (val_b (tabb st' ! b_k (keys ! k))) k) {..<length keys}"
      by (intro inj_onI) (metis lessThan_iff option.inject)
    then show ?thesis using h w unfolding is_perfect_def work_ok_def by auto
  qed
  then show ?thesis using p(1) by (auto simp: perfect_def)
qed

subsection \<open>The search\<close>

definition found_ok :: "hkey list \<Rightarrow> nat \<Rightarrow> nat \<times> u64 \<times> bstuff list \<Rightarrow> bool" where
  "found_ok keys l = (\<lambda>(alen, salt, tb). alen = 2 ^ l \<and> (\<exists>j. length tb = 2 ^ j \<and> j \<le> l) \<and>
     is_perfect (initnorm alen (length tb) salt keys) (scrambleinit (2 ^ l)) (2 ^ l) tb)"

lemma attempt_ok:
  assumes "l \<le> 31" "blen = 2 ^ j" "j \<le> l"
  shows "\<exists>r. attempt_salt (scrambleinit (2 ^ l)) (2 ^ l) keys (2 ^ l) blen si = Some r \<and>
    (\<forall>tb. r = Perfect tb \<longrightarrow> found_ok keys l (2 ^ l, salt_of si, tb) \<and> length tb = blen)"
proof -
  let ?ks = "initnorm (2 ^ l) blen (salt_of si) keys"
  have "(2::nat) ^ j \<le> 2 ^ 32" using assms by (intro power_increasing) auto
  then have ks: "keys_ok l blen ?ks" using initnorm_ok(1) [of l blen "salt_of si" keys] assms by simp
  show ?thesis
  proof (cases "fst (inittab False ?ks blen)")
    case True
    then have i: "inittab False ?ks blen = (True, snd (inittab False ?ks blen))" by (metis prod.collapse)
    note t = inittab_ok [OF ks i]
    from perfect_ok [OF ks _ scrambleinit_in_range, of "snd (inittab False ?ks blen)"] t obtain ok tb' where
      p: "perfect ?ks (scrambleinit (2 ^ l)) (2 ^ l) (snd (inittab False ?ks blen)) = Some (ok, tb')"
        "ok \<longrightarrow> is_perfect ?ks (scrambleinit (2 ^ l)) (2 ^ l) tb' \<and> length tb' = blen" by blast
    then show ?thesis using True assms by (auto simp: attempt_salt_def Let_def found_ok_def)
  qed (simp add: attempt_salt_def Let_def)
qed

definition searching :: "nat \<Rightarrow> u32 list \<Rightarrow> nat \<Rightarrow> nat \<Rightarrow> nat \<Rightarrow> bool" where
  "searching l scramble smax alen blen \<longleftrightarrow> l \<le> 31 \<and> scramble = scrambleinit (2 ^ l) \<and> smax = 2 ^ l \<and> alen = 2 ^ l \<and> (\<exists>j \<le> l. blen = 2 ^ j)"

lemma searching_twice: "searching l scramble smax alen blen \<Longrightarrow> blen < smax \<Longrightarrow> searching l scramble smax alen (blen * 2)"
proof -
  assume s: "searching l scramble smax alen blen" "blen < smax"
  then obtain j where j: "j \<le> l" "blen = 2 ^ j" by (auto simp: searching_def)
  then have "j < l" using s by (simp add: searching_def)
  then have "\<exists>j' \<le> l. blen * 2 = 2 ^ j'" using j(2) by (intro exI [of _ "Suc j"]) simp
  then show ?thesis using s(1) by (simp add: searching_def)
qed

lemma findhash_loop_ok:
  assumes "findhash_loop scramble smax keys alen blen si bi bp = Some y" "searching l scramble smax alen blen" "fst y"
  shows "found_ok keys l (snd y)"
  using assms
proof (induction scramble smax keys alen blen si bi bp y rule: findhash_loop.raw_induct [rotated, consumes 1])
  case (1 f scramble smax keys alen blen si bi bp y)
  have s: "scramble = scrambleinit (2 ^ l)" "smax = 2 ^ l" "alen = 2 ^ l" "l \<le> 31" using 1(3) by (simp_all add: searching_def)
  obtain j where j: "j \<le> l" "blen = 2 ^ j" using 1(3) by (auto simp: searching_def)
  from attempt_ok [OF s(4) j(2,1), of keys si] s(1-3) obtain r where
    r: "attempt_salt scramble smax keys alen blen si = Some r" "\<forall>tb. r = Perfect tb \<longrightarrow> found_ok keys l (alen, salt_of si, tb)" by blast
  note step = 1(2) [unfolded r(1) option.case] and twice = searching_twice [OF 1(3)]
  have ih: "\<And>blen si bi bp. f scramble smax keys alen blen si bi bp = Some y \<Longrightarrow> searching l scramble smax alen blen \<Longrightarrow> found_ok keys l (snd y)"
    using 1(1) 1(4) by blast
  show ?case
  proof (cases r)
    case (Perfect tb)
    then show ?thesis using step r(2) by auto
  next
    case Colliding
    then show ?thesis using step ih twice 1(3) s(2,3) by (auto split: if_splits)
  next
    case (Imperfect tb)
    then show ?thesis using step ih twice 1(3,4) by (auto split: if_splits)
  qed
qed

lemma initalen_powers: "\<exists>j \<le> l. initalen (2 ^ l) n = (2 ^ l, 2 ^ j)"
proof -
  have d: "\<exists>j \<le> l. max 1 ((2::nat) ^ l div 2 ^ m) = 2 ^ j" for m
  proof (cases "m \<le> l")
    case True
    then have "(2::nat) ^ l div 2 ^ m = 2 ^ (l - m)" by (simp add: power_diff)
    then show ?thesis by (intro exI [of _ "l - m"]) simp
  next
    case False
    then have "(2::nat) ^ l < 2 ^ m" by simp
    then show ?thesis by (intro exI [of _ 0]) simp
  qed
  show ?thesis using d [of 4] d [of 3] d [of 2] by (auto simp: initalen_def)
qed

lemma findhash_ok: "findhash (2 ^ l) keys = Some (True, r) \<Longrightarrow> l \<le> 31 \<Longrightarrow> found_ok keys l r"
proof -
  assume f: "findhash (2 ^ l) keys = Some (True, r)" "l \<le> 31"
  obtain j where j: "j \<le> l" "initalen (2 ^ l) (length keys) = (2 ^ l, 2 ^ j)" using initalen_powers by blast
  then have "findhash_loop (scrambleinit (2 ^ l)) (2 ^ l) keys (2 ^ l) (2 ^ j) 1 0 0 = Some (True, r)" using f(1) by (simp add: findhash_def)
  moreover have "searching l (scrambleinit (2 ^ l)) (2 ^ l) (2 ^ l) (2 ^ j)" using f(2) j(1) by (auto simp: searching_def)
  ultimately show ?thesis using findhash_loop_ok by fastforce
qed

text \<open>A search whose first salts collide until one is perfect ends there.\<close>

lemma findhash_loop_ends:
  assumes "\<forall>m < n. attempt_salt scramble smax keys alen blen (si + of_nat m) = Some Colliding"
    "attempt_salt scramble smax keys alen blen (si + of_nat n) = Some (Perfect tb)" "bi + n < RETRY_INITKEY"
  shows "findhash_loop scramble smax keys alen blen si bi bp = Some (True, alen, salt_of (si + of_nat n), tb)"
  using assms
proof (induction n arbitrary: si bi)
  case 0
  then show ?case by (subst findhash_loop.simps) simp
next
  case (Suc n)
  have c: "attempt_salt scramble smax keys alen blen si = Some Colliding" using Suc.prems(1) by (auto dest: spec [of _ 0])
  have "\<forall>m < n. attempt_salt scramble smax keys alen blen (si + 1 + of_nat m) = Some Colliding"
    using Suc.prems(1) by (metis Suc_mono add.assoc of_nat_Suc)
  moreover have s: "si + 1 + of_nat n = si + of_nat (Suc n)" by (simp add: add.assoc)
  ultimately have "findhash_loop scramble smax keys alen blen (si + 1) (bi + 1) bp = Some (True, alen, salt_of (si + 1 + of_nat n), tb)"
    using Suc.IH [of "si + 1" "bi + 1"] Suc.prems(2,3) by (simp only: s)
  then show ?case using c Suc.prems(3) s by (subst findhash_loop.simps) simp
qed

end
