(* ===== verification/PlatformStr.thy ===== *)
theory PlatformStr
  imports PlatformMem "HOL-Library.Sublist"
begin

text \<open>
  The portable string routines of \<open>libplatform/src/string/generic\<close> and \<open>_simple_getenv\<close>. A loop that
  only a terminating zero byte ends is a partial function, whose value is \<open>None\<close> when it never
  returns; a routine that calls one is partial with it. A null pointer result is an inner \<open>None\<close>.
\<close>

subsection \<open>Length\<close>

definition mask01 :: u64 where "mask01 = 0x0101010101010101"
definition mask80 :: u64 where "mask80 = 0x8080808080808080"

text \<open>A little-endian load of an \<open>unsigned long\<close>.\<close>

definition load_word :: "memory \<Rightarrow> nat \<Rightarrow> u64" where
  "load_word m a = of_nat (\<Sum>i<8. unat (m (a + i)) * 256 ^ i)"

text \<open>The first loop: \<open>Inl\<close> the length, or \<open>Inr\<close> the aligned address reached.\<close>

partial_function (option) strlen_align :: "memory \<Rightarrow> nat \<Rightarrow> nat \<Rightarrow> (nat + nat) option" where
  "strlen_align m str p =
     (if p AND wmask \<noteq> 0 then (if m p = 0 then Some (Inl (p - str)) else strlen_align m str (p + 1))
      else Some (Inr p))"

definition testbytes :: "memory \<Rightarrow> nat \<Rightarrow> nat option" where
  "testbytes m p = List.find (\<lambda>x. m (p + x) = 0) [0, 1, 2, 3, 4, 5, 6, 7]"

partial_function (option) strlen_words :: "memory \<Rightarrow> nat \<Rightarrow> nat \<Rightarrow> nat option" where
  "strlen_words m str lp =
     (if (load_word m lp - mask01) AND mask80 \<noteq> 0 then
        (case testbytes m lp of Some x \<Rightarrow> Some (lp - str + x) | None \<Rightarrow> strlen_words m str (lp + 8))
      else strlen_words m str (lp + 8))"

definition strlen :: "memory \<Rightarrow> nat \<Rightarrow> nat option" where
  "strlen m str =
     (case strlen_align m str str of None \<Rightarrow> None | Some (Inl n) \<Rightarrow> Some n | Some (Inr p) \<Rightarrow> strlen_words m str p)"

primrec strnlen_loop :: "memory \<Rightarrow> nat \<Rightarrow> nat \<Rightarrow> nat \<Rightarrow> nat" where
  "strnlen_loop m s len 0 = len"
| "strnlen_loop m s len (Suc rest) = (if m s = 0 then len else strnlen_loop m (s + 1) (len + 1) rest)"

definition strnlen :: "memory \<Rightarrow> nat \<Rightarrow> nat \<Rightarrow> nat" where
  "strnlen m s maxlen = strnlen_loop m s 0 maxlen"

subsection \<open>Comparison and search\<close>

partial_function (option) strcmp :: "memory \<Rightarrow> nat \<Rightarrow> nat \<Rightarrow> int option" where
  "strcmp m s1 s2 =
     (if m s1 = m s2 then (if m s1 = 0 then Some 0 else strcmp m (s1 + 1) (s2 + 1))
      else Some (uint (m s1) - uint (m s2)))"

primrec strncmp_loop :: "memory \<Rightarrow> nat \<Rightarrow> nat \<Rightarrow> nat \<Rightarrow> int" where
  "strncmp_loop m s1 s2 0 = 0"
| "strncmp_loop m s1 s2 (Suc n) =
     (if m s1 \<noteq> m s2 then uint (m s1) - uint (m s2) else if m s1 = 0 then 0 else strncmp_loop m (s1 + 1) (s2 + 1) n)"

definition strncmp :: "memory \<Rightarrow> nat \<Rightarrow> nat \<Rightarrow> nat \<Rightarrow> int" where
  "strncmp m s1 s2 n = strncmp_loop m s1 s2 n"

partial_function (option) strchr_loop :: "memory \<Rightarrow> u8 \<Rightarrow> nat \<Rightarrow> nat option option" where
  "strchr_loop m c p = (if m p = c then Some (Some p) else if m p = 0 then Some None else strchr_loop m c (p + 1))"

definition strchr :: "memory \<Rightarrow> nat \<Rightarrow> u32 \<Rightarrow> nat option option" where
  "strchr m p ch = strchr_loop m (ucast ch) p"

text \<open>
  The two nested loops of \<open>strstr\<close>: the inner one runs to the next occurrence of the first
  character, the outer one tests the rest of the pattern there.
\<close>

partial_function (option) strstr_loop :: "memory \<Rightarrow> u8 \<Rightarrow> nat \<Rightarrow> nat \<Rightarrow> nat \<Rightarrow> nat option option" where
  "strstr_loop m c find0 len s =
     (if m s = 0 then Some None
      else if m s \<noteq> c then strstr_loop m c find0 len (s + 1)
      else if strncmp m (s + 1) find0 len \<noteq> 0 then strstr_loop m c find0 len (s + 1)
      else Some (Some s))"

definition strstr :: "memory \<Rightarrow> nat \<Rightarrow> nat \<Rightarrow> nat option option" where
  "strstr m s find0 =
     (if m find0 \<noteq> 0 then
        (case strlen m (find0 + 1) of None \<Rightarrow> None | Some len \<Rightarrow> strstr_loop m (m find0) (find0 + 1) len s)
      else Some (Some s))"

subsection \<open>Copying\<close>

definition strcpy :: "nat \<Rightarrow> nat \<Rightarrow> memory \<Rightarrow> memory option" where
  "strcpy dst src m = (case strlen m src of None \<Rightarrow> None | Some n \<Rightarrow> Some (memmove dst src (n + 1) m))"

definition strncpy :: "nat \<Rightarrow> nat \<Rightarrow> nat \<Rightarrow> nat \<Rightarrow> memory \<Rightarrow> memory" where
  "strncpy local dst src maxlen m =
     (let srclen = strnlen m src maxlen
      in if srclen < maxlen then memset local (dst + srclen) 0 (maxlen - srclen) (memmove dst src srclen m)
         else memmove dst src maxlen m)"

definition strlcpy :: "nat \<Rightarrow> nat \<Rightarrow> nat \<Rightarrow> memory \<Rightarrow> (nat \<times> memory) option" where
  "strlcpy dst src maxlen m =
     (case strlen m src of None \<Rightarrow> None
      | Some srclen \<Rightarrow> Some (srclen,
          if srclen < maxlen then memmove dst src (srclen + 1) m
          else if maxlen \<noteq> 0 then (memmove dst src (maxlen - 1) m)(dst + (maxlen - 1) := 0)
          else m))"

definition strlcat :: "nat \<Rightarrow> nat \<Rightarrow> nat \<Rightarrow> memory \<Rightarrow> (nat \<times> memory) option" where
  "strlcat dst src maxlen m =
     (case strlen m src of None \<Rightarrow> None
      | Some srclen \<Rightarrow>
          (let dstlen = strnlen m dst maxlen
           in if dstlen = maxlen then Some (maxlen + srclen, m)
              else Some (dstlen + srclen,
                if srclen < maxlen - dstlen then memmove (dst + dstlen) src (srclen + 1) m
                else (memmove (dst + dstlen) src (maxlen - dstlen - 1) m)(dst + (maxlen - 1) := 0))))"

subsection \<open>Environment lookup\<close>

text \<open>The null-terminated array of entry pointers is a list of addresses.\<close>

primrec getenv_loop :: "memory \<Rightarrow> nat \<Rightarrow> nat \<Rightarrow> nat list \<Rightarrow> nat option option" where
  "getenv_loop m var var_len [] = Some None"
| "getenv_loop m var var_len (p # ps) =
     (case strlen m p of None \<Rightarrow> None
      | Some p_len \<Rightarrow>
          if p_len \<ge> var_len \<and> memcmp m p var var_len = 0 \<and> m (p + var_len) = 0x3d then Some (Some (p + var_len + 1))
          else getenv_loop m var var_len ps)"

definition simple_getenv :: "memory \<Rightarrow> nat list \<Rightarrow> nat \<Rightarrow> nat option option" where
  "simple_getenv m envp var =
     (case strlen m var of None \<Rightarrow> None | Some var_len \<Rightarrow> getenv_loop m var var_len envp)"

subsection \<open>Strings in memory\<close>

definition cstr :: "memory \<Rightarrow> nat \<Rightarrow> u8 list \<Rightarrow> bool" where
  "cstr m p s \<longleftrightarrow> 0 \<notin> set s \<and> (\<forall>i < length s. m (p + i) = s ! i) \<and> m (p + length s) = 0"

lemma cstr_nonzero: "cstr m p s \<Longrightarrow> i < length s \<Longrightarrow> m (p + i) \<noteq> 0"
  by (metis cstr_def nth_mem)

lemma cstr_Cons: "cstr m p (x # s) \<longleftrightarrow> m p = x \<and> x \<noteq> 0 \<and> cstr m (p + 1) s"
  by (auto simp: cstr_def less_Suc_eq_0_disj)

lemma cstr_Nil: "cstr m p [] \<longleftrightarrow> m p = 0"
  by (simp add: cstr_def)

lemma strlen_align_reaches:
  assumes "cstr m str s" "str \<le> p" "p \<le> str + length s"
  shows "strlen_align m str p = Some (Inl (length s)) \<or>
    (\<exists>q. strlen_align m str p = Some (Inr q) \<and> p \<le> q \<and> q \<le> str + length s)"
  using assms(2,3)
proof (induction "str + length s - p" arbitrary: p rule: less_induct)
  case less
  show ?case
  proof (cases "p AND wmask \<noteq> 0")
    case False
    then show ?thesis using less.prems by (subst strlen_align.simps) auto
  next
    case al: True
    show ?thesis
    proof (cases "p = str + length s")
      case True
      then have "m p = 0" using assms(1) by (simp add: cstr_def)
      then show ?thesis using al True by (subst strlen_align.simps) simp
    next
      case False
      then have "m p \<noteq> 0" using cstr_nonzero [OF assms(1), of "p - str"] less.prems by simp
      then have "strlen_align m str p = strlen_align m str (p + 1)" using al by (subst strlen_align.simps) simp
      moreover have "strlen_align m str (p + 1) = Some (Inl (length s)) \<or>
          (\<exists>q. strlen_align m str (p + 1) = Some (Inr q) \<and> p + 1 \<le> q \<and> q \<le> str + length s)"
        using less.prems False by (intro less.hyps) auto
      ultimately show ?thesis by auto
    qed
  qed
qed

text \<open>
  The word test has no false negatives: at the lowest zero byte the subtraction borrows and no borrow
  comes from below, so the top bit of that byte is set.
\<close>

lemma sum_split_at:
  fixes g :: "nat \<Rightarrow> int"
  assumes "x < 8"
  shows "\<exists>H. (\<Sum>i<8. g i * 256 ^ i) = (\<Sum>i<x. g i * 256 ^ i) + g x * 256 ^ x + 256 ^ (x + 1) * H"
proof -
  have "(\<Sum>i<8. g i * 256 ^ i) = (\<Sum>i<x. g i * 256 ^ i) + (\<Sum>i=x..<8. g i * 256 ^ i)"
    using assms by (simp add: lessThan_atLeast0 sum.atLeastLessThan_concat)
  moreover have "(\<Sum>i=x..<8. g i * 256 ^ i) = g x * 256 ^ x + (\<Sum>i=x+1..<8. g i * 256 ^ i)"
    using assms by (simp add: sum.atLeast_Suc_lessThan)
  moreover have "256 ^ (x + 1) dvd (\<Sum>i=x+1..<8. g i * 256 ^ i)"
    by (intro dvd_sum dvd_mult le_imp_power_dvd) simp
  ultimately show ?thesis by (auto simp: dvd_def)
qed

lemma low_bytes_bound:
  fixes g :: "nat \<Rightarrow> int"
  assumes "\<forall>i < x. 0 \<le> g i \<and> g i \<le> 255"
  shows "0 \<le> (\<Sum>i<x. g i * 256 ^ i) \<and> (\<Sum>i<x. g i * 256 ^ i) < 256 ^ x"
  using assms
proof (induction x)
  case (Suc x)
  have "g x * 256 ^ x \<le> 255 * 256 ^ x" using Suc.prems by (intro mult_right_mono) auto
  moreover have "0 \<le> g x * 256 ^ x" using Suc.prems by simp
  moreover have "0 \<le> (\<Sum>i<x. g i * 256 ^ i) \<and> (\<Sum>i<x. g i * 256 ^ i) < 256 ^ x" using Suc by simp
  ultimately show ?case unfolding sum.lessThan_Suc power_Suc by linarith
qed simp

lemma word_test_detects:
  assumes x: "x < 8" "m (p + x) = 0" "\<forall>j < x. m (p + j) \<noteq> 0"
  shows "(load_word m p - mask01) AND mask80 \<noteq> 0"
proof -
  define g :: "nat \<Rightarrow> int" where "g i = int (unat (m (p + i))) - 1" for i
  have lw: "load_word m p - mask01 = of_int (\<Sum>i<8. g i * 256 ^ i)"
  proof -
    have "mask01 = of_int (\<Sum>i<8. 256 ^ i)" by (simp add: mask01_def lessThan_nat_numeral)
    moreover have "load_word m p = of_int (\<Sum>i<8. int (unat (m (p + i))) * 256 ^ i)"
    proof -
      have eq: "int (\<Sum>i<8. unat (m (p + i)) * 256 ^ i) = (\<Sum>i<8. int (unat (m (p + i))) * 256 ^ i)"
        by (simp only: of_nat_sum of_nat_mult of_nat_power of_nat_numeral)
      show ?thesis unfolding load_word_def eq [symmetric] by (rule of_int_of_nat_eq [symmetric])
    qed
    moreover have "(\<Sum>i<8. g i * 256 ^ i) = (\<Sum>i<8. int (unat (m (p + i))) * 256 ^ i) - (\<Sum>i<8. 256 ^ i)"
      by (simp add: g_def left_diff_distrib sum_subtractf)
    ultimately show ?thesis by (simp only: of_int_diff)
  qed
  obtain H where H: "(\<Sum>i<8. g i * 256 ^ i) = (\<Sum>i<x. g i * 256 ^ i) + g x * 256 ^ x + 256 ^ (x + 1) * H"
    using sum_split_at [OF x(1)] by blast
  define L where "L = (\<Sum>i<x. g i * 256 ^ i)"
  have gb: "\<forall>i < x. 0 \<le> g i \<and> g i \<le> 255"
  proof (intro allI impI)
    fix i assume "i < x"
    then have "0 < unat (m (p + i))" using x(3) by (simp add: unat_gt_0)
    moreover have "unat (m (p + i)) < 256" using unsigned_less [of "m (p + i)"] by simp
    ultimately show "0 \<le> g i \<and> g i \<le> 255" unfolding g_def by linarith
  qed
  have L: "0 \<le> L" "L < 256 ^ x" using low_bytes_bound [OF gb] by (simp_all add: L_def)
  have p2: "(256 :: int) ^ x = 2 ^ (8 * x)" by (simp add: power_mult)
  have e: "(\<Sum>i<8. g i * 256 ^ i) = (L - 2 ^ (8 * x)) + 2 * H * 2 ^ (8 * x + 7)"
    using H x(2) p2 by (simp add: L_def g_def power_add)
  have "(L - 2 ^ (8 * x)) div 2 ^ (8 * x + 7) = - 1"
  proof (rule int_div_pos_eq)
    show "L - 2 ^ (8 * x) = 2 ^ (8 * x + 7) * - 1 + (L - 2 ^ (8 * x) + 2 ^ (8 * x + 7))" by simp
    show "0 \<le> L - 2 ^ (8 * x) + 2 ^ (8 * x + 7)" "L - 2 ^ (8 * x) + 2 ^ (8 * x + 7) < 2 ^ (8 * x + 7)"
      using L p2 by (simp_all add: power_add)
  qed
  then have "odd ((\<Sum>i<8. g i * 256 ^ i) div 2 ^ (8 * x + 7))"
    unfolding e by (subst div_mult_self1) simp_all
  then have "bit (of_int (\<Sum>i<8. g i * 256 ^ i) :: u64) (8 * x + 7)"
    unfolding bit_word_of_int_iff using x(1) by (simp add: bit_iff_odd)
  moreover have "bit mask80 (8 * x + 7)"
  proof -
    have "x \<in> {0, 1, 2, 3, 4, 5, 6, 7}" using x(1) by auto
    then show ?thesis by (auto simp: mask80_def)
  qed
  ultimately have "bit ((load_word m p - mask01) AND mask80) (8 * x + 7)" unfolding lw by (simp add: bit_and_iff)
  then show ?thesis by auto
qed


lemma testbytes_first:
  assumes "x < 8" "m (p + x) = 0" "\<forall>j < x. m (p + j) \<noteq> 0"
  shows "testbytes m p = Some x"
proof -
  have "[0, 1, 2, 3, 4, 5, 6, 7] = [0..<8 :: nat]" by (simp add: upt_rec)
  then show ?thesis unfolding testbytes_def using assms by (auto simp: find_Some_iff intro!: exI [of _ x])
qed

lemma testbytes_None: "\<forall>j < 8. m (p + j) \<noteq> 0 \<Longrightarrow> testbytes m p = None"
proof -
  assume nz: "\<forall>j < 8. m (p + j) \<noteq> 0"
  have "set [0, 1, 2, 3, 4, 5, 6, 7] \<subseteq> {..<8 :: nat}" by simp
  then show ?thesis unfolding testbytes_def find_None_iff using nz by blast
qed

lemma strlen_words_finds:
  assumes "cstr m str s" "str \<le> lp" "lp \<le> str + length s"
  shows "strlen_words m str lp = Some (length s)"
  using assms(2,3)
proof (induction "str + length s - lp" arbitrary: lp rule: less_induct)
  case less
  have nz: "m (lp + j) \<noteq> 0" if "lp + j < str + length s" for j
    using cstr_nonzero [OF assms(1), of "lp + j - str"] that less.prems(1) by simp
  show ?case
  proof (cases "str + length s < lp + 8")
    case True
    define x where "x = str + length s - lp"
    have "lp + x = str + length s" using less.prems by (simp add: x_def)
    then have x: "x < 8" "m (lp + x) = 0" "\<forall>j < x. m (lp + j) \<noteq> 0" "lp - str + x = length s"
      using True assms(1) nz less.prems by (auto simp: cstr_def)
    then show ?thesis using word_test_detects [OF x(1-3)] testbytes_first [OF x(1-3)]
      by (subst strlen_words.simps) simp
  next
    case False
    then have "testbytes m lp = None" using nz by (intro testbytes_None) simp
    moreover have "strlen_words m str (lp + 8) = Some (length s)" using False less.prems by (intro less.hyps) simp_all
    ultimately show ?thesis by (subst strlen_words.simps) simp
  qed
qed

lemma strlen_cstr: "cstr m str s \<Longrightarrow> strlen m str = Some (length s)"
  using strlen_align_reaches [of m str s str] strlen_words_finds [of m str s] by (auto simp: strlen_def)

lemma strnlen_loop_cstr: "cstr m p s \<Longrightarrow> strnlen_loop m p l n = l + min n (length s)"
proof (induction n arbitrary: p l s)
  case (Suc n)
  then show ?case by (cases s) (auto simp: cstr_Cons cstr_Nil)
qed simp

lemma strnlen_cstr: "cstr m p s \<Longrightarrow> strnlen m p n = min n (length s)"
  by (simp add: strnlen_def strnlen_loop_cstr)

subsection \<open>Comparison\<close>

text \<open>The order of strings of unsigned bytes, with the difference of the first differing pair as its value.\<close>

fun bytecmp :: "u8 list \<Rightarrow> u8 list \<Rightarrow> int" where
  "bytecmp [] [] = 0"
| "bytecmp [] (y # ys) = - uint y"
| "bytecmp (x # xs) [] = uint x"
| "bytecmp (x # xs) (y # ys) = (if x = y then bytecmp xs ys else uint x - uint y)"

lemma bytecmp_0: "0 \<notin> set s \<Longrightarrow> 0 \<notin> set t \<Longrightarrow> bytecmp s t = 0 \<longleftrightarrow> s = t"
  by (induction s t rule: bytecmp.induct) (auto simp: uint_0_iff dest: word_uint_eqI)

lemma bytecmp_swap: "bytecmp t s = - bytecmp s t"
  by (induction s t rule: bytecmp.induct) auto

lemma strcmp_cstr: "cstr m p s \<Longrightarrow> cstr m q t \<Longrightarrow> strcmp m p q = Some (bytecmp s t)"
proof (induction s t arbitrary: p q rule: bytecmp.induct)
  case 1
  then show ?case by (subst strcmp.simps) (simp add: cstr_Nil)
next
  case (2 y ys)
  then show ?case by (subst strcmp.simps) (auto simp: cstr_Nil cstr_Cons)
next
  case (3 x xs)
  then show ?case by (subst strcmp.simps) (auto simp: cstr_Nil cstr_Cons)
next
  case (4 x xs y ys)
  then show ?case by (subst strcmp.simps) (auto simp: cstr_Cons)
qed

lemma strncmp_cstr: "cstr m p s \<Longrightarrow> cstr m q t \<Longrightarrow> strncmp_loop m p q n = bytecmp (take n s) (take n t)"
proof (induction n arbitrary: p q s t)
  case (Suc n)
  then show ?case by (cases s; cases t) (auto simp: cstr_Nil cstr_Cons)
qed simp

lemma strncmp_prefix:
  assumes "cstr m p s" "cstr m q t"
  shows "strncmp m p q (length t) = 0 \<longleftrightarrow> prefix t s"
proof -
  have "0 \<notin> set (take (length t) s)" "0 \<notin> set t" using assms by (auto simp: cstr_def dest: in_set_takeD)
  then have "strncmp m p q (length t) = 0 \<longleftrightarrow> take (length t) s = t"
    using strncmp_cstr [OF assms, of "length t"] bytecmp_0 by (simp add: strncmp_def)
  then show ?thesis by (metis append_eq_conv_conj prefix_def)
qed

subsection \<open>Search\<close>

lemma strchr_loop_cstr:
  assumes "cstr m p s"
  shows "strchr_loop m c p =
    Some (if c = 0 then Some (p + length s) else case List.find (\<lambda>i. s ! i = c) [0..<length s] of None \<Rightarrow> None | Some i \<Rightarrow> Some (p + i))"
  using assms
proof (induction s arbitrary: p)
  case Nil
  then show ?case by (subst strchr_loop.simps) (auto simp: cstr_Nil)
next
  case (Cons x s)
  have up: "[0..<length (x # s)] = 0 # map Suc [0..<length s]" by (simp add: upt_conv_Cons map_Suc_upt del: upt_Suc)
  have sh: "List.find P (map Suc js) = map_option Suc (List.find (\<lambda>j. P (Suc j)) js)" for P js
    by (induction js) auto
  show ?case using Cons unfolding up
    by (subst strchr_loop.simps) (auto simp: cstr_Cons sh split: option.split)
qed

lemma strstr_loop_cstr:
  assumes "cstr m p s" "cstr m q t" "c \<noteq> 0"
  shows "strstr_loop m c q (length t) p =
    Some (case List.find (\<lambda>i. prefix (c # t) (drop i s)) [0..<length s] of None \<Rightarrow> None | Some i \<Rightarrow> Some (p + i))"
  using assms
proof (induction s arbitrary: p)
  case Nil
  then show ?case by (subst strstr_loop.simps) (simp add: cstr_Nil)
next
  case (Cons x s)
  have up: "[0..<length (x # s)] = 0 # map Suc [0..<length s]" by (simp add: upt_conv_Cons map_Suc_upt del: upt_Suc)
  have sh: "List.find P (map Suc js) = map_option Suc (List.find (\<lambda>j. P (Suc j)) js)" for P js
    by (induction js) auto
  show ?case using Cons strncmp_prefix [of m "p + 1" s q t] unfolding up
    by (subst strstr_loop.simps) (auto simp: cstr_Cons sh split: option.split)
qed


lemma strstr_cstr:
  assumes "cstr m p s" "cstr m q t"
  shows "strstr m p q =
    Some (if t = [] then Some p
          else case List.find (\<lambda>i. prefix t (drop i s)) [0..<length s] of None \<Rightarrow> None | Some i \<Rightarrow> Some (p + i))"
proof (cases t)
  case Nil
  then show ?thesis using assms(2) by (simp add: strstr_def cstr_Nil)
next
  case (Cons c t')
  then have "m q = c" "c \<noteq> 0" "cstr m (q + 1) t'" using assms(2) by (auto simp: cstr_Cons)
  then show ?thesis using Cons strstr_loop_cstr [OF assms(1), of "q + 1" t' c] strlen_cstr [of m "q + 1" t']
    by (simp add: strstr_def)
qed

lemma find_least: "List.find P [0..<n] = (if \<exists>i < n. P i then Some (LEAST i. P i) else None)"
proof (cases "\<exists>i < n. P i")
  case True
  then have "P (LEAST i. P i)" "(LEAST i. P i) < n" using LeastI_ex [of P] Least_le [of P] by (auto intro: le_less_trans)
  then show ?thesis using True by (auto simp: find_Some_iff dest: not_less_Least intro!: exI [of _ "LEAST i. P i"])
qed (auto simp: find_None_iff)

subsection \<open>Copies\<close>

lemma blit_apart: "apart p n dst k \<Longrightarrow> p \<le> a \<Longrightarrow> a < p + n \<Longrightarrow> blit dst src k m a = m a"
  by (auto simp: blit_def apart_def)

lemma cstr_blit:
  assumes "cstr m src s"
  shows "cstr (blit dst src (length s + 1) m) dst s"
  using assms by (simp add: cstr_def blit_def)

lemma cstr_truncated:
  assumes "cstr m src s" "n \<le> length s"
  shows "cstr ((blit dst src n m)(dst + n := 0)) dst (take n s)"
  using assms by (auto simp: cstr_def blit_def dest: in_set_takeD)

lemma cstr_appended:
  assumes "cstr m dst d" "cstr m' (dst + length d) s" "\<And>i. i < length d \<Longrightarrow> m' (dst + i) = m (dst + i)"
  shows "cstr m' dst (d @ s)"
  unfolding cstr_def
proof (intro conjI allI impI)
  show "0 \<notin> set (d @ s)" using assms(1,2) by (auto simp: cstr_def)
  show "m' (dst + length (d @ s)) = 0" using assms(2) by (simp add: cstr_def add.assoc)
  fix i assume "i < length (d @ s)"
  then show "m' (dst + i) = (d @ s) ! i"
  proof (cases "i < length d")
    case True
    then show ?thesis using assms(1,3) by (simp add: cstr_def nth_append)
  next
    case False
    then have e: "dst + i = dst + length d + (i - length d)" "i - length d < length s" using \<open>i < length (d @ s)\<close> by auto
    have "m' (dst + length d + (i - length d)) = s ! (i - length d)" using assms(2) e(2) unfolding cstr_def by blast
    then show ?thesis unfolding e(1) using False by (simp add: nth_append)
  qed
qed

lemma strlcpy_cstr:
  assumes "cstr m src s"
  shows "\<exists>m'. strlcpy dst src n m = Some (length s, m') \<and> (0 < n \<longrightarrow> cstr m' dst (take (n - 1) s)) \<and>
    (\<forall>a. a < dst \<or> dst + n \<le> a \<longrightarrow> m' a = m a)"
proof (cases "length s < n")
  case True
  have "take (n - 1) s = s" using True by simp
  then show ?thesis using True cstr_blit [OF assms] strlen_cstr [OF assms] by (auto simp: strlcpy_def memmove_blit blit_def)
next
  case False
  then show ?thesis using cstr_truncated [OF assms, of "n - 1" dst] strlen_cstr [OF assms]
    by (cases "n = 0") (auto simp: strlcpy_def memmove_blit blit_def)
qed

lemma strlcat_cstr:
  assumes src: "cstr m src s" and dst: "cstr m dst d"
  shows "\<exists>m'. strlcat dst src n m = Some (min n (length d) + length s, m') \<and>
    (length d < n \<longrightarrow> cstr m' dst (d @ take (n - length d - 1) s)) \<and> (n \<le> length d \<longrightarrow> m' = m) \<and>
    (\<forall>a. a < dst \<or> dst + n \<le> a \<longrightarrow> m' a = m a)"
proof (cases "n \<le> length d")
  case True
  then show ?thesis using strlen_cstr [OF src] strnlen_cstr [OF dst, of n] by (simp add: strlcat_def)
next
  case False
  let ?k = "n - length d - 1"
  let ?m = "if length s < n - length d then memmove (dst + length d) src (length s + 1) m
      else (memmove (dst + length d) src ?k m)(dst + (n - 1) := 0)"
  have eq: "strlcat dst src n m = Some (length d + length s, ?m)"
    using False strlen_cstr [OF src] strnlen_cstr [OF dst, of n] by (simp add: strlcat_def Let_def min_def)
  have "cstr ?m (dst + length d) (take ?k s)"
  proof (cases "length s < n - length d")
    case True
    then show ?thesis using cstr_blit [OF src, of "dst + length d"] by (simp add: memmove_blit)
  next
    case lt: False
    then have "dst + (n - 1) = dst + length d + ?k" using False by simp
    moreover have "?k \<le> length s" using lt by simp
    ultimately show ?thesis using lt cstr_truncated [OF src, of ?k "dst + length d"] by (simp only: memmove_blit if_False)
  qed
  then have "cstr ?m dst (d @ take ?k s)"
    by (rule cstr_appended [OF dst]) (use False in \<open>auto simp: memmove_blit blit_def\<close>)
  moreover have "\<forall>a. a < dst \<or> dst + n \<le> a \<longrightarrow> ?m a = m a" using False by (auto simp: memmove_blit blit_def)
  ultimately show ?thesis using eq False by (simp add: min_def)
qed

lemma strncpy_cstr:
  assumes src: "cstr m src s" and l: "apart dst n local 4"
  shows "i < n \<Longrightarrow> strncpy local dst src n m (dst + i) = (if i < length s then s ! i else 0)"
proof -
  assume i: "i < n"
  let ?k = "min n (length s)"
  have k: "strnlen m src n = ?k" by (rule strnlen_cstr [OF src])
  show ?thesis
  proof (cases "length s < n")
    case True
    have "apart (dst + length s) (n - length s) local 4" using l True by (auto simp: apart_def)
    note fill = memset_fills [OF this, where c = 0]
    have "\<not> (local \<le> dst + i \<and> dst + i < local + 4)" using l i by (auto simp: apart_def)
    then show ?thesis using True k i src by (auto simp: strncpy_def Let_def fill memmove_blit blit_def cstr_def)
  next
    case False
    then show ?thesis using k i src by (simp add: strncpy_def Let_def memmove_blit blit_def cstr_def)
  qed
qed

subsection \<open>Environment lookup\<close>

definition env_match :: "u8 list \<Rightarrow> u8 list \<Rightarrow> bool" where
  "env_match v e \<longleftrightarrow> prefix (v @ [0x3d]) e"

lemma env_match_iff:
  assumes "cstr m p e" "cstr m var v"
  shows "length e \<ge> length v \<and> memcmp m p var (length v) = 0 \<and> m (p + length v) = 0x3d \<longleftrightarrow> env_match v e"
proof -
  have mc: "memcmp m p var (length v) = 0 \<longleftrightarrow> (\<forall>i < length v. m (p + i) = v ! i)"
    using memcmp_loop_cases [of "length v" m p var] assms(2) unfolding memcmp_def cstr_def
    by (metis eq_iff_diff_eq_0 word_uint_eqI)
  show ?thesis
  proof
    assume l: "length e \<ge> length v \<and> memcmp m p var (length v) = 0 \<and> m (p + length v) = 0x3d"
    then have ne: "length v < length e" using assms(1) by (cases "length e = length v") (auto simp: cstr_def)
    then have "take (Suc (length v)) e = v @ [0x3d]"
      using l mc assms(1) by (intro nth_equalityI) (auto simp: cstr_def nth_append less_Suc_eq)
    then show "env_match v e" unfolding env_match_def by (metis take_is_prefix)
  next
    assume "env_match v e"
    then obtain r where r: "e = v @ 0x3d # r" by (auto simp: env_match_def prefix_def)
    then have "\<forall>i < length v. m (p + i) = v ! i" "m (p + length v) = 0x3d" "length v \<le> length e"
      using assms(1) by (auto simp: cstr_def nth_append)
    then show "length e \<ge> length v \<and> memcmp m p var (length v) = 0 \<and> m (p + length v) = 0x3d" using mc by simp
  qed
qed

lemma getenv_loop_cstr:
  assumes var: "cstr m var v" and env: "list_all2 (cstr m) ps es"
  shows "getenv_loop m var (length v) ps =
    Some (case List.find (\<lambda>(p, e). env_match v e) (zip ps es) of None \<Rightarrow> None | Some (p, e) \<Rightarrow> Some (p + length v + 1))"
  using env
proof (induction rule: list_all2_induct)
  case (Cons p ps e es)
  have "getenv_loop m var (length v) (p # ps) =
      (if env_match v e then Some (Some (p + length v + 1)) else getenv_loop m var (length v) ps)"
    using strlen_cstr [OF Cons.hyps(1)] env_match_iff [OF Cons.hyps(1) var] by simp
  then show ?case using Cons.IH by simp
qed simp


subsection \<open>Properties\<close>

text \<open>The memory of the witnesses: \<open>ab\<close> at address 3 and \<open>b\<close> at address 16.\<close>

definition sample :: memory where
  "sample = (\<lambda>_. 0)(3 := 0x61, 4 := 0x62, 16 := 0x62)"

lemma sample_strings: "cstr sample 3 [0x61, 0x62]" "cstr sample 16 [0x62]"
  by (simp_all add: cstr_Cons cstr_Nil sample_def)

text \<open>
  The word-at-a-time \<open>strlen\<close> returns, on every zero-terminated string at any alignment, the number of
  bytes before the zero: the borrow test on whole words misses no zero byte, and bytes with the high bit
  set, on which the test also fires, only cost another turn. \<open>strnlen\<close> returns it cut off at its bound.
\<close>

lemma strlen_correct:
  assumes "cstr m str s"
  shows "strlen m str = Some (length s) \<and> strnlen m str maxlen = min maxlen (length s)"
  using strlen_cstr [OF assms] strnlen_cstr [OF assms] by simp

lemma strlen_correct_witness: "strlen sample 3 = Some 2 \<and> strnlen sample 3 1 = 1"
  using strlen_correct [OF sample_strings(1), of 1] by simp

text \<open>
  \<open>strcmp\<close> ends on zero-terminated strings and returns the order of their unsigned bytes, zero exactly for
  equal strings and with swapped sign for swapped arguments; \<open>strncmp\<close> returns the order of the first
  bytes.
\<close>

lemma strcmp_correct:
  assumes "cstr m p s" "cstr m q t"
  shows "strcmp m p q = Some (bytecmp s t) \<and> (bytecmp s t = 0 \<longleftrightarrow> s = t) \<and> strcmp m q p = Some (- bytecmp s t) \<and>
    strncmp m p q n = bytecmp (take n s) (take n t)"
  using strcmp_cstr [OF assms] strcmp_cstr [OF assms(2,1)] strncmp_cstr [OF assms] assms
  by (simp add: bytecmp_swap [of t s] strncmp_def bytecmp_0 cstr_def)

lemma strcmp_correct_witness: "strcmp sample 3 16 = Some (- 1) \<and> strncmp sample 3 16 0 = 0"
  using strcmp_correct [OF sample_strings, of 0] by simp

text \<open>
  \<open>strchr\<close> returns the first occurrence of a byte in a string, its terminator included, and null when
  there is none; \<open>strstr\<close> returns the first position at which the pattern is a prefix of the rest of the
  string, the start for an empty pattern, and null when there is none. Both end on every terminated string.
\<close>

lemma strchr_strstr_correct:
  assumes "cstr m p s" "cstr m q t"
  shows "strchr m p c = Some (if ucast c = (0 :: u8) then Some (p + length s)
        else if \<exists>i < length s. s ! i = ucast c then Some (p + (LEAST i. i < length s \<and> s ! i = ucast c)) else None) \<and>
    strstr m p q = Some (if t = [] then Some p
        else if \<exists>i < length s. prefix t (drop i s) then Some (p + (LEAST i. prefix t (drop i s))) else None)"
proof
  have "List.find (\<lambda>i. s ! i = ucast c) [0..<length s] = List.find (\<lambda>i. i < length s \<and> s ! i = ucast c) [0..<length s]"
    by (intro find_cong) auto
  then show "strchr m p c = Some (if ucast c = (0 :: u8) then Some (p + length s)
        else if \<exists>i < length s. s ! i = ucast c then Some (p + (LEAST i. i < length s \<and> s ! i = ucast c)) else None)"
    unfolding strchr_def strchr_loop_cstr [OF assms(1)] by (auto simp: find_least)
  show "strstr m p q = Some (if t = [] then Some p
        else if \<exists>i < length s. prefix t (drop i s) then Some (p + (LEAST i. prefix t (drop i s))) else None)"
    unfolding strstr_cstr [OF assms] by (auto simp: find_least)
qed

lemma strchr_strstr_correct_witness: "strchr sample 3 0 = Some (Some 5) \<and> strstr sample 3 16 \<noteq> None"
  using strchr_strstr_correct [OF sample_strings, of 0] by simp

text \<open>
  \<open>strlcpy\<close> and \<open>strlcat\<close> never write outside the destination buffer, leave a terminated string in it
  that is the source, or the concatenation, cut off to fit, and return the length they tried to create, so
  that a result of at least the size tells of a truncation; a destination without a terminator within
  the size is left alone. \<open>strcpy\<close> copies the whole string, and \<open>strncpy\<close> pads with zeros.
\<close>

lemma string_copies_correct:
  assumes src: "cstr m src s" and dst: "cstr m dst d" and local: "apart dst n local 4"
  shows "(\<exists>m'. strlcpy dst src n m = Some (length s, m') \<and> (0 < n \<longrightarrow> cstr m' dst (take (n - 1) s)) \<and>
       (\<forall>a. a < dst \<or> dst + n \<le> a \<longrightarrow> m' a = m a)) \<and>
    (\<exists>m'. strlcat dst src n m = Some (min n (length d) + length s, m') \<and>
       (length d < n \<longrightarrow> cstr m' dst (d @ take (n - length d - 1) s)) \<and> (n \<le> length d \<longrightarrow> m' = m) \<and>
       (\<forall>a. a < dst \<or> dst + n \<le> a \<longrightarrow> m' a = m a)) \<and>
    (\<exists>m'. strcpy dst src m = Some m' \<and> cstr m' dst s) \<and>
    (\<forall>i < n. strncpy local dst src n m (dst + i) = (if i < length s then s ! i else 0))"
proof (intro conjI)
  show "\<exists>m'. strcpy dst src m = Some m' \<and> cstr m' dst s"
    using strlen_cstr [OF src] cstr_blit [OF src, of dst] by (simp add: strcpy_def memmove_blit)
qed (use strlcpy_cstr [OF src] strlcat_cstr [OF src dst] strncpy_cstr [OF src local] in auto)

lemma string_copies_correct_witness:
  "(\<exists>m'. strlcpy 100 3 2 sample = Some (2, m') \<and> cstr m' 100 [0x61]) \<and>
   (\<exists>m'. strlcat 100 3 8 sample = Some (2, m') \<and> cstr m' 100 [0x61, 0x62])"
proof -
  have d: "cstr sample 100 []" by (simp add: cstr_Nil sample_def)
  have a: "apart 100 2 50 4" "apart 100 8 50 4" by (simp_all add: apart_def)
  from string_copies_correct [OF sample_strings(1) d a(1), THEN conjunct1]
  have "\<exists>m'. strlcpy 100 3 2 sample = Some (2, m') \<and> cstr m' 100 [0x61]" by auto
  moreover from string_copies_correct [OF sample_strings(1) d a(2), THEN conjunct2, THEN conjunct1]
  have "\<exists>m'. strlcat 100 3 8 sample = Some (2, m') \<and> cstr m' 100 [0x61, 0x62]" by auto
  ultimately show ?thesis by blast
qed

text \<open>
  \<open>_simple_getenv\<close> returns the text after \<open>NAME=\<close> in the first entry that starts so, and null when no entry
  does; an entry whose name merely starts with the name asked for does not match.
\<close>

lemma simple_getenv_correct:
  assumes "cstr m var v" "list_all2 (cstr m) envp es"
  shows "simple_getenv m envp var =
    Some (case List.find (\<lambda>(p, e). prefix (v @ [0x3d]) e) (zip envp es) of None \<Rightarrow> None | Some (p, e) \<Rightarrow> Some (p + length v + 1))"
  using strlen_cstr [OF assms(1)] getenv_loop_cstr [OF assms] by (simp add: simple_getenv_def env_match_def)

lemma simple_getenv_correct_witness:
  "simple_getenv ((\<lambda>_. 0)(0 := 0x61, 8 := 0x61, 9 := 0x62, 10 := 0x3d, 16 := 0x61, 17 := 0x3d)) [8, 16] 0 = Some (Some 18)"
proof -
  let ?m = "(\<lambda>_. 0)(0 := 0x61, 8 := 0x61, 9 := 0x62, 10 := 0x3d, 16 := 0x61, 17 := 0x3d) :: memory"
  have v: "cstr ?m 0 [0x61]" by (simp add: cstr_Cons cstr_Nil)
  have e: "list_all2 (cstr ?m) [8, 16] [[0x61, 0x62, 0x3d], [0x61, 0x3d]]" by (simp add: cstr_Cons cstr_Nil)
  show ?thesis using simple_getenv_correct [OF v e] by simp
qed

end
