(* ===== verification/StringTable.thy ===== *)
theory StringTable
  imports PerfectHash PlatformStr
begin

text \<open>
  The shared cache's string, class and protocol tables (\<open>objc-shared-cache.h\<close>): the reader that \<open>libobjc\<close>
  uses and the writer of the cache builder. A table is a record of its header and arrays; \<open>this\<close> is its address,
  strings are read from memory, and an access or shift the language does not define is \<open>None\<close>.
\<close>

subsection \<open>Reading\<close>

record stringhash =
  capacity :: nat
  occupied :: nat
  shift :: nat
  hmask :: u32
  salt :: u64
  scramble :: "u32 list"
  tab :: "u8 list"
  checkbytes :: "u8 list"
  offsets :: "int list"

definition sizeof_stringhash :: nat where "sizeof_stringhash = 1056"
definition INDEX_NOT_FOUND :: nat where "INDEX_NOT_FOUND = 2 ^ 32 - 1"

definition table_hash :: "stringhash \<Rightarrow> u8 list \<Rightarrow> nat option" where
  "table_hash t key =
     (if 64 \<le> shift t then None
      else let val = lookup8 key (salt t); i = unat (val AND ucast (hmask t))
           in if i < length (tab t) then Some (unat (ucast (drop_bit (shift t) val) XOR scramble t ! unat (tab t ! i))) else None)"

definition checkbyte :: "u8 list \<Rightarrow> u8" where
  "checkbyte key = push_bit 5 ((case key of [] \<Rightarrow> 0 | c # _ \<Rightarrow> c) AND 7) OR (of_nat (length key) AND 0x1f)"

definition string_bytes :: "memory \<Rightarrow> nat \<Rightarrow> nat \<Rightarrow> u8 list" where
  "string_bytes m p n = map (\<lambda>i. m (p + i)) [0..<n]"

definition string_at :: "nat \<Rightarrow> int \<Rightarrow> nat" where "string_at this off = nat (int this + off)"

definition getIndex :: "memory \<Rightarrow> nat \<Rightarrow> stringhash \<Rightarrow> nat \<Rightarrow> nat option" where
  "getIndex m this t key =
     (case strlen m key of None \<Rightarrow> None
      | Some keylen \<Rightarrow>
          (case table_hash t (string_bytes m key keylen) of None \<Rightarrow> None
           | Some h \<Rightarrow>
               if length (checkbytes t) \<le> h \<or> length (offsets t) \<le> h then None
               else if checkbytes t ! h \<noteq> checkbyte (string_bytes m key keylen) then Some INDEX_NOT_FOUND
               else if offsets t ! h = 0 then Some INDEX_NOT_FOUND
               else (case strcmp m key (string_at this (offsets t ! h)) of None \<Rightarrow> None
                     | Some c \<Rightarrow> if c \<noteq> 0 then Some INDEX_NOT_FOUND else Some h)))"

definition getEntryForIndex :: "nat \<Rightarrow> stringhash \<Rightarrow> nat \<Rightarrow> nat" where
  "getEntryForIndex this t index = string_at this (offsets t ! index)"

text \<open>The null pointer is an inner \<open>None\<close>.\<close>

definition selopt_get :: "memory \<Rightarrow> nat \<Rightarrow> stringhash \<Rightarrow> nat \<Rightarrow> nat option option" where
  "selopt_get m this t key =
     (case getIndex m this t key of None \<Rightarrow> None
      | Some h \<Rightarrow> Some (if h = INDEX_NOT_FOUND then None else Some (getEntryForIndex this t h)))"

subsection \<open>Writing\<close>

datatype write_error = TooSmall | PerfectHashFailed | OffsetTooBig | ListBusted

definition table_size :: "stringhash \<Rightarrow> nat" where
  "table_size t = sizeof_stringhash + (unat (hmask t) + 1) + capacity t * 1 + capacity t * 4"

definition empty_table :: stringhash where
  "empty_table = \<lparr>capacity = 0, occupied = 0, shift = 0, hmask = 0, salt = 0, scramble = replicate 256 0, tab = [], checkbytes = [], offsets = []\<rparr>"

definition fits_offset :: "u64 \<Rightarrow> bool" where "fits_offset off \<longleftrightarrow> signed_drop_bit 32 (push_bit 32 off) = off"
definition as_offset :: "u64 \<Rightarrow> int" where "as_offset off = sint (ucast off :: u32)"

definition table_header :: "perfect_hash \<Rightarrow> stringhash" where
  "table_header ph = \<lparr>capacity = ph_capacity ph, occupied = ph_occupied ph, shift = ph_shift ph, hmask = ph_mask ph, salt = ph_salt ph,
     scramble = ph_scramble ph, tab = ph_tab ph, checkbytes = replicate (ph_capacity ph) 0, offsets = replicate (ph_capacity ph) 0\<rparr>"

primrec write_strings :: "u64 \<Rightarrow> (u8 list \<times> u64) list \<Rightarrow> stringhash \<Rightarrow> (write_error + stringhash) option" where
  "write_strings base [] t = Some (Inr t)"
| "write_strings base (s # ss) t =
     (if \<not> fits_offset (snd s - base) then Some (Inl OffsetTooBig)
      else case table_hash t (fst s) of None \<Rightarrow> None
           | Some h \<Rightarrow> write_strings base ss (t\<lparr>offsets := (offsets t)[h := as_offset (snd s - base)],
                                                 checkbytes := (checkbytes t)[h := checkbyte (fst s)]\<rparr>))"

text \<open>The strings of a map, in the order of its iteration.\<close>

definition write_table :: "u64 \<Rightarrow> nat \<Rightarrow> (u8 list \<times> u64) list \<Rightarrow> (write_error + stringhash) option" where
  "write_table base remaining strings =
     (if sizeof_stringhash > remaining then Some (Inl TooSmall)
      else if strings = [] then Some (Inr empty_table)
      else case make_perfect (map fst strings) of None \<Rightarrow> None
           | Some ph \<Rightarrow>
               if ph_capacity ph = 0 then Some (Inl PerfectHashFailed)
               else if table_size (table_header ph) > remaining then Some (Inl TooSmall)
               else write_strings base strings (table_header ph))"

subsection \<open>Classes\<close>

text \<open>
  Both offsets are \<open>int32_t\<close>: the values of these fields are signed 32-bit values, and every store goes through
  \<open>as_offset\<close>. The two methods return \<open>uint32_t\<close>. The count of duplicates is a 32-bit word behind the class
  offsets, and the array after it is memory without a bound of its own.
\<close>

record classheader =
  clsOffset :: int
  hiOffset :: int

definition isDuplicate :: "classheader \<Rightarrow> bool" where "isDuplicate c \<longleftrightarrow> odd (clsOffset c)"
definition duplicateCount_of :: "classheader \<Rightarrow> nat" where "duplicateCount_of c = unat (word_of_int (clsOffset c div 2) :: u32)"
definition duplicateIndex :: "classheader \<Rightarrow> nat" where "duplicateIndex c = unat (word_of_int (hiOffset c) :: u32)"

record clsopt =
  hash_part :: stringhash
  classOffsets :: "classheader list"
  duplicateCount :: u32
  duplicateOffsets :: "nat \<Rightarrow> classheader"

definition class_at :: "nat \<Rightarrow> classheader \<Rightarrow> nat \<times> nat" where
  "class_at this c = (string_at this (clsOffset c), string_at this (hiOffset c))"

text \<open>The number of classes, the class and header if there is just one, and the index.\<close>

definition getClassHeaderAndIndex :: "memory \<Rightarrow> nat \<Rightarrow> clsopt \<Rightarrow> nat \<Rightarrow> (nat \<times> (nat \<times> nat) option \<times> nat) option" where
  "getClassHeaderAndIndex m this t key =
     (case getIndex m this (hash_part t) key of None \<Rightarrow> None
      | Some h \<Rightarrow>
          if h = INDEX_NOT_FOUND then Some (0, None, 0)
          else let clshi = classOffsets t ! h
               in if \<not> isDuplicate clshi then Some (1, Some (class_at this clshi), h)
                  else Some (duplicateCount_of clshi, None, h))"

definition getClassAndHeader :: "memory \<Rightarrow> nat \<Rightarrow> clsopt \<Rightarrow> nat \<Rightarrow> (nat \<times> (nat \<times> nat) option) option" where
  "getClassAndHeader m this t key = map_option (\<lambda>(n, c, _). (n, c)) (getClassHeaderAndIndex m this t key)"

definition class_entries :: "nat \<Rightarrow> clsopt \<Rightarrow> classheader \<Rightarrow> (nat \<times> nat) list" where
  "class_entries this t clshi =
     (if \<not> isDuplicate clshi then [class_at this clshi]
      else map (\<lambda>i. class_at this (duplicateOffsets t (duplicateIndex clshi + i))) [0..<duplicateCount_of clshi])"

definition getClassesAndHeaders :: "memory \<Rightarrow> nat \<Rightarrow> clsopt \<Rightarrow> nat \<Rightarrow> (nat \<times> nat) list option" where
  "getClassesAndHeaders m this t key =
     (case getIndex m this (hash_part t) key of None \<Rightarrow> None
      | Some h \<Rightarrow> Some (if h = INDEX_NOT_FOUND then [] else class_entries this t (classOffsets t ! h)))"

definition getClassForIndex :: "nat \<Rightarrow> clsopt \<Rightarrow> nat \<Rightarrow> nat \<Rightarrow> nat" where
  "getClassForIndex this t index duplicate =
     (let clshi = classOffsets t ! index
      in if \<not> isDuplicate clshi then string_at this (clsOffset clshi)
         else string_at this (clsOffset (duplicateOffsets t (duplicateIndex clshi + duplicate))))"

text \<open>A protocol defined by several images: the first whose image the callback accepts.\<close>

definition getProtocol2 :: "memory \<Rightarrow> nat \<Rightarrow> clsopt \<Rightarrow> (nat \<Rightarrow> bool) \<Rightarrow> nat \<Rightarrow> nat option option" where
  "getProtocol2 m this t callback key =
     (case getIndex m this (hash_part t) key of None \<Rightarrow> None
      | Some h \<Rightarrow> Some (if h = INDEX_NOT_FOUND then None
                       else map_option fst (List.find (\<lambda>(cls, hi). callback hi) (class_entries this t (classOffsets t ! h)))))"

definition clsopt_size :: "clsopt \<Rightarrow> nat" where
  "clsopt_size t = table_size (hash_part t) + capacity (hash_part t) * 8 + 4 + unat (duplicateCount t) * 8"

definition sizeWithoutDups :: "clsopt \<Rightarrow> nat" where
  "sizeWithoutDups t = table_size (hash_part t) + capacity (hash_part t) * 8"

text \<open>The offsets of one class, refused when they do not fit.\<close>

definition class_offsets :: "u64 \<Rightarrow> u64 \<times> u64 \<Rightarrow> classheader option" where
  "class_offsets base c =
     (if fits_offset (fst c - base) \<and> fits_offset (snd c - base)
      then Some \<lparr>clsOffset = as_offset (fst c - base), hiOffset = as_offset (snd c - base)\<rparr> else None)"

definition named :: "u8 list \<Rightarrow> (u8 list \<times> u64 \<times> u64) list \<Rightarrow> (u64 \<times> u64) list" where
  "named s classes = map snd (filter (\<lambda>c. fst c = s) classes)"

text \<open>The array of duplicates with new elements from an index on.\<close>

primrec write_dups :: "nat \<Rightarrow> classheader list \<Rightarrow> (nat \<Rightarrow> classheader) \<Rightarrow> nat \<Rightarrow> classheader" where
  "write_dups dest [] d = d"
| "write_dups dest (x # xs) d = write_dups (dest + 1) xs (d(dest := x))"

definition write_class :: "u64 \<Rightarrow> nat \<Rightarrow> (u8 list \<times> u64 \<times> u64) list \<Rightarrow> nat \<Rightarrow> u8 list \<times> u64 \<times> u64 \<Rightarrow> clsopt \<Rightarrow> write_error + clsopt" where
  "write_class base remaining classes h c t =
     (let dups = named (fst c) classes; count = of_nat (length dups) :: u32
      in if clsOffset (classOffsets t ! h) \<noteq> 0 then Inr t
         else if count = 1 then
           (case class_offsets base (snd c) of None \<Rightarrow> Inl OffsetTooBig
            | Some o' \<Rightarrow> Inr (t\<lparr>classOffsets := (classOffsets t)[h := o']\<rparr>))
         else let dest = duplicateCount t; t = t\<lparr>duplicateCount := dest + count\<rparr>
              in if clsopt_size t > remaining then Inl TooSmall
                 else case those (map (class_offsets base) dups) of None \<Rightarrow> Inl OffsetTooBig
                      | Some os \<Rightarrow> Inr (t\<lparr>classOffsets := (classOffsets t)[h := \<lparr>clsOffset = as_offset (ucast (count * 2 + 1)), hiOffset = as_offset (ucast dest)\<rparr>],
                                           duplicateOffsets := write_dups (unat dest) os (duplicateOffsets t)\<rparr>))"

text \<open>Each class is looked up by its name, at the address it has in the builder's memory.\<close>

primrec write_classes :: "memory \<Rightarrow> nat \<Rightarrow> (u8 list \<Rightarrow> nat) \<Rightarrow> u64 \<Rightarrow> nat \<Rightarrow> (u8 list \<times> u64 \<times> u64) list \<Rightarrow> (u8 list \<times> u64 \<times> u64) list \<Rightarrow> clsopt \<Rightarrow> (write_error + clsopt) option" where
  "write_classes m this name base remaining classes [] t = Some (Inr t)"
| "write_classes m this name base remaining classes (c # cs) t =
     (case getIndex m this (hash_part t) (name (fst c)) of None \<Rightarrow> None
      | Some h \<Rightarrow>
          if h = INDEX_NOT_FOUND then Some (Inl ListBusted)
          else case write_class base remaining classes h c t of Inl e \<Rightarrow> Some (Inl e)
               | Inr t' \<Rightarrow> write_classes m this name base remaining classes cs t')"

text \<open>
  The class offsets are set to 0, the count of duplicates is not: \<open>stale\<close> is what memory holds there, and
  \<open>behind\<close> what it holds in the array after it.
\<close>

definition write_clsopt :: "memory \<Rightarrow> nat \<Rightarrow> (u8 list \<Rightarrow> nat) \<Rightarrow> u64 \<Rightarrow> nat \<Rightarrow> u32 \<Rightarrow> (nat \<Rightarrow> classheader) \<Rightarrow>
    (u8 list \<times> u64) list \<Rightarrow> (u8 list \<times> u64 \<times> u64) list \<Rightarrow> (write_error + clsopt) option" where
  "write_clsopt m this name base remaining stale behind strings classes =
     (case write_table base remaining strings of None \<Rightarrow> None
      | Some (Inl e) \<Rightarrow> Some (Inl e)
      | Some (Inr h) \<Rightarrow>
          (let t = \<lparr>hash_part = h, classOffsets = replicate (capacity h) \<lparr>clsOffset = 0, hiOffset = 0\<rparr>, duplicateCount = stale, duplicateOffsets = behind\<rparr>
           in if sizeWithoutDups t > remaining \<or> clsopt_size t > remaining then Some (Inl TooSmall)
              else write_classes m this name base remaining classes classes t))"

subsection \<open>Protocols\<close>

record protocolopt =
  names_part :: stringhash
  protocolOffsets :: "int list"

definition getProtocol :: "memory \<Rightarrow> nat \<Rightarrow> protocolopt \<Rightarrow> nat \<Rightarrow> nat option option" where
  "getProtocol m this t key =
     (case getIndex m this (names_part t) key of None \<Rightarrow> None
      | Some h \<Rightarrow> Some (if h = INDEX_NOT_FOUND then None else Some (string_at this (protocolOffsets t ! h))))"

definition protocolopt_size :: "protocolopt \<Rightarrow> nat" where
  "protocolopt_size t = table_size (names_part t) + capacity (names_part t) * 4"

primrec write_protocols :: "memory \<Rightarrow> nat \<Rightarrow> (u8 list \<Rightarrow> nat) \<Rightarrow> u64 \<Rightarrow> (u8 list \<times> u64) list \<Rightarrow> protocolopt \<Rightarrow> (write_error + protocolopt) option" where
  "write_protocols m this name base [] t = Some (Inr t)"
| "write_protocols m this name base (p # ps) t =
     (case getIndex m this (names_part t) (name (fst p)) of None \<Rightarrow> None
      | Some h \<Rightarrow>
          if h = INDEX_NOT_FOUND then Some (Inl ListBusted)
          else if \<not> fits_offset (snd p - base) then Some (Inl OffsetTooBig)
          else write_protocols m this name base ps (t\<lparr>protocolOffsets := (protocolOffsets t)[h := as_offset (snd p - base)]\<rparr>))"

definition write_protocolopt :: "memory \<Rightarrow> nat \<Rightarrow> (u8 list \<Rightarrow> nat) \<Rightarrow> u64 \<Rightarrow> nat \<Rightarrow> (u8 list \<times> u64) list \<Rightarrow> (u8 list \<times> u64) list \<Rightarrow> (write_error + protocolopt) option" where
  "write_protocolopt m this name base remaining strings protocols =
     (case write_table base remaining strings of None \<Rightarrow> None
      | Some (Inl e) \<Rightarrow> Some (Inl e)
      | Some (Inr h) \<Rightarrow>
          (let t = \<lparr>names_part = h, protocolOffsets = replicate (capacity h) 0\<rparr>
           in if protocolopt_size t > remaining then Some (Inl TooSmall) else write_protocols m this name base protocols t))"

end
