(* ===== verification/StringTableOk.thy ===== *)
theory StringTableOk
  imports PerfectHashOk StringTable
begin

text \<open>
  What the tables promise: a written table finds every string that was written, at the offset it was given, and no
  other; class tables give back the classes of each name; a table of a single string cannot be read.
\<close>

subsection \<open>Offsets\<close>

lemma fits_offset_exact: "fits_offset off \<Longrightarrow> of_int (as_offset off) = off"
proof -
  assume f: "fits_offset off"
  have "of_int (as_offset off) = (scast (ucast off :: u32) :: u64)" by (simp add: as_offset_def)
  also have "\<dots> = signed_drop_bit 32 (push_bit 32 off)"
  proof (rule bit_word_eqI)
    fix n assume "n < LENGTH(64)"
    then show "bit (scast (ucast off :: u32) :: u64) n = bit (signed_drop_bit 32 (push_bit 32 off)) n"
      by (cases "n < 31"; cases "n = 31") (auto simp: bit_simps bit_signed_drop_bit_iff min_def)
  qed
  finally show ?thesis using f by (simp add: fits_offset_def)
qed

lemma fits_offset_sint: "fits_offset off \<Longrightarrow> as_offset off = sint off"
proof -
  assume "fits_offset off"
  from arg_cong [OF fits_offset_exact [OF this], of sint]
  have "signed_take_bit 63 (as_offset off) = sint off" by (simp only: signed_of_int) simp
  moreover have "signed_take_bit 63 (as_offset off) = as_offset off"
    by (rule signed_take_bit_int_eq_self)(use sint_ge [of "ucast off :: u32"] sint_lt [of "ucast off :: u32"] in \<open>simp_all add: as_offset_def\<close>)
  ultimately show ?thesis by simp
qed

subsection \<open>The reader's hash is the builder's\<close>

definition hashed :: "nat \<Rightarrow> nat \<Rightarrow> u64 \<Rightarrow> u8 list \<Rightarrow> hkey" where
  "hashed alen blen slt s = initnorm alen blen slt [make_key s] ! 0"

lemma initnorm_nth: "i < length ss \<Longrightarrow> initnorm alen blen slt (map make_key ss) ! i = hashed alen blen slt (ss ! i)"
  by (simp add: hashed_def initnorm_def Let_def)

definition reader_hash :: "nat \<Rightarrow> u64 \<Rightarrow> bstuff list \<Rightarrow> u8 list \<Rightarrow> nat" where
  "reader_hash l slt tb s =
     (let k = hashed (2 ^ l) (length tb) slt s in unat (a_k k XOR scrambleinit (2 ^ l) ! val_b (tb ! b_k k)))"

lemma mask_word: "j \<le> 31 \<Longrightarrow> ucast (of_nat (2 ^ j) - 1 :: u32) = (of_nat (2 ^ j - 1) :: u64)"
proof -
  assume j: "j \<le> 31"
  have "(of_nat (2 ^ j) - 1 :: u32) = mask j" by (simp add: mask_eq_exp_minus_1)
  moreover have "(of_nat (2 ^ j - 1) :: u64) = mask j" by (simp add: mask_eq_exp_minus_1 of_nat_diff)
  moreover have "ucast (mask j :: u32) = (mask j :: u64)" using j by (intro bit_word_eqI) (auto simp: bit_simps)
  ultimately show ?thesis by simp
qed

lemma header_hash:
  assumes f: "found_ok keys l (2 ^ l, slt, tb)" and l: "1 \<le> l" "l \<le> 31"
  shows "table_hash (table_header (hash_result (2 ^ l) n (2 ^ l, slt, tb))) s = Some (reader_hash l slt tb s)" "reader_hash l slt tb s < 2 ^ l"
proof -
  obtain j where j: "length tb = 2 ^ j" "j \<le> l" using f by (auto simp: found_ok_def)
  have vb: "\<forall>b < length tb. val_b (tb ! b) < TAB_LIMIT" using f by (simp add: found_ok_def is_perfect_def)
  have blen: "(2::nat) ^ j \<le> 2 ^ 32" using j(2) l(2) by (intro power_increasing) auto
  let ?k = "hashed (2 ^ l) (length tb) slt s"
  have "keys_ok l (length tb) (initnorm (2 ^ l) (length tb) slt [make_key s])"
    by (rule initnorm_ok) (use l j blen in auto)
  then have k: "take_bit l (a_k ?k) = a_k ?k" "b_k ?k < length tb" by (auto simp: keys_ok_def hashed_def initnorm_def Let_def)
  have i: "unat (lookup8 s slt AND ucast (of_nat (length tb) - 1 :: u32)) = b_k ?k"
  proof (cases "j = 0")
    case True
    then show ?thesis using j by (simp add: hashed_def initnorm_def Let_def make_key_def)
  next
    case False
    then have "1 < length tb" using j(1) one_less_power [of "2::nat" j] by simp
    then show ?thesis using mask_word [of j] j l by (simp add: hashed_def initnorm_def Let_def make_key_def)
  qed
  have a: "ucast (drop_bit (64 - l) (lookup8 s slt)) = a_k ?k" using l by (simp add: hashed_def initnorm_def Let_def make_key_def)
  have v: "val_b (tb ! b_k ?k) < TAB_LIMIT" using vb k(2) by simp
  then have "unat (of_nat (val_b (tb ! b_k ?k)) :: u8) = val_b (tb ! b_k ?k)" by (simp add: unat_of_nat take_bit_eq_mod TAB_LIMIT_def)
  then show "table_hash (table_header (hash_result (2 ^ l) n (2 ^ l, slt, tb))) s = Some (reader_hash l slt tb s)"
    using i a k(2) l by (simp add: table_hash_def table_header_def hash_result_def reader_hash_def Let_def)
  have "key_hash [?k] (scrambleinit (2 ^ l)) (val_b (tb ! b_k ?k)) 0 < 2 ^ l"
    by (rule key_hash_less [OF scrambleinit_in_range _ v]) (use k in simp)
  then show "reader_hash l slt tb s < 2 ^ l" by (simp add: key_hash_def reader_hash_def Let_def)
qed

lemma reader_hash_inj:
  assumes f: "found_ok (map make_key ss) l (2 ^ l, slt, tb)" and s: "s \<in> set ss" "s' \<in> set ss" "reader_hash l slt tb s = reader_hash l slt tb s'"
  shows "s = s'"
proof -
  obtain i i' where i: "i < length ss" "s = ss ! i" "i' < length ss" "s' = ss ! i'" using s by (auto simp: in_set_conv_nth)
  let ?ks = "initnorm (2 ^ l) (length tb) slt (map make_key ss)"
  have "inj_on (\<lambda>k. key_hash ?ks (scrambleinit (2 ^ l)) (val_b (tb ! b_k (?ks ! k))) k) {..<length ?ks}"
    using f by (simp add: found_ok_def is_perfect_def)
  moreover have "length ?ks = length ss" by (simp add: initnorm_def Let_def)
  moreover have "key_hash ?ks (scrambleinit (2 ^ l)) (val_b (tb ! b_k (?ks ! k))) k = reader_hash l slt tb (ss ! k)" if "k < length ss" for k
    using initnorm_nth [OF that] by (simp add: key_hash_def reader_hash_def Let_def)
  ultimately have "i = i'" using i s(3) by (auto simp: inj_on_def)
  then show ?thesis using i by simp
qed

lemma log2u_bounds: "2 \<le> n \<Longrightarrow> 1 \<le> log2u n" "n \<le> 2 ^ l \<Longrightarrow> log2u n \<le> l"
proof -
  show "1 \<le> log2u n" if "2 \<le> n"
  proof (rule ccontr)
    assume "\<not> 1 \<le> log2u n"
    then have "log2u n = 0" by simp
    then show False using log2u_covers [of n] that by simp
  qed
  have "log2u_from i n \<le> l" if "n \<le> 2 ^ l" "i \<le> l" for i
    using that
  proof (induction i n rule: log2u_from.induct)
    case (1 i val)
    show ?case
    proof (cases "2 ^ i < val")
      case True
      have "(2::nat) ^ i < 2 ^ l" by (rule less_le_trans [OF True 1(2)])
      then have "i + 1 \<le> l" by simp
      then show ?thesis using 1(1) [OF True 1(2)] True by (subst log2u_from.simps) simp
    next
      case False
      then show ?thesis using 1(3) by (subst log2u_from.simps) simp
    qed
  qed
  then show "log2u n \<le> l" if "n \<le> 2 ^ l" using that by (simp add: log2u_def)
qed

lemma make_perfect_ok:
  assumes p: "make_perfect ss = Some ph" "ph_capacity ph \<noteq> 0" and n: "2 \<le> length ss" "length ss \<le> 2 ^ 30"
  shows "\<exists>l slt tb. 1 \<le> l \<and> l \<le> 31 \<and> ph = hash_result (2 ^ l) (length ss) (2 ^ l, slt, tb) \<and> found_ok (map make_key ss) l (2 ^ l, slt, tb)"
proof -
  let ?l = "log2u (length ss)" and ?keys = "map make_key ss"
  have l: "1 \<le> ?l" "?l \<le> 30" using log2u_bounds n by auto
  have f: "\<exists>slt tb. r = (2 ^ l, slt, tb) \<and> found_ok ?keys l (2 ^ l, slt, tb)" if "findhash (2 ^ l) ?keys = Some (True, r)" "l \<le> 31" for l r
    using findhash_ok [OF that] by (cases r) (auto simp: found_ok_def)
  have twice: "2 * 2 ^ ?l = (2::nat) ^ (?l + 1)" by simp
  show ?thesis
  proof (cases "findhash (2 ^ ?l) ?keys")
    case None
    then show ?thesis using p(1) by (simp add: make_perfect_def Let_def)
  next
    case (Some y)
    show ?thesis
    proof (cases "fst y")
      case True
      then have y: "findhash (2 ^ ?l) ?keys = Some (True, snd y)" using Some by (metis prod.collapse)
      then have "ph = hash_result (2 ^ ?l) (length ss) (snd y)" using p(1) by (simp add: make_perfect_def Let_def)
      moreover obtain slt tb where "snd y = (2 ^ ?l, slt, tb)" "found_ok ?keys ?l (2 ^ ?l, slt, tb)" using f [OF y] l by auto
      ultimately show ?thesis using l by (intro exI [of _ ?l] exI [of _ slt] exI [of _ tb]) simp
    next
      case False
      then have y: "findhash (2 ^ ?l) ?keys = Some (False, snd y)" using Some by (metis (full_types) prod.collapse)
      then have q: "(case findhash (2 ^ (?l + 1)) ?keys of None \<Rightarrow> None | Some (True, r) \<Rightarrow> Some (hash_result (2 ^ (?l + 1)) (length ?keys) r)
          | Some (False, _) \<Rightarrow> Some zero_hash) = Some ph" using p(1) unfolding twice [symmetric] by (simp add: make_perfect_def Let_def)
      obtain z where z: "findhash (2 ^ (?l + 1)) ?keys = Some z" using q by (cases "findhash (2 ^ (?l + 1)) ?keys") auto
      show ?thesis
      proof (cases "fst z")
        case True
        then have zz: "findhash (2 ^ (?l + 1)) ?keys = Some (True, snd z)" using z by (metis prod.collapse)
        then have "ph = hash_result (2 ^ (?l + 1)) (length ss) (snd z)" using q by simp
        moreover obtain slt tb where "snd z = (2 ^ (?l + 1), slt, tb)" "found_ok ?keys (?l + 1) (2 ^ (?l + 1), slt, tb)"
          using f [OF zz] l by auto
        ultimately show ?thesis using l by (intro exI [of _ "?l + 1"] exI [of _ slt] exI [of _ tb]) simp
      next
        case False
        then have "findhash (2 ^ (?l + 1)) ?keys = Some (False, snd z)" using z by (metis (full_types) prod.collapse)
        then show ?thesis using q p(2) by (auto simp: zero_hash_def)
      qed
    qed
  qed
qed

subsection \<open>What is written is found\<close>

lemma table_hash_offsets [simp]: "table_hash (t\<lparr>offsets := a, checkbytes := b\<rparr>) = table_hash t"
  by (simp add: table_hash_def fun_eq_iff Let_def)

text \<open>The entries of the strings written so far; the others are as they were.\<close>

definition entry_of :: "u64 \<Rightarrow> stringhash \<Rightarrow> u8 list \<times> u64 \<Rightarrow> nat \<Rightarrow> bool" where
  "entry_of base t s h \<longleftrightarrow> table_hash t (fst s) = Some h \<and> h < length (offsets t) \<and> offsets t ! h = as_offset (snd s - base) \<and>
     checkbytes t ! h = checkbyte (fst s) \<and> fits_offset (snd s - base)"

lemma write_strings_ok:
  assumes "write_strings base ss t = Some (Inr t')" "length (offsets t) = n" "length (checkbytes t) = n"
    "\<forall>s \<in> set ss. \<exists>h < n. table_hash t (fst s) = Some h" "distinct (map (\<lambda>s. table_hash t (fst s)) ss)"
  shows "(\<exists>os cs. t' = t\<lparr>offsets := os, checkbytes := cs\<rparr> \<and> length os = n \<and> length cs = n) \<and> (\<forall>s \<in> set ss. \<exists>h. entry_of base t' s h) \<and>
    (\<forall>h < n. Some h \<notin> (\<lambda>s. table_hash t (fst s)) ` set ss \<longrightarrow> offsets t' ! h = offsets t ! h \<and> checkbytes t' ! h = checkbytes t ! h)"
  using assms
proof (induction ss arbitrary: t)
  case (Cons s ss)
  obtain h where h: "h < n" "table_hash t (fst s) = Some h" using Cons.prems(4) by auto
  let ?t = "t\<lparr>offsets := (offsets t)[h := as_offset (snd s - base)], checkbytes := (checkbytes t)[h := checkbyte (fst s)]\<rparr>"
  have w: "write_strings base ss ?t = Some (Inr t')" and f: "fits_offset (snd s - base)"
    using Cons.prems(1) h(2) by (auto split: if_splits)
  have i: "(\<exists>os cs. t' = ?t\<lparr>offsets := os, checkbytes := cs\<rparr> \<and> length os = n \<and> length cs = n) \<and> (\<forall>s \<in> set ss. \<exists>h. entry_of base t' s h) \<and>
    (\<forall>h < n. Some h \<notin> (\<lambda>s. table_hash ?t (fst s)) ` set ss \<longrightarrow> offsets t' ! h = offsets ?t ! h \<and> checkbytes t' ! h = checkbytes ?t ! h)"
    by (rule Cons.IH [OF w]) (use Cons.prems(2-5) in auto)
  then obtain os cs where t': "t' = t\<lparr>offsets := os, checkbytes := cs\<rparr>" "length os = n" "length cs = n" by auto
  have rest: "\<forall>k < n. Some k \<notin> (\<lambda>s. table_hash t (fst s)) ` set ss \<longrightarrow> offsets t' ! k = offsets ?t ! k \<and> checkbytes t' ! k = checkbytes ?t ! k"
    using i by simp
  have "Some h \<notin> (\<lambda>s. table_hash t (fst s)) ` set ss" using Cons.prems(5) h(2) by (auto simp: image_iff)
  then have "entry_of base t' s h" using rest h f Cons.prems(2,3) t' by (simp add: entry_of_def)
  moreover have "\<forall>k < n. Some k \<notin> (\<lambda>s. table_hash t (fst s)) ` set (s # ss) \<longrightarrow> offsets t' ! k = offsets t ! k \<and> checkbytes t' ! k = checkbytes t ! k"
    using rest h by auto
  ultimately show ?case using i t' by auto
next
  case Nil
  then have "t' = t\<lparr>offsets := offsets t, checkbytes := checkbytes t\<rparr>" by simp
  then show ?case using Nil by (metis empty_iff empty_set option.inject sum.inject(2) write_strings.simps(1))
qed

text \<open>A table that was written: its strings have entries of their own, and the other slots are empty.\<close>

definition table_ok :: "u64 \<Rightarrow> (u8 list \<times> u64) list \<Rightarrow> stringhash \<Rightarrow> bool" where
  "table_ok base ss t \<longleftrightarrow> length (offsets t) = capacity t \<and> length (checkbytes t) = capacity t \<and> capacity t \<le> 2 ^ 31 \<and>
     (\<forall>s. \<exists>h < capacity t. table_hash t s = Some h) \<and> inj_on (table_hash t) (fst ` set ss) \<and>
     (\<forall>s \<in> set ss. \<exists>h. entry_of base t s h) \<and> (\<forall>h < capacity t. Some h \<notin> table_hash t ` fst ` set ss \<longrightarrow> offsets t ! h = 0)"

lemma write_table_ok:
  assumes w: "write_table base remaining ss = Some (Inr t)" and d: "distinct (map fst ss)" and n: "2 \<le> length ss" "length ss \<le> 2 ^ 30"
  shows "table_ok base ss t"
proof -
  have ne: "ss \<noteq> []" using n by auto
  obtain ph where ph: "make_perfect (map fst ss) = Some ph" "ph_capacity ph \<noteq> 0" "write_strings base ss (table_header ph) = Some (Inr t)"
    using w ne by (auto simp: write_table_def split: if_splits option.splits)
  from make_perfect_ok [OF ph(1,2)] n obtain l slt tb where
    l: "1 \<le> l" "l \<le> 31" "ph = hash_result (2 ^ l) (length ss) (2 ^ l, slt, tb)" "found_ok (map make_key (map fst ss)) l (2 ^ l, slt, tb)" by auto
  let ?t0 = "table_header ph"
  have hash: "table_hash ?t0 s = Some (reader_hash l slt tb s)" "reader_hash l slt tb s < 2 ^ l" for s
    using header_hash(1) [OF l(4,1,2), where n = "length ss" and s = s] header_hash(2) [OF l(4,1,2), where s = s] l(3) by simp_all
  have inj: "inj_on (table_hash ?t0) (fst ` set ss)"
  proof (rule inj_onI)
    fix s s' assume "s \<in> fst ` set ss" "s' \<in> fst ` set ss" "table_hash ?t0 s = table_hash ?t0 s'"
    then show "s = s'" using reader_hash_inj [OF l(4), of s s'] hash(1) by simp
  qed
  then have dd: "distinct (map (\<lambda>s. table_hash ?t0 (fst s)) ss)"
    using d by (simp add: distinct_map inj_on_def)
  have len: "length (offsets ?t0) = 2 ^ l" "length (checkbytes ?t0) = 2 ^ l" "capacity ?t0 = 2 ^ l" "\<And>h. h < 2 ^ l \<Longrightarrow> offsets ?t0 ! h = 0"
    using l(3) by (simp_all add: table_header_def hash_result_def)
  from write_strings_ok [OF ph(3) len(1,2) _ dd] hash obtain os cs where
    t: "t = ?t0\<lparr>offsets := os, checkbytes := cs\<rparr>" "length os = 2 ^ l" "length cs = 2 ^ l" "\<forall>s \<in> set ss. \<exists>h. entry_of base t s h"
      "\<forall>h < 2 ^ l. Some h \<notin> (\<lambda>s. table_hash ?t0 (fst s)) ` set ss \<longrightarrow> offsets t ! h = 0" using len(4) by auto
  have th: "table_hash t = table_hash ?t0" by (simp add: t(1))
  have cap: "capacity t = 2 ^ l" using t(1) len(3) by simp
  have pw: "(2::nat) ^ l \<le> 2 ^ 31" using l(2) by (intro power_increasing) auto
  have "\<forall>h < capacity t. Some h \<notin> table_hash t ` fst ` set ss \<longrightarrow> offsets t ! h = 0" using t(5) th cap by (simp add: image_image)
  moreover have "length (offsets t) = capacity t" "length (checkbytes t) = capacity t" using t(1-3) cap by simp_all
  moreover have "\<forall>s. \<exists>h < capacity t. table_hash t s = Some h" using hash th cap by simp
  ultimately show ?thesis unfolding table_ok_def using inj th cap pw t(4) by simp
qed

lemma string_bytes_cstr: "cstr m p s \<Longrightarrow> string_bytes m p (length s) = s"
  by (rule nth_equalityI) (auto simp: string_bytes_def cstr_def)

text \<open>The strings lie in memory at their offsets from the table, none of them at the table itself.\<close>

definition strings_at :: "memory \<Rightarrow> nat \<Rightarrow> u64 \<Rightarrow> (u8 list \<times> u64) list \<Rightarrow> bool" where
  "strings_at m this base ss \<longleftrightarrow> (\<forall>s \<in> set ss. snd s \<noteq> base \<and> cstr m (string_at this (as_offset (snd s - base))) (fst s))"

lemma getIndex_cstr:
  assumes "table_ok base ss t" "strings_at m this base ss" "cstr m key s"
  shows "\<exists>h < capacity t. table_hash t s = Some h \<and> getIndex m this t key = Some (if s \<in> fst ` set ss then h else INDEX_NOT_FOUND)"
proof -
  obtain h where h: "h < capacity t" "table_hash t s = Some h" using assms(1) unfolding table_ok_def by metis
  have l: "length (offsets t) = capacity t" "length (checkbytes t) = capacity t" using assms(1) by (simp_all add: table_ok_def)
  have g: "getIndex m this t key = (if checkbytes t ! h \<noteq> checkbyte s then Some INDEX_NOT_FOUND else if offsets t ! h = 0 then Some INDEX_NOT_FOUND
      else (case strcmp m key (string_at this (offsets t ! h)) of None \<Rightarrow> None | Some c \<Rightarrow> if c \<noteq> 0 then Some INDEX_NOT_FOUND else Some h))"
    using strlen_cstr [OF assms(3)] string_bytes_cstr [OF assms(3)] h l by (simp add: getIndex_def)
  have z: "0 \<notin> set s" using assms(3) by (auto simp: in_set_conv_nth cstr_def)
  show ?thesis
  proof (cases "Some h \<in> table_hash t ` fst ` set ss")
    case False
    then have "offsets t ! h = 0" using assms(1) h(1) by (simp add: table_ok_def)
    moreover have "s \<notin> fst ` set ss" using False h(2) by (metis image_eqI)
    ultimately have "offsets t ! h = 0" "s \<notin> fst ` set ss" by simp_all
    then show ?thesis using g h by auto
  next
    case True
    then obtain s' where s': "s' \<in> set ss" "table_hash t (fst s') = Some h" by auto
    then have e: "offsets t ! h = as_offset (snd s' - base)" "checkbytes t ! h = checkbyte (fst s')" "fits_offset (snd s' - base)"
      using assms(1) by (auto simp: table_ok_def entry_of_def)
    have c: "cstr m (string_at this (as_offset (snd s' - base))) (fst s')" "snd s' \<noteq> base" using assms(2) s'(1) by (auto simp: strings_at_def)
    have nz: "offsets t ! h \<noteq> 0" using fits_offset_exact [OF e(3)] e(1) c(2) by (metis eq_iff_diff_eq_0 of_int_0)
    have z': "0 \<notin> set (fst s')" using c(1) by (auto simp: in_set_conv_nth cstr_def)
    have cmp: "strcmp m key (string_at this (offsets t ! h)) = Some (bytecmp s (fst s'))" using strcmp_cstr [OF assms(3) c(1)] e(1) by simp
    show ?thesis
    proof (cases "s = fst s'")
      case True
      then show ?thesis using g h e(2) nz cmp bytecmp_0 [OF z z'] s'(1) by auto
    next
      case False
      have "s \<notin> fst ` set ss"
      proof
        assume "s \<in> fst ` set ss"
        then have "s = fst s'" using assms(1) h(2) s' unfolding table_ok_def inj_on_def by (metis image_eqI)
        then show False using False by simp
      qed
      then show ?thesis using g h cmp bytecmp_0 [OF z z'] False by auto
    qed
  qed
qed

subsection \<open>Classes\<close>

text \<open>The entry of a name: the offsets of its one class, or the place of its classes among the duplicates.\<close>

definition class_entry :: "u64 \<Rightarrow> (u8 list \<times> u64 \<times> u64) list \<Rightarrow> clsopt \<Rightarrow> nat \<Rightarrow> u8 list \<Rightarrow> bool" where
  "class_entry base classes t h s \<longleftrightarrow>
     (\<exists>os. those (map (class_offsets base) (named s classes)) = Some os \<and>
        (if length os = 1 then classOffsets t ! h = hd os
         else \<exists>i. classOffsets t ! h = \<lparr>clsOffset = int (length os) * 2 + 1, hiOffset = int i\<rparr> \<and> i < 2 ^ 31 \<and> i + length os \<le> unat (duplicateCount t) \<and>
                (\<forall>k < length os. duplicateOffsets t (i + k) = os ! k)))"

lemma class_entry_more:
  assumes e: "class_entry base classes t h s" and at: "classOffsets t' ! h = classOffsets t ! h"
    and n: "unat (duplicateCount t) \<le> unat (duplicateCount t')"
    and same: "\<forall>k < unat (duplicateCount t). duplicateOffsets t' k = duplicateOffsets t k"
  shows "class_entry base classes t' h s"
proof -
  obtain os where os: "those (map (class_offsets base) (named s classes)) = Some os"
      "if length os = 1 then classOffsets t ! h = hd os
       else \<exists>i. classOffsets t ! h = \<lparr>clsOffset = int (length os) * 2 + 1, hiOffset = int i\<rparr> \<and> i < 2 ^ 31 \<and> i + length os \<le> unat (duplicateCount t) \<and>
              (\<forall>k < length os. duplicateOffsets t (i + k) = os ! k)" using e by (auto simp: class_entry_def)
  show ?thesis
  proof (cases "length os = 1")
    case True
    then show ?thesis using os at unfolding class_entry_def by auto
  next
    case False
    then obtain i where i: "classOffsets t ! h = \<lparr>clsOffset = int (length os) * 2 + 1, hiOffset = int i\<rparr>" "i < 2 ^ 31"
        "i + length os \<le> unat (duplicateCount t)" "\<forall>k < length os. duplicateOffsets t (i + k) = os ! k" using os(2) by auto
    have "\<forall>k < length os. duplicateOffsets t' (i + k) = os ! k" using i(3,4) same by simp
    then show ?thesis using False os(1) i n at unfolding class_entry_def
      by (intro exI [of _ os] conjI) (auto intro: exI [of _ i])
  qed
qed

lemma those_length: "those xs = Some ys \<Longrightarrow> length ys = length xs"
  by (induction xs arbitrary: ys) (auto split: option.splits)

lemma write_dups_below: "k < i \<Longrightarrow> write_dups i os d k = d k"
  by (induction os arbitrary: i d) simp_all

lemma write_dups_at: "k < length os \<Longrightarrow> write_dups i os d (i + k) = os ! k"
proof (induction os arbitrary: i d k)
  case (Cons x xs)
  show ?case
  proof (cases k)
    case 0
    then show ?thesis by (simp add: write_dups_below)
  next
    case (Suc j)
    then have "write_dups (i + 1) xs (d(i := x)) (i + 1 + j) = xs ! j" using Cons.prems by (intro Cons.IH) simp
    then show ?thesis using Suc by simp
  qed
qed simp

lemma as_offset_ucast: "unat w < 2 ^ 31 \<Longrightarrow> as_offset (ucast w) = int (unat w)" for w :: u32
proof -
  assume n: "unat w < 2 ^ 31"
  have "(ucast (ucast w :: u64) :: u32) = w" by (rule bit_word_eqI) (simp add: bit_simps)
  moreover have "int (unat w) < int (2 ^ 31)" using n by (simp only: of_nat_less_iff)
  then have "sint w = int (unat w)" unfolding sint_uint uint_nat by (intro signed_take_bit_int_eq_self) (simp_all del: of_nat_unat)
  ultimately show ?thesis by (simp add: as_offset_def)
qed

lemma unat_count: "n < 2 ^ 31 \<Longrightarrow> unat (of_nat n :: u32) = n"
  by (simp add: unat_of_nat)

lemma unat_count_entry: "n < 2 ^ 30 \<Longrightarrow> unat (of_nat n * 2 + 1 :: u32) = n * 2 + 1"
  using unat_count [of "n * 2 + 1"] by (simp add: add.commute)

lemma unat_add_count: "unat d < 2 ^ 31 \<Longrightarrow> n < 2 ^ 30 \<Longrightarrow> unat (d + of_nat n :: u32) = unat d + n"
  by (simp add: unat_word_ariths unat_of_nat)

lemma write_class_dups:
  assumes w: "write_class base remaining classes h c t = Inr t'" and cl: "clsOffset (classOffsets t ! h) = 0"
    and n1: "length (named (fst c) classes) \<noteq> 1" and bound: "remaining < 2 ^ 32" "length classes < 2 ^ 30" "clsopt_size t \<le> remaining"
  obtains os where "those (map (class_offsets base) (named (fst c) classes)) = Some os" "length os = length (named (fst c) classes)"
    "t' = t\<lparr>classOffsets := (classOffsets t)[h := \<lparr>clsOffset = int (length os) * 2 + 1, hiOffset = int (unat (duplicateCount t))\<rparr>],
           duplicateCount := duplicateCount t', duplicateOffsets := write_dups (unat (duplicateCount t)) os (duplicateOffsets t)\<rparr>"
    "unat (duplicateCount t') = unat (duplicateCount t) + length os" "unat (duplicateCount t) < 2 ^ 31" "clsopt_size t' \<le> remaining"
proof -
  let ?n = "length (named (fst c) classes)"
  have n: "?n < 2 ^ 30" unfolding named_def length_map by (rule le_less_trans [OF length_filter_le bound(2)])
  have d: "unat (duplicateCount t) < 2 ^ 31" using bound(1,3) by (simp add: clsopt_size_def)
  have un: "unat (of_nat ?n :: u32) = ?n" using n by (simp add: unat_count)
  then have "(of_nat ?n :: u32) \<noteq> 1" using n1 by (metis unsigned_1)
  then obtain os where os: "those (map (class_offsets base) (named (fst c) classes)) = Some os"
      "t' = t\<lparr>duplicateCount := duplicateCount t + of_nat ?n,
             classOffsets := (classOffsets t)[h := \<lparr>clsOffset = as_offset (ucast (of_nat ?n * 2 + 1 :: u32)), hiOffset = as_offset (ucast (duplicateCount t))\<rparr>],
             duplicateOffsets := write_dups (unat (duplicateCount t)) os (duplicateOffsets t)\<rparr>"
      "clsopt_size (t\<lparr>duplicateCount := duplicateCount t + of_nat ?n\<rparr>) \<le> remaining"
    using w cl by (auto simp: write_class_def Let_def split: option.splits if_splits)
  have len: "length os = ?n" using those_length [OF os(1)] by simp
  have e: "as_offset (ucast (of_nat ?n * 2 + 1 :: u32)) = int ?n * 2 + 1" "as_offset (ucast (duplicateCount t)) = int (unat (duplicateCount t))"
    using n d by (simp_all add: as_offset_ucast unat_count_entry)
  have "unat (duplicateCount t') = unat (duplicateCount t) + length os" using os(2) len unat_add_count [OF d n] by simp
  moreover have "clsopt_size t' \<le> remaining" using os(2,3) by (simp add: clsopt_size_def)
  ultimately show thesis using os(1,2) e len d by (intro that [of os]) simp_all
qed

lemma write_class_ok:
  assumes w: "write_class base remaining classes h c t = Inr t'" and h: "h < length (classOffsets t)" and c: "c \<in> set classes"
    and old: "clsOffset (classOffsets t ! h) = 0 \<or> class_entry base classes t h (fst c)"
    and bound: "remaining < 2 ^ 32" "length classes < 2 ^ 30" "clsopt_size t \<le> remaining"
  shows "class_entry base classes t' h (fst c) \<and> hash_part t' = hash_part t \<and> length (classOffsets t') = length (classOffsets t) \<and>
    (\<forall>k. k \<noteq> h \<longrightarrow> classOffsets t' ! k = classOffsets t ! k) \<and> unat (duplicateCount t) \<le> unat (duplicateCount t') \<and>
    (\<forall>k < unat (duplicateCount t). duplicateOffsets t' k = duplicateOffsets t k) \<and> clsopt_size t' \<le> remaining"
proof (cases "clsOffset (classOffsets t ! h) = 0")
  case False
  then show ?thesis using w old bound by (auto simp: write_class_def Let_def)
next
  case True
  let ?ds = "named (fst c) classes"
  have in_ds: "snd c \<in> set ?ds" using c by (auto simp: named_def)
  show ?thesis
  proof (cases "length ?ds = 1")
    case one: True
    then obtain x where "?ds = [x]" by (auto simp: length_Suc_conv)
    then have ds: "?ds = [snd c]" using in_ds by simp
    then obtain o' where o': "class_offsets base (snd c) = Some o'" "t' = t\<lparr>classOffsets := (classOffsets t)[h := o']\<rparr>"
      using w True by (auto simp: write_class_def Let_def split: option.splits)
    have "class_entry base classes t' h (fst c)" unfolding class_entry_def ds using o' h by simp
    then show ?thesis using o'(2) bound(3) by (simp add: clsopt_size_def)
  next
    case False
    obtain os where os: "those (map (class_offsets base) ?ds) = Some os" "length os = length ?ds"
        "t' = t\<lparr>classOffsets := (classOffsets t)[h := \<lparr>clsOffset = int (length os) * 2 + 1, hiOffset = int (unat (duplicateCount t))\<rparr>],
               duplicateCount := duplicateCount t', duplicateOffsets := write_dups (unat (duplicateCount t)) os (duplicateOffsets t)\<rparr>"
        "unat (duplicateCount t') = unat (duplicateCount t) + length os" "unat (duplicateCount t) < 2 ^ 31" "clsopt_size t' \<le> remaining"
      using write_class_dups [OF w True False bound] by blast
    have dups: "duplicateOffsets t' = write_dups (unat (duplicateCount t)) os (duplicateOffsets t)"
      by (subst os(3)) simp
    have offs: "classOffsets t' = (classOffsets t)[h := \<lparr>clsOffset = int (length os) * 2 + 1, hiOffset = int (unat (duplicateCount t))\<rparr>]"
      by (subst os(3)) simp
    have hp: "hash_part t' = hash_part t" by (subst os(3)) simp
    have "class_entry base classes t' h (fst c)" unfolding class_entry_def
      by (rule exI [of _ os]) (use os(1,2,4,5) offs h False in \<open>auto simp: dups write_dups_at intro!: exI [of _ "unat (duplicateCount t)"]\<close>)
    then show ?thesis using os(4,6) hp offs dups by (simp add: write_dups_below)
  qed
qed

lemma write_classes_ok:
  assumes w: "write_classes m this name base remaining classes cs t = Some (Inr t')" and cs: "set cs \<subseteq> set classes"
    and len: "length (classOffsets t) = n"
    and bound: "remaining < 2 ^ 32" "length classes < 2 ^ 30" "clsopt_size t \<le> remaining"
    and ix: "\<forall>c \<in> set classes. index (fst c) < n \<and> index (fst c) \<noteq> INDEX_NOT_FOUND \<and> getIndex m this (hash_part t) (name (fst c)) = Some (index (fst c))"
    and inj: "inj_on index (fst ` set classes)"
    and old: "\<forall>c \<in> set classes. clsOffset (classOffsets t ! index (fst c)) = 0 \<or> class_entry base classes t (index (fst c)) (fst c)"
  shows "hash_part t' = hash_part t \<and> (\<forall>c \<in> set cs. class_entry base classes t' (index (fst c)) (fst c)) \<and>
    (\<forall>c \<in> set classes. class_entry base classes t (index (fst c)) (fst c) \<longrightarrow> class_entry base classes t' (index (fst c)) (fst c))"
  using w cs len bound(3) ix old
proof (induction cs arbitrary: t)
  case (Cons c cs)
  have c: "c \<in> set classes" using Cons.prems(2) by simp
  let ?h = "index (fst c)"
  have g: "getIndex m this (hash_part t) (name (fst c)) = Some ?h" "?h < length (classOffsets t)" "?h \<noteq> INDEX_NOT_FOUND"
    using Cons.prems(3,5) c by auto
  obtain t1 where t1: "write_class base remaining classes ?h c t = Inr t1" "write_classes m this name base remaining classes cs t1 = Some (Inr t')"
    using Cons.prems(1) g by (auto split: sum.splits)
  note k = write_class_ok [OF t1(1) g(2) c]
  have old: "clsOffset (classOffsets t ! ?h) = 0 \<or> class_entry base classes t ?h (fst c)" using Cons.prems(6) c by blast
  have f: "class_entry base classes t1 ?h (fst c)" "hash_part t1 = hash_part t" "length (classOffsets t1) = n"
      "\<forall>k. k \<noteq> ?h \<longrightarrow> classOffsets t1 ! k = classOffsets t ! k" "unat (duplicateCount t) \<le> unat (duplicateCount t1)"
      "\<forall>k < unat (duplicateCount t). duplicateOffsets t1 k = duplicateOffsets t k" "clsopt_size t1 \<le> remaining"
    using k [OF old bound(1,2) Cons.prems(4)] Cons.prems(3) by simp_all
  have keep: "class_entry base classes t1 (index (fst d)) (fst d)" if "d \<in> set classes" "class_entry base classes t (index (fst d)) (fst d)" for d
  proof (cases "index (fst d) = ?h")
    case True
    then have "fst d = fst c" using inj that(1) c by (metis image_eqI inj_onD)
    then show ?thesis using f(1) by simp
  next
    case False
    show ?thesis by (rule class_entry_more [OF that(2) _ f(5,6)]) (use f(4) False in simp)
  qed
  have "\<forall>d \<in> set classes. clsOffset (classOffsets t1 ! index (fst d)) = 0 \<or> class_entry base classes t1 (index (fst d)) (fst d)"
  proof
    fix d assume d: "d \<in> set classes"
    show "clsOffset (classOffsets t1 ! index (fst d)) = 0 \<or> class_entry base classes t1 (index (fst d)) (fst d)"
    proof (cases "index (fst d) = ?h")
      case True
      then have "fst d = fst c" using inj d c by (metis image_eqI inj_onD)
      then show ?thesis using f(1) by simp
    next
      case False
      then show ?thesis using Cons.prems(6) d keep [OF d] f(4) by metis
    qed
  qed
  from Cons.IH [OF t1(2) _ f(3,7) _ this] Cons.prems(2,5) f(2) have
    i: "hash_part t' = hash_part t1 \<and> (\<forall>c \<in> set cs. class_entry base classes t' (index (fst c)) (fst c)) \<and>
    (\<forall>c \<in> set classes. class_entry base classes t1 (index (fst c)) (fst c) \<longrightarrow> class_entry base classes t' (index (fst c)) (fst c))" by simp
  then show ?case using f(1,2) c keep by auto
qed simp

end
