(* ===== verification/SharedCache.thy ===== *)
theory SharedCache
  imports StringTableOk
begin

text \<open>
  The properties of the shared cache's perfect hash and tables, with a table of two strings worked out in full.
\<close>

subsection \<open>A table of two strings\<close>

text \<open>The hash over integers, which the simplifier evaluates on numerals.\<close>

definition imix_round :: "nat \<Rightarrow> nat \<Rightarrow> nat \<Rightarrow> int \<times> int \<times> int \<Rightarrow> int \<times> int \<times> int" where
  "imix_round s t u = (\<lambda>(a, b, c).
     (let a' = take_bit 64 (a - b - c) XOR drop_bit s (take_bit 64 c);
          b' = take_bit 64 (b - c - a') XOR push_bit t a'
      in (take_bit 64 a', take_bit 64 b', take_bit 64 (c - a' - b') XOR drop_bit u (take_bit 64 b'))))"

definition imix64 :: "int \<times> int \<times> int \<Rightarrow> int" where
  "imix64 x = snd (snd (imix_round 12 18 22 (imix_round 35 49 11 (imix_round 38 23 5 (imix_round 43 9 8 x)))))"

definition words :: "int \<times> int \<times> int \<Rightarrow> u64 \<times> u64 \<times> u64" where "words = (\<lambda>(a, b, c). (word_of_int a, word_of_int b, word_of_int c))"

lemma word_of_int_bits:
  "(word_of_int (take_bit 64 a) :: u64) = word_of_int a" "word_of_int (a XOR b) = (word_of_int a XOR word_of_int b :: u64)"
  "word_of_int (drop_bit s (take_bit 64 a)) = drop_bit s (word_of_int a :: u64)"
  by (rule bit_word_eqI; simp add: bit_simps; blast)+

lemma mix_round_words: "mix_round s t u (words x) = words (imix_round s t u x)"
  by (cases x) (simp add: words_def mix_round_def imix_round_def Let_def word_of_int_bits push_bit_eq_mult)

lemma mix64_words: "snd (snd (mix64 (words x))) = word_of_int (imix64 x)"
  unfolding mix64_def mix_round_words imix64_def by (simp add: words_def case_prod_beta)

lemma lookup8_one: "lookup8 [k] level = word_of_int (imix64 (uint level + uint k, uint level, 0x9e3779b97f4a7c14))"
proof -
  have "(word_of_int (uint level + uint k) :: u64) = level + ucast k" by simp
  then have "words (uint level + uint k, uint level, 0x9e3779b97f4a7c14) = (level + ucast k, level, 0x9e3779b97f4a7c13 + 1)"
    by (simp add: words_def)
  then have "lookup8 [k] level = snd (snd (mix64 (words (uint level + uint k, uint level, 0x9e3779b97f4a7c14))))"
    by (simp add: lookup8_def lookup8_blocks.simps)
  then show ?thesis by (simp only: mix64_words)
qed

lemma salt_1: "uint (salt_of 1) = 0x9e3779b97f4a7c13"
  by (simp add: salt_of_def golden_def)

lemma imix_values: "take_bit 64 (imix64 (0x9e3779b97f4a7c13 + 0x61, 0x9e3779b97f4a7c13, 0x9e3779b97f4a7c14)) div 2 ^ 63 = 1"
  "take_bit 64 (imix64 (0x9e3779b97f4a7c13 + 0x62, 0x9e3779b97f4a7c13, 0x9e3779b97f4a7c14)) div 2 ^ 63 = 0"
  by code_simp+

text \<open>Keys that all have the same \<open>b\<close> take the value 0.\<close>

lemma scan_keys_empty:
  "\<forall>k \<in> set ks. key_hash keys scr i k < smax \<and> tabh st ! key_hash keys scr i k = None \<Longrightarrow> scan_keys keys scr smax hw st i ks None = Some None"
  by (induction ks) (auto simp: Let_def)

lemma distinct_single: "distinct xs \<Longrightarrow> set xs = {x} \<Longrightarrow> xs = [x]"
proof -
  assume d: "distinct xs" "set xs = {x}"
  then have "length xs = 1" using distinct_card [of xs] by simp
  then obtain y where "xs = [y]" by (auto simp: length_Suc_conv)
  then show "xs = [x]" using d(2) by simp
qed

lemma one_list_perfect:
  assumes ks: "keys_ok l 1 keys" "apart_keys keys" "keys \<noteq> []" and tb: "lists_ok keys (length keys) tb" "length tb = 1"
  shows "\<exists>tb'. perfect keys (scrambleinit (2 ^ l)) (2 ^ l) tb = Some (True, tb')"
proof -
  let ?scr = "scrambleinit (2 ^ l)" and ?st = "\<lparr>tabb = tb, tabh = replicate (2 ^ l) None, tabq = replicate (length tb + 1) zero_q, tail = 0\<rparr>"
  let ?st1 = "?st\<lparr>tabq := (tabq ?st)[0 := (tabq ?st ! 0)\<lparr>b_q := Some 0\<rparr>], tail := 1\<rparr>"
  have b: "b_k (keys ! k) = 0" "take_bit l (a_k (keys ! k)) = a_k (keys ! k)" if "k < length keys" for k using keys_okD [OF ks(1) that] by simp_all
  have "set (list_b (tb ! 0)) = {k. k < length keys \<and> b_k (keys ! k) = 0}" and l1: "listlen_b (tb ! 0) = length (list_b (tb ! 0))"
    using tb by (simp_all add: lists_ok_def)
  then have l0: "set (list_b (tb ! 0)) = {k. k < length keys}" "listlen_b (tb ! 0) = length (list_b (tb ! 0))" using l1 b(1) by (simp_all add: conj_commute cong: conj_cong)
  then have "0 < listlen_b (tb ! 0)" using ks(3) length_pos_if_in_set [of 0 "list_b (tb ! 0)"] by simp
  then have "set (by_size tb) = {0}" using by_size_order(2) [of tb] tb(2) by auto
  then have order: "by_size tb = [0]" by (rule distinct_single [OF by_size_order(1)])
  have w1: "work_ok keys ?scr l 1 {} {0} ?st1" using tb by (auto simp: work_ok_def lists_ok_def owner_def TAB_LIMIT_def)
  have h: "key_hash keys ?scr 0 k < 2 ^ l" if "k < length keys" for k
    by (rule key_hash_less [OF scrambleinit_in_range b(2) [OF that]]) (simp add: TAB_LIMIT_def)
  then have free: "\<forall>k \<in> set (list_b (tabb ?st1 ! 0)). key_hash keys ?scr 0 k < 2 ^ l \<and> tabh ?st1 ! key_hash keys ?scr 0 k = None" using l0 by simp
  have sc: "scan_keys keys ?scr (2 ^ l) 1 ?st1 0 (list_b (tabb ?st1 ! 0)) None = Some None" by (rule scan_keys_empty [OF free])
  let ?st2 = "?st1\<lparr>tabq := (tabq ?st1)[1 := \<lparr>b_q = None, parent_q = 0, newval_q = 0, oldval_q = val_b (tabb ?st1 ! 0)\<rparr>], tail := 2\<rparr>"
  have e: "enqueue None 0 0 0 1 ?st1 = Some ?st2" using tb(2) by (simp add: enqueue_def numeral_2_eq_2)
  have w2: "work_ok keys ?scr l 1 {} {0} ?st2" using w1 by (simp add: work_ok_def)
  have "\<exists>st'. apply_path keys ?scr ?st2 = Some (True, st') \<and> work_ok keys ?scr l 1 (insert 0 {}) {0} st'"
    by (rule apply_root [OF w2 ks(1,2) scrambleinit_in_range, where t = 1 and i = 0]) (use tb(2) free in \<open>simp_all add: TAB_LIMIT_def\<close>)
  then obtain st' where a: "apply_path keys ?scr ?st2 = Some (True, st')" by blast
  have "[0..<TAB_LIMIT] = 0 # [1..<TAB_LIMIT]" by (simp add: TAB_LIMIT_def upt_conv_Cons)
  then have "augment keys ?scr (2 ^ l) 0 (0 + 1) ?st = Some (True, st')" using sc e a by (simp add: augment_def)
  then show ?thesis using order by (simp add: perfect_def)
qed

definition ex_strings :: "(u8 list \<times> u64) list" where "ex_strings = [([0x61], 0x9000), ([0x62], 0x9010)]"

definition ex_memory :: memory where "ex_memory = (\<lambda>_. 0)(0x9000 := 0x61, 0x9010 := 0x62, 0x7000 := 0x62, 0x7100 := 0x63)"

lemma ex_keys: "initnorm 2 1 (salt_of 1) (map make_key [[0x61], [0x62]]) =
    [\<lparr>name_k = [0x61], a_k = 1, b_k = 0\<rparr>, \<lparr>name_k = [0x62], a_k = 0, b_k = 0\<rparr>]"
proof -
  have d: "drop_bit 63 (word_of_int i :: u64) = word_of_int (take_bit 64 i div 2 ^ 63)" for i
  proof -
    have "drop_bit 63 (word_of_int i :: u64) = word_of_int (drop_bit 63 (take_bit 64 i))" by (simp only: word_of_int_bits)
    then show ?thesis by (simp only: drop_bit_eq_div)
  qed
  have "drop_bit 63 (lookup8 [0x61] (salt_of 1)) = 1" "drop_bit 63 (lookup8 [0x62] (salt_of 1)) = 0"
    unfolding lookup8_one d salt_1 using imix_values by simp_all
  moreover have "log2u 2 = 1" using log2u_pow [of 1] by simp
  ultimately show ?thesis by (simp add: initnorm_def Let_def make_key_def)
qed

lemma ex_attempt: "\<exists>tb. attempt_salt (scrambleinit 2) 2 (map make_key [[0x61], [0x62]]) 2 1 1 = Some (Perfect tb)"
proof -
  let ?ks = "initnorm 2 1 (salt_of 1) (map make_key [[0x61], [0x62]])"
  have i: "inittab False ?ks 1 = (True, snd (inittab False ?ks 1))"
    unfolding ex_keys by (simp add: inittab_def Let_def add_key_def upt_rec zero_b_def)
  have ok: "keys_ok 1 1 ?ks" unfolding ex_keys by (auto simp: keys_ok_def)
  note t = inittab_ok [OF ok i]
  have "?ks \<noteq> []" unfolding ex_keys by simp
  from one_list_perfect [OF ok _ this, of "snd (inittab False ?ks 1)"] t obtain tb' where
    "perfect ?ks (scrambleinit 2) 2 (snd (inittab False ?ks 1)) = Some (True, tb')" by auto
  then show ?thesis using i by (simp add: attempt_salt_def Let_def) (metis fst_conv)
qed

lemma ex_findhash: "\<exists>tb. findhash 2 (map make_key [[0x61], [0x62]]) = Some (True, 2, salt_of 1, tb)"
proof -
  obtain tb where "attempt_salt (scrambleinit 2) 2 (map make_key [[0x61], [0x62]]) 2 1 1 = Some (Perfect tb)" using ex_attempt by blast
  then have "findhash_loop (scrambleinit 2) 2 (map make_key [[0x61], [0x62]]) 2 1 1 0 0 = Some (True, 2, salt_of 1, tb)"
    using findhash_loop_ends [of 0 "scrambleinit 2" 2 "map make_key [[0x61], [0x62]]" 2 1 1 tb 0 0] by (simp add: RETRY_INITKEY_def)
  moreover have "initalen 2 (length (map make_key [[0x61], [0x62]])) = (2, 1)" by (simp add: initalen_def)
  ultimately show ?thesis by (simp only: findhash_def Let_def prod.case) blast
qed

text \<open>Without an offset that does not fit, the writer does not fail once it has a hash.\<close>

lemma write_strings_total:
  "\<forall>s \<in> set ss. fits_offset (snd s - base) \<Longrightarrow> \<forall>s. table_hash t s \<noteq> None \<Longrightarrow> \<exists>t'. write_strings base ss t = Some (Inr t')"
proof (induction ss arbitrary: t)
  case (Cons s ss)
  obtain h where h: "table_hash t (fst s) = Some h" using Cons.prems(2) by blast
  have "\<exists>t'. write_strings base ss (t\<lparr>offsets := (offsets t)[h := as_offset (snd s - base)], checkbytes := (checkbytes t)[h := checkbyte (fst s)]\<rparr>) = Some (Inr t')"
    by (rule Cons.IH) (use Cons.prems in simp_all)
  then show ?case using Cons.prems(1) h by simp
qed simp

lemma write_strings_size: "write_strings base ss t = Some (Inr t') \<Longrightarrow> table_size t' = table_size t \<and> capacity t' = capacity t"
proof (induction ss arbitrary: t)
  case (Cons s ss)
  then obtain h where "write_strings base ss (t\<lparr>offsets := (offsets t)[h := as_offset (snd s - base)], checkbytes := (checkbytes t)[h := checkbyte (fst s)]\<rparr>) = Some (Inr t')"
    by (auto split: if_splits option.splits)
  from Cons.IH [OF this] show ?case by (simp add: table_size_def)
qed simp

lemma ex_table: "\<exists>t. write_table 0x8000 4096 ex_strings = Some (Inr t) \<and> table_size t + capacity t * 8 + 4 \<le> 4000"
proof -
  obtain tb where f: "findhash 2 (map make_key [[0x61], [0x62]]) = Some (True, 2, salt_of 1, tb)" using ex_findhash by blast
  have ok: "found_ok (map make_key [[0x61], [0x62]]) 1 (2 ^ 1, salt_of 1, tb)" using findhash_ok [of 1 "map make_key [[0x61], [0x62]]"] f by simp
  let ?ph = "hash_result 2 2 (2, salt_of 1, tb)"
  have l: "log2u 2 = 1" using log2u_pow [of 1] by simp
  then have p: "make_perfect (map fst ex_strings) = Some ?ph" using f by (simp add: make_perfect_def ex_strings_def numeral_2_eq_2)
  obtain j where "length tb = 2 ^ j" "j \<le> 1" using ok by (auto simp: found_ok_def)
  then have "unat (of_nat (length tb) - 1 :: u32) \<le> 1" by (cases j) auto
  then have sz: "table_size (table_header ?ph) \<le> 2048" "capacity (table_header ?ph) = 2" by (simp_all add: table_size_def table_header_def hash_result_def sizeof_stringhash_def)
  have "table_hash (table_header ?ph) s \<noteq> None" for s using header_hash(1) [OF ok, of 2 s] by simp
  then obtain t where w: "write_strings 0x8000 ex_strings (table_header ?ph) = Some (Inr t)"
    using write_strings_total [of ex_strings "0x8000" "table_header ?ph"] by (auto simp: ex_strings_def fits_offset_def)
  have "write_table 0x8000 4096 ex_strings = Some (Inr t)"
    using p sz w by (simp add: write_table_def sizeof_stringhash_def ex_strings_def hash_result_def)
  then show ?thesis using write_strings_size [OF w] sz by auto
qed

subsection \<open>Class tables\<close>

lemma those_map: "those (map f xs) = Some ys \<longleftrightarrow> length ys = length xs \<and> (\<forall>i < length xs. f (xs ! i) = Some (ys ! i))"
proof (induction xs arbitrary: ys)
  case (Cons x xs)
  then show ?case by (cases ys) (auto split: option.splits simp: less_Suc_eq_0_disj)
qed auto

text \<open>The classes and headers of a map as pointers next to the table: each at its 64-bit distance from the base.\<close>

definition class_places :: "nat \<Rightarrow> u64 \<Rightarrow> (u64 \<times> u64) list \<Rightarrow> (nat \<times> nat) list" where
  "class_places this base = map (\<lambda>c. (string_at this (sint (fst c - base)), string_at this (sint (snd c - base))))"

lemma class_at_offsets: "class_offsets base c = Some o' \<Longrightarrow>
    class_at this o' = (string_at this (sint (fst c - base)), string_at this (sint (snd c - base))) \<and> clsOffset o' = sint (fst c - base)"
  by (auto simp: class_offsets_def class_at_def fits_offset_sint split: if_splits)

lemma class_entry_reads:
  assumes e: "class_entry base cs t h s" and ne: "named s cs \<noteq> []" and few: "length cs < 2 ^ 30"
    and even: "length (named s cs) = 1 \<Longrightarrow> even (sint (fst (hd (named s cs)) - base))"
  shows "class_entries this t (classOffsets t ! h) = class_places this base (named s cs)"
    "isDuplicate (classOffsets t ! h) \<longleftrightarrow> length (named s cs) \<noteq> 1"
    "length (named s cs) \<noteq> 1 \<Longrightarrow> duplicateCount_of (classOffsets t ! h) = length (named s cs)"
proof -
  obtain os where os: "those (map (class_offsets base) (named s cs)) = Some os"
      "if length os = 1 then classOffsets t ! h = hd os
       else \<exists>i. classOffsets t ! h = \<lparr>clsOffset = int (length os) * 2 + 1, hiOffset = int i\<rparr> \<and> i < 2 ^ 31 \<and> i + length os \<le> unat (duplicateCount t) \<and>
              (\<forall>k < length os. duplicateOffsets t (i + k) = os ! k)" using e by (auto simp: class_entry_def)
  have n: "length os = length (named s cs)" and each: "\<And>i. i < length os \<Longrightarrow> class_offsets base (named s cs ! i) = Some (os ! i)"
    using os(1) by (auto simp: those_map)
  have lt: "length os < 2 ^ 30" unfolding n named_def length_map by (rule le_less_trans [OF length_filter_le few])
  have at: "map (class_at this) os = class_places this base (named s cs)"
    by (rule nth_equalityI) (use n each class_at_offsets in \<open>auto simp: class_places_def\<close>)
  have "class_entries this t (classOffsets t ! h) = class_places this base (named s cs) \<and>
    (isDuplicate (classOffsets t ! h) \<longleftrightarrow> length (named s cs) \<noteq> 1) \<and>
    (length (named s cs) \<noteq> 1 \<longrightarrow> duplicateCount_of (classOffsets t ! h) = length (named s cs))"
  proof (cases "length os = 1")
    case True
    then obtain o' where o': "os = [o']" by (auto simp: length_Suc_conv)
    have "class_offsets base (hd (named s cs)) = Some o'" using each [of 0] o' ne by (simp add: hd_conv_nth)
    then have "clsOffset o' = sint (fst (hd (named s cs)) - base)" using class_at_offsets by blast
    then have "even (clsOffset o')" using even True n by simp
    then show ?thesis using os(2) o' at n by (simp add: class_entries_def isDuplicate_def)
  next
    case False
    then obtain i where i: "classOffsets t ! h = \<lparr>clsOffset = int (length os) * 2 + 1, hiOffset = int i\<rparr>" "i < 2 ^ 31"
        "\<forall>k < length os. duplicateOffsets t (i + k) = os ! k" using os(2) by auto
    have d: "duplicateCount_of (classOffsets t ! h) = length os" "duplicateIndex (classOffsets t ! h) = i"
      using i(1,2) lt by (simp_all add: duplicateCount_of_def duplicateIndex_def unat_count)
    have "map (\<lambda>k. class_at this (duplicateOffsets t (i + k))) [0..<length os] = map (class_at this) os"
      by (rule nth_equalityI) (use i(3) in simp_all)
    then show ?thesis using i(1) d at n False by (simp add: class_entries_def isDuplicate_def)
  qed
  then show "class_entries this t (classOffsets t ! h) = class_places this base (named s cs)"
    "isDuplicate (classOffsets t ! h) \<longleftrightarrow> length (named s cs) \<noteq> 1"
    "length (named s cs) \<noteq> 1 \<Longrightarrow> duplicateCount_of (classOffsets t ! h) = length (named s cs)" by auto
qed

lemma write_clsopt_ok:
  assumes w: "write_clsopt m this name base remaining stale behind ss cs = Some (Inr t)" and bound: "remaining < 2 ^ 32" "length cs < 2 ^ 30" and d: "distinct (map fst ss)" "2 \<le> length ss" "length ss \<le> 2 ^ 30"
    and at: "strings_at m this base ss" and names: "\<forall>c \<in> set cs. fst c \<in> fst ` set ss \<and> cstr m (name (fst c)) (fst c)"
  shows "table_ok base ss (hash_part t) \<and> (\<forall>c \<in> set cs. \<exists>h. table_hash (hash_part t) (fst c) = Some h \<and> class_entry base cs t h (fst c))"
proof -
  let ?start = "\<lambda>hp. \<lparr>hash_part = hp, classOffsets = replicate (capacity hp) \<lparr>clsOffset = 0, hiOffset = 0\<rparr>, duplicateCount = stale, duplicateOffsets = behind\<rparr>"
  obtain hp where hp: "write_table base remaining ss = Some (Inr hp)" "write_classes m this name base remaining cs cs (?start hp) = Some (Inr t)"
      "clsopt_size (?start hp) \<le> remaining"
    using w by (auto simp: write_clsopt_def Let_def split: option.splits sum.splits if_splits)
  note ok = write_table_ok [OF hp(1) d]
  let ?ix = "\<lambda>s. the (table_hash hp s)"
  have lt: "table_hash hp s = Some (?ix s) \<and> ?ix s < capacity hp" for s using ok unfolding table_ok_def by (metis option.sel)
  have "capacity hp \<le> 2 ^ 31" using ok by (simp add: table_ok_def)
  then have nf: "?ix s \<noteq> INDEX_NOT_FOUND" for s using lt [of s] by (auto simp: INDEX_NOT_FOUND_def)
  have inj: "inj_on ?ix (fst ` set cs)"
  proof (rule inj_onI)
    fix a b assume "a \<in> fst ` set cs" "b \<in> fst ` set cs" "?ix a = ?ix b"
    moreover have "table_hash hp a = table_hash hp b" using calculation(3) lt by metis
    moreover have "a \<in> fst ` set ss" "b \<in> fst ` set ss" using calculation(1,2) names by auto
    ultimately show "a = b" using ok unfolding table_ok_def by (meson inj_onD)
  qed
  have ix: "getIndex m this hp (name (fst c)) = Some (?ix (fst c))" if "c \<in> set cs" for c
    using getIndex_cstr [OF ok at, of "name (fst c)" "fst c"] names that by auto
  from write_classes_ok [OF hp(2) order_refl _ bound hp(3), where n = "capacity hp" and index = ?ix] inj ix lt nf
  have "hash_part t = hp \<and> (\<forall>c \<in> set cs. class_entry base cs t (?ix (fst c)) (fst c))" by simp
  then show ?thesis using ok lt by blast
qed

subsection \<open>Protocol tables\<close>

lemma write_protocols_ok:
  assumes "write_protocols m this name base ps t = Some (Inr t')" "length (protocolOffsets t) = n" "distinct (map fst ps)" "inj_on index (fst ` set ps)"
    "\<forall>p \<in> set ps. index (fst p) < n \<and> getIndex m this (names_part t) (name (fst p)) = Some (index (fst p))"
  shows "names_part t' = names_part t \<and> length (protocolOffsets t') = n \<and>
    (\<forall>p \<in> set ps. protocolOffsets t' ! index (fst p) = as_offset (snd p - base) \<and> fits_offset (snd p - base)) \<and>
    (\<forall>h. h \<notin> index ` fst ` set ps \<longrightarrow> protocolOffsets t' ! h = protocolOffsets t ! h)"
  using assms
proof (induction ps arbitrary: t)
  case (Cons p ps)
  let ?h = "index (fst p)" and ?t = "t\<lparr>protocolOffsets := (protocolOffsets t)[index (fst p) := as_offset (snd p - base)]\<rparr>"
  have h: "?h < n" "getIndex m this (names_part t) (name (fst p)) = Some ?h" using Cons.prems(5) by auto
  have w: "write_protocols m this name base ps ?t = Some (Inr t')" and f: "fits_offset (snd p - base)"
    using Cons.prems(1) h(2) by (auto split: if_splits)
  have i: "names_part t' = names_part ?t \<and> length (protocolOffsets t') = n \<and>
    (\<forall>p \<in> set ps. protocolOffsets t' ! index (fst p) = as_offset (snd p - base) \<and> fits_offset (snd p - base)) \<and>
    (\<forall>h. h \<notin> index ` fst ` set ps \<longrightarrow> protocolOffsets t' ! h = protocolOffsets ?t ! h)"
    by (rule Cons.IH [OF w]) (use Cons.prems(2-5) in \<open>auto simp: inj_on_def\<close>)
  have "?h \<notin> index ` fst ` set ps"
  proof
    assume "?h \<in> index ` fst ` set ps"
    then obtain q where "q \<in> set ps" "index (fst p) = index (fst q)" by auto
    then have "fst p = fst q" using Cons.prems(4) by (auto simp: inj_on_def)
    then show False using Cons.prems(3) \<open>q \<in> set ps\<close> by force
  qed
  then have "protocolOffsets t' ! ?h = as_offset (snd p - base)" using i h(1) Cons.prems(2) by simp
  then show ?case using i f by auto
qed simp

lemma protocol_table_exact:
  assumes w: "write_protocolopt m this name base remaining ss ps = Some (Inr t)" and d: "distinct (map fst ss)" "2 \<le> length ss" "length ss \<le> 2 ^ 30"
    and at: "strings_at m this base ss" and ps: "distinct (map fst ps)" "\<forall>p \<in> set ps. fst p \<in> fst ` set ss \<and> cstr m (name (fst p)) (fst p)"
    and key: "cstr m key s" "(s, a) \<in> set ps"
  shows "getProtocol m this t key = Some (Some (string_at this (as_offset (a - base))))" "of_int (as_offset (a - base)) = a - base"
proof -
  obtain hp where hp: "write_table base remaining ss = Some (Inr hp)"
      "write_protocols m this name base ps \<lparr>names_part = hp, protocolOffsets = replicate (capacity hp) 0\<rparr> = Some (Inr t)"
    using w by (auto simp: write_protocolopt_def Let_def split: option.splits sum.splits if_splits)
  note ok = write_table_ok [OF hp(1) d]
  let ?ix = "\<lambda>s. the (table_hash hp s)"
  have lt: "table_hash hp s = Some (?ix s) \<and> ?ix s < capacity hp" for s using ok unfolding table_ok_def by (metis option.sel)
  have inj: "inj_on ?ix (fst ` set ps)"
  proof (rule inj_onI)
    fix x y assume "x \<in> fst ` set ps" "y \<in> fst ` set ps" "?ix x = ?ix y"
    moreover have "table_hash hp x = table_hash hp y" using calculation(3) lt by metis
    moreover have "x \<in> fst ` set ss" "y \<in> fst ` set ss" using calculation(1,2) ps(2) by auto
    ultimately show "x = y" using ok unfolding table_ok_def by (meson inj_onD)
  qed
  have ix: "getIndex m this hp (name (fst p)) = Some (?ix (fst p))" if "p \<in> set ps" for p
    using getIndex_cstr [OF ok at, of "name (fst p)" "fst p"] ps(2) that by auto
  from write_protocols_ok [OF hp(2) _ ps(1) inj, of "capacity hp"] ix lt have
    r: "names_part t = hp" "\<forall>p \<in> set ps. protocolOffsets t ! ?ix (fst p) = as_offset (snd p - base) \<and> fits_offset (snd p - base)" by auto
  have "capacity hp \<le> 2 ^ 31" using ok by (simp add: table_ok_def)
  then have nf: "?ix s \<noteq> INDEX_NOT_FOUND" using lt [of s] by (auto simp: INDEX_NOT_FOUND_def)
  have "s \<in> fst ` set ss" using ps(2) key(2) by force
  then have g: "getIndex m this hp key = Some (?ix s)" using getIndex_cstr [OF ok at key(1)] by auto
  have e: "protocolOffsets t ! ?ix s = as_offset (a - base)" "fits_offset (a - base)" using r(2) key(2) by auto
  show "getProtocol m this t key = Some (Some (string_at this (as_offset (a - base))))" using g r(1) nf e(1) by (simp add: getProtocol_def)
  show "of_int (as_offset (a - base)) = a - base" by (rule fits_offset_exact [OF e(2)])
qed

subsection \<open>Properties\<close>

lemma ex_strings_ok: "distinct (map fst ex_strings)" "length ex_strings = 2" "strings_at ex_memory 0x8000 0x8000 ex_strings"
  "cstr ex_memory 0x7000 [0x62]" "cstr ex_memory 0x7100 [0x63]" "cstr ex_memory 0x9000 [0x61]"
  by (auto simp: ex_strings_def strings_at_def ex_memory_def cstr_def string_at_def as_offset_def)

text \<open>C22. A table that was written finds every string of the map it was written from, in a slot of its own and at the
  offset of its address, and no other string, whatever lies behind the tables of check bytes and offsets.\<close>

theorem string_table_exact:
  assumes "write_table base remaining ss = Some (Inr t)" "distinct (map fst ss)" "2 \<le> length ss" "length ss \<le> 2 ^ 30"
    "strings_at m this base ss" "cstr m key s"
  shows "inj_on (table_hash t) (fst ` set ss) \<and>
    (\<forall>a. (s, a) \<in> set ss \<longrightarrow> (\<exists>h < capacity t. table_hash t s = Some h \<and> getIndex m this t key = Some h \<and> of_int (offsets t ! h) = a - base \<and>
       selopt_get m this t key = Some (Some (string_at this (as_offset (a - base)))))) \<and>
    (s \<notin> fst ` set ss \<longrightarrow> getIndex m this t key = Some INDEX_NOT_FOUND \<and> selopt_get m this t key = Some None)"
proof -
  note ok = write_table_ok [OF assms(1-4)]
  obtain h where h: "h < capacity t" "table_hash t s = Some h" "getIndex m this t key = Some (if s \<in> fst ` set ss then h else INDEX_NOT_FOUND)"
    using getIndex_cstr [OF ok assms(5,6)] by blast
  have "capacity t \<le> 2 ^ 31" using ok by (simp add: table_ok_def)
  then have nf: "h \<noteq> INDEX_NOT_FOUND" using h(1) by (auto simp: INDEX_NOT_FOUND_def)
  have "\<exists>h < capacity t. table_hash t s = Some h \<and> getIndex m this t key = Some h \<and> of_int (offsets t ! h) = a - base \<and>
       selopt_get m this t key = Some (Some (string_at this (as_offset (a - base))))" if a: "(s, a) \<in> set ss" for a
  proof -
    obtain h' where "entry_of base t (s, a) h'" using ok a by (auto simp: table_ok_def)
    then have "offsets t ! h = as_offset (a - base)" "fits_offset (a - base)" using h(2) by (auto simp: entry_of_def)
    moreover have "s \<in> fst ` set ss" using a by force
    ultimately show ?thesis using h nf fits_offset_exact by (simp add: selopt_get_def getEntryForIndex_def)
  qed
  moreover have "inj_on (table_hash t) (fst ` set ss)" using ok by (simp add: table_ok_def)
  moreover have "getIndex m this t key = Some INDEX_NOT_FOUND \<and> selopt_get m this t key = Some None" if "s \<notin> fst ` set ss"
    using h(3) that by (simp add: selopt_get_def)
  ultimately show ?thesis by blast
qed

theorem string_table_exact_witness:
  "\<exists>t. write_table 0x8000 4096 ex_strings = Some (Inr t) \<and> selopt_get ex_memory 0x8000 t 0x7000 = Some (Some 0x9010) \<and>
     selopt_get ex_memory 0x8000 t 0x7100 = Some None"
proof -
  obtain t where t: "write_table 0x8000 4096 ex_strings = Some (Inr t)" using ex_table by blast
  from string_table_exact [OF t ex_strings_ok(1) _ _ ex_strings_ok(3,4)] string_table_exact [OF t ex_strings_ok(1) _ _ ex_strings_ok(3,5)]
  have "selopt_get ex_memory 0x8000 t 0x7000 = Some (Some (string_at 0x8000 (as_offset (0x9010 - 0x8000))))" "selopt_get ex_memory 0x8000 t 0x7100 = Some None"
    by (auto simp: ex_strings_def)
  then show ?thesis using t by (simp add: string_at_def as_offset_def)
qed

text \<open>C24. The assignment of tab values returns for any keys with distinct pairs: no augmenting path is ever rolled back,
  the queue of \<open>blen + 1\<close> entries is never overrun, and on success every key has a hash of its own below \<open>smax\<close>.\<close>

theorem perfect_assignment_returns:
  assumes "keys_ok l blen keys" "inittab False keys blen = (True, tb)"
  shows "\<exists>ok tb'. perfect keys (scrambleinit (2 ^ l)) (2 ^ l) tb = Some (ok, tb') \<and>
    (ok \<longrightarrow> is_perfect keys (scrambleinit (2 ^ l)) (2 ^ l) tb' \<and> length tb' = blen)"
  using perfect_ok [OF assms(1) _ scrambleinit_in_range] inittab_ok [OF assms] by blast

theorem perfect_assignment_returns_witness:
  "\<exists>tb' tb. inittab False [\<lparr>name_k = [0x61], a_k = 1, b_k = 0\<rparr>, \<lparr>name_k = [0x62], a_k = 0, b_k = 0\<rparr>] 1 = (True, tb) \<and>
     map_option snd (perfect [\<lparr>name_k = [0x61], a_k = 1, b_k = 0\<rparr>, \<lparr>name_k = [0x62], a_k = 0, b_k = 0\<rparr>] (scrambleinit (2 ^ 1)) (2 ^ 1) tb) = Some tb'"
proof -
  let ?ks = "[\<lparr>name_k = [0x61], a_k = 1, b_k = 0\<rparr>, \<lparr>name_k = [0x62], a_k = 0, b_k = 0\<rparr>]"
  have i: "inittab False ?ks 1 = (True, snd (inittab False ?ks 1))" by (simp add: inittab_def Let_def add_key_def upt_rec zero_b_def)
  have ok: "keys_ok 1 1 ?ks" by (auto simp: keys_ok_def)
  obtain b tb' where "perfect ?ks (scrambleinit (2 ^ 1)) (2 ^ 1) (snd (inittab False ?ks 1)) = Some (b, tb')"
    using perfect_assignment_returns [OF ok i] by blast
  then show ?thesis using i by (intro exI [of _ tb'] exI [of _ "snd (inittab False ?ks 1)"]) simp
qed

text \<open>C23. A class table gives back, for every name, all its classes with their headers in the order of the map, each at its
  exact 64-bit distance from the table, and the class itself when there is one, whatever memory held in the count and the
  array of duplicates before. The section is below 4 GB, the map has fewer than 2^30 classes, and the offset of a class that
  is alone with its name is even.\<close>

theorem class_table_exact:
  assumes "write_clsopt m this name base remaining stale behind ss cs = Some (Inr t)" "remaining < 2 ^ 32" "length cs < 2 ^ 30" "distinct (map fst ss)" "2 \<le> length ss" "length ss \<le> 2 ^ 30"
    "strings_at m this base ss" "\<forall>c \<in> set cs. fst c \<in> fst ` set ss \<and> cstr m (name (fst c)) (fst c)" "cstr m key s" "s \<in> fst ` set cs"
    "length (named s cs) = 1 \<longrightarrow> even (sint (fst (hd (named s cs)) - base))"
  shows "getClassesAndHeaders m this t key = Some (class_places this base (named s cs)) \<and>
    getClassAndHeader m this t key =
      Some (length (named s cs), if length (named s cs) = 1 then Some (hd (class_places this base (named s cs))) else None) \<and>
    (\<forall>ok. getProtocol2 m this t ok key = Some (map_option fst (List.find (\<lambda>(c, hi). ok hi) (class_places this base (named s cs)))))"
proof -
  note w = write_clsopt_ok [OF assms(1-8)]
  then have ok: "table_ok base ss (hash_part t)" by simp
  have "s \<in> fst ` set ss" using assms(8,10) by auto
  then obtain h where h: "h < capacity (hash_part t)" "table_hash (hash_part t) s = Some h" "getIndex m this (hash_part t) key = Some h"
    using getIndex_cstr [OF ok assms(7,9)] by auto
  have "capacity (hash_part t) \<le> 2 ^ 31" using ok by (simp add: table_ok_def)
  then have nf: "h \<noteq> INDEX_NOT_FOUND" using h(1) by (auto simp: INDEX_NOT_FOUND_def)
  have e: "class_entry base cs t h s" using w assms(10) h(2) by auto
  have ne: "named s cs \<noteq> []" using assms(10) by (auto simp: named_def filter_empty_conv)
  note r = class_entry_reads(1) [OF e ne assms(3), where this = this] class_entry_reads(2,3) [OF e ne assms(3)]
  have ev: "length (named s cs) = 1 \<Longrightarrow> even (sint (fst (hd (named s cs)) - base))" using assms(11) by simp
  have "hd (class_entries this t (classOffsets t ! h)) = class_at this (classOffsets t ! h)" if "\<not> isDuplicate (classOffsets t ! h)"
    using that by (simp add: class_entries_def)
  then show ?thesis using r(1) [OF ev] r(2) [OF ev] r(3) [OF ev] h(3) nf
    by (auto simp: getClassesAndHeaders_def getClassAndHeader_def getClassHeaderAndIndex_def getProtocol2_def Let_def)
qed

definition ex_classes :: "(u8 list \<times> u64 \<times> u64) list" where "ex_classes = [([0x62], 0xA000, 0xA100)]"

definition ex_name :: "u8 list \<Rightarrow> nat" where "ex_name s = (if s = [0x61] then 0x9000 else 0x7000)"

definition ex_stale :: classheader where "ex_stale = \<lparr>clsOffset = 7, hiOffset = 7\<rparr>"

theorem class_table_exact_witness:
  "\<exists>t. write_clsopt ex_memory 0x8000 ex_name 0x8000 4096 3 (\<lambda>_. ex_stale) ex_strings ex_classes = Some (Inr t) \<and>
     getClassAndHeader ex_memory 0x8000 t 0x7000 = Some (1, Some (0xA000, 0xA100))"
proof -
  obtain hp where hp: "write_table 0x8000 4096 ex_strings = Some (Inr hp)" and sz: "table_size hp + capacity hp * 8 + 4 \<le> 4000" using ex_table by blast
  have ok: "table_ok 0x8000 ex_strings hp" by (rule write_table_ok [OF hp]) (use ex_strings_ok in simp_all)
  obtain h where h: "h < capacity hp" "table_hash hp [0x62] = Some h" "getIndex ex_memory 0x8000 hp 0x7000 = Some h"
    using getIndex_cstr [OF ok ex_strings_ok(3,4)] by (auto simp: ex_strings_def)
  have cap: "capacity hp \<le> 2 ^ 31" using ok by (simp add: table_ok_def)
  have fo: "class_offsets 0x8000 (0xA000, 0xA100) = Some \<lparr>clsOffset = 0x2000, hiOffset = 0x2100\<rparr>"
    by (simp add: class_offsets_def fits_offset_def as_offset_def)
  have "\<exists>t. write_clsopt ex_memory 0x8000 ex_name 0x8000 4096 3 (\<lambda>_. ex_stale) ex_strings ex_classes = Some (Inr t)"
    using hp sz h cap fo by (simp add: write_clsopt_def Let_def sizeWithoutDups_def clsopt_size_def ex_classes_def ex_name_def INDEX_NOT_FOUND_def write_class_def named_def)
  then obtain t where t: "write_clsopt ex_memory 0x8000 ex_name 0x8000 4096 3 (\<lambda>_. ex_stale) ex_strings ex_classes = Some (Inr t)" by blast
  have "getClassAndHeader ex_memory 0x8000 t 0x7000 = Some (1, Some (hd (class_places 0x8000 0x8000 (named [0x62] ex_classes))))"
    using class_table_exact [OF t _ _ ex_strings_ok(1) _ _ ex_strings_ok(3) _ ex_strings_ok(4)] ex_strings_ok(2,4)
    by (simp add: ex_classes_def named_def ex_strings_def ex_name_def as_offset_def)
  then show ?thesis using t by (simp add: ex_classes_def named_def class_places_def string_at_def as_offset_def)
qed

text \<open>A map with a single string cannot be used: the range of \<open>a\<close> is one, the shift is 64, and hashing the string to
  write it shifts a 64-bit value by its whole width.\<close>

lemma single_string_undefined:
  assumes "sizeof_stringhash + 7 \<le> remaining" "fits_offset (a - base)"
  shows "make_perfect [s] \<noteq> None \<and> map_option ph_shift (make_perfect [s]) = Some 64 \<and> write_table base remaining [(s, a)] = None"
proof -
  let ?keys = "map make_key [s]"
  let ?ks = "initnorm 1 1 (salt_of 1) ?keys"
  have l: "log2u 1 = 0" using log2u_pow [of 0] by simp
  have ks: "?ks = [\<lparr>name_k = s, a_k = 0, b_k = 0\<rparr>]" using l by (simp add: initnorm_def Let_def make_key_def)
  have i: "inittab False ?ks 1 = (True, snd (inittab False ?ks 1))" unfolding ks by (simp add: inittab_def Let_def add_key_def upt_rec zero_b_def)
  have ok: "keys_ok 0 1 ?ks" unfolding ks by (auto simp: keys_ok_def)
  note t = inittab_ok [OF ok i]
  have "?ks \<noteq> []" unfolding ks by simp
  from one_list_perfect [OF ok _ this, of "snd (inittab False ?ks 1)"] t obtain tb where
    p: "perfect ?ks (scrambleinit 1) 1 (snd (inittab False ?ks 1)) = Some (True, tb)" by auto
  have "attempt_salt (scrambleinit 1) 1 ?keys 1 1 1 = Some (Perfect tb)" using i p by (simp add: attempt_salt_def Let_def) (metis fst_conv)
  then have "findhash_loop (scrambleinit 1) 1 ?keys 1 1 1 0 0 = Some (True, 1, salt_of 1, tb)"
    using findhash_loop_ends [of 0 "scrambleinit 1" 1 ?keys 1 1 1 tb 0 0] by (simp add: RETRY_INITKEY_def)
  then have f: "findhash 1 ?keys = Some (True, 1, salt_of 1, tb)" by (simp add: findhash_def initalen_def)
  have len: "length tb = 1" using findhash_ok [of 0 ?keys] f by (auto simp: found_ok_def)
  have m: "make_perfect [s] = Some (hash_result 1 1 (1, salt_of 1, tb))" using f l by (simp add: make_perfect_def)
  then show ?thesis using assms l len
    by (simp add: write_table_def hash_result_def table_size_def table_header_def table_hash_def sizeof_stringhash_def)
qed

lemma single_string_undefined_witness: "write_table 0x8000 4096 [([0x61], 0x9000)] = None"
  using single_string_undefined [of 4096 "0x9000" "0x8000" "[0x61]"] by (simp add: sizeof_stringhash_def fits_offset_def)

end
