(* ===== verification/OsLock.thy ===== *)
theory OsLock
  imports Prelude
begin

text \<open>
  Threads that share a lock word (\<open>libplatform/src/os/lock.c\<close>). Every step is one atomic
  access of one thread, so the interleavings of the steps are the executions of the code. A
  lock is a step function: from the thread's port name, an input (what the client calls next,
  or what the kernel returns from \<open>__ulock_wait\<close> and \<open>__ulock_wake\<close>), the shared word and the
  thread's program counter to the new word and counter. The locale states what a step may do
  to the word, and proves once that no two threads are ever inside.
\<close>

type_synonym os_lock_owner_t = u32
type_synonym os_ulock_value_t = u32

definition OS_LOCK_NO_OWNER :: os_lock_owner_t where "OS_LOCK_NO_OWNER = 0"

datatype input = CallLock | CallTryLock | CallUnlock | Kernel int

text \<open>
  A thread's port name has its low bit set (the assumption \<open>lock.c\<close> documents) and a non-zero
  index above its generation bits, so that clearing the low bit leaves a non-zero word.
\<close>

definition valid_port :: "os_lock_owner_t \<Rightarrow> bool" where
  "valid_port t \<longleftrightarrow> bit t 0 \<and> t \<noteq> 1"

lemma valid_port_nonzero: "valid_port t \<Longrightarrow> t \<noteq> 0"
  by (auto simp: valid_port_def)

inductive reach :: "(os_lock_owner_t \<Rightarrow> 'k \<Rightarrow> 's \<Rightarrow> 'l \<Rightarrow> 's \<times> 'l) \<Rightarrow> 's \<Rightarrow> 'l
    \<Rightarrow> 's \<times> (os_lock_owner_t \<Rightarrow> 'l) \<Rightarrow> bool" for step s0 l0 where
  reach_init: "reach step s0 l0 (s0, \<lambda>t. l0)"
| reach_step: "reach step s0 l0 (s, ls) \<Longrightarrow> valid_port t \<Longrightarrow> step t k s (ls t) = (s', l')
    \<Longrightarrow> reach step s0 l0 (s', ls(t := l'))"

locale lock_machine =
  fixes step :: "os_lock_owner_t \<Rightarrow> input \<Rightarrow> 's \<Rightarrow> 'l \<Rightarrow> 's \<times> 'l"
    and free :: "'s \<Rightarrow> bool" and holds :: "'l \<Rightarrow> bool" and s0 :: 's and l0 :: 'l
    and shared_ok :: "'s \<Rightarrow> bool" and local_ok :: "'l \<Rightarrow> bool"
  assumes starts: "free s0" "\<not> holds l0" "shared_ok s0" "local_ok l0"
    and keeps_ok: "valid_port t \<Longrightarrow> step t k s l = (s', l') \<Longrightarrow> shared_ok s \<Longrightarrow> local_ok l \<Longrightarrow> shared_ok s' \<and> local_ok l'"
    and acquires: "valid_port t \<Longrightarrow> step t k s l = (s', l') \<Longrightarrow> shared_ok s \<Longrightarrow> local_ok l \<Longrightarrow>
      \<not> holds l \<Longrightarrow> holds l' \<Longrightarrow> free s \<and> \<not> free s'"
    and releases: "valid_port t \<Longrightarrow> step t k s l = (s', l') \<Longrightarrow> holds l \<Longrightarrow> \<not> holds l' \<Longrightarrow> free s'"
    and stays: "valid_port t \<Longrightarrow> step t k s l = (s', l') \<Longrightarrow> shared_ok s \<Longrightarrow> local_ok l \<Longrightarrow>
      holds l' = holds l \<Longrightarrow> free s' = free s"
begin

definition consistent :: "'s \<Rightarrow> (os_lock_owner_t \<Rightarrow> 'l) \<Rightarrow> bool" where
  "consistent s ls \<longleftrightarrow> shared_ok s \<and> (\<forall>t. local_ok (ls t)) \<and> (free s \<longleftrightarrow> (\<forall>t. \<not> holds (ls t))) \<and> (\<forall>t u. holds (ls t) \<longrightarrow> holds (ls u) \<longrightarrow> t = u)"

lemma consistent_step:
  assumes "consistent s ls" and t: "valid_port t" and st: "step t k s (ls t) = (s', l')"
  shows "consistent s' (ls(t := l'))"
proof -
  have ok: "shared_ok s" "local_ok (ls t)" using assms(1) by (simp_all add: consistent_def)
  note keep = keeps_ok [OF t st ok]
  consider "\<not> holds (ls t)" "holds l'" | "holds (ls t)" "\<not> holds l'" | "holds l' = holds (ls t)" by blast
  then show ?thesis
  proof cases
    case 1
    with assms(1) acquires [OF t st ok] keep show ?thesis unfolding consistent_def by (auto simp: fun_upd_def)
  next
    case 2
    with assms(1) releases [OF t st] keep show ?thesis unfolding consistent_def by (auto simp: fun_upd_def)
  next
    case 3
    with assms(1) stays [OF t st ok] keep show ?thesis unfolding consistent_def by (auto simp: fun_upd_def)
  qed
qed

lemma reach_consistent: "reach step s0 l0 (s, ls) \<Longrightarrow> consistent s ls"
proof (induction "(s, ls)" arbitrary: s ls rule: reach.induct)
  case reach_init
  then show ?case using starts by (simp add: consistent_def)
next
  case (reach_step s ls t k s' l')
  then show ?case using consistent_step by blast
qed

lemma mutual_exclusion: "reach step s0 l0 (s, ls) \<Longrightarrow> holds (ls t) \<Longrightarrow> holds (ls u) \<Longrightarrow> t = u"
  using reach_consistent unfolding consistent_def by blast

lemma free_iff_unheld: "reach step s0 l0 (s, ls) \<Longrightarrow> free s \<longleftrightarrow> (\<forall>t. \<not> holds (ls t))"
  using reach_consistent unfolding consistent_def by blast

end

text \<open>
  A lock that also records its owner in the word, with a set of counters a thread must never
  reach (an abort): the word names the thread inside, and a thread that keeps to lock and
  unlock alternately never aborts.
\<close>

locale owner_lock = lock_machine step free holds s0 l0 shared_ok local_ok
  for step :: "os_lock_owner_t \<Rightarrow> input \<Rightarrow> 's \<Rightarrow> 'l \<Rightarrow> 's \<times> 'l"
    and free :: "'s \<Rightarrow> bool" and holds :: "'l \<Rightarrow> bool" and s0 :: 's and l0 :: 'l
    and shared_ok :: "'s \<Rightarrow> bool" and local_ok :: "'l \<Rightarrow> bool" +
  fixes owner :: "'s \<Rightarrow> os_lock_owner_t" and no_abort :: "'l \<Rightarrow> bool"
  assumes starts_ok: "no_abort l0"
    and owner_acquires: "valid_port t \<Longrightarrow> step t k s l = (s', l') \<Longrightarrow> shared_ok s \<Longrightarrow> local_ok l \<Longrightarrow>
      \<not> holds l \<Longrightarrow> holds l' \<Longrightarrow> owner s' = t"
    and owner_stays: "valid_port t \<Longrightarrow> step t k s l = (s', l') \<Longrightarrow> shared_ok s \<Longrightarrow> local_ok l \<Longrightarrow>
      \<not> free s \<Longrightarrow> holds l' = holds l \<Longrightarrow> owner s' = owner s"
    and local_step: "valid_port t \<Longrightarrow> step t k s l = (s', l') \<Longrightarrow> shared_ok s \<Longrightarrow> local_ok l \<Longrightarrow> no_abort l \<Longrightarrow>
      (holds l \<Longrightarrow> owner s = t) \<Longrightarrow> (\<not> holds l \<Longrightarrow> free s \<or> owner s \<noteq> t) \<Longrightarrow> no_abort l'"
begin

lemma reach_owner:
  assumes "reach step s0 l0 (s, ls)"
  shows "(\<forall>t. holds (ls t) \<longrightarrow> owner s = t) \<and> (\<forall>t. no_abort (ls t)) \<and> (\<not> free s \<longrightarrow> valid_port (owner s) \<and> holds (ls (owner s)))"
  using assms
proof (induction "(s, ls)" arbitrary: s ls rule: reach.induct)
  case reach_init
  then show ?case using starts starts_ok by simp
next
  case (reach_step s ls t k s' l')
  note IH = reach_step.hyps(2) and t = reach_step.hyps(3) and st = reach_step.hyps(4)
  have c: "consistent s ls" and c': "consistent s' (ls(t := l'))"
    using reach_consistent [OF reach_step.hyps(1)] consistent_step t st by blast+
  have sl: "shared_ok s" "local_ok (ls t)" using c by (simp_all add: consistent_def)
  have ok: "no_abort l'"
    using local_step [OF t st sl] IH c unfolding consistent_def by metis
  have own: "holds ((ls(t := l')) u) \<Longrightarrow> owner s' = u" for u
  proof -
    assume u: "holds ((ls(t := l')) u)"
    show "owner s' = u"
    proof (cases "u = t")
      case True
      then show ?thesis using u IH c owner_acquires [OF t st sl] owner_stays [OF t st sl] unfolding consistent_def
        by (metis fun_upd_same)
    next
      case False
      then have hu: "holds (ls u)" using u by simp
      then have "\<not> holds (ls t)" "\<not> free s" using c False unfolding consistent_def by metis+
      moreover have "\<not> holds l'" using c' u False unfolding consistent_def by (metis fun_upd_same)
      ultimately show ?thesis using owner_stays [OF t st sl] IH hu by metis
    qed
  qed
  have "valid_port (owner s') \<and> holds ((ls(t := l')) (owner s'))" if "\<not> free s'"
  proof -
    from that c' obtain u where u: "holds ((ls(t := l')) u)" unfolding consistent_def by blast
    then have eq: "owner s' = u" by (rule own)
    have "valid_port u"
    proof (cases "u = t")
      case False
      then have "holds (ls u)" using u by simp
      then show ?thesis using IH c unfolding consistent_def by metis
    qed (simp add: t)
    with u eq show ?thesis by simp
  qed
  with own ok IH show ?case by simp
qed

end

end
