(* ===== verification/UnfairLock.thy ===== *)
theory UnfairLock
  imports OsLock
begin

text \<open>
  \<open>os_unfair_lock\<close> and \<open>os_unfair_recursive_lock\<close> (\<open>libplatform/src/os/lock.c\<close>): the lock
  word is the owner's port name, with the low bit clear when threads may be waiting for it in
  the kernel. \<open>__ulock_wait\<close> and \<open>__ulock_wake\<close> are the kernel's; what they return is an
  input of the step. A client is at \<open>Idle\<close> outside the lock and at \<open>Critical\<close> inside it.
\<close>

subsection \<open>Lock words\<close>

definition OS_ULOCK_NOWAITERS_BIT :: os_ulock_value_t where "OS_ULOCK_NOWAITERS_BIT = 1"
definition OS_ULOCK_ANONYMOUS_OWNER :: os_lock_owner_t where "OS_ULOCK_ANONYMOUS_OWNER = - 1"

definition OS_ULOCK_OWNER :: "os_ulock_value_t \<Rightarrow> os_lock_owner_t" where
  "OS_ULOCK_OWNER v = v OR OS_ULOCK_NOWAITERS_BIT"

definition OS_ULOCK_IS_OWNER :: "os_ulock_value_t \<Rightarrow> os_lock_owner_t \<Rightarrow> bool \<Rightarrow> bool" where
  "OS_ULOCK_IS_OWNER v self allow_anonymous_owner \<longleftrightarrow>
     OS_ULOCK_OWNER v = self \<and> (\<not> allow_anonymous_owner \<or> OS_ULOCK_OWNER v \<noteq> OS_ULOCK_ANONYMOUS_OWNER)"

definition OS_ULOCK_IS_NOT_OWNER :: "os_ulock_value_t \<Rightarrow> os_lock_owner_t \<Rightarrow> bool \<Rightarrow> bool" where
  "OS_ULOCK_IS_NOT_OWNER v self allow_anonymous_owner \<longleftrightarrow>
     OS_ULOCK_OWNER v \<noteq> self \<and> (\<not> allow_anonymous_owner \<or> OS_ULOCK_OWNER v \<noteq> OS_ULOCK_ANONYMOUS_OWNER)"

definition OS_UNFAIR_LOCK_NONE :: u32 where "OS_UNFAIR_LOCK_NONE = 0"
definition OS_UNFAIR_LOCK_OPTIONS_MASK :: u32 where "OS_UNFAIR_LOCK_OPTIONS_MASK = 0x00010000 OR 0x00040000"
definition OS_UNFAIR_LOCK_ALLOW_ANONYMOUS_OWNER :: u32 where "OS_UNFAIR_LOCK_ALLOW_ANONYMOUS_OWNER = 0x01000000"

definition EINTR :: int where "EINTR = 4"
definition EFAULT :: int where "EFAULT = 14"
definition ENOENT :: int where "ENOENT = 2"
definition ETIMEDOUT :: int where "ETIMEDOUT = 60"
definition EOWNERDEAD :: int where "EOWNERDEAD = 105"

subsection \<open>Program counters\<close>

datatype abort = RecursiveAbort os_lock_owner_t | UnownedAbort os_lock_owner_t
  | CorruptionAbort os_ulock_value_t | InvalidOptions u32 | UlockFailure int | NoWaiters os_ulock_value_t
  | NotHeld

text \<open>The points of \<open>_os_unfair_lock_lock_slow\<close> at which it touches the word or waits.\<close>

datatype slow_pc =
    LoadValue u32                             \<comment> \<open>the load of the loop condition; \<open>waiters_mask\<close>\<close>
  | ClearNoWaiters os_ulock_value_t u32       \<comment> \<open>the exchange of \<open>current\<close> for \<open>new\<close>\<close>
  | UlockWait os_ulock_value_t u32            \<comment> \<open>in \<open>__ulock_wait\<close> for \<open>current\<close>\<close>
  | AcquireCas u32                            \<comment> \<open>the exchange of no owner for \<open>self & ~waiters_mask\<close>\<close>

datatype lock_pc = Idle | Slow u32 bool slow_pc | Critical | UlockWake | Aborted abort

subsection \<open>Operations\<close>

text \<open>The code from \<open>_retry\<close> to the next access.\<close>

definition unfair_retry :: "u32 \<Rightarrow> bool \<Rightarrow> os_lock_owner_t \<Rightarrow> u32 \<Rightarrow> os_ulock_value_t \<Rightarrow> lock_pc" where
  "unfair_retry options anon self waiters_mask current =
     (if OS_ULOCK_IS_OWNER current self anon then Aborted (RecursiveAbort self)
      else let new = current AND NOT OS_ULOCK_NOWAITERS_BIT
           in if current \<noteq> new then Slow options anon (ClearNoWaiters current waiters_mask)
              else Slow options anon (UlockWait current waiters_mask))"

fun os_unfair_lock_lock_slow_step ::
  "u32 \<Rightarrow> bool \<Rightarrow> os_lock_owner_t \<Rightarrow> int \<Rightarrow> os_ulock_value_t \<Rightarrow> slow_pc \<Rightarrow> os_ulock_value_t \<times> lock_pc" where
  "os_unfair_lock_lock_slow_step options anon self ret v (LoadValue waiters_mask) =
     (v, if v \<noteq> OS_LOCK_NO_OWNER then unfair_retry options anon self waiters_mask v
         else Slow options anon (AcquireCas waiters_mask))"
| "os_unfair_lock_lock_slow_step options anon self ret v (ClearNoWaiters current waiters_mask) =
     (let new = current AND NOT OS_ULOCK_NOWAITERS_BIT
      in if v = current then (new, Slow options anon (UlockWait new waiters_mask))
         else (v, Slow options anon (LoadValue waiters_mask)))"
| "os_unfair_lock_lock_slow_step options anon self ret v (UlockWait current waiters_mask) =
     (v, if ret < 0 then
           (if - ret = EINTR \<or> - ret = EFAULT then Slow options anon (LoadValue waiters_mask)
            else if - ret = EOWNERDEAD then Aborted (CorruptionAbort current)
            else Aborted (UlockFailure (- ret)))
         else if ret > 0 then Slow options anon (LoadValue OS_ULOCK_NOWAITERS_BIT)
         else Slow options anon (LoadValue waiters_mask))"
| "os_unfair_lock_lock_slow_step options anon self ret v (AcquireCas waiters_mask) =
     (if v = OS_LOCK_NO_OWNER then (self AND NOT waiters_mask, Critical)
      else (v, unfair_retry options anon self waiters_mask v))"

definition os_unfair_lock_lock_slow :: "u32 \<Rightarrow> lock_pc" where
  "os_unfair_lock_lock_slow options =
     (let anon = (options AND OS_UNFAIR_LOCK_ALLOW_ANONYMOUS_OWNER \<noteq> 0);
          options' = options AND NOT OS_UNFAIR_LOCK_ALLOW_ANONYMOUS_OWNER
      in if options' AND NOT OS_UNFAIR_LOCK_OPTIONS_MASK \<noteq> 0 then Aborted (InvalidOptions options')
         else Slow options' anon (LoadValue 0))"

definition os_unfair_lock_lock_with_options ::
  "u32 \<Rightarrow> os_lock_owner_t \<Rightarrow> os_ulock_value_t \<Rightarrow> os_ulock_value_t \<times> lock_pc" where
  "os_unfair_lock_lock_with_options options self v =
     (if v = OS_LOCK_NO_OWNER then (self, Critical) else (v, os_unfair_lock_lock_slow options))"

definition os_unfair_lock_lock :: "os_lock_owner_t \<Rightarrow> os_ulock_value_t \<Rightarrow> os_ulock_value_t \<times> lock_pc" where
  "os_unfair_lock_lock self v =
     (if v = OS_LOCK_NO_OWNER then (self, Critical) else (v, os_unfair_lock_lock_slow OS_UNFAIR_LOCK_NONE))"

definition os_unfair_lock_trylock :: "os_lock_owner_t \<Rightarrow> os_ulock_value_t \<Rightarrow> bool \<times> os_ulock_value_t" where
  "os_unfair_lock_trylock self v = (if v = OS_LOCK_NO_OWNER then (True, self) else (False, v))"

text \<open>\<open>_os_unfair_lock_unlock_slow\<close> up to its first \<open>__ulock_wake\<close>, then each wake's return.\<close>

definition os_unfair_lock_unlock_slow :: "os_lock_owner_t \<Rightarrow> os_ulock_value_t \<Rightarrow> u32 \<Rightarrow> lock_pc" where
  "os_unfair_lock_unlock_slow self current options =
     (let anon = (options AND OS_UNFAIR_LOCK_ALLOW_ANONYMOUS_OWNER \<noteq> 0)
      in if OS_ULOCK_IS_NOT_OWNER current self anon then Aborted (UnownedAbort (OS_ULOCK_OWNER current))
         else if current AND OS_ULOCK_NOWAITERS_BIT \<noteq> 0 then Aborted (NoWaiters current)
         else UlockWake)"

definition ulock_wake_step :: "int \<Rightarrow> lock_pc" where
  "ulock_wake_step ret =
     (if ret < 0 then (if - ret = EINTR then UlockWake else if - ret = ENOENT then Idle else Aborted (UlockFailure (- ret)))
      else Idle)"

definition os_unfair_lock_unlock :: "os_lock_owner_t \<Rightarrow> os_ulock_value_t \<Rightarrow> os_ulock_value_t \<times> lock_pc" where
  "os_unfair_lock_unlock self v =
     (let current = v
      in (OS_LOCK_NO_OWNER, if current = self then Idle else os_unfair_lock_unlock_slow self current 0))"

definition os_unfair_lock_assert_owner :: "os_lock_owner_t \<Rightarrow> os_ulock_value_t \<Rightarrow> abort option" where
  "os_unfair_lock_assert_owner self v = (if OS_ULOCK_IS_NOT_OWNER v self False then Some (UnownedAbort v) else None)"

definition os_unfair_lock_assert_not_owner :: "os_lock_owner_t \<Rightarrow> os_ulock_value_t \<Rightarrow> abort option" where
  "os_unfair_lock_assert_not_owner self v = (if OS_ULOCK_IS_OWNER v self False then Some (RecursiveAbort v) else None)"

text \<open>One access of one client thread.\<close>

fun unfair_step :: "u32 \<Rightarrow> os_lock_owner_t \<Rightarrow> input \<Rightarrow> os_ulock_value_t \<Rightarrow> lock_pc \<Rightarrow> os_ulock_value_t \<times> lock_pc" where
  "unfair_step options self CallLock v Idle = os_unfair_lock_lock_with_options options self v"
| "unfair_step options self CallTryLock v Idle =
     (let (r, v') = os_unfair_lock_trylock self v in (v', if r then Critical else Idle))"
| "unfair_step options self CallUnlock v Critical = os_unfair_lock_unlock self v"
| "unfair_step options self (Kernel ret) v (Slow opt anon pc) = os_unfair_lock_lock_slow_step opt anon self ret v pc"
| "unfair_step options self (Kernel ret) v UlockWake = (v, ulock_wake_step ret)"
| "unfair_step options self k v pc = (v, pc)"

subsection \<open>Mutual exclusion and ownership\<close>

lemma low_bit_only: "v AND NOT 1 = 0 \<Longrightarrow> v = 0 \<or> v = (1 :: 'a::len word)"
proof -
  assume z: "v AND NOT 1 = 0"
  have "v = of_bool (bit v 0)"
  proof (rule bit_word_eqI)
    fix i assume "i < LENGTH('a)"
    moreover have "\<not> bit (v AND NOT 1) i" using z by simp
    ultimately show "bit v i = bit (of_bool (bit v 0) :: 'a word) i"
      by (cases "i = 0") (auto simp: bit_simps bit_1_iff)
  qed
  then show ?thesis by (cases "bit v 0") auto
qed

lemma owner_bits: "OS_ULOCK_OWNER (v AND NOT OS_ULOCK_NOWAITERS_BIT) = OS_ULOCK_OWNER v"
  "valid_port t \<Longrightarrow> OS_ULOCK_OWNER t = t"
  "valid_port t \<Longrightarrow> OS_ULOCK_OWNER (t AND NOT OS_ULOCK_NOWAITERS_BIT) = t"
  unfolding OS_ULOCK_OWNER_def OS_ULOCK_NOWAITERS_BIT_def valid_port_def
  by (auto intro!: bit_word_eqI simp: bit_simps bit_1_iff)

lemma clear_low:
  "v \<noteq> 1 \<Longrightarrow> v AND NOT OS_ULOCK_NOWAITERS_BIT = 0 \<longleftrightarrow> v = 0" "v AND NOT OS_ULOCK_NOWAITERS_BIT \<noteq> 1"
proof -
  show "v AND NOT OS_ULOCK_NOWAITERS_BIT = 0 \<longleftrightarrow> v = 0" if "v \<noteq> 1"
    using that low_bit_only [of v] by (auto simp: OS_ULOCK_NOWAITERS_BIT_def)
  have "\<not> bit (v AND NOT OS_ULOCK_NOWAITERS_BIT) 0" by (simp add: OS_ULOCK_NOWAITERS_BIT_def bit_simps)
  then show "v AND NOT OS_ULOCK_NOWAITERS_BIT \<noteq> 1" by auto
qed

lemma owner_no_waiters: "OS_ULOCK_OWNER v \<noteq> v \<Longrightarrow> v AND OS_ULOCK_NOWAITERS_BIT = 0"
proof -
  assume ne: "OS_ULOCK_OWNER v \<noteq> v"
  have "v OR 1 = v" if "bit v 0"
    using that by (intro bit_word_eqI) (auto simp: bit_simps bit_1_iff)
  with ne have "\<not> bit v 0" by (auto simp: OS_ULOCK_OWNER_def OS_ULOCK_NOWAITERS_BIT_def)
  then show ?thesis using and_single_eq_0 [of 0 v] by (simp add: OS_ULOCK_NOWAITERS_BIT_def)
qed

definition unfair_holds :: "lock_pc \<Rightarrow> bool" where "unfair_holds pc \<longleftrightarrow> pc = Critical"

text \<open>A port name that is neither 1 nor 0 survives the clearing of its low bit.\<close>

fun mask_ok :: "lock_pc \<Rightarrow> bool" where
  "mask_ok (Slow options anon (LoadValue m)) = (m = 0 \<or> m = OS_ULOCK_NOWAITERS_BIT)"
| "mask_ok (Slow options anon (ClearNoWaiters c m)) = (m = 0 \<or> m = OS_ULOCK_NOWAITERS_BIT)"
| "mask_ok (Slow options anon (UlockWait c m)) = (m = 0 \<or> m = OS_ULOCK_NOWAITERS_BIT)"
| "mask_ok (Slow options anon (AcquireCas m)) = (m = 0 \<or> m = OS_ULOCK_NOWAITERS_BIT)"
| "mask_ok pc = True"


definition unfair_ok :: "os_ulock_value_t \<Rightarrow> bool" where "unfair_ok v \<longleftrightarrow> v \<noteq> 1"

definition no_client_abort :: "lock_pc \<Rightarrow> bool" where
  "no_client_abort pc = (case pc of Aborted (RecursiveAbort t) \<Rightarrow> False | Aborted (UnownedAbort t) \<Rightarrow> False
     | Aborted (NoWaiters v) \<Rightarrow> False | _ \<Rightarrow> True)"

lemmas unfair_defs = os_unfair_lock_lock_with_options_def os_unfair_lock_lock_slow_def os_unfair_lock_trylock_def
  os_unfair_lock_unlock_def os_unfair_lock_unlock_slow_def ulock_wake_step_def unfair_retry_def unfair_holds_def
  unfair_ok_def OS_LOCK_NO_OWNER_def Let_def

lemma unfair_step_cases:
  assumes "unfair_step options t k v l = (v', l')"
  obtains (lock) "l = Idle" "os_unfair_lock_lock_with_options options t v = (v', l')"
    | (trylock) "l = Idle" "(v', l') = (if v = 0 then (t, Critical) else (v, Idle))"
    | (unlock) "l = Critical" "os_unfair_lock_unlock t v = (v', l')"
    | (slow) opt anon ret pc where "l = Slow opt anon pc" "os_unfair_lock_lock_slow_step opt anon t ret v pc = (v', l')"
    | (wake) ret where "l = UlockWake" "v' = v" "l' = ulock_wake_step ret"
    | (stay) "v' = v" "l' = l"
  using assms by (cases "(options, t, k, v, l)" rule: unfair_step.cases) (auto simp: os_unfair_lock_trylock_def OS_LOCK_NO_OWNER_def split: if_splits)

lemma unfair_lock_machine: "lock_machine (unfair_step options) (\<lambda>v. v = 0) unfair_holds 0 Idle unfair_ok mask_ok"
proof (unfold_locales, goal_cases)
  case (5 t k s l s' l')
  from 5(2) show ?case
  proof (cases rule: unfair_step_cases)
    case (slow opt anon ret pc)
    then show ?thesis using 5 by (cases pc) (auto simp: unfair_defs valid_port_def clear_low split: if_splits)
  qed (use 5 in \<open>auto simp: unfair_defs valid_port_def split: if_splits\<close>)
next
  case (6 t k s l s' l')
  from 6(2) show ?case
  proof (cases rule: unfair_step_cases)
    case (slow opt anon ret pc)
    then show ?thesis using 6 by (cases pc) (auto simp: unfair_defs valid_port_def clear_low split: if_splits)
  qed (use 6 in \<open>auto simp: unfair_defs valid_port_def split: if_splits\<close>)
next
  case (7 t k s l s' l')
  from 7(2) show ?case
  proof (cases rule: unfair_step_cases)
    case (slow opt anon ret pc)
    then show ?thesis using 7 by (cases pc) (auto simp: unfair_defs valid_port_def clear_low split: if_splits)
  qed (use 7 in \<open>auto simp: unfair_defs valid_port_def split: if_splits\<close>)
next
  case (8 t k s l s' l')
  from 8(2) show ?case
  proof (cases rule: unfair_step_cases)
    case (slow opt anon ret pc)
    then show ?thesis using 8 by (cases pc) (auto simp: unfair_defs valid_port_def clear_low split: if_splits)
  qed (use 8 in \<open>auto simp: unfair_defs valid_port_def split: if_splits\<close>)
qed (auto simp: unfair_defs)


lemma retry_no_abort: "OS_ULOCK_OWNER v \<noteq> t \<Longrightarrow> no_client_abort (unfair_retry opt anon t m v)"
  by (simp add: unfair_retry_def no_client_abort_def OS_ULOCK_IS_OWNER_def Let_def)

interpretation unfair: owner_lock "unfair_step options" "\<lambda>v. v = 0" unfair_holds 0 Idle unfair_ok mask_ok
  OS_ULOCK_OWNER no_client_abort for options
proof (intro owner_lock.intro unfair_lock_machine, unfold_locales, goal_cases)
  case 1
  then show ?case by (simp add: no_client_abort_def)
next
  case (2 t k s l s' l')
  from 2(2) show ?case
  proof (cases rule: unfair_step_cases)
    case (slow opt anon ret pc)
    then show ?thesis using 2 owner_bits by (cases pc) (auto simp: unfair_defs split: if_splits)
  qed (use 2 owner_bits in \<open>auto simp: unfair_defs ulock_wake_step_def split: if_splits\<close>)
next
  case (3 t k s l s' l')
  from 3(2) show ?case
  proof (cases rule: unfair_step_cases)
    case (slow opt anon ret pc)
    then show ?thesis using 3 owner_bits by (cases pc) (auto simp: unfair_defs split: if_splits)
  qed (use 3 owner_bits in \<open>auto simp: unfair_defs split: if_splits\<close>)
next
  case (4 t k s l s' l')
  have out: "s = 0 \<or> OS_ULOCK_OWNER s \<noteq> t" if "l \<noteq> Critical" using 4(7) that by (simp add: unfair_holds_def)
  from 4(2) show ?case
  proof (cases rule: unfair_step_cases)
    case (slow opt anon ret pc)
    then show ?thesis using 4 out retry_no_abort
      by (cases pc) (auto simp: no_client_abort_def OS_LOCK_NO_OWNER_def Let_def split: if_splits)
  next
    case unlock
    then have "OS_ULOCK_OWNER s = t" using 4(6) by (simp add: unfair_holds_def)
    then show ?thesis using unlock owner_no_waiters [of s]
      by (auto simp: os_unfair_lock_unlock_def os_unfair_lock_unlock_slow_def no_client_abort_def OS_ULOCK_IS_NOT_OWNER_def Let_def)
  qed (use 4 in \<open>auto simp: unfair_defs no_client_abort_def split: if_splits\<close>)
qed


subsection \<open>Properties\<close>

lemma example_port: "valid_port 0x103"
  by (simp add: valid_port_def)

lemma unfair_example_reach: "reach (unfair_step 0) 0 Idle (0x103, (\<lambda>_. Idle)(0x103 := Critical))"
  by (rule reach_step [OF reach_init example_port, where k = CallLock])
    (simp add: os_unfair_lock_lock_with_options_def OS_LOCK_NO_OWNER_def)

text \<open>C9. At most one thread is inside an unfair lock, however the accesses of the threads
  interleave and whatever the kernel returns from its waits; the word is zero exactly when
  nobody is inside, and otherwise names the thread that is.\<close>

theorem unfair_mutual_exclusion:
  assumes "reach (unfair_step options) 0 Idle (v, ls)"
  shows "(ls t = Critical \<and> ls u = Critical \<longrightarrow> t = u) \<and> (v = 0 \<longleftrightarrow> (\<forall>t. ls t \<noteq> Critical))
    \<and> (v \<noteq> 0 \<longrightarrow> ls (OS_ULOCK_OWNER v) = Critical)"
  using unfair.mutual_exclusion [OF assms, of t u] unfair.free_iff_unheld [OF assms] unfair.reach_owner [OF assms]
  by (auto simp: unfair_holds_def)

theorem unfair_mutual_exclusion_witness:
  "((\<lambda>_. Idle)((0x103 :: u32) := Critical)) (OS_ULOCK_OWNER 0x103) = Critical"
proof -
  have "(0x103 :: u32) \<noteq> 0" by simp
  then show ?thesis using unfair_mutual_exclusion [OF unfair_example_reach] by blast
qed

text \<open>C32. A client that locks only from outside and unlocks only from inside never runs into
  the recursion abort, the unowned-unlock abort or the no-waiters consistency check.\<close>

theorem unfair_no_client_abort:
  assumes "reach (unfair_step options) 0 Idle (v, ls)"
  shows "ls t \<noteq> Aborted (RecursiveAbort a) \<and> ls t \<noteq> Aborted (UnownedAbort a) \<and> ls t \<noteq> Aborted (NoWaiters a)"
proof -
  have "no_client_abort (ls t)" using unfair.reach_owner [OF assms] by blast
  then show ?thesis by (auto simp: no_client_abort_def)
qed

theorem unfair_no_client_abort_witness:
  "((\<lambda>_. Idle)((0x103 :: u32) := Critical)) 0x103 \<noteq> Aborted (RecursiveAbort 0x103)"
  using unfair_no_client_abort [OF unfair_example_reach] by blast

text \<open>Misuse is caught rather than deadlocking or corrupting silently: locking a lock the
  thread already owns ends in the recursion abort at its next access, waiters or not, and
  unlocking a lock owned by another thread or by nobody ends in the unowned abort. (The word
  is already zero by then: the exchange precedes the check.)\<close>

lemma unfair_misuse_aborts:
  assumes "valid_port self"
  shows "(v \<noteq> 0 \<and> OS_ULOCK_OWNER v = self \<longrightarrow>
      (\<exists>pc. os_unfair_lock_lock self v = (v, pc)
         \<and> unfair_step 0 self (Kernel ret) v pc = (v, Aborted (RecursiveAbort self))))
    \<and> (OS_ULOCK_OWNER v \<noteq> self \<longrightarrow> os_unfair_lock_unlock self v = (0, Aborted (UnownedAbort (OS_ULOCK_OWNER v))))"
  using owner_bits(2) [OF assms]
  by (auto simp: os_unfair_lock_lock_def os_unfair_lock_lock_slow_def OS_UNFAIR_LOCK_NONE_def OS_LOCK_NO_OWNER_def
      unfair_retry_def OS_ULOCK_IS_OWNER_def os_unfair_lock_unlock_def os_unfair_lock_unlock_slow_def
      OS_ULOCK_IS_NOT_OWNER_def Let_def)

lemma unfair_misuse_aborts_witness:
  "os_unfair_lock_unlock 0x103 0 = (0, Aborted (UnownedAbort 1))"
proof -
  have "OS_ULOCK_OWNER 0 = 1" by (simp add: OS_ULOCK_OWNER_def OS_ULOCK_NOWAITERS_BIT_def)
  then show ?thesis using unfair_misuse_aborts [OF example_port, of 0] by simp
qed

end
