(* ===== verification/RecursiveLock.thy ===== *)
theory RecursiveLock
  imports UnfairLock
begin

text \<open>
  \<open>os_unfair_recursive_lock\<close> (\<open>libplatform/src/os/lock.c\<close>), the lock behind
  \<open>@synchronized\<close>: an unfair lock word and a 32-bit count of the extra times its owner holds it.
\<close>

record os_unfair_recursive_lock =
  ourl_lock :: os_ulock_value_t
  ourl_count :: u32

text \<open>A client thread: outside, waiting, inside \<open>n\<close> times, waking a waiter, or aborted.\<close>

datatype rlock_pc = ROut lock_pc | RHeld nat

subsection \<open>Operations\<close>

definition os_unfair_lock_owner :: "os_unfair_recursive_lock \<Rightarrow> os_lock_owner_t" where
  "os_unfair_lock_owner l = OS_ULOCK_OWNER (ourl_lock l)"

definition os_unfair_recursive_lock_owned :: "os_lock_owner_t \<Rightarrow> os_unfair_recursive_lock \<Rightarrow> bool" where
  "os_unfair_recursive_lock_owned self l \<longleftrightarrow> os_unfair_lock_owner l = self"

text \<open>How a lock call ends: the lock is held once, once more, or the slow path begins.\<close>

datatype rlock_result = Acquired | Nested | Enter lock_pc

definition os_unfair_recursive_lock_lock_with_options ::
  "u32 \<Rightarrow> os_lock_owner_t \<Rightarrow> os_unfair_recursive_lock \<Rightarrow> rlock_result \<times> os_unfair_recursive_lock" where
  "os_unfair_recursive_lock_lock_with_options options self l =
     (let cur = ourl_lock l
      in if cur = OS_LOCK_NO_OWNER then (Acquired, l\<lparr>ourl_lock := self\<rparr>)
         else if OS_ULOCK_OWNER cur = self then (Nested, l\<lparr>ourl_count := ourl_count l + 1\<rparr>)
         else (Enter (os_unfair_lock_lock_slow options), l))"

definition os_unfair_recursive_lock_trylock ::
  "os_lock_owner_t \<Rightarrow> os_unfair_recursive_lock \<Rightarrow> rlock_result option \<times> os_unfair_recursive_lock" where
  "os_unfair_recursive_lock_trylock self l =
     (let cur = ourl_lock l
      in if cur = OS_LOCK_NO_OWNER then (Some Acquired, l\<lparr>ourl_lock := self\<rparr>)
         else if OS_ULOCK_OWNER cur = self then (Some Nested, l\<lparr>ourl_count := ourl_count l + 1\<rparr>)
         else (None, l))"

text \<open>\<open>None\<close> when only the count went down; otherwise where the unlock of the word continues.\<close>

definition os_unfair_recursive_lock_unlock ::
  "os_lock_owner_t \<Rightarrow> os_unfair_recursive_lock \<Rightarrow> lock_pc option \<times> os_unfair_recursive_lock" where
  "os_unfair_recursive_lock_unlock self l =
     (if ourl_count l \<noteq> 0 then
        (let cur = os_unfair_lock_owner l
         in if cur \<noteq> self then (Some (Aborted (UnownedAbort cur)), l)
            else (None, l\<lparr>ourl_count := ourl_count l - 1\<rparr>))
      else let (v, pc) = os_unfair_lock_unlock self (ourl_lock l) in (Some pc, l\<lparr>ourl_lock := v\<rparr>))"

definition os_unfair_recursive_lock_tryunlock4objc ::
  "os_lock_owner_t \<Rightarrow> os_unfair_recursive_lock \<Rightarrow> bool \<times> lock_pc option \<times> os_unfair_recursive_lock" where
  "os_unfair_recursive_lock_tryunlock4objc self l =
     (if os_unfair_lock_owner l = self
      then let (r, l') = os_unfair_recursive_lock_unlock self l in (True, r, l')
      else (False, None, l))"

definition os_unfair_recursive_lock_unlock_forked_child ::
  "os_lock_owner_t \<Rightarrow> os_unfair_recursive_lock \<Rightarrow> abort + os_unfair_recursive_lock" where
  "os_unfair_recursive_lock_unlock_forked_child self l =
     (if ourl_lock l = OS_LOCK_NO_OWNER then Inl NotHeld
      else if ourl_count l \<noteq> 0 then Inr (l\<lparr>ourl_count := ourl_count l - 1, ourl_lock := self\<rparr>)
      else Inr (l\<lparr>ourl_lock := OS_LOCK_NO_OWNER\<rparr>))"

definition pc_result :: "lock_pc \<Rightarrow> rlock_pc" where
  "pc_result pc = (if pc = Critical then RHeld 1 else ROut pc)"

fun recursive_step ::
  "u32 \<Rightarrow> os_lock_owner_t \<Rightarrow> input \<Rightarrow> os_unfair_recursive_lock \<Rightarrow> rlock_pc \<Rightarrow> os_unfair_recursive_lock \<times> rlock_pc" where
  "recursive_step options self CallLock l (ROut Idle) =
     (case os_unfair_recursive_lock_lock_with_options options self l of
        (Enter pc, l') \<Rightarrow> (l', ROut pc) | (_, l') \<Rightarrow> (l', RHeld 1))"
| "recursive_step options self CallLock l (RHeld n) =
     (case os_unfair_recursive_lock_lock_with_options options self l of
        (Enter pc, l') \<Rightarrow> (l', ROut pc) | (_, l') \<Rightarrow> (l', RHeld (Suc n)))"
| "recursive_step options self CallTryLock l (ROut Idle) =
     (case os_unfair_recursive_lock_trylock self l of
        (None, l') \<Rightarrow> (l', ROut Idle) | (Some _, l') \<Rightarrow> (l', RHeld 1))"
| "recursive_step options self CallTryLock l (RHeld n) =
     (case os_unfair_recursive_lock_trylock self l of
        (None, l') \<Rightarrow> (l', RHeld n) | (Some _, l') \<Rightarrow> (l', RHeld (Suc n)))"
| "recursive_step options self CallUnlock l (RHeld n) =
     (case os_unfair_recursive_lock_unlock self l of
        (None, l') \<Rightarrow> (l', RHeld (n - 1)) | (Some pc, l') \<Rightarrow> (l', ROut pc))"
| "recursive_step options self (Kernel ret) l (ROut pc) =
     (let (v, pc') = unfair_step options self (Kernel ret) (ourl_lock l) pc
      in (l\<lparr>ourl_lock := v\<rparr>, pc_result pc'))"
| "recursive_step options self k l pc = (l, pc)"

subsection \<open>The count is the depth\<close>

text \<open>
  The global invariant, over the word, the count and every thread's depth at once: the owner
  is the one thread inside, and the count is its depth less one.
\<close>

definition rlock_inv :: "os_unfair_recursive_lock \<Rightarrow> (os_lock_owner_t \<Rightarrow> rlock_pc) \<Rightarrow> bool" where
  "rlock_inv l ls \<longleftrightarrow> ourl_lock l \<noteq> 1
     \<and> (\<forall>t. case ls t of ROut pc \<Rightarrow> mask_ok pc \<and> pc \<noteq> Critical \<and> no_client_abort pc
          | RHeld n \<Rightarrow> 0 < n \<and> ourl_lock l \<noteq> 0 \<and> OS_ULOCK_OWNER (ourl_lock l) = t \<and> ourl_count l = of_nat (n - 1))
     \<and> (ourl_lock l = 0 \<longrightarrow> ourl_count l = 0)
     \<and> (ourl_lock l \<noteq> 0 \<longrightarrow> (\<exists>n. ls (OS_ULOCK_OWNER (ourl_lock l)) = RHeld n))"


lemma out_not_owner: "rlock_inv l ls \<Longrightarrow> ls t = ROut pc \<Longrightarrow> ourl_lock l = 0 \<or> OS_ULOCK_OWNER (ourl_lock l) \<noteq> t"
  by (auto simp: rlock_inv_def)

lemma held_owner:
  "rlock_inv l ls \<Longrightarrow> ls t = RHeld n \<Longrightarrow> 0 < n \<and> ourl_lock l \<noteq> 0 \<and> OS_ULOCK_OWNER (ourl_lock l) = t
     \<and> ourl_count l = of_nat (n - 1)"
  unfolding rlock_inv_def by (auto dest!: spec [of _ t])

lemma held_only: "rlock_inv l ls \<Longrightarrow> ls t = RHeld n \<Longrightarrow> ls u = RHeld m \<Longrightarrow> t = u"
  using held_owner by blast

lemma rlock_waits:
  assumes inv: "rlock_inv l ls" and t: "ls t = ROut pc" and v: "v \<noteq> 1" "(v = 0) = (ourl_lock l = 0)"
      "ourl_lock l \<noteq> 0 \<Longrightarrow> OS_ULOCK_OWNER v = OS_ULOCK_OWNER (ourl_lock l)"
    and pc: "mask_ok pc'" "pc' \<noteq> Critical" "no_client_abort pc'"
  shows "rlock_inv (l\<lparr>ourl_lock := v\<rparr>) (ls(t := ROut pc'))"
  using inv v pc out_not_owner [OF inv t] unfolding rlock_inv_def
  by (auto simp: t split: rlock_pc.splits)

lemma rlock_acquires:
  assumes inv: "rlock_inv l ls" and t: "ls t = ROut pc" and z: "ourl_lock l = 0"
    and v: "v \<noteq> 0" "v \<noteq> 1" "OS_ULOCK_OWNER v = t"
  shows "rlock_inv (l\<lparr>ourl_lock := v\<rparr>) (ls(t := RHeld 1))"
  using inv z v unfolding rlock_inv_def by (auto simp: t split: rlock_pc.splits)

lemma rlock_nests:
  assumes inv: "rlock_inv l ls" and t: "ls t = RHeld n"
  shows "rlock_inv (l\<lparr>ourl_count := ourl_count l + 1\<rparr>) (ls(t := RHeld (Suc n)))"
proof -
  have n: "0 < n" "ourl_count l = of_nat (n - 1)" "ourl_lock l \<noteq> 0" "OS_ULOCK_OWNER (ourl_lock l) = t"
    using held_owner [OF inv t] by simp_all
  then have "ourl_count l + 1 = of_nat n" by (cases n) (simp_all add: add.commute)
  moreover have "ls u \<noteq> RHeld m" if "u \<noteq> t" for u m using held_only [OF inv t] that by blast
  ultimately show ?thesis using inv n unfolding rlock_inv_def by (auto simp: t split: rlock_pc.splits)
qed

lemma rlock_unnests:
  assumes inv: "rlock_inv l ls" and t: "ls t = RHeld n" and c: "ourl_count l \<noteq> 0"
  shows "rlock_inv (l\<lparr>ourl_count := ourl_count l - 1\<rparr>) (ls(t := RHeld (n - 1)))"
proof -
  have n: "0 < n" "ourl_count l = of_nat (n - 1)" "ourl_lock l \<noteq> 0" "OS_ULOCK_OWNER (ourl_lock l) = t"
    using held_owner [OF inv t] by simp_all
  with c obtain m where m: "n = Suc (Suc m)" by (cases n; cases "n - 1") auto
  then have "ourl_count l - 1 = of_nat (n - 1 - 1)" using n(2) by simp
  moreover have "ls u \<noteq> RHeld m" if "u \<noteq> t" for u m using held_only [OF inv t] that by blast
  ultimately show ?thesis using inv n m unfolding rlock_inv_def by (auto simp: t split: rlock_pc.splits)
qed

lemma rlock_releases:
  assumes inv: "rlock_inv l ls" and t: "ls t = RHeld n" and c: "ourl_count l = 0"
    and pc: "mask_ok pc" "pc \<noteq> Critical" "no_client_abort pc"
  shows "rlock_inv (l\<lparr>ourl_lock := 0\<rparr>) (ls(t := ROut pc))"
proof -
  have "ls u \<noteq> RHeld m" if "u \<noteq> t" for u m using held_only [OF inv t] that by blast
  then show ?thesis using inv c pc unfolding rlock_inv_def by (auto simp: t split: rlock_pc.splits)
qed

lemma unlock_owner_pc:
  "valid_port t \<Longrightarrow> OS_ULOCK_OWNER v = t \<Longrightarrow> os_unfair_lock_unlock t v = (v', pc) \<Longrightarrow>
     v' = 0 \<and> mask_ok pc \<and> pc \<noteq> Critical \<and> no_client_abort pc"
  using owner_no_waiters [of v]
  by (auto simp: os_unfair_lock_unlock_def os_unfair_lock_unlock_slow_def OS_ULOCK_IS_NOT_OWNER_def OS_LOCK_NO_OWNER_def
      no_client_abort_def Let_def split: if_splits)

lemma slow_entry_pc: "mask_ok (os_unfair_lock_lock_slow options)" "os_unfair_lock_lock_slow options \<noteq> Critical"
  "no_client_abort (os_unfair_lock_lock_slow options)"
  by (auto simp: os_unfair_lock_lock_slow_def no_client_abort_def Let_def)

lemma rlock_inv_kernel:
  assumes inv: "rlock_inv l ls" and t: "valid_port t" and pc: "ls t = ROut pc"
    and st: "unfair_step options t (Kernel ret) (ourl_lock l) pc = (v, pc')"
  shows "rlock_inv (l\<lparr>ourl_lock := v\<rparr>) (ls(t := pc_result pc'))"
proof -
  have ok: "unfair_ok (ourl_lock l)" "mask_ok pc" "no_client_abort pc" and out: "\<not> unfair_holds pc"
    using inv pc by (auto simp: rlock_inv_def unfair_ok_def unfair_holds_def dest!: spec [of _ t])
  note keep = unfair.keeps_ok [OF t st ok(1,2)]
  show ?thesis
  proof (cases "pc' = Critical")
    case True
    then have "ourl_lock l = 0 \<and> v \<noteq> 0" "OS_ULOCK_OWNER v = t"
      using unfair.acquires [OF t st ok(1,2) out] unfair.owner_acquires [OF t st ok(1,2) out] by (simp_all add: unfair_holds_def)
    with True keep rlock_acquires [OF inv pc] show ?thesis by (auto simp: pc_result_def unfair_ok_def)
  next
    case False
    then have "(v = 0) = (ourl_lock l = 0)" "ourl_lock l \<noteq> 0 \<Longrightarrow> OS_ULOCK_OWNER v = OS_ULOCK_OWNER (ourl_lock l)"
      "no_client_abort pc'"
      using unfair.stays [OF t st ok(1,2)] unfair.owner_stays [OF t st ok(1,2)] out_not_owner [OF inv pc]
        unfair.local_step [OF t st ok] out by (auto simp: unfair_holds_def)
    with False keep rlock_waits [OF inv pc] show ?thesis by (auto simp: pc_result_def unfair_ok_def)
  qed
qed

lemma rlock_inv_step:
  assumes inv: "rlock_inv l ls" and t: "valid_port t" and st: "recursive_step options t k l (ls t) = (l', p)"
  shows "rlock_inv l' (ls(t := p))"
proof (cases "ls t")
  case (RHeld n)
  then have own: "OS_ULOCK_OWNER (ourl_lock l) = t" "ourl_lock l \<noteq> 0"
    using inv unfolding rlock_inv_def by (auto dest!: spec [of _ t])
  have same: "ls(t := RHeld n) = ls" using RHeld by auto
  show ?thesis
  proof (cases k)
    case CallUnlock
    obtain v pc where un: "os_unfair_lock_unlock t (ourl_lock l) = (v, pc)" by fastforce
    note rel = unlock_owner_pc [OF t own(1) un]
    show ?thesis using st CallUnlock RHeld own un rel rlock_unnests [OF inv RHeld] rlock_releases [OF inv RHeld]
      by (auto simp: os_unfair_recursive_lock_unlock_def os_unfair_lock_owner_def Let_def split: if_splits)
  qed (use st RHeld own rlock_nests [OF inv RHeld] inv same in
      \<open>auto simp: os_unfair_recursive_lock_lock_with_options_def os_unfair_recursive_lock_trylock_def
        OS_LOCK_NO_OWNER_def Let_def\<close>)
next
  case (ROut pc)
  have out: "ourl_lock l = 0 \<or> OS_ULOCK_OWNER (ourl_lock l) \<noteq> t" by (rule out_not_owner [OF inv ROut])
  have same: "ls(t := ROut pc) = ls" using ROut by auto
  note acq = rlock_acquires [OF inv ROut, of t] owner_bits(2) [OF t] t valid_port_nonzero [OF t]
  note wait = rlock_waits [OF inv ROut, of "ourl_lock l", OF _ refl refl]
  have l1: "ourl_lock l \<noteq> 1" using inv by (simp add: rlock_inv_def)
  show ?thesis
  proof (cases k)
    case (Kernel ret)
    then show ?thesis using st ROut rlock_inv_kernel [OF inv t ROut] by (auto split: prod.splits)
  next
    case CallLock
    then show ?thesis using st ROut out inv same acq wait [OF l1 slow_entry_pc]
      by (cases pc) (auto simp: os_unfair_recursive_lock_lock_with_options_def OS_LOCK_NO_OWNER_def Let_def valid_port_def
          split: if_splits)
  next
    case CallTryLock
    then show ?thesis using st ROut out inv same acq
      by (cases pc) (auto simp: os_unfair_recursive_lock_trylock_def OS_LOCK_NO_OWNER_def Let_def valid_port_def
          split: if_splits)
  next
    case CallUnlock
    then show ?thesis using st ROut inv same by (cases pc) auto
  qed
qed

lemma reach_rlock_inv:
  "reach (recursive_step options) \<lparr>ourl_lock = 0, ourl_count = 0\<rparr> (ROut Idle) (l, ls) \<Longrightarrow> rlock_inv l ls"
proof (induction "(l, ls)" arbitrary: l ls rule: reach.induct)
  case reach_init
  then show ?case by (simp add: rlock_inv_def no_client_abort_def)
next
  case (reach_step s ls t k s' l')
  then show ?case using rlock_inv_step by blast
qed


lemma recursive_example_reach:
  "reach (recursive_step 0) \<lparr>ourl_lock = 0, ourl_count = 0\<rparr> (ROut Idle)
     (\<lparr>ourl_lock = 0x103, ourl_count = 1\<rparr>, (\<lambda>_. ROut Idle)(0x103 := RHeld 2))"
proof -
  let ?l0 = "\<lparr>ourl_lock = 0, ourl_count = 0\<rparr>" and ?l1 = "\<lparr>ourl_lock = 0x103, ourl_count = 0\<rparr>"
  have "reach (recursive_step 0) ?l0 (ROut Idle) (?l1, (\<lambda>_. ROut Idle)(0x103 := RHeld 1))"
    by (rule reach_step [OF reach_init example_port, where k = CallLock])
      (simp add: os_unfair_recursive_lock_lock_with_options_def OS_LOCK_NO_OWNER_def)
  moreover have "recursive_step 0 0x103 CallLock ?l1 (((\<lambda>_. ROut Idle)(0x103 := RHeld 1)) 0x103)
      = (\<lparr>ourl_lock = 0x103, ourl_count = 1\<rparr>, RHeld 2)"
    by (simp add: os_unfair_recursive_lock_lock_with_options_def OS_LOCK_NO_OWNER_def owner_bits(2) [OF example_port])
  ultimately show ?thesis using reach_step [OF _ example_port] by fastforce
qed

text \<open>C10. In every reachable state of a recursive unfair lock at most one thread is inside; the
  count is its nesting depth less one (in 32 bits), the count is zero when nobody is inside,
  and no client that unlocks only what it holds runs into the recursion, unowned or no-waiters abort.\<close>

theorem recursive_lock_depth:
  assumes "reach (recursive_step options) \<lparr>ourl_lock = 0, ourl_count = 0\<rparr> (ROut Idle) (l, ls)"
  shows "(\<forall>n m. ls t = RHeld n \<and> ls u = RHeld m \<longrightarrow> t = u)
    \<and> (\<forall>n. ls t = RHeld n \<longrightarrow> 0 < n \<and> ourl_count l = of_nat (n - 1) \<and> os_unfair_recursive_lock_owned t l)
    \<and> (ourl_lock l = 0 \<longrightarrow> ourl_count l = 0)
    \<and> ls t \<noteq> ROut (Aborted (UnownedAbort a)) \<and> ls t \<noteq> ROut (Aborted (RecursiveAbort a)) \<and> ls t \<noteq> ROut (Aborted (NoWaiters v))"
proof -
  have inv: "rlock_inv l ls" by (rule reach_rlock_inv [OF assms])
  have "no_client_abort pc" if "ls t = ROut pc" for pc using inv that by (auto simp: rlock_inv_def dest!: spec [of _ t])
  then have "ls t \<noteq> ROut (Aborted (UnownedAbort a)) \<and> ls t \<noteq> ROut (Aborted (RecursiveAbort a)) \<and> ls t \<noteq> ROut (Aborted (NoWaiters v))"
    by (fastforce simp: no_client_abort_def)
  moreover have "ourl_lock l = 0 \<longrightarrow> ourl_count l = 0" using inv by (simp add: rlock_inv_def)
  ultimately show ?thesis using held_owner [OF inv, of t] held_only [OF inv, of t _ u]
    by (auto simp: os_unfair_recursive_lock_owned_def os_unfair_lock_owner_def)
qed

theorem recursive_lock_depth_witness:
  "(1 :: u32) = of_nat (2 - 1) \<and> os_unfair_recursive_lock_owned 0x103 \<lparr>ourl_lock = 0x103, ourl_count = 1\<rparr>"
  using recursive_lock_depth [OF recursive_example_reach, of "0x103"] by simp

text \<open>Nesting is undone one level per unlock: a thread that owns the lock and locks it again
  gets back, by one unlock, the lock it had, short of the 32-bit count wrapping; and
  \<open>tryunlock4objc\<close> changes nothing for a thread that is not the owner.\<close>

lemma recursive_lock_nesting:
  assumes "os_unfair_recursive_lock_owned self l" and "ourl_lock l \<noteq> 0" and "ourl_count l \<noteq> - 1"
  shows "\<exists>l'. os_unfair_recursive_lock_lock_with_options options self l = (Nested, l')
      \<and> os_unfair_recursive_lock_trylock self l = (Some Nested, l')
      \<and> os_unfair_recursive_lock_unlock self l' = (None, l)
      \<and> os_unfair_recursive_lock_tryunlock4objc self l' = (True, None, l)
      \<and> (other \<noteq> self \<longrightarrow> os_unfair_recursive_lock_tryunlock4objc other l' = (False, None, l'))"
proof -
  have "ourl_count l + 1 \<noteq> 0" using assms(3) by (metis add.commute add_eq_0_iff)
  then show ?thesis using assms
    by (auto simp: os_unfair_recursive_lock_lock_with_options_def os_unfair_recursive_lock_trylock_def
        os_unfair_recursive_lock_unlock_def os_unfair_recursive_lock_tryunlock4objc_def os_unfair_recursive_lock_owned_def
        os_unfair_lock_owner_def OS_LOCK_NO_OWNER_def Let_def)
qed

lemma recursive_lock_nesting_witness:
  "\<exists>l'. os_unfair_recursive_lock_trylock 0x103 \<lparr>ourl_lock = 0x103, ourl_count = 7\<rparr> = (Some Nested, l')
     \<and> os_unfair_recursive_lock_unlock 0x103 l' = (None, \<lparr>ourl_lock = 0x103, ourl_count = 7\<rparr>)"
  using recursive_lock_nesting [of "0x103" "\<lparr>ourl_lock = 0x103, ourl_count = 7\<rparr>"] owner_bits(2) [OF example_port]
  by (auto simp: os_unfair_recursive_lock_owned_def os_unfair_lock_owner_def)

end
