(* ===== verification/SpinLocks.thy ===== *)
theory SpinLocks
  imports UnfairLock
begin

text \<open>
  The other locks of \<open>libplatform/src/os/lock.c\<close>: \<open>OSSpinLock\<close> (the x86 multiprocessor
  build: spin, then yield, then wait), \<open>os_lock_handoff\<close> and \<open>_os_nospin_lock\<close>. \<open>thread_switch\<close>
  has no effect on the word; the clock \<open>mach_absolute_time\<close> reads is the input of the step.
\<close>

subsection \<open>OSSpinLock\<close>

definition OSSpinLockLocked :: u32 where "OSSpinLockLocked = - 1"
definition OS_LOCK_SPIN_SPIN_TRIES :: u32 where "OS_LOCK_SPIN_SPIN_TRIES = 1000"

text \<open>The flag of the yield points is \<open>option == SWITCH_OPTION_WAIT\<close>.\<close>

datatype spin_pc = SpinOut | SpinLoad u32 | SpinCas u32
  | YieldEnter | YieldLoad bool u32 u64 | YieldCas bool u32 u64 | SpinCritical | SpinAborted abort

definition os_lock_yield_deadline :: "u64 \<Rightarrow> u32 \<Rightarrow> u64" where
  "os_lock_yield_deadline now timeout = now + ucast timeout"

definition os_lock_yield_until :: "u64 \<Rightarrow> u64 \<Rightarrow> bool" where
  "os_lock_yield_until now deadline \<longleftrightarrow> now < deadline"

text \<open>The code at \<open>_yield\<close>, up to the next read of the lock.\<close>

definition yield_body :: "u64 \<Rightarrow> bool \<Rightarrow> u32 \<Rightarrow> u64 \<Rightarrow> u32 \<Rightarrow> spin_pc" where
  "yield_body now wait timeout deadline lock =
     (if lock \<noteq> OSSpinLockLocked then SpinAborted (CorruptionAbort lock)
      else if wait then YieldLoad True (timeout + 1) deadline
      else if \<not> os_lock_yield_until now deadline then YieldLoad True timeout deadline
      else YieldLoad False timeout deadline)"

definition spin_body :: "u32 \<Rightarrow> u32 \<Rightarrow> spin_pc" where
  "spin_body tries lock =
     (if lock \<noteq> OSSpinLockLocked then SpinAborted (CorruptionAbort lock)
      else if tries = 0 then YieldEnter else SpinLoad (tries - 1))"

fun OSSpinLockLockSlow_step :: "u64 \<Rightarrow> u32 \<Rightarrow> spin_pc \<Rightarrow> u32 \<times> spin_pc" where
  "OSSpinLockLockSlow_step now l (SpinLoad tries) = (l, if l \<noteq> 0 then spin_body tries l else SpinCas tries)"
| "OSSpinLockLockSlow_step now l (SpinCas tries) =
     (if l = 0 then (OSSpinLockLocked, SpinCritical) else (l, spin_body tries l))"
| "OSSpinLockLockSlow_step now l YieldEnter = (l, YieldLoad False 1 (os_lock_yield_deadline now 1))"
| "OSSpinLockLockSlow_step now l (YieldLoad wait timeout deadline) =
     (l, if l \<noteq> 0 then yield_body now wait timeout deadline l else YieldCas wait timeout deadline)"
| "OSSpinLockLockSlow_step now l (YieldCas wait timeout deadline) =
     (if l = 0 then (OSSpinLockLocked, SpinCritical) else (l, yield_body now wait timeout deadline l))"
| "OSSpinLockLockSlow_step now l pc = (l, pc)"

definition OSSpinLockTry :: "u32 \<Rightarrow> bool \<times> u32" where
  "OSSpinLockTry l = (if l = 0 then (True, OSSpinLockLocked) else (False, l))"

definition OSSpinLockLock :: "u32 \<Rightarrow> u32 \<times> spin_pc" where
  "OSSpinLockLock l = (if l = 0 then (OSSpinLockLocked, SpinCritical) else (l, SpinLoad OS_LOCK_SPIN_SPIN_TRIES))"

definition OSSpinLockUnlock :: "u32 \<Rightarrow> u32" where
  "OSSpinLockUnlock l = 0"

fun spin_step :: "os_lock_owner_t \<Rightarrow> input \<Rightarrow> u32 \<Rightarrow> spin_pc \<Rightarrow> u32 \<times> spin_pc" where
  "spin_step self CallLock l SpinOut = OSSpinLockLock l"
| "spin_step self CallTryLock l SpinOut = (let (r, l') = OSSpinLockTry l in (l', if r then SpinCritical else SpinOut))"
| "spin_step self CallUnlock l SpinCritical = (OSSpinLockUnlock l, SpinOut)"
| "spin_step self (Kernel now) l pc = OSSpinLockLockSlow_step (word_of_int now) l pc"
| "spin_step self k l pc = (l, pc)"

subsection \<open>Handoff lock\<close>

definition OS_LOCK_HANDOFF_YIELD_TRIES :: u32 where "OS_LOCK_HANDOFF_YIELD_TRIES = 100"

datatype handoff_pc = HandoffOut | HandoffLoad bool u32 u32 | HandoffCas bool u32 u32
  | HandoffCritical | HandoffAborted abort

text \<open>The code at \<open>_handoff\<close>: \<open>wait\<close> is \<open>option == SWITCH_OPTION_OSLOCK_WAIT\<close>.\<close>

definition handoff_body :: "os_lock_owner_t \<Rightarrow> bool \<Rightarrow> u32 \<Rightarrow> u32 \<Rightarrow> os_lock_owner_t \<Rightarrow> handoff_pc" where
  "handoff_body self wait timeout tries owner =
     (if owner = self then HandoffAborted (RecursiveAbort self)
      else let wait' = (wait \<or> tries = 0)
           in HandoffLoad wait' (if wait' then timeout + 1 else timeout) (tries - 1))"

fun os_lock_handoff_lock_slow_step :: "os_lock_owner_t \<Rightarrow> os_lock_owner_t \<Rightarrow> handoff_pc \<Rightarrow> os_lock_owner_t \<times> handoff_pc" where
  "os_lock_handoff_lock_slow_step self l (HandoffLoad wait timeout tries) =
     (l, if l \<noteq> 0 then handoff_body self wait timeout tries l else HandoffCas wait timeout tries)"
| "os_lock_handoff_lock_slow_step self l (HandoffCas wait timeout tries) =
     (if l = 0 then (self, HandoffCritical) else (l, handoff_body self wait timeout tries l))"
| "os_lock_handoff_lock_slow_step self l pc = (l, pc)"

definition os_lock_handoff_lock :: "os_lock_owner_t \<Rightarrow> os_lock_owner_t \<Rightarrow> os_lock_owner_t \<times> handoff_pc" where
  "os_lock_handoff_lock self l =
     (if l = 0 then (self, HandoffCritical) else (l, HandoffLoad False 1 OS_LOCK_HANDOFF_YIELD_TRIES))"

definition os_lock_handoff_trylock :: "os_lock_owner_t \<Rightarrow> os_lock_owner_t \<Rightarrow> bool \<times> os_lock_owner_t" where
  "os_lock_handoff_trylock self l = (if l = 0 then (True, self) else (False, l))"

definition os_lock_handoff_unlock :: "os_lock_owner_t \<Rightarrow> os_lock_owner_t" where
  "os_lock_handoff_unlock l = 0"

fun handoff_step :: "os_lock_owner_t \<Rightarrow> input \<Rightarrow> os_lock_owner_t \<Rightarrow> handoff_pc \<Rightarrow> os_lock_owner_t \<times> handoff_pc" where
  "handoff_step self CallLock l HandoffOut = os_lock_handoff_lock self l"
| "handoff_step self CallTryLock l HandoffOut =
     (let (r, l') = os_lock_handoff_trylock self l in (l', if r then HandoffCritical else HandoffOut))"
| "handoff_step self CallUnlock l HandoffCritical = (os_lock_handoff_unlock l, HandoffOut)"
| "handoff_step self (Kernel now) l pc = os_lock_handoff_lock_slow_step self l pc"
| "handoff_step self k l pc = (l, pc)"

subsection \<open>No-spin lock\<close>

datatype nospin_pc = NospinOut | NospinLoad u32 u32 | NospinClear os_ulock_value_t u32 u32
  | NospinWait os_ulock_value_t u32 u32 | NospinAcquire u32 u32 | NospinCritical | NospinWake | NospinAborted abort

definition nospin_retry :: "u32 \<Rightarrow> u32 \<Rightarrow> os_ulock_value_t \<Rightarrow> nospin_pc" where
  "nospin_retry waiters_mask timeout current =
     (let new = current AND NOT OS_ULOCK_NOWAITERS_BIT
      in if current \<noteq> new \<and> new \<noteq> 0 then NospinClear current waiters_mask timeout
         else NospinWait current waiters_mask timeout)"

fun os_nospin_lock_lock_slow_step ::
  "os_lock_owner_t \<Rightarrow> int \<Rightarrow> os_ulock_value_t \<Rightarrow> nospin_pc \<Rightarrow> os_ulock_value_t \<times> nospin_pc" where
  "os_nospin_lock_lock_slow_step self ret v (NospinLoad waiters_mask timeout) =
     (v, if v \<noteq> OS_LOCK_NO_OWNER then nospin_retry waiters_mask timeout v else NospinAcquire waiters_mask timeout)"
| "os_nospin_lock_lock_slow_step self ret v (NospinClear current waiters_mask timeout) =
     (let new = current AND NOT OS_ULOCK_NOWAITERS_BIT
      in if v = current then (new, NospinWait new waiters_mask timeout) else (v, NospinLoad waiters_mask timeout))"
| "os_nospin_lock_lock_slow_step self ret v (NospinWait current waiters_mask timeout) =
     (v, if ret < 0 then
           (if - ret = ETIMEDOUT then NospinLoad waiters_mask (timeout + 1)
            else if - ret = EINTR \<or> - ret = EFAULT then NospinLoad waiters_mask timeout
            else NospinAborted (UlockFailure (- ret)))
         else if ret > 0 then NospinLoad OS_ULOCK_NOWAITERS_BIT timeout
         else NospinLoad waiters_mask timeout)"
| "os_nospin_lock_lock_slow_step self ret v (NospinAcquire waiters_mask timeout) =
     (if v = OS_LOCK_NO_OWNER then (self AND NOT waiters_mask, NospinCritical)
      else (v, nospin_retry waiters_mask timeout v))"
| "os_nospin_lock_lock_slow_step self ret v NospinWake =
     (v, if ret < 0 then (if - ret = EINTR then NospinWake else if - ret = ENOENT then NospinOut
                          else NospinAborted (UlockFailure (- ret)))
         else NospinOut)"
| "os_nospin_lock_lock_slow_step self ret v pc = (v, pc)"

definition os_nospin_lock_unlock_slow :: "os_lock_owner_t \<Rightarrow> os_ulock_value_t \<Rightarrow> nospin_pc" where
  "os_nospin_lock_unlock_slow self current =
     (if OS_ULOCK_OWNER current \<noteq> self then NospinOut
      else if current AND OS_ULOCK_NOWAITERS_BIT \<noteq> 0 then NospinAborted (NoWaiters current)
      else NospinWake)"

definition os_nospin_lock_lock :: "os_lock_owner_t \<Rightarrow> os_ulock_value_t \<Rightarrow> os_ulock_value_t \<times> nospin_pc" where
  "os_nospin_lock_lock self v = (if v = OS_LOCK_NO_OWNER then (self, NospinCritical) else (v, NospinLoad 0 1))"

definition os_nospin_lock_trylock :: "os_lock_owner_t \<Rightarrow> os_ulock_value_t \<Rightarrow> bool \<times> os_ulock_value_t" where
  "os_nospin_lock_trylock self v = (if v = OS_LOCK_NO_OWNER then (True, self) else (False, v))"

definition os_nospin_lock_unlock :: "os_lock_owner_t \<Rightarrow> os_ulock_value_t \<Rightarrow> os_ulock_value_t \<times> nospin_pc" where
  "os_nospin_lock_unlock self v =
     (OS_LOCK_NO_OWNER, if v = self then NospinOut else os_nospin_lock_unlock_slow self v)"

fun nospin_step :: "os_lock_owner_t \<Rightarrow> input \<Rightarrow> os_ulock_value_t \<Rightarrow> nospin_pc \<Rightarrow> os_ulock_value_t \<times> nospin_pc" where
  "nospin_step self CallLock v NospinOut = os_nospin_lock_lock self v"
| "nospin_step self CallTryLock v NospinOut =
     (let (r, v') = os_nospin_lock_trylock self v in (v', if r then NospinCritical else NospinOut))"
| "nospin_step self CallUnlock v NospinCritical = os_nospin_lock_unlock self v"
| "nospin_step self (Kernel ret) v pc = os_nospin_lock_lock_slow_step self ret v pc"
| "nospin_step self k v pc = (v, pc)"

subsection \<open>All three keep the lock contract\<close>

definition spin_shared_ok :: "u32 \<Rightarrow> bool" where "spin_shared_ok l \<longleftrightarrow> l = 0 \<or> l = OSSpinLockLocked"
definition spin_local_ok :: "spin_pc \<Rightarrow> bool" where "spin_local_ok pc \<longleftrightarrow> (\<forall>a. pc \<noteq> SpinAborted a)"

lemmas spin_defs = OSSpinLockLock_def OSSpinLockTry_def OSSpinLockUnlock_def spin_body_def yield_body_def
  spin_shared_ok_def spin_local_ok_def OSSpinLockLocked_def Let_def

interpretation spin: lock_machine spin_step "\<lambda>l. l = 0" "\<lambda>pc. pc = SpinCritical" 0 SpinOut spin_shared_ok spin_local_ok
proof (unfold_locales, goal_cases)
  case (5 t k s l s' l')
  then show ?case
    by (cases "(t, k, s, l)" rule: spin_step.cases; cases l) (auto simp: spin_defs split: if_splits)
next
  case (6 t k s l s' l')
  then show ?case
    by (cases "(t, k, s, l)" rule: spin_step.cases; cases l) (auto simp: spin_defs split: if_splits)
next
  case (7 t k s l s' l')
  then show ?case
    by (cases "(t, k, s, l)" rule: spin_step.cases; cases l) (auto simp: spin_defs split: if_splits)
next
  case (8 t k s l s' l')
  then show ?case
    by (cases "(t, k, s, l)" rule: spin_step.cases; cases l) (auto simp: spin_defs split: if_splits)
qed (auto simp: spin_defs)


lemmas handoff_defs = os_lock_handoff_lock_def os_lock_handoff_trylock_def os_lock_handoff_unlock_def handoff_body_def Let_def

interpretation handoff: owner_lock handoff_step "\<lambda>l. l = 0" "\<lambda>pc. pc = HandoffCritical" 0 HandoffOut
  "\<lambda>l. True" "\<lambda>pc. True" "\<lambda>l. l" "\<lambda>pc. \<forall>a. pc \<noteq> HandoffAborted a"
proof (unfold_locales)
  show "handoff_step t k s l = (s', l') \<Longrightarrow> l \<noteq> HandoffCritical \<Longrightarrow> l' = HandoffCritical \<Longrightarrow> s = 0 \<and> s' \<noteq> 0"
    if "valid_port t" for t k s l s' l'
    using that by (cases "(t, k, s, l)" rule: handoff_step.cases; cases l)
      (auto simp: handoff_defs valid_port_nonzero split: if_splits)
  show "handoff_step t k s l = (s', l') \<Longrightarrow> l = HandoffCritical \<Longrightarrow> l' \<noteq> HandoffCritical \<Longrightarrow> s' = 0" for t k s l s' l'
    by (cases "(t, k, s, l)" rule: handoff_step.cases; cases l) (auto simp: handoff_defs split: if_splits)
  show "handoff_step t k s l = (s', l') \<Longrightarrow> (l' = HandoffCritical) = (l = HandoffCritical) \<Longrightarrow> (s' = 0) = (s = 0)"
    for t k s l s' l'
    by (cases "(t, k, s, l)" rule: handoff_step.cases; cases l) (auto simp: handoff_defs split: if_splits)
  show "handoff_step t k s l = (s', l') \<Longrightarrow> l \<noteq> HandoffCritical \<Longrightarrow> l' = HandoffCritical \<Longrightarrow> s' = t" for t k s l s' l'
    by (cases "(t, k, s, l)" rule: handoff_step.cases; cases l) (auto simp: handoff_defs split: if_splits)
  show "handoff_step t k s l = (s', l') \<Longrightarrow> s \<noteq> 0 \<Longrightarrow> (l' = HandoffCritical) = (l = HandoffCritical) \<Longrightarrow> s' = s"
    for t k s l s' l'
    by (cases "(t, k, s, l)" rule: handoff_step.cases; cases l) (auto simp: handoff_defs split: if_splits)
  show "handoff_step t k s l = (s', l') \<Longrightarrow> \<forall>a. l \<noteq> HandoffAborted a \<Longrightarrow> (l = HandoffCritical \<Longrightarrow> s = t)
      \<Longrightarrow> (l \<noteq> HandoffCritical \<Longrightarrow> s = 0 \<or> s \<noteq> t) \<Longrightarrow> \<forall>a. l' \<noteq> HandoffAborted a" for t k s l s' l'
    by (cases "(t, k, s, l)" rule: handoff_step.cases; cases l) (auto simp: handoff_defs split: if_splits)
qed auto

fun nospin_local_ok :: "nospin_pc \<Rightarrow> bool" where
  "nospin_local_ok (NospinLoad m tm) = (m = 0 \<or> m = OS_ULOCK_NOWAITERS_BIT)"
| "nospin_local_ok (NospinClear c m tm) = (m = 0 \<or> m = OS_ULOCK_NOWAITERS_BIT)"
| "nospin_local_ok (NospinWait c m tm) = (m = 0 \<or> m = OS_ULOCK_NOWAITERS_BIT)"
| "nospin_local_ok (NospinAcquire m tm) = (m = 0 \<or> m = OS_ULOCK_NOWAITERS_BIT)"
| "nospin_local_ok pc = True"

lemmas nospin_defs = os_nospin_lock_lock_def os_nospin_lock_trylock_def os_nospin_lock_unlock_def
  os_nospin_lock_unlock_slow_def nospin_retry_def OS_LOCK_NO_OWNER_def unfair_ok_def Let_def

interpretation nospin: owner_lock nospin_step "\<lambda>v. v = 0" "\<lambda>pc. pc = NospinCritical" 0 NospinOut
  unfair_ok nospin_local_ok OS_ULOCK_OWNER "\<lambda>pc. \<forall>v. pc \<noteq> NospinAborted (NoWaiters v)"
proof (unfold_locales, goal_cases)
  case (5 t k s l s' l')
  then show ?case
    by (cases "(t, k, s, l)" rule: nospin_step.cases; cases l) (auto simp: nospin_defs valid_port_def clear_low split: if_splits)
next
  case (6 t k s l s' l')
  then show ?case
    by (cases "(t, k, s, l)" rule: nospin_step.cases; cases l) (auto simp: nospin_defs valid_port_def clear_low split: if_splits)
next
  case (7 t k s l s' l')
  then show ?case
    by (cases "(t, k, s, l)" rule: nospin_step.cases; cases l) (auto simp: nospin_defs split: if_splits)
next
  case (8 t k s l s' l')
  then show ?case
    by (cases "(t, k, s, l)" rule: nospin_step.cases; cases l) (auto simp: nospin_defs clear_low split: if_splits)
next
  case (10 t k s l s' l')
  then show ?case using owner_bits
    by (cases "(t, k, s, l)" rule: nospin_step.cases; cases l) (auto simp: nospin_defs split: if_splits)
next
  case (11 t k s l s' l')
  then show ?case using owner_bits
    by (cases "(t, k, s, l)" rule: nospin_step.cases; cases l) (auto simp: nospin_defs split: if_splits)
next
  case (12 t k s l s' l')
  then show ?case using owner_no_waiters [of s]
    by (cases "(t, k, s, l)" rule: nospin_step.cases; cases l) (auto simp: nospin_defs split: if_splits)
qed (auto simp: unfair_ok_def)

subsection \<open>Properties\<close>

text \<open>C33. At most one thread is inside an \<open>OSSpinLock\<close>, whether it got there by the first try,
  by spinning or by yielding; the word is zero exactly when nobody is; and the corruption
  abort is unreachable.\<close>

theorem spin_mutual_exclusion:
  assumes "reach spin_step 0 SpinOut (l, ls)"
  shows "(ls t = SpinCritical \<and> ls u = SpinCritical \<longrightarrow> t = u) \<and> (l = 0 \<longleftrightarrow> (\<forall>t. ls t \<noteq> SpinCritical))
    \<and> ls t \<noteq> SpinAborted a"
  using spin.mutual_exclusion [OF assms, of t u] spin.free_iff_unheld [OF assms] spin.reach_consistent [OF assms]
  unfolding spin.consistent_def spin_local_ok_def by blast

theorem spin_mutual_exclusion_witness:
  "((\<lambda>_. SpinOut)((0x103 :: u32) := SpinCritical)) 0x103 \<noteq> SpinAborted NotHeld"
proof -
  have "reach spin_step 0 SpinOut (OSSpinLockLocked, (\<lambda>_. SpinOut)(0x103 := SpinCritical))"
    by (rule reach_step [OF reach_init example_port, where k = CallTryLock]) (simp add: OSSpinLockTry_def)
  then show ?thesis using spin_mutual_exclusion by blast
qed

text \<open>At most one thread is inside a handoff lock and the word is that thread's port; a
  client that locks only from outside never runs into the recursion abort.\<close>

lemma handoff_mutual_exclusion:
  assumes "reach handoff_step 0 HandoffOut (l, ls)"
  shows "(ls t = HandoffCritical \<longrightarrow> l = t) \<and> (l = 0 \<longleftrightarrow> (\<forall>t. ls t \<noteq> HandoffCritical)) \<and> ls t \<noteq> HandoffAborted a"
  using handoff.free_iff_unheld [OF assms] handoff.reach_owner [OF assms] by blast

lemma handoff_mutual_exclusion_witness:
  "((\<lambda>_. HandoffOut)((0x103 :: u32) := HandoffCritical)) 0x103 \<noteq> HandoffAborted NotHeld"
proof -
  have "reach handoff_step 0 HandoffOut (0x103, (\<lambda>_. HandoffOut)(0x103 := HandoffCritical))"
    by (rule reach_step [OF reach_init example_port, where k = CallTryLock]) (simp add: os_lock_handoff_trylock_def)
  then show ?thesis using handoff_mutual_exclusion by blast
qed

text \<open>At most one thread is inside a no-spin lock, the word names it, and the consistency
  check of its unlock never fails.\<close>

lemma nospin_mutual_exclusion:
  assumes "reach nospin_step 0 NospinOut (v, ls)"
  shows "(ls t = NospinCritical \<longrightarrow> OS_ULOCK_OWNER v = t) \<and> (v = 0 \<longleftrightarrow> (\<forall>t. ls t \<noteq> NospinCritical))
    \<and> ls t \<noteq> NospinAborted (NoWaiters a)"
  using nospin.free_iff_unheld [OF assms] nospin.reach_owner [OF assms] by blast

lemma nospin_mutual_exclusion_witness:
  "((\<lambda>_. NospinOut)((0x103 :: u32) := NospinCritical)) 0x103 \<noteq> NospinAborted (NoWaiters 0)"
proof -
  have "reach nospin_step 0 NospinOut (0x103, (\<lambda>_. NospinOut)(0x103 := NospinCritical))"
    by (rule reach_step [OF reach_init example_port, where k = CallTryLock])
      (simp add: os_nospin_lock_trylock_def OS_LOCK_NO_OWNER_def)
  then show ?thesis using nospin_mutual_exclusion by blast
qed

end
