(* ===== verification/OnceGate.thy ===== *)
theory OnceGate
  imports UnfairLock
begin

text \<open>
  \<open>os_once\<close> (\<open>libplatform/src/os/lock.c\<close>, the x86 build without the quiescence counter). The
  gate word is zero before the first call, the port of the thread running the initializer
  while it runs (low bit clear when others wait) and all ones once it is done. The model adds
  a count of the initializer's completions.
\<close>

definition OS_ONCE_INIT :: u64 where "OS_ONCE_INIT = 0"
definition OS_ONCE_DONE :: u64 where "OS_ONCE_DONE = - 1"

record os_once_gate =
  ogo_once :: u64
  runs :: nat

text \<open>
  The initializer either returns or, having failed, calls \<open>__os_once_reset\<close> and leaves
  without returning to \<open>_os_once_callout\<close>.
\<close>

datatype once_input = CallOnce | FuncReturns | FuncResets | KernelReturns int

datatype once_pc = OnceOut | OnceCallout | OnceMarkDone | OnceGateWait | OnceUlockWait u64 u64
  | OnceBroadcast bool | OnceReturned | OnceAborted abort

subsection \<open>Operations\<close>

definition os_once_gate_broadcast :: "bool \<Rightarrow> os_ulock_value_t \<Rightarrow> os_lock_owner_t \<Rightarrow> once_pc" where
  "os_once_gate_broadcast finished current self =
     (if OS_ULOCK_IS_NOT_OWNER current self False then OnceAborted (UnownedAbort (OS_ULOCK_OWNER current))
      else if current AND OS_ULOCK_NOWAITERS_BIT \<noteq> 0 then OnceAborted (NoWaiters current)
      else OnceBroadcast finished)"

definition once_leave :: "bool \<Rightarrow> once_pc" where
  "once_leave finished = (if finished then OnceReturned else OnceOut)"

definition os_once_broadcast_step :: "bool \<Rightarrow> int \<Rightarrow> once_pc" where
  "os_once_broadcast_step finished ret =
     (if ret < 0 then (if - ret = EINTR then OnceBroadcast finished
                       else if - ret = ENOENT then once_leave finished else OnceAborted (UlockFailure (- ret)))
      else once_leave finished)"

text \<open>\<open>_os_once_callout\<close> after \<open>func\<close>: mark the gate done and wake whoever waits.\<close>

definition os_once_mark_done :: "os_lock_owner_t \<Rightarrow> os_once_gate \<Rightarrow> os_once_gate \<times> once_pc" where
  "os_once_mark_done self og =
     (let v = ogo_once og
      in (og\<lparr>ogo_once := OS_ONCE_DONE\<rparr>,
          if (ucast v :: u32) = self then OnceReturned else os_once_gate_broadcast True (ucast v) self))"

definition os_once_reset :: "os_lock_owner_t \<Rightarrow> os_once_gate \<Rightarrow> os_once_gate \<times> once_pc" where
  "os_once_reset self og =
     (let v = ogo_once og
      in (og\<lparr>ogo_once := OS_ONCE_INIT\<rparr>,
          if (ucast v :: u32) = self then OnceOut else os_once_gate_broadcast False (ucast v) self))"

text \<open>One round of the loop of \<open>_os_once_gate_wait\<close>: the atomic update and what follows it.\<close>

definition os_once_gate_wait :: "os_lock_owner_t \<Rightarrow> os_once_gate \<Rightarrow> os_once_gate \<times> once_pc" where
  "os_once_gate_wait self og =
     (let old = ogo_once og
      in if old = OS_ONCE_DONE then (og, OnceReturned)
         else if old = OS_ONCE_INIT then (og\<lparr>ogo_once := ucast self\<rparr>, OnceCallout)
         else let new = old AND NOT 1;
                  og' = og\<lparr>ogo_once := new\<rparr>
              in if OS_ULOCK_IS_OWNER (ucast old) self False then (og', OnceAborted (RecursiveAbort self))
                 else (og', OnceUlockWait old new))"

definition os_once_wait_returns :: "u64 \<Rightarrow> int \<Rightarrow> once_pc" where
  "os_once_wait_returns old ret =
     (if ret < 0 \<and> - ret \<noteq> EINTR \<and> - ret \<noteq> EFAULT
      then (if - ret = EOWNERDEAD then OnceAborted (CorruptionAbort (ucast old)) else OnceAborted (UlockFailure (- ret)))
      else OnceGateWait)"

definition os_once :: "os_lock_owner_t \<Rightarrow> os_once_gate \<Rightarrow> os_once_gate \<times> once_pc" where
  "os_once self og =
     (if ogo_once og = OS_ONCE_INIT then (og\<lparr>ogo_once := ucast self\<rparr>, OnceCallout) else (og, OnceGateWait))"

fun once_step :: "os_lock_owner_t \<Rightarrow> once_input \<Rightarrow> os_once_gate \<Rightarrow> once_pc \<Rightarrow> os_once_gate \<times> once_pc" where
  "once_step self CallOnce og OnceOut = os_once self og"
| "once_step self CallOnce og OnceReturned = os_once self og"
| "once_step self FuncReturns og OnceCallout = (og\<lparr>runs := Suc (runs og)\<rparr>, OnceMarkDone)"
| "once_step self FuncResets og OnceCallout = os_once_reset self og"
| "once_step self (KernelReturns ret) og OnceMarkDone = os_once_mark_done self og"
| "once_step self (KernelReturns ret) og OnceGateWait = os_once_gate_wait self og"
| "once_step self (KernelReturns ret) og (OnceUlockWait old new) = (og, os_once_wait_returns old ret)"
| "once_step self (KernelReturns ret) og (OnceBroadcast finished) = (og, os_once_broadcast_step finished ret)"
| "once_step self k og pc = (og, pc)"

subsection \<open>Invariant\<close>

lemma once_done_init [simp]: "OS_ONCE_DONE \<noteq> OS_ONCE_INIT" "OS_ONCE_INIT \<noteq> OS_ONCE_DONE"
  by (simp_all add: OS_ONCE_DONE_def OS_ONCE_INIT_def)

definition running :: "once_pc \<Rightarrow> bool" where "running pc \<longleftrightarrow> pc = OnceCallout \<or> pc = OnceMarkDone"

definition finished_pc :: "once_pc \<Rightarrow> bool" where "finished_pc pc \<longleftrightarrow> pc = OnceReturned \<or> pc = OnceBroadcast True"

definition client_abort :: "once_pc \<Rightarrow> bool" where
  "client_abort pc = (case pc of OnceAborted (RecursiveAbort t) \<Rightarrow> True | OnceAborted (UnownedAbort t) \<Rightarrow> True
     | OnceAborted (NoWaiters v) \<Rightarrow> True | _ \<Rightarrow> False)"

text \<open>The gate word while thread \<open>t\<close> runs the initializer.\<close>

definition owned_by :: "os_lock_owner_t \<Rightarrow> u64 \<Rightarrow> bool" where
  "owned_by t v \<longleftrightarrow> v = ucast t \<or> v = ucast t AND NOT 1"

definition once_inv :: "os_once_gate \<Rightarrow> (os_lock_owner_t \<Rightarrow> once_pc) \<Rightarrow> bool" where
  "once_inv og ls \<longleftrightarrow> (\<forall>t. \<not> client_abort (ls t))
     \<and> (\<forall>t. running (ls t) \<longrightarrow> valid_port t \<and> owned_by t (ogo_once og))
     \<and> (ogo_once og \<noteq> OS_ONCE_INIT \<and> ogo_once og \<noteq> OS_ONCE_DONE \<longrightarrow> (\<exists>t. running (ls t)))
     \<and> (\<forall>t. finished_pc (ls t) \<longrightarrow> ogo_once og = OS_ONCE_DONE)
     \<and> runs og = (if ogo_once og = OS_ONCE_DONE \<or> (\<exists>t. ls t = OnceMarkDone) then 1 else 0)"

lemma owned_by_facts:
  assumes "valid_port t" and "owned_by t v"
  shows "v \<noteq> OS_ONCE_INIT" "v \<noteq> OS_ONCE_DONE" "OS_ULOCK_OWNER (ucast v) = t"
    "(ucast v :: u32) \<noteq> t \<Longrightarrow> (ucast v :: u32) AND OS_ULOCK_NOWAITERS_BIT = 0"
proof -
  have u: "(ucast v :: u32) = t \<or> (ucast v :: u32) = t AND NOT 1"
    using assms(2) unfolding owned_by_def by (auto intro!: bit_word_eqI simp: bit_simps)
  show owner: "OS_ULOCK_OWNER (ucast v) = t"
    using u owner_bits(2,3) [OF assms(1)] by (auto simp: OS_ULOCK_NOWAITERS_BIT_def)
  show "(ucast v :: u32) \<noteq> t \<Longrightarrow> (ucast v :: u32) AND OS_ULOCK_NOWAITERS_BIT = 0"
    using owner_no_waiters [of "ucast v"] owner by auto
  have "\<not> bit t 63" using bit_imp_le_length [of t 63] by auto
  then have top: "\<not> bit v 63" using assms(2) unfolding owned_by_def by (auto simp: bit_simps)
  then show "v \<noteq> OS_ONCE_DONE" by (auto simp: OS_ONCE_DONE_def)
  have "t AND NOT 1 \<noteq> 0" "t \<noteq> 0" using assms(1) low_bit_only [of t] valid_port_nonzero [OF assms(1)] by (auto simp: valid_port_def)
  then have "(ucast v :: u32) \<noteq> 0" using u by auto
  then show "v \<noteq> OS_ONCE_INIT" by (auto simp: OS_ONCE_INIT_def)
qed

lemma owned_by_unique: "valid_port t \<Longrightarrow> valid_port u \<Longrightarrow> owned_by t v \<Longrightarrow> owned_by u v \<Longrightarrow> t = u"
  using owned_by_facts(3) by metis


lemma owned_by_clear: "owned_by t v \<Longrightarrow> owned_by t (v AND NOT 1)"
  unfolding owned_by_def by (auto intro!: bit_word_eqI simp: bit_simps)

text \<open>The invariant with and without a thread at the initializer.\<close>

lemma once_inv_idle:
  assumes "\<And>u. \<not> running (ls u)" and "\<And>u. \<not> client_abort (ls u)"
    and "ogo_once og = OS_ONCE_DONE \<and> runs og = 1
       \<or> ogo_once og = OS_ONCE_INIT \<and> runs og = 0 \<and> (\<forall>u. \<not> finished_pc (ls u))"
  shows "once_inv og ls"
proof -
  have "ls u \<noteq> OnceMarkDone" for u using assms(1) [of u] by (auto simp: running_def)
  then show ?thesis using assms unfolding once_inv_def by auto
qed

lemma once_inv_busy:
  assumes "running (ls t)" "valid_port t" "owned_by t (ogo_once og)" and only: "\<And>u. u \<noteq> t \<Longrightarrow> \<not> running (ls u)"
    and "\<And>u. \<not> client_abort (ls u)" "\<And>u. \<not> finished_pc (ls u)" "runs og = of_bool (ls t = OnceMarkDone)"
  shows "once_inv og ls"
proof -
  have mark: "(\<exists>u. ls u = OnceMarkDone) \<longleftrightarrow> ls t = OnceMarkDone" using only unfolding running_def by metis
  have run: "running (ls u) \<Longrightarrow> u = t" for u using only by blast
  have busy: "valid_port u \<and> owned_by u (ogo_once og)" if "running (ls u)" for u
    using run [OF that] assms(2,3) by simp
  show ?thesis unfolding once_inv_def mark
    using assms(1,5-7) busy owned_by_facts(2) [OF assms(2,3)] by (intro conjI allI impI) auto
qed

lemma once_inv_busyD:
  assumes inv: "once_inv og ls" and r: "running (ls t)"
  shows "valid_port t" "owned_by t (ogo_once og)" "u \<noteq> t \<Longrightarrow> \<not> running (ls u)" "\<not> client_abort (ls u)"
    "\<not> finished_pc (ls u)" "runs og = of_bool (ls t = OnceMarkDone)"
proof -
  show own: "valid_port t" "owned_by t (ogo_once og)" and "\<not> client_abort (ls u)"
    using inv r unfolding once_inv_def by auto
  show "\<not> finished_pc (ls u)" using inv owned_by_facts(2) [OF own] unfolding once_inv_def by auto
  show only: "\<not> running (ls u)" if "u \<noteq> t" for u
    using inv that owned_by_unique [OF own(1) _ own(2)] unfolding once_inv_def by blast
  have "(\<exists>u. ls u = OnceMarkDone) \<longleftrightarrow> ls t = OnceMarkDone" using only unfolding running_def by metis
  then show "runs og = of_bool (ls t = OnceMarkDone)"
    using inv owned_by_facts(2) [OF own] unfolding once_inv_def by simp
qed

lemma once_inv_idleD:
  assumes inv: "once_inv og ls" and "\<And>u. \<not> running (ls u)"
  shows "ogo_once og = OS_ONCE_DONE \<and> runs og = 1
       \<or> ogo_once og = OS_ONCE_INIT \<and> runs og = 0 \<and> (\<forall>u. \<not> finished_pc (ls u))"
proof -
  have "ls u \<noteq> OnceMarkDone" for u using assms(2) [of u] by (auto simp: running_def)
  then show ?thesis using assms unfolding once_inv_def by auto
qed

text \<open>The five ways a step moves the gate.\<close>

lemma once_local:
  assumes inv: "once_inv og ls" and t: "\<not> running (ls t)" "\<not> running p" "\<not> client_abort p"
    "finished_pc p \<longrightarrow> ogo_once og = OS_ONCE_DONE"
  shows "once_inv og (ls(t := p))"
proof (cases "\<exists>u. running (ls u)")
  case True
  then obtain u where u: "running (ls u)" by blast
  note d = once_inv_busyD [OF inv u]
  have "u \<noteq> t" using u t(1) by blast
  then show ?thesis using u t d owned_by_facts(2) [OF d(1,2)] by (intro once_inv_busy [of _ u]) auto
next
  case False
  then have none: "\<not> running (ls u)" for u by blast
  have "\<not> client_abort (ls u)" for u using inv by (simp add: once_inv_def)
  then show ?thesis using once_inv_idleD [OF inv none] none t by (intro once_inv_idle) auto
qed

lemma once_starts:
  assumes inv: "once_inv og ls" and t: "valid_port t" and z: "ogo_once og = OS_ONCE_INIT"
  shows "once_inv (og\<lparr>ogo_once := ucast t\<rparr>) (ls(t := OnceCallout))"
proof -
  have none: "\<not> running (ls u)" for u using once_inv_busyD(1,2) [OF inv] owned_by_facts(1) z by metis
  have nd: "\<not> finished_pc (ls u)" "runs og = 0" for u using once_inv_idleD [OF inv none] z by auto
  have "\<not> client_abort (ls u)" for u using inv by (simp add: once_inv_def)
  then show ?thesis using none nd t
    by (intro once_inv_busy [of _ t]) (auto simp: owned_by_def running_def client_abort_def finished_pc_def)
qed

lemma once_waits:
  assumes inv: "once_inv og ls" and t: "\<not> running (ls t)" "\<not> running p" "\<not> client_abort p" "\<not> finished_pc p"
    and v: "ogo_once og \<noteq> OS_ONCE_INIT" "ogo_once og \<noteq> OS_ONCE_DONE"
  shows "once_inv (og\<lparr>ogo_once := ogo_once og AND NOT 1\<rparr>) (ls(t := p))"
proof -
  obtain u where u: "running (ls u)" using inv v unfolding once_inv_def by auto
  note d = once_inv_busyD [OF inv u]
  have "u \<noteq> t" using u t(1) by blast
  then show ?thesis using u t d owned_by_clear [OF d(2)] by (intro once_inv_busy [of _ u]) auto
qed

lemma once_func_returns:
  assumes inv: "once_inv og ls" and t: "ls t = OnceCallout"
  shows "once_inv (og\<lparr>runs := Suc (runs og)\<rparr>) (ls(t := OnceMarkDone))"
proof -
  have "running (ls t)" using t by (simp add: running_def)
  note d = once_inv_busyD [OF inv this]
  show ?thesis using t d
    by (intro once_inv_busy [of _ t]) (auto simp: running_def client_abort_def finished_pc_def)
qed

lemma once_leaves:
  assumes inv: "once_inv og ls" and r: "running (ls t)" and p: "\<not> running p" "\<not> client_abort p"
    and v: "v = OS_ONCE_DONE \<and> ls t = OnceMarkDone \<or> v = OS_ONCE_INIT \<and> ls t = OnceCallout \<and> \<not> finished_pc p"
  shows "once_inv (og\<lparr>ogo_once := v\<rparr>) (ls(t := p))"
proof -
  note d = once_inv_busyD [OF inv r]
  show ?thesis using p v d by (intro once_inv_idle) auto
qed

lemma once_inv_step:
  assumes inv: "once_inv og ls" and t: "valid_port t" and st: "once_step t k og (ls t) = (og', p)"
  shows "once_inv og' (ls(t := p))"
proof -
  have na: "\<not> client_abort (ls t)" using inv by (simp add: once_inv_def)
  have gate: "\<not> OS_ULOCK_IS_OWNER (ucast (ogo_once og)) t False"
    if "\<not> running (ls t)" "ogo_once og \<noteq> OS_ONCE_INIT" "ogo_once og \<noteq> OS_ONCE_DONE"
    using that inv owned_by_facts(3) unfolding once_inv_def OS_ULOCK_IS_OWNER_def by metis
  have bc: "\<not> running (os_once_gate_broadcast b (ucast (ogo_once og)) t) \<and>
      \<not> client_abort (os_once_gate_broadcast b (ucast (ogo_once og)) t)
      \<and> (finished_pc (os_once_gate_broadcast b (ucast (ogo_once og)) t) \<longrightarrow> b)"
    if "running (ls t)" "(ucast (ogo_once og) :: u32) \<noteq> t" for b
    using that inv owned_by_facts(3,4) [of t "ogo_once og"] unfolding once_inv_def
    by (auto simp: os_once_gate_broadcast_def OS_ULOCK_IS_NOT_OWNER_def running_def client_abort_def finished_pc_def)
  note simps = os_once_def os_once_reset_def os_once_mark_done_def os_once_gate_wait_def Let_def
  have fin: "finished_pc (ls t) \<Longrightarrow> ogo_once og = OS_ONCE_DONE" using inv unfolding once_inv_def by blast
  show ?thesis
  proof (cases "(t, k, og, ls t)" rule: once_step.cases)
    case (1 self og')
    then show ?thesis using st once_starts [OF inv t] once_local [OF inv, of t OnceGateWait]
      by (auto simp: simps running_def client_abort_def finished_pc_def split: if_splits)
  next
    case (2 self og')
    then show ?thesis using st once_starts [OF inv t] once_local [OF inv, of t OnceGateWait]
      by (auto simp: simps running_def client_abort_def finished_pc_def split: if_splits)
  next
    case (3 self og')
    then show ?thesis using st once_func_returns [OF inv, of t] by auto
  next
    case (4 self og')
    then have r: "running (ls t)" by (auto simp: running_def)
    show ?thesis using 4 st bc [OF r, of False] once_leaves [OF inv r, of p OS_ONCE_INIT]
      by (auto simp: simps running_def client_abort_def finished_pc_def split: if_splits)
  next
    case (5 self ret og')
    then have r: "running (ls t)" by (auto simp: running_def)
    show ?thesis using 5 st bc [OF r, of True] once_leaves [OF inv r, of p OS_ONCE_DONE]
      by (auto simp: simps running_def client_abort_def finished_pc_def split: if_splits)
  next
    case (6 self ret og')
    then have nr: "\<not> running (ls t)" by (auto simp: running_def)
    show ?thesis
    proof (cases "ogo_once og = OS_ONCE_INIT \<or> ogo_once og = OS_ONCE_DONE")
      case True
      then show ?thesis using 6 st once_starts [OF inv t] once_local [OF inv nr, of OnceReturned]
        by (auto simp: simps running_def client_abort_def finished_pc_def split: if_splits)
    next
      case False
      then show ?thesis using 6 st gate [OF nr] once_waits [OF inv nr, of p]
        by (auto simp: simps running_def client_abort_def finished_pc_def split: if_splits)
    qed
  next
    case (7 self ret og' old new)
    then have nr: "\<not> running (ls t)" by (auto simp: running_def)
    show ?thesis using 7 st once_local [OF inv nr, of p]
      by (auto simp: os_once_wait_returns_def running_def client_abort_def finished_pc_def split: if_splits)
  next
    case (8 self ret og' fin)
    then have nr: "\<not> running (ls t)" by (auto simp: running_def)
    have "ls t = OnceBroadcast fin" using 8 by auto
    then have "fin \<longrightarrow> ogo_once og = OS_ONCE_DONE" using fin by (simp add: finished_pc_def)
    then show ?thesis using 8 st inv once_local [OF inv nr, of p]
      by (auto simp: os_once_broadcast_step_def once_leave_def running_def client_abort_def finished_pc_def split: if_splits)
  qed (use st inv in \<open>auto simp: fun_upd_idem\<close>)
qed

lemma reach_once_inv:
  "reach once_step \<lparr>ogo_once = OS_ONCE_INIT, runs = 0\<rparr> OnceOut (og, ls) \<Longrightarrow> once_inv og ls"
proof (induction "(og, ls)" arbitrary: og ls rule: reach.induct)
  case reach_init
  then show ?case by (simp add: once_inv_def running_def client_abort_def finished_pc_def OS_ONCE_INIT_def OS_ONCE_DONE_def)
next
  case (reach_step s ls t k s' l')
  then show ?case using once_inv_step by blast
qed


lemma once_example_reach:
  "reach once_step \<lparr>ogo_once = OS_ONCE_INIT, runs = 0\<rparr> OnceOut
     (\<lparr>ogo_once = OS_ONCE_DONE, runs = 1\<rparr>, (\<lambda>_. OnceOut)(0x103 := OnceReturned))"
proof -
  let ?g = "\<lambda>v n. \<lparr>ogo_once = v, runs = n\<rparr>" and ?l = "\<lambda>p. (\<lambda>_. OnceOut)((0x103 :: u32) := p)"
  have 1: "reach once_step (?g OS_ONCE_INIT 0) OnceOut (?g 0x103 0, ?l OnceCallout)"
    by (rule reach_step [OF reach_init example_port, where k = CallOnce]) (simp add: os_once_def)
  have 2: "reach once_step (?g OS_ONCE_INIT 0) OnceOut (?g 0x103 1, (?l OnceCallout)(0x103 := OnceMarkDone))"
    by (rule reach_step [OF 1 example_port, where k = FuncReturns]) simp
  have "reach once_step (?g OS_ONCE_INIT 0) OnceOut (?g OS_ONCE_DONE 1, (?l OnceMarkDone)(0x103 := OnceReturned))"
    by (rule reach_step [OF _ example_port, where k = "KernelReturns 0"], use 2 in simp)
      (simp add: os_once_mark_done_def)
  then show ?thesis by simp
qed

text \<open>C11. The initializer of a once gate completes at most once, and every call that returned
  saw it complete: at most one thread is at the initializer at any time, a returned call means
  the gate is done and the initializer has run exactly once, and no thread runs into the
  recursion, unowned or no-waiters abort. A failed initializer (a reset) lets another start.\<close>

theorem once_runs_once:
  assumes "reach once_step \<lparr>ogo_once = OS_ONCE_INIT, runs = 0\<rparr> OnceOut (og, ls)"
  shows "runs og \<le> 1 \<and> (ls t = OnceReturned \<longrightarrow> runs og = 1 \<and> ogo_once og = OS_ONCE_DONE)
    \<and> (ls t = OnceCallout \<longrightarrow> runs og = 0 \<and> (\<forall>u. ls u = OnceCallout \<longrightarrow> u = t))
    \<and> ls t \<noteq> OnceAborted (RecursiveAbort a) \<and> ls t \<noteq> OnceAborted (UnownedAbort a) \<and> ls t \<noteq> OnceAborted (NoWaiters a)"
proof -
  have inv: "once_inv og ls" by (rule reach_once_inv [OF assms])
  have "runs og = 1 \<and> ogo_once og = OS_ONCE_DONE" if "ls t = OnceReturned"
    using inv that unfolding once_inv_def finished_pc_def by auto
  moreover have "runs og = 0 \<and> (\<forall>u. ls u = OnceCallout \<longrightarrow> u = t)" if t: "ls t = OnceCallout"
  proof -
    have r: "running (ls t)" using t by (simp add: running_def)
    show ?thesis using once_inv_busyD(3,6) [OF inv r] t by (auto simp: running_def)
  qed
  moreover have "runs og \<le> 1" using inv unfolding once_inv_def by (auto split: if_splits)
  moreover have "\<not> client_abort (ls t)" using inv unfolding once_inv_def by blast
  ultimately show ?thesis by (auto simp: client_abort_def)
qed

theorem once_runs_once_witness:
  "runs \<lparr>ogo_once = OS_ONCE_DONE, runs = 1\<rparr> = 1 \<and> ((\<lambda>_. OnceOut)((0x103 :: u32) := OnceReturned)) 0x103 = OnceReturned"
  using once_runs_once [OF once_example_reach, of "0x103"] by simp

subsection \<open>Progress\<close>

text \<open>A schedule: which thread takes the next step, and with what input.\<close>

primrec once_run :: "(os_lock_owner_t \<times> once_input) list \<Rightarrow> os_once_gate \<times> (os_lock_owner_t \<Rightarrow> once_pc)
    \<Rightarrow> os_once_gate \<times> (os_lock_owner_t \<Rightarrow> once_pc)" where
  "once_run [] c = c"
| "once_run (x # xs) c =
     (let (og, p) = once_step (fst x) (snd x) (fst c) (snd c (fst x)) in once_run xs (og, (snd c)(fst x := p)))"

lemma once_run_append: "once_run (xs @ ys) c = once_run ys (once_run xs c)"
  by (induction xs arbitrary: c) (auto split: prod.splits)

text \<open>Steps of \<open>us\<close> that take \<open>t\<close> out of the gate, in which no initializer fails.\<close>

definition comes_back :: "nat \<Rightarrow> os_lock_owner_t set \<Rightarrow> os_lock_owner_t \<Rightarrow> os_once_gate \<times> (os_lock_owner_t \<Rightarrow> once_pc) \<Rightarrow> bool" where
  "comes_back n us t c \<longleftrightarrow> (\<exists>xs. length xs \<le> n \<and> fst ` set xs \<subseteq> us \<and> FuncResets \<notin> snd ` set xs \<and>
     ogo_once (fst (once_run xs c)) = OS_ONCE_DONE \<and> snd (once_run xs c) t = OnceReturned)"

lemma comes_back_step:
  assumes "comes_back n us t (og', ls(u := p))" "once_step u k og (ls u) = (og', p)" "k \<noteq> FuncResets" "u \<in> us"
  shows "comes_back (Suc n) us t (og, ls)"
proof -
  obtain xs where "length xs \<le> n" "fst ` set xs \<subseteq> us" "FuncResets \<notin> snd ` set xs"
    "ogo_once (fst (once_run xs (og', ls(u := p)))) = OS_ONCE_DONE" "snd (once_run xs (og', ls(u := p))) t = OnceReturned"
    using assms(1) unfolding comes_back_def by blast
  then show ?thesis using assms(2-4) unfolding comes_back_def by (intro exI [of _ "(u, k) # xs"]) auto
qed

lemma comes_back_more: "comes_back n us t c \<Longrightarrow> n \<le> m \<Longrightarrow> comes_back m us t c"
  unfolding comes_back_def by (meson le_trans)

lemma back_when_done:
  assumes d: "ogo_once og = OS_ONCE_DONE" and na: "\<And>a. ls t \<noteq> OnceAborted a" "\<not> running (ls t)" and t: "t \<in> us"
  shows "comes_back 3 us t (og, ls)"
proof -
  have r: "comes_back 0 us t (og, m)" if "m t = OnceReturned" for m
    using d that unfolding comes_back_def by (intro exI [of _ "[]"]) simp
  have w: "comes_back 1 us t (og, m)" if "m t = OnceGateWait" for m
    using comes_back_step [OF r, of m t OnceReturned "KernelReturns 0"] d t that by (simp add: os_once_gate_wait_def)
  have o: "comes_back 2 us t (og, m)" if "m t = OnceOut" for m
    using comes_back_step [OF w, of m t OnceGateWait CallOnce] d t that by (simp add: os_once_def numeral_2_eq_2)
  show ?thesis
  proof (cases "ls t")
    case (OnceUlockWait old new)
    then have "comes_back 2 us t (og, ls)"
      using comes_back_step [OF w, of ls t OnceGateWait "KernelReturns 0"] t by (simp add: os_once_wait_returns_def numeral_2_eq_2)
    then show ?thesis by (rule comes_back_more) simp
  next
    case (OnceBroadcast b)
    show ?thesis
    proof (cases b)
      case True
      then have "comes_back 1 us t (og, ls)"
        using comes_back_step [OF r, of ls t OnceReturned "KernelReturns 0"] OnceBroadcast t
        by (simp add: os_once_broadcast_step_def once_leave_def)
      then show ?thesis by (rule comes_back_more) simp
    next
      case False
      then show ?thesis
        using comes_back_step [OF o, of ls t OnceOut "KernelReturns 0"] OnceBroadcast t
        by (simp add: os_once_broadcast_step_def once_leave_def numeral_3_eq_3 numeral_2_eq_2)
    qed
  next
    case OnceOut
    show ?thesis by (rule comes_back_more [OF o [of ls, OF OnceOut]]) simp
  next
    case OnceGateWait
    show ?thesis by (rule comes_back_more [OF w [of ls, OF OnceGateWait]]) simp
  next
    case OnceReturned
    show ?thesis by (rule comes_back_more [OF r [of ls, OF OnceReturned]]) simp
  qed (use na in \<open>auto simp: running_def\<close>)
qed

lemma mark_done_leaves:
  assumes "valid_port u" "owned_by u (ogo_once og)"
  shows "\<exists>p. os_once_mark_done u og = (og\<lparr>ogo_once := OS_ONCE_DONE\<rparr>, p) \<and> finished_pc p"
  using owned_by_facts(3,4) [OF assms]
  by (auto simp: os_once_mark_done_def os_once_gate_broadcast_def OS_ULOCK_IS_NOT_OWNER_def finished_pc_def Let_def)

lemma back_when_running:
  assumes inv: "once_inv og ls" and u: "running (ls u)" and na: "\<And>a. ls t \<noteq> OnceAborted a" and us: "t \<in> us" "u \<in> us"
  shows "comes_back 5 us t (og, ls)"
proof -
  note d = once_inv_busyD [OF inv u]
  have m: "comes_back 4 us t (g, ms)" if h: "ms u = OnceMarkDone" "owned_by u (ogo_once g)" "\<And>x. x \<noteq> u \<Longrightarrow> ms x = ls x" for g ms
  proof -
    obtain p where p: "os_once_mark_done u g = (g\<lparr>ogo_once := OS_ONCE_DONE\<rparr>, p)" "finished_pc p"
      using mark_done_leaves [OF d(1) h(2)] by blast
    have "comes_back 3 us t (g\<lparr>ogo_once := OS_ONCE_DONE\<rparr>, ms(u := p))"
      using p(2) na h(3) d(3) us by (intro back_when_done) (auto simp: finished_pc_def running_def)
    from comes_back_step [OF this, of "KernelReturns 0"] p(1) h(1) us show ?thesis by simp
  qed
  show ?thesis
  proof (cases "ls u = OnceMarkDone")
    case True
    show ?thesis by (rule comes_back_more [OF m [of ls og]]) (use True d(2) in simp_all)
  next
    case False
    then have c: "ls u = OnceCallout" using u by (simp add: running_def)
    have "comes_back 4 us t (og\<lparr>runs := Suc (runs og)\<rparr>, ls(u := OnceMarkDone))" using d(2) by (intro m) simp_all
    from comes_back_step [OF this, of FuncReturns] c us show ?thesis by simp
  qed
qed

lemma back_when_unused:
  assumes inv: "once_inv og ls" and z: "ogo_once og = OS_ONCE_INIT" and t: "valid_port t" "t \<in> us" and na: "\<And>a. ls t \<noteq> OnceAborted a"
  shows "comes_back 7 us t (og, ls)"
proof -
  have nr: "\<not> running (ls t)" "\<not> finished_pc (ls t)"
    using inv z once_inv_busyD(1,2) [OF inv] owned_by_facts(1) unfolding once_inv_def by (metis once_done_init(2))+
  have go: "comes_back 6 us t (og, m)" if "once_inv og m" "m t = OnceOut \<or> m t = OnceGateWait" for m
  proof -
    have "comes_back 5 us t (og\<lparr>ogo_once := ucast t\<rparr>, m(t := OnceCallout))"
      using t(2) by (intro back_when_running [where u = t, OF once_starts [OF that(1) t(1) z]]) (simp_all add: running_def)
    moreover have "\<exists>k. once_step t k og (m t) = (og\<lparr>ogo_once := ucast t\<rparr>, OnceCallout) \<and> k \<noteq> FuncResets"
      using that(2) z by (elim disjE; intro exI [of _ "if m t = OnceOut then CallOnce else KernelReturns 0"])
        (simp_all add: os_once_def os_once_gate_wait_def Let_def)
    ultimately show ?thesis using comes_back_step t(2) by fastforce
  qed
  have step: "comes_back 7 us t (og, ls)" if "once_step t (KernelReturns 0) og (ls t) = (og, p)" "p = OnceOut \<or> p = OnceGateWait" for p
  proof -
    have "comes_back 6 us t (og, ls(t := p))"
      by (rule go) (use once_inv_step [OF inv t(1) that(1)] that(2) in auto)
    from comes_back_step [OF this that(1)] t(2) show ?thesis by simp
  qed
  show ?thesis
  proof (cases "ls t")
    case (OnceUlockWait old new)
    show ?thesis by (rule step [of OnceGateWait]) (simp_all add: OnceUlockWait os_once_wait_returns_def)
  next
    case (OnceBroadcast b)
    then have "\<not> b" using nr(2) by (auto simp: finished_pc_def)
    then show ?thesis by (intro step [of OnceOut]) (simp_all add: OnceBroadcast os_once_broadcast_step_def once_leave_def)
  next
    case OnceOut
    show ?thesis by (rule comes_back_more [OF go [OF inv]]) (simp_all add: OnceOut)
  next
    case OnceGateWait
    show ?thesis by (rule comes_back_more [OF go [OF inv]]) (simp_all add: OnceGateWait)
  qed (use na nr in \<open>auto simp: running_def finished_pc_def\<close>)
qed


lemma once_waiting_reach:
  "reach once_step \<lparr>ogo_once = OS_ONCE_INIT, runs = 0\<rparr> OnceOut
     (\<lparr>ogo_once = 0x103, runs = 0\<rparr>, (\<lambda>_. OnceOut)(0x103 := OnceCallout, 0x203 := OnceGateWait))"
proof -
  have "reach once_step \<lparr>ogo_once = OS_ONCE_INIT, runs = 0\<rparr> OnceOut (\<lparr>ogo_once = 0x103, runs = 0\<rparr>, (\<lambda>_. OnceOut)(0x103 := OnceCallout))"
    by (rule reach_step [OF reach_init example_port, where k = CallOnce]) (simp add: os_once_def)
  then show ?thesis by (rule reach_step [where k = CallOnce]) (simp_all add: os_once_def OS_ONCE_INIT_def valid_port_def)
qed


end
