(* ===== verification/PthreadTsd.thy ===== *)
theory PthreadTsd
  imports Prelude
begin

text \<open>
  Thread-specific data (\<open>libpthread/src/pthread_tsd.c\<close>): the table of key destructors, the slots
  of each thread and the destructor passes of an exiting thread. A pointer is a 64-bit word and a
  null pointer is 0. Each operation runs under \<open>__pthread_tsd_lock\<close> or touches the slots of one
  thread, and is one function here. Destructors are client code: what a call of one does to the
  state is the argument \<open>run\<close>, and the passes return the calls they made, in order. The constants are
  those of the macOS build.
\<close>

definition pthread_tsd_first :: nat where "pthread_tsd_first = 10"
definition pthread_tsd_start :: nat where "pthread_tsd_start = 256"
definition pthread_tsd_end :: nat where "pthread_tsd_end = 768"
definition PTHREAD_DESTRUCTOR_ITERATIONS :: nat where "PTHREAD_DESTRUCTOR_ITERATIONS = 4"

datatype tsd_errno = EOK | EAGAIN | EINVAL

datatype introspection_event = NoHook | THREAD_CREATE | THREAD_DESTROY

record pthread_tsd =
  tsd :: "nat \<Rightarrow> u64"
  max_tsd_key :: u16
  introspection :: introspection_event

record tsd_world =
  pthread_keys :: "nat \<Rightarrow> u64"        \<comment> \<open>the complement of the destructor, 0 when the key is free\<close>
  pthread_tsd_max :: u32
  key_legacy_behaviour :: bool
  key_legacy_behaviour_log :: bool
  pthread_head :: "nat list"           \<comment> \<open>the list of all threads\<close>
  pthreads :: "nat \<Rightarrow> pthread_tsd"

definition set_slot :: "nat \<Rightarrow> nat \<Rightarrow> u64 \<Rightarrow> tsd_world \<Rightarrow> tsd_world" where
  "set_slot t key v w = w\<lparr>pthreads := (pthreads w)(t := (pthreads w t)\<lparr>tsd := (tsd (pthreads w t))(key := v)\<rparr>)\<rparr>"

definition set_max_key :: "nat \<Rightarrow> u16 \<Rightarrow> tsd_world \<Rightarrow> tsd_world" where
  "set_max_key t k w = w\<lparr>pthreads := (pthreads w)(t := (pthreads w t)\<lparr>max_tsd_key := k\<rparr>)\<rparr>"

text \<open>The two environment variables read at start-up.\<close>

definition pthread_key_global_init :: "bool \<Rightarrow> bool \<Rightarrow> tsd_world \<Rightarrow> tsd_world" where
  "pthread_key_global_init env_order env_log w =
     (let w1 = (if env_order then w\<lparr>key_legacy_behaviour := True\<rparr> else w)
      in if env_log then w1\<lparr>key_legacy_behaviour_log := True\<rparr> else w1)"

subsection \<open>The key table\<close>

definition pthread_key_set_destructor :: "nat \<Rightarrow> u64 \<Rightarrow> tsd_world \<Rightarrow> bool \<times> tsd_world" where
  "pthread_key_set_destructor key d w =
     (if pthread_keys w key = 0 then (True, w\<lparr>pthread_keys := (pthread_keys w)(key := NOT d)\<rparr>) else (False, w))"

definition pthread_key_unset_destructor :: "nat \<Rightarrow> tsd_world \<Rightarrow> bool \<times> tsd_world" where
  "pthread_key_unset_destructor key w =
     (if pthread_keys w key \<noteq> 0 then (True, w\<lparr>pthread_keys := (pthread_keys w)(key := 0)\<rparr>) else (False, w))"

definition pthread_key_get_destructor :: "nat \<Rightarrow> tsd_world \<Rightarrow> bool \<times> u64" where
  "pthread_key_get_destructor key w = (pthread_keys w key \<noteq> 0, NOT (pthread_keys w key))"

function key_create_loop :: "u64 \<Rightarrow> nat \<Rightarrow> tsd_world \<Rightarrow> tsd_errno \<times> nat option \<times> tsd_world" where
  "key_create_loop d k w =
     (if k < pthread_tsd_end then
        (case pthread_key_set_destructor k d w of
           (True, w') \<Rightarrow> (EOK, Some k, w')
         | (False, w') \<Rightarrow> key_create_loop d (k + 1) w')
      else (EAGAIN, None, w))"
  by pat_completeness auto
termination
  by (relation "measure (\<lambda>(d, k, w). pthread_tsd_end - k)") auto

definition pthread_key_create :: "u64 \<Rightarrow> tsd_world \<Rightarrow> tsd_errno \<times> nat option \<times> tsd_world" where
  "pthread_key_create d w = key_create_loop d pthread_tsd_start w"

definition pthread_key_delete :: "nat \<Rightarrow> tsd_world \<Rightarrow> tsd_errno \<times> tsd_world" where
  "pthread_key_delete key w =
     (if pthread_tsd_start \<le> key \<and> key < pthread_tsd_end then
        (case pthread_key_unset_destructor key w of
           (True, w') \<Rightarrow> (EOK, fold (\<lambda>p. set_slot p key 0) (pthread_head w') w')
         | (False, w') \<Rightarrow> (EINVAL, w'))
      else (EINVAL, w))"

definition pthread_key_init_np :: "int \<Rightarrow> u64 \<Rightarrow> tsd_world \<Rightarrow> tsd_errno \<times> tsd_world" where
  "pthread_key_init_np key d w =
     (if int pthread_tsd_first \<le> key \<and> key < int pthread_tsd_start then
        (let w1 = snd (pthread_key_set_destructor (nat key) d w)
         in (EOK, if key > sint (pthread_tsd_max w1) then w1\<lparr>pthread_tsd_max := of_int key\<rparr> else w1))
      else (EINVAL, w))"

subsection \<open>Slots\<close>

definition pthread_setspecific :: "nat \<Rightarrow> nat \<Rightarrow> u64 \<Rightarrow> tsd_world \<Rightarrow> tsd_errno \<times> tsd_world" where
  "pthread_setspecific thread key v w =
     (if pthread_tsd_first \<le> key \<and> key < pthread_tsd_end then
        (let created = fst (pthread_key_get_destructor key w)
         in if key < pthread_tsd_start \<or> created then
              (let w1 = set_slot thread key v w;
                   w2 = (if key < pthread_tsd_start then snd (pthread_key_set_destructor key 0 w1) else w1);
                   w3 = (if key > unat (max_tsd_key (pthreads w2 thread)) then set_max_key thread (of_nat key) w2 else w2)
               in (EOK, w3))
            else (EINVAL, w))
      else (EINVAL, w))"

definition pthread_setspecific_static :: "nat \<Rightarrow> nat \<Rightarrow> u64 \<Rightarrow> tsd_world \<Rightarrow> tsd_errno \<times> tsd_world" where
  "pthread_setspecific_static self key v w =
     (if key < pthread_tsd_start then (EOK, set_slot self key v w) else (EINVAL, w))"

definition pthread_getspecific :: "nat \<Rightarrow> nat \<Rightarrow> tsd_world \<Rightarrow> u64" where
  "pthread_getspecific self key w = tsd (pthreads w self) key"

text \<open>The introspection variants crash (\<open>None\<close>) outside the hook they are meant for.\<close>

definition pthread_introspection_setspecific_np :: "nat \<Rightarrow> nat \<Rightarrow> nat \<Rightarrow> u64 \<Rightarrow> tsd_world \<Rightarrow> (tsd_errno \<times> tsd_world) option" where
  "pthread_introspection_setspecific_np self thread key v w =
     (if introspection (pthreads w self) \<noteq> THREAD_CREATE then None else Some (pthread_setspecific thread key v w))"

definition pthread_introspection_getspecific_np :: "nat \<Rightarrow> nat \<Rightarrow> nat \<Rightarrow> tsd_world \<Rightarrow> u64 option" where
  "pthread_introspection_getspecific_np self thread key w =
     (if introspection (pthreads w self) \<noteq> THREAD_DESTROY then None else Some (tsd (pthreads w thread) key))"

subsection \<open>Destructor passes\<close>

datatype tsd_event = Destroy nat u64 u64 | WarnDirty nat

type_synonym destructor_code = "u64 \<Rightarrow> u64 \<Rightarrow> tsd_world \<Rightarrow> tsd_world"

definition pthread_tsd_cleanup_key :: "destructor_code \<Rightarrow> nat \<Rightarrow> nat \<Rightarrow> tsd_world \<Rightarrow> tsd_event list \<times> tsd_world" where
  "pthread_tsd_cleanup_key run self key w =
     (case pthread_key_get_destructor key w of (isset, destructor) \<Rightarrow>
        (let v = tsd (pthreads w self) key
         in if isset \<and> v \<noteq> 0 then
              (let w1 = set_slot self key 0 w
               in if destructor \<noteq> 0 then ([Destroy key destructor v], run destructor v w1) else ([], w1))
            else ([], w)))"

lemma u16_bound: "unat (x :: u16) < 65536"
  using unsigned_less [of x] by simp

lemma u16_step: "k \<le> unat (x :: u16) \<Longrightarrow> 65535 - k < 65536 - k"
  using u16_bound [of x] by linarith

lemma u32_bound: "unat (x :: u32) < 4294967296"
  using unsigned_less [of x] by simp

lemma u32_step: "k \<le> unat (x :: u32) \<Longrightarrow> 4294967295 - k < 4294967296 - k"
  using u32_bound [of x] by linarith

text \<open>Both loops read their bound again on every turn, as a destructor may have raised it.\<close>

function cleanup_dynamic :: "destructor_code \<Rightarrow> nat \<Rightarrow> nat \<Rightarrow> tsd_world \<Rightarrow> tsd_event list \<times> tsd_world" where
  "cleanup_dynamic run self k w =
     (if k \<le> unat (max_tsd_key (pthreads w self)) then
        (case pthread_tsd_cleanup_key run self k w of (ev, w1) \<Rightarrow>
           (case cleanup_dynamic run self (k + 1) w1 of (ev', w2) \<Rightarrow> (ev @ ev', w2)))
      else ([], w))"
  by pat_completeness auto
termination
  by (relation "measure (\<lambda>(run, self, k, w). 65536 - k)") (auto intro: u16_step)

function cleanup_static :: "destructor_code \<Rightarrow> nat \<Rightarrow> nat \<Rightarrow> tsd_world \<Rightarrow> tsd_event list \<times> tsd_world" where
  "cleanup_static run self k w =
     (if k \<le> unat (pthread_tsd_max w) then
        (case pthread_tsd_cleanup_key run self k w of (ev, w1) \<Rightarrow>
           (case cleanup_static run self (k + 1) w1 of (ev', w2) \<Rightarrow> (ev @ ev', w2)))
      else ([], w))"
  by pat_completeness auto
termination
  by (relation "measure (\<lambda>(run, self, k, w). 4294967296 - k)") (auto intro: u32_step)

definition cleanup_new_pass :: "destructor_code \<Rightarrow> nat \<Rightarrow> tsd_world \<Rightarrow> tsd_event list \<times> tsd_world" where
  "cleanup_new_pass run self w =
     (case cleanup_dynamic run self pthread_tsd_start w of (ev1, w1) \<Rightarrow>
        (case cleanup_static run self pthread_tsd_first w1 of (ev2, w2) \<Rightarrow> (ev1 @ ev2, w2)))"

primrec repeat_pass :: "(tsd_world \<Rightarrow> tsd_event list \<times> tsd_world) \<Rightarrow> nat \<Rightarrow> tsd_world \<Rightarrow> tsd_event list \<times> tsd_world" where
  "repeat_pass f 0 w = ([], w)"
| "repeat_pass f (Suc j) w = (case f w of (ev, w1) \<Rightarrow> (case repeat_pass f j w1 of (ev', w2) \<Rightarrow> (ev @ ev', w2)))"

definition pthread_tsd_cleanup_new :: "destructor_code \<Rightarrow> nat \<Rightarrow> tsd_world \<Rightarrow> tsd_event list \<times> tsd_world" where
  "pthread_tsd_cleanup_new run self w =
     (case repeat_pass (cleanup_new_pass run self) PTHREAD_DESTRUCTOR_ITERATIONS w of (ev, w1) \<Rightarrow> (ev, set_max_key self 0 w1))"

definition pthread_tsd_behaviour_check :: "nat \<Rightarrow> tsd_world \<Rightarrow> tsd_event list" where
  "pthread_tsd_behaviour_check self w =
     map WarnDirty (filter (\<lambda>k. case pthread_key_get_destructor k w of (isset, destructor) \<Rightarrow>
         isset \<and> tsd (pthreads w self) k \<noteq> 0 \<and> destructor \<noteq> 0) [pthread_tsd_start..<pthread_tsd_end])"

definition cleanup_legacy_static_pass :: "destructor_code \<Rightarrow> nat \<Rightarrow> tsd_world \<Rightarrow> tsd_event list \<times> tsd_world" where
  "cleanup_legacy_static_pass run self w =
     (case cleanup_static run self pthread_tsd_first w of (ev, w1) \<Rightarrow>
        (if key_legacy_behaviour_log w1 \<and> max_tsd_key (pthreads w1 self) \<noteq> 0
         then (ev @ pthread_tsd_behaviour_check self w1, w1) else (ev, w1)))"

definition pthread_tsd_cleanup_legacy :: "destructor_code \<Rightarrow> nat \<Rightarrow> tsd_world \<Rightarrow> tsd_event list \<times> tsd_world" where
  "pthread_tsd_cleanup_legacy run self w =
     (case repeat_pass (cleanup_dynamic run self pthread_tsd_start) PTHREAD_DESTRUCTOR_ITERATIONS w of (ev1, w1) \<Rightarrow>
        (case repeat_pass (cleanup_legacy_static_pass run self) PTHREAD_DESTRUCTOR_ITERATIONS (set_max_key self 0 w1) of
           (ev2, w2) \<Rightarrow> (ev1 @ ev2, w2)))"

definition pthread_tsd_cleanup :: "destructor_code \<Rightarrow> nat \<Rightarrow> tsd_world \<Rightarrow> tsd_event list \<times> tsd_world" where
  "pthread_tsd_cleanup run self w =
     (if \<not> key_legacy_behaviour w then pthread_tsd_cleanup_new run self w else pthread_tsd_cleanup_legacy run self w)"

declare key_create_loop.simps [simp del] cleanup_dynamic.simps [simp del] cleanup_static.simps [simp del]

end
