(* ===== verification/TsdKeys.thy ===== *)
theory TsdKeys
  imports PthreadTsd
begin

text \<open>
  Correctness of thread-specific data: allocation of keys, the invariant that a key no one holds
  has no values left in any thread, and the destructor passes. Destructors may call back into the
  interface; what they may do to the state is a locale, interpreted on arbitrary scripts of calls.
\<close>

subsection \<open>The interface as one step, and scripts of it\<close>

datatype tsd_call = KeyCreate u64 | KeyDelete nat | KeyInit int u64 | SetSpecific nat nat u64 | SetStatic nat nat u64

primrec tsd_exec :: "tsd_call \<Rightarrow> tsd_world \<Rightarrow> tsd_world" where
  "tsd_exec (KeyCreate d) w = snd (snd (pthread_key_create d w))"
| "tsd_exec (KeyDelete k) w = snd (pthread_key_delete k w)"
| "tsd_exec (KeyInit k d) w = snd (pthread_key_init_np k d w)"
| "tsd_exec (SetSpecific t k v) w = snd (pthread_setspecific t k v w)"
| "tsd_exec (SetStatic t k v) w = snd (pthread_setspecific_static t k v w)"

definition run_script :: "(u64 \<Rightarrow> u64 \<Rightarrow> tsd_call list) \<Rightarrow> destructor_code" where
  "run_script script d v w = fold tsd_exec (script d v) w"

subsection \<open>The invariant\<close>

definition tsd_inv :: "tsd_world \<Rightarrow> bool" where
  "tsd_inv w \<longleftrightarrow>
     (\<forall>t \<in> set (pthread_head w). \<forall>k. pthread_tsd_start \<le> k \<and> k < pthread_tsd_end \<and> tsd (pthreads w t) k \<noteq> 0 \<longrightarrow> pthread_keys w k \<noteq> 0) \<and>
     unat (pthread_tsd_max w) < pthread_tsd_start"

lemma set_slot_simps [simp]:
  "pthread_keys (set_slot t k v w) = pthread_keys w" "pthread_tsd_max (set_slot t k v w) = pthread_tsd_max w"
  "pthread_head (set_slot t k v w) = pthread_head w"
  "max_tsd_key (pthreads (set_slot t k v w) u) = max_tsd_key (pthreads w u)"
  "tsd (pthreads (set_slot t k v w) u) j = (if u = t \<and> j = k then v else tsd (pthreads w u) j)"
  "key_legacy_behaviour (set_slot t k v w) = key_legacy_behaviour w"
  by (simp_all add: set_slot_def)

lemma set_max_key_simps [simp]:
  "pthread_keys (set_max_key t k w) = pthread_keys w" "pthread_tsd_max (set_max_key t k w) = pthread_tsd_max w"
  "pthread_head (set_max_key t k w) = pthread_head w" "tsd (pthreads (set_max_key t k w) u) = tsd (pthreads w u)"
  by (simp_all add: set_max_key_def)

lemma tsd_inv_set_max_key [simp]: "tsd_inv (set_max_key t k w) = tsd_inv w"
  by (simp add: tsd_inv_def)

lemma clear_slots [simp]:
  "pthread_keys (fold (\<lambda>p. set_slot p k 0) ts w) = pthread_keys w"
  "pthread_tsd_max (fold (\<lambda>p. set_slot p k 0) ts w) = pthread_tsd_max w"
  "pthread_head (fold (\<lambda>p. set_slot p k 0) ts w) = pthread_head w"
  "tsd (pthreads (fold (\<lambda>p. set_slot p k 0) ts w) t) j = (if t \<in> set ts \<and> j = k then 0 else tsd (pthreads w t) j)"
  by (induction ts arbitrary: w) auto

lemma set_destructor_cases:
  obtains "pthread_keys w k = 0" "pthread_key_set_destructor k d w = (True, w\<lparr>pthread_keys := (pthread_keys w)(k := NOT d)\<rparr>)"
  | "pthread_keys w k \<noteq> 0" "pthread_key_set_destructor k d w = (False, w)"
  by (cases "pthread_keys w k = 0") (auto simp: pthread_key_set_destructor_def)

text \<open>The search stops at the first free key, and only fails when there is none.\<close>

lemma key_create_loop_free:
  assumes "pthread_keys w k = 0" "k < pthread_tsd_end" "i \<le> k" "\<forall>j. i \<le> j \<and> j < k \<longrightarrow> pthread_keys w j \<noteq> 0"
  shows "key_create_loop d i w = (EOK, Some k, w\<lparr>pthread_keys := (pthread_keys w)(k := NOT d)\<rparr>)"
  using assms(3,4)
proof (induction "k - i" arbitrary: i)
  case 0
  then show ?case using assms(1,2) by (subst key_create_loop.simps) (simp add: pthread_key_set_destructor_def)
next
  case (Suc n)
  then have "pthread_keys w i \<noteq> 0" "i < pthread_tsd_end" using assms(2) by auto
  moreover have "key_create_loop d (i + 1) w = (EOK, Some k, w\<lparr>pthread_keys := (pthread_keys w)(k := NOT d)\<rparr>)"
    using Suc by (intro Suc.hyps(1)) auto
  ultimately show ?case by (subst key_create_loop.simps) (simp add: pthread_key_set_destructor_def)
qed

lemma key_create_loop_full:
  assumes "\<forall>j. i \<le> j \<and> j < pthread_tsd_end \<longrightarrow> pthread_keys w j \<noteq> 0"
  shows "key_create_loop d i w = (EAGAIN, None, w)"
  using assms
proof (induction "pthread_tsd_end - i" arbitrary: i)
  case 0
  then show ?case by (subst key_create_loop.simps) simp
next
  case (Suc n)
  have "key_create_loop d (i + 1) w = (EAGAIN, None, w)" using Suc by (intro Suc.hyps(1)) auto
  then show ?case using Suc by (subst key_create_loop.simps) (simp add: pthread_key_set_destructor_def)
qed

definition free_key :: "tsd_world \<Rightarrow> nat \<Rightarrow> bool" where
  "free_key w k \<longleftrightarrow> pthread_tsd_start \<le> k \<and> k < pthread_tsd_end \<and> pthread_keys w k = 0"

lemma key_create_cases:
  obtains k where "free_key w k" "\<forall>j < k. \<not> free_key w j"
      "pthread_key_create d w = (EOK, Some k, w\<lparr>pthread_keys := (pthread_keys w)(k := NOT d)\<rparr>)"
  | "\<forall>k. \<not> free_key w k" "pthread_key_create d w = (EAGAIN, None, w)"
proof (cases "\<exists>k. free_key w k")
  case True
  define k where "k = (LEAST k. free_key w k)"
  have k: "free_key w k" "\<forall>j < k. \<not> free_key w j"
    unfolding k_def using LeastI_ex [OF True] not_less_Least [of _ "free_key w"] by blast+
  have r: "pthread_keys w k = 0" "k < pthread_tsd_end" "pthread_tsd_start \<le> k" using k(1) by (simp_all add: free_key_def)
  have "\<forall>j. pthread_tsd_start \<le> j \<and> j < k \<longrightarrow> pthread_keys w j \<noteq> 0"
    using k(2) r(2) unfolding free_key_def by (meson less_trans)
  then have "pthread_key_create d w = (EOK, Some k, w\<lparr>pthread_keys := (pthread_keys w)(k := NOT d)\<rparr>)"
    unfolding pthread_key_create_def by (rule key_create_loop_free [OF r])
  with k show ?thesis by (rule that(1))
next
  case False
  then have "pthread_key_create d w = (EAGAIN, None, w)"
    unfolding pthread_key_create_def by (intro key_create_loop_full) (auto simp: free_key_def)
  with False show ?thesis by (intro that(2)) auto
qed

lemma exec_head [simp]: "pthread_head (tsd_exec c w) = pthread_head w"
proof (cases c)
  case (KeyCreate d)
  show ?thesis by (rule key_create_cases [of w d]) (use KeyCreate in auto)
qed (auto simp: pthread_key_delete_def pthread_key_unset_destructor_def pthread_key_init_np_def pthread_key_set_destructor_def
    pthread_setspecific_def pthread_setspecific_static_def Let_def)

lemma exec_inv:
  assumes "tsd_inv w"
  shows "tsd_inv (tsd_exec c w)"
proof (cases c)
  case (KeyCreate d)
  show ?thesis by (rule key_create_cases [of w d]) (use assms KeyCreate in \<open>auto simp: tsd_inv_def free_key_def\<close>)
next
  case (KeyDelete k)
  then show ?thesis using assms
    by (auto simp: tsd_inv_def pthread_key_delete_def pthread_key_unset_destructor_def split: if_splits)
next
  case (KeyInit k d)
  have "unat (of_int k :: u32) = nat k" if "0 \<le> k" "k < 256"
    using that by (simp add: unsigned_of_int take_bit_int_eq_self)
  then show ?thesis using assms KeyInit
    by (auto simp: tsd_inv_def pthread_key_init_np_def pthread_key_set_destructor_def pthread_tsd_start_def pthread_tsd_first_def Let_def)
next
  case (SetSpecific t k v)
  then show ?thesis using assms
    by (auto simp: tsd_inv_def pthread_setspecific_def pthread_key_get_destructor_def pthread_key_set_destructor_def Let_def)
next
  case (SetStatic t k v)
  then show ?thesis using assms by (auto simp: tsd_inv_def pthread_setspecific_static_def)
qed

lemma script_inv: "tsd_inv w \<Longrightarrow> tsd_inv (run_script script d v w) \<and> pthread_head (run_script script d v w) = pthread_head w"
proof -
  have "tsd_inv w \<Longrightarrow> tsd_inv (fold tsd_exec cs w) \<and> pthread_head (fold tsd_exec cs w) = pthread_head w" for cs
    by (induction cs arbitrary: w) (auto simp: exec_inv)
  then show "tsd_inv w \<Longrightarrow> ?thesis" by (simp add: run_script_def)
qed


subsection \<open>Destructors that keep to the interface\<close>

definition calls :: "nat \<Rightarrow> tsd_event list \<Rightarrow> nat" where
  "calls k ev = length (filter (\<lambda>e. \<exists>d v. e = Destroy k d v) ev)"

lemma calls_append [simp]: "calls k (ev @ ev') = calls k ev + calls k ev'"
  by (simp add: calls_def)

lemma calls_warnings [simp]: "calls k (pthread_tsd_behaviour_check self w) = 0"
  by (auto simp: calls_def pthread_tsd_behaviour_check_def filter_empty_conv)

locale tsd_client =
  fixes run :: destructor_code
  assumes run_inv: "tsd_inv w \<Longrightarrow> tsd_inv (run d v w)"
    and run_head: "tsd_inv w \<Longrightarrow> pthread_head (run d v w) = pthread_head w"
begin

text \<open>
  Each piece of a pass keeps the invariant and the thread list, and makes at most \<open>b k\<close> calls for key \<open>k\<close>.
\<close>

definition keeps :: "(nat \<Rightarrow> nat) \<Rightarrow> tsd_world \<Rightarrow> tsd_event list \<times> tsd_world \<Rightarrow> bool" where
  "keeps b w r \<longleftrightarrow> tsd_inv (snd r) \<and> pthread_head (snd r) = pthread_head w \<and> (\<forall>k. calls k (fst r) \<le> b k)"

lemma keeps_none: "tsd_inv w \<Longrightarrow> keeps b w ([], w)"
  by (simp add: keeps_def calls_def)

lemma keeps_seq:
  assumes "keeps b w (ev, w1)" "keeps c w1 (ev', w2)" "\<And>k. b k + c k \<le> a k"
  shows "keeps a w (ev @ ev', w2)"
  using assms unfolding keeps_def by (auto intro: add_mono [THEN le_trans])

lemma keepsD: "keeps b w (ev, w1) \<Longrightarrow> tsd_inv w1"
  by (simp add: keeps_def)

lemma cleanup_key_keeps: "tsd_inv w \<Longrightarrow> keeps (\<lambda>j. if j = k then 1 else 0) w (pthread_tsd_cleanup_key run self k w)"
proof -
  assume inv: "tsd_inv w"
  have "tsd_inv (set_slot self k 0 w)" using inv by (auto simp: tsd_inv_def)
  then show ?thesis using inv run_inv run_head
    by (auto simp: keeps_def pthread_tsd_cleanup_key_def pthread_key_get_destructor_def calls_def Let_def)
qed

lemma cleanup_dynamic_keeps: "tsd_inv w \<Longrightarrow> keeps (\<lambda>j. if k \<le> j then 1 else 0) w (cleanup_dynamic run self k w)"
proof (induction "65536 - k" arbitrary: k w rule: less_induct)
  case less
  show ?case
  proof (cases "k \<le> unat (max_tsd_key (pthreads w self))")
    case True
    obtain ev w1 where e: "pthread_tsd_cleanup_key run self k w = (ev, w1)" by fastforce
    obtain ev' w2 where e': "cleanup_dynamic run self (k + 1) w1 = (ev', w2)" by fastforce
    have 1: "keeps (\<lambda>j. if j = k then 1 else 0) w (ev, w1)" using cleanup_key_keeps [OF less.prems, of k self] e by simp
    have "65536 - (k + 1) < 65536 - k" using u16_step [OF True] by simp
    from less.hyps [OF this keepsD [OF 1]] have 2: "keeps (\<lambda>j. if k + 1 \<le> j then 1 else 0) w1 (ev', w2)" unfolding e' .
    have "keeps (\<lambda>j. if k \<le> j then 1 else 0) w (ev @ ev', w2)" by (rule keeps_seq [OF 1 2]) auto
    then show ?thesis using True e e' by (subst cleanup_dynamic.simps) simp
  next
    case False
    then show ?thesis using keeps_none [OF less.prems] by (subst cleanup_dynamic.simps) simp
  qed
qed

lemma cleanup_static_keeps:
  "tsd_inv w \<Longrightarrow> keeps (\<lambda>j. if k \<le> j \<and> j < pthread_tsd_start then 1 else 0) w (cleanup_static run self k w)"
proof (induction "4294967296 - k" arbitrary: k w rule: less_induct)
  case less
  show ?case
  proof (cases "k \<le> unat (pthread_tsd_max w)")
    case True
    obtain ev w1 where e: "pthread_tsd_cleanup_key run self k w = (ev, w1)" by fastforce
    obtain ev' w2 where e': "cleanup_static run self (k + 1) w1 = (ev', w2)" by fastforce
    have 1: "keeps (\<lambda>j. if j = k then 1 else 0) w (ev, w1)" using cleanup_key_keeps [OF less.prems, of k self] e by simp
    have "k < 4294967296" using True u32_bound [of "pthread_tsd_max w"] by linarith
    then have "4294967296 - (k + 1) < 4294967296 - k" by linarith
    from less.hyps [OF this keepsD [OF 1]]
    have 2: "keeps (\<lambda>j. if k + 1 \<le> j \<and> j < pthread_tsd_start then 1 else 0) w1 (ev', w2)" unfolding e' .
    have "k < pthread_tsd_start" using True less.prems by (simp add: tsd_inv_def)
    then have "keeps (\<lambda>j. if k \<le> j \<and> j < pthread_tsd_start then 1 else 0) w (ev @ ev', w2)"
      by (intro keeps_seq [OF 1 2]) auto
    then show ?thesis using True e e' by (subst cleanup_static.simps) simp
  next
    case False
    then show ?thesis using keeps_none [OF less.prems] by (subst cleanup_static.simps) simp
  qed
qed

lemma repeat_keeps:
  assumes pass: "\<And>w. tsd_inv w \<Longrightarrow> keeps b w (f w)" and inv: "tsd_inv w"
  shows "keeps (\<lambda>k. n * b k) w (repeat_pass f n w)"
  using inv
proof (induction n arbitrary: w)
  case (Suc n)
  obtain ev w1 where e: "f w = (ev, w1)" by fastforce
  obtain ev' w2 where e': "repeat_pass f n w1 = (ev', w2)" by fastforce
  have 1: "keeps b w (ev, w1)" using pass [OF Suc.prems] e by simp
  have 2: "keeps (\<lambda>k. n * b k) w1 (ev', w2)" using Suc.IH [OF keepsD [OF 1]] e' by simp
  have "keeps (\<lambda>k. Suc n * b k) w (ev @ ev', w2)" by (rule keeps_seq [OF 1 2]) simp
  then show ?case by (simp add: e e')
qed (simp add: keeps_none)

lemma new_pass_keeps: "tsd_inv w \<Longrightarrow> keeps (\<lambda>_. 1) w (cleanup_new_pass run self w)"
proof -
  assume inv: "tsd_inv w"
  obtain ev w1 where e: "cleanup_dynamic run self pthread_tsd_start w = (ev, w1)" by fastforce
  obtain ev' w2 where e': "cleanup_static run self pthread_tsd_first w1 = (ev', w2)" by fastforce
  note 1 = cleanup_dynamic_keeps [OF inv, of pthread_tsd_start self, unfolded e]
  note 2 = cleanup_static_keeps [OF keepsD [OF 1], of pthread_tsd_first self, unfolded e']
  have "keeps (\<lambda>_. 1) w (ev @ ev', w2)" by (rule keeps_seq [OF 1 2]) auto
  then show ?thesis by (simp add: cleanup_new_pass_def e e')
qed

lemma legacy_static_pass_keeps:
  "tsd_inv w \<Longrightarrow> keeps (\<lambda>j. if j < pthread_tsd_start then 1 else 0) w (cleanup_legacy_static_pass run self w)"
proof -
  assume inv: "tsd_inv w"
  obtain ev w1 where e: "cleanup_static run self pthread_tsd_first w = (ev, w1)" by fastforce
  note 1 = cleanup_static_keeps [OF inv, of pthread_tsd_first self, unfolded e]
  have 2: "keeps (\<lambda>_. 0) w1 (if b then pthread_tsd_behaviour_check self w1 else [], w1)" for b
    using keepsD [OF 1] by (simp add: keeps_def) (simp add: calls_def)
  have "keeps (\<lambda>j. if j < pthread_tsd_start then 1 else 0) w (ev @ (if b then pthread_tsd_behaviour_check self w1 else []), w1)" for b
    by (rule keeps_seq [OF 1 2]) auto
  from this [of True] this [of False] show ?thesis by (simp add: cleanup_legacy_static_pass_def e)
qed

lemma cleanup_keeps:
  assumes inv: "tsd_inv w"
  shows "keeps (\<lambda>_. PTHREAD_DESTRUCTOR_ITERATIONS) w (pthread_tsd_cleanup run self w)"
proof (cases "key_legacy_behaviour w")
  case False
  obtain ev w1 where e: "repeat_pass (cleanup_new_pass run self) PTHREAD_DESTRUCTOR_ITERATIONS w = (ev, w1)" by fastforce
  note 1 = repeat_keeps [of "\<lambda>_. 1" "cleanup_new_pass run self", OF new_pass_keeps inv, of PTHREAD_DESTRUCTOR_ITERATIONS, unfolded e]
  then show ?thesis using False by (simp add: pthread_tsd_cleanup_def pthread_tsd_cleanup_new_def e keeps_def)
next
  case True
  obtain ev w1 where e: "repeat_pass (cleanup_dynamic run self pthread_tsd_start) PTHREAD_DESTRUCTOR_ITERATIONS w = (ev, w1)" by fastforce
  let ?w = "set_max_key self 0 w1"
  obtain ev' w2 where e': "repeat_pass (cleanup_legacy_static_pass run self) PTHREAD_DESTRUCTOR_ITERATIONS ?w = (ev', w2)" by fastforce
  note 1 = repeat_keeps [of "\<lambda>j. if pthread_tsd_start \<le> j then 1 else 0" "cleanup_dynamic run self pthread_tsd_start",
      OF cleanup_dynamic_keeps inv, of PTHREAD_DESTRUCTOR_ITERATIONS, unfolded e]
  then have inv': "tsd_inv ?w" and 1: "keeps (\<lambda>k. PTHREAD_DESTRUCTOR_ITERATIONS * (if pthread_tsd_start \<le> k then 1 else 0)) w (ev, ?w)"
    by (simp_all add: keeps_def)
  note 2 = repeat_keeps [of "\<lambda>j. if j < pthread_tsd_start then 1 else 0" "cleanup_legacy_static_pass run self",
      OF legacy_static_pass_keeps inv', of PTHREAD_DESTRUCTOR_ITERATIONS, unfolded e']
  have "keeps (\<lambda>_. PTHREAD_DESTRUCTOR_ITERATIONS) w (ev @ ev', w2)" by (rule keeps_seq [OF 1 2]) auto
  then show ?thesis using True by (simp add: pthread_tsd_cleanup_def pthread_tsd_cleanup_legacy_def e e')
qed

lemma cleanup_bounded:
  assumes "tsd_inv w"
  shows "tsd_inv (snd (pthread_tsd_cleanup run self w))" "pthread_head (snd (pthread_tsd_cleanup run self w)) = pthread_head w"
    "calls k (fst (pthread_tsd_cleanup run self w)) \<le> PTHREAD_DESTRUCTOR_ITERATIONS"
  using cleanup_keeps [OF assms, of self] by (simp_all add: keeps_def)

end

interpretation api: tsd_client "run_script script" for script
  using script_inv by unfold_locales auto


subsection \<open>Destructors that leave the slots alone\<close>

definition quiet :: destructor_code where "quiet d v w = w"

text \<open>The call a pass owes a key: its destructor and value, when both are set.\<close>

definition due :: "tsd_world \<Rightarrow> nat \<Rightarrow> nat \<Rightarrow> tsd_event list" where
  "due w self k =
     (if pthread_keys w k \<noteq> 0 \<and> tsd (pthreads w self) k \<noteq> 0 \<and> NOT (pthread_keys w k) \<noteq> 0
      then [Destroy k (NOT (pthread_keys w k)) (tsd (pthreads w self) k)] else [])"

definition cleared :: "nat \<Rightarrow> nat set \<Rightarrow> tsd_world \<Rightarrow> tsd_world" where
  "cleared self K w = w\<lparr>pthreads := (pthreads w)(self := (pthreads w self)
     \<lparr>tsd := (\<lambda>k. if k \<in> K \<and> pthread_keys w k \<noteq> 0 then 0 else tsd (pthreads w self) k)\<rparr>)\<rparr>"

lemma cleared_simps [simp]:
  "pthread_keys (cleared self K w) = pthread_keys w" "pthread_tsd_max (cleared self K w) = pthread_tsd_max w"
  "max_tsd_key (pthreads (cleared self K w) t) = max_tsd_key (pthreads w t)"
  "key_legacy_behaviour (cleared self K w) = key_legacy_behaviour w"
  "tsd (pthreads (cleared self K w) self) k = (if k \<in> K \<and> pthread_keys w k \<noteq> 0 then 0 else tsd (pthreads w self) k)"
  by (simp_all add: cleared_def)

lemma cleared_cleared: "cleared self K (cleared self L w) = cleared self (K \<union> L) w"
  unfolding cleared_def by (rule tsd_world.equality) (auto simp: fun_eq_iff)

lemma cleared_none: "cleared self {} w = w"
  by (simp add: cleared_def)

lemma due_cleared: "due (cleared self K w) self k = (if k \<in> K then [] else due w self k)"
  by (simp add: due_def)

lemma passive_key: "pthread_tsd_cleanup_key quiet self k w = (due w self k, cleared self {k} w)"
proof (cases "pthread_keys w k \<noteq> 0 \<and> tsd (pthreads w self) k \<noteq> 0")
  case True
  then have "set_slot self k 0 w = cleared self {k} w"
    unfolding set_slot_def cleared_def by (intro tsd_world.equality) (auto simp: fun_eq_iff)
  then show ?thesis using True
    by (simp add: pthread_tsd_cleanup_key_def pthread_key_get_destructor_def quiet_def due_def Let_def)
next
  case False
  then have "cleared self {k} w = w" unfolding cleared_def by (intro tsd_world.equality) (auto simp: fun_eq_iff)
  then show ?thesis using False by (auto simp: pthread_tsd_cleanup_key_def pthread_key_get_destructor_def due_def)
qed

text \<open>A loop of quiet cleanups over a range of keys.\<close>

lemma passive_range_step:
  assumes "a \<le> b"
  shows "due w self a @ concat (map (due (cleared self {a} w) self) [a + 1..<Suc b]) = concat (map (due w self) [a..<Suc b])"
    and "cleared self {a + 1..b} (cleared self {a} w) = cleared self {a..b} w"
proof -
  have m: "map (due (cleared self {a} w) self) [a + 1..<Suc b] = map (due w self) [a + 1..<Suc b]"
    by (rule map_cong) (auto simp: due_cleared)
  have u: "[a..<Suc b] = a # [a + 1..<Suc b]" using assms by (simp add: upt_conv_Cons)
  show "due w self a @ concat (map (due (cleared self {a} w) self) [a + 1..<Suc b]) = concat (map (due w self) [a..<Suc b])"
    unfolding u m by simp
  have "{a + 1..b} \<union> {a} = {a..b}" using assms by auto
  then show "cleared self {a + 1..b} (cleared self {a} w) = cleared self {a..b} w" by (simp add: cleared_cleared)
qed

lemma passive_dynamic:
  "cleanup_dynamic quiet self k w =
     (concat (map (due w self) [k..<Suc (unat (max_tsd_key (pthreads w self)))]), cleared self {k..unat (max_tsd_key (pthreads w self))} w)"
proof (induction "Suc (unat (max_tsd_key (pthreads w self))) - k" arbitrary: k w)
  case 0
  then show ?case by (subst cleanup_dynamic.simps) (simp add: cleared_none)
next
  case (Suc n)
  then have le: "k \<le> unat (max_tsd_key (pthreads w self))" by simp
  note ih = Suc.hyps(1) [of "cleared self {k} w" "k + 1"]
  show ?case using le Suc.hyps(2) ih passive_range_step [OF le]
    by (subst cleanup_dynamic.simps) (simp add: passive_key del: upt_Suc)
qed

lemma passive_static:
  "cleanup_static quiet self k w =
     (concat (map (due w self) [k..<Suc (unat (pthread_tsd_max w))]), cleared self {k..unat (pthread_tsd_max w)} w)"
proof (induction "Suc (unat (pthread_tsd_max w)) - k" arbitrary: k w)
  case 0
  then show ?case by (subst cleanup_static.simps) (simp add: cleared_none)
next
  case (Suc n)
  then have le: "k \<le> unat (pthread_tsd_max w)" by simp
  note ih = Suc.hyps(1) [of "cleared self {k} w" "k + 1"]
  show ?case using le Suc.hyps(2) ih passive_range_step [OF le]
    by (subst cleanup_static.simps) (simp add: passive_key del: upt_Suc)
qed

definition dynamic_keys :: "tsd_world \<Rightarrow> nat \<Rightarrow> nat list" where
  "dynamic_keys w self = [pthread_tsd_start..<Suc (unat (max_tsd_key (pthreads w self)))]"

definition static_keys :: "tsd_world \<Rightarrow> nat list" where
  "static_keys w = [pthread_tsd_first..<Suc (unat (pthread_tsd_max w))]"

lemma set_ranges: "set (dynamic_keys w self) = {pthread_tsd_start..unat (max_tsd_key (pthreads w self))}"
  "set (static_keys w) = {pthread_tsd_first..unat (pthread_tsd_max w)}"
  by (auto simp: dynamic_keys_def static_keys_def)

lemma passive_pass:
  assumes "unat (pthread_tsd_max w) < pthread_tsd_start"
  shows "cleanup_new_pass quiet self w =
     (concat (map (due w self) (dynamic_keys w self @ static_keys w)), cleared self (set (dynamic_keys w self @ static_keys w)) w)"
proof -
  let ?D = "set (dynamic_keys w self)" and ?w = "cleared self (set (dynamic_keys w self)) w"
  have d: "cleanup_dynamic quiet self pthread_tsd_start w = (concat (map (due w self) (dynamic_keys w self)), ?w)"
    unfolding passive_dynamic dynamic_keys_def by (simp add: atLeastLessThanSuc_atLeastAtMost del: upt_Suc)
  have s: "cleanup_static quiet self pthread_tsd_first ?w = (concat (map (due ?w self) (static_keys w)), cleared self (set (static_keys w)) ?w)"
    unfolding passive_static static_keys_def by (simp add: atLeastLessThanSuc_atLeastAtMost del: upt_Suc)
  have m: "map (due ?w self) (static_keys w) = map (due w self) (static_keys w)"
    using assms by (intro map_cong) (auto simp: due_cleared set_ranges)
  show ?thesis unfolding cleanup_new_pass_def d prod.case s m by (simp add: cleared_cleared Un_commute)
qed

lemma repeat_idle: "f w = ([], w) \<Longrightarrow> repeat_pass f n w = ([], w)"
  by (induction n) simp_all

lemma repeat_once: "f w = (ev, w1) \<Longrightarrow> f w1 = ([], w1) \<Longrightarrow> repeat_pass f (Suc n) w = (ev, w1)"
  using repeat_idle [of f w1 n] by simp

lemma due_none: "set ks \<subseteq> K \<Longrightarrow> concat (map (due (cleared self K w) self) ks) = []"
  by (auto simp: due_cleared)

lemma passive_new:
  assumes "unat (pthread_tsd_max w) < pthread_tsd_start"
  shows "repeat_pass (cleanup_new_pass quiet self) (Suc n) w =
     (concat (map (due w self) (dynamic_keys w self @ static_keys w)), cleared self (set (dynamic_keys w self @ static_keys w)) w)"
proof (rule repeat_once)
  let ?K = "dynamic_keys w self @ static_keys w" let ?w = "cleared self (set ?K) w"
  have same: "dynamic_keys ?w self @ static_keys ?w = ?K" by (simp add: dynamic_keys_def static_keys_def)
  show "cleanup_new_pass quiet self w = (concat (map (due w self) ?K), ?w)" by (rule passive_pass [OF assms])
  show "cleanup_new_pass quiet self ?w = ([], ?w)"
    using passive_pass [of ?w self] assms due_none [OF order_refl, of self ?K w] unfolding same by (simp add: cleared_cleared)
qed

text \<open>In the legacy order the static passes come last, with the thread's highest key reset, so that nothing is reported.\<close>

lemma passive_legacy:
  assumes "unat (pthread_tsd_max w) < pthread_tsd_start"
  shows "\<exists>w'. pthread_tsd_cleanup_legacy quiet self w = (concat (map (due w self) (dynamic_keys w self @ static_keys w)), w') \<and>
    (\<forall>k. tsd (pthreads w' self) k = tsd (pthreads (cleared self (set (dynamic_keys w self @ static_keys w)) w) self) k)"
proof -
  let ?D = "dynamic_keys w self" and ?S = "static_keys w"
  let ?w1 = "cleared self (set ?D) w"
  let ?w2 = "set_max_key self 0 ?w1"
  let ?w3 = "cleared self (set ?S) ?w2"
  have four: "PTHREAD_DESTRUCTOR_ITERATIONS = Suc 3" by (simp add: PTHREAD_DESTRUCTOR_ITERATIONS_def)
  have d: "cleanup_dynamic quiet self pthread_tsd_start w = (concat (map (due w self) ?D), ?w1)"
    unfolding passive_dynamic dynamic_keys_def by (simp add: atLeastLessThanSuc_atLeastAtMost del: upt_Suc)
  have d1: "cleanup_dynamic quiet self pthread_tsd_start ?w1 = ([], ?w1)"
    unfolding passive_dynamic using due_none [OF order_refl, of self ?D w]
    by (simp add: dynamic_keys_def atLeastLessThanSuc_atLeastAtMost cleared_cleared del: upt_Suc)
  have s: "cleanup_static quiet self pthread_tsd_first v = (concat (map (due v self) (static_keys v)), cleared self (set (static_keys v)) v)" for v
    unfolding passive_static static_keys_def by (simp add: atLeastLessThanSuc_atLeastAtMost del: upt_Suc)
  have k: "static_keys ?w2 = ?S" "static_keys ?w3 = ?S" by (simp_all add: static_keys_def)
  have m: "map (due ?w2 self) ?S = map (due w self) ?S"
    using assms by (intro map_cong) (auto simp: due_def set_ranges)
  have z: "max_tsd_key (pthreads ?w2 self) = 0" by (simp add: set_max_key_def)
  have l: "cleanup_legacy_static_pass quiet self ?w2 = (concat (map (due w self) ?S), ?w3)"
    unfolding cleanup_legacy_static_pass_def s k m using z by simp
  have l3: "cleanup_legacy_static_pass quiet self ?w3 = ([], ?w3)"
    unfolding cleanup_legacy_static_pass_def s k using due_none [OF order_refl, of self ?S ?w2] z by (simp add: cleared_cleared)
  have "pthread_tsd_cleanup_legacy quiet self w = (concat (map (due w self) (?D @ ?S)), ?w3)"
    unfolding pthread_tsd_cleanup_legacy_def four repeat_once [OF d d1] prod.case repeat_once [OF l l3] by simp
  then show ?thesis by auto
qed

subsection \<open>Reachable states\<close>

definition tsd_initial :: tsd_world where
  "tsd_initial = \<lparr>pthread_keys = (\<lambda>_. 0), pthread_tsd_max = of_nat pthread_tsd_first, key_legacy_behaviour = False,
     key_legacy_behaviour_log = False, pthread_head = [],
     pthreads = (\<lambda>_. \<lparr>tsd = (\<lambda>_. 0), max_tsd_key = 0, introspection = NoHook\<rparr>)\<rparr>"

text \<open>
  Any interleaving of interface calls, starts of threads with empty dynamic slots, and exits,
  whose destructors run arbitrary scripts of interface calls.
\<close>

inductive tsd_reach :: "(u64 \<Rightarrow> u64 \<Rightarrow> tsd_call list) \<Rightarrow> tsd_world \<Rightarrow> bool" for script where
  initial: "tsd_reach script (pthread_key_global_init env_order env_log tsd_initial)"
| call: "tsd_reach script w \<Longrightarrow> tsd_reach script (tsd_exec c w)"
| start: "tsd_reach script w \<Longrightarrow> \<forall>k \<ge> pthread_tsd_start. tsd p k = 0 \<Longrightarrow>
    tsd_reach script (w\<lparr>pthread_head := t # pthread_head w, pthreads := (pthreads w)(t := p)\<rparr>)"
| exit: "tsd_reach script w \<Longrightarrow> (ev, w') = pthread_tsd_cleanup (run_script script) t w \<Longrightarrow>
    tsd_reach script (w'\<lparr>pthread_head := remove1 t (pthread_head w')\<rparr>)"

lemma tsd_reach_inv: "tsd_reach script w \<Longrightarrow> tsd_inv w"
proof (induction rule: tsd_reach.induct)
  case (initial env_order env_log)
  then show ?case by (simp add: pthread_key_global_init_def tsd_initial_def tsd_inv_def pthread_tsd_first_def pthread_tsd_start_def Let_def)
next
  case (call w c)
  then show ?case by (simp add: exec_inv)
next
  case (start w p t)
  then show ?case by (auto simp: tsd_inv_def)
next
  case (exit w ev w' t)
  then have "tsd_inv w'" using api.cleanup_bounded(1) [of w script t] by (metis snd_conv)
  then show ?case by (auto simp: tsd_inv_def dest: set_remove1_subset [THEN subsetD])
qed

subsection \<open>Properties\<close>

text \<open>
  C27. A key handed out by \<open>pthread_key_create\<close> reads as null in every existing thread, whatever was
  stored under it before it was deleted, in every state that interface calls, thread starts and
  thread exits with arbitrary interface-calling destructors can reach.
\<close>

theorem new_key_is_null:
  assumes "tsd_reach script w" "pthread_key_create d w = (EOK, Some k, w')" "t \<in> set (pthread_head w')"
  shows "pthread_getspecific t k w' = 0"
proof (rule key_create_cases [of w d])
  fix j
  assume "free_key w j" "pthread_key_create d w = (EOK, Some j, w\<lparr>pthread_keys := (pthread_keys w)(j := NOT d)\<rparr>)"
  then show ?thesis using assms tsd_reach_inv [OF assms(1)] by (auto simp: tsd_inv_def free_key_def pthread_getspecific_def)
qed (use assms(2) in simp)

theorem new_key_is_null_witness:
  "\<exists>w w'. tsd_reach (\<lambda>d v. [SetSpecific 1 256 v]) w \<and> pthread_key_create 0x1000 w = (EOK, Some 256, w') \<and> 1 \<in> set (pthread_head w') \<and>
     pthread_getspecific 1 256 w' = 0"
proof -
  let ?script = "\<lambda>d v. [SetSpecific 1 256 v]" and ?p = "\<lparr>tsd = (\<lambda>_. 0), max_tsd_key = 0, introspection = NoHook\<rparr>"
  let ?i = "pthread_key_global_init False False tsd_initial"
  let ?w = "?i\<lparr>pthread_head := 1 # pthread_head ?i, pthreads := (pthreads ?i)(1 := ?p)\<rparr>"
  have r: "tsd_reach ?script ?w" by (intro tsd_reach.start tsd_reach.initial) simp
  have c: "pthread_key_create 0x1000 ?w = (EOK, Some 256, ?w\<lparr>pthread_keys := (pthread_keys ?w)(256 := NOT 0x1000)\<rparr>)"
    unfolding pthread_key_create_def
    by (intro key_create_loop_free) (simp_all add: pthread_tsd_start_def pthread_tsd_end_def pthread_key_global_init_def tsd_initial_def)
  show ?thesis using new_key_is_null [OF r c, of 1] r c by (intro exI conjI) simp_all
qed

text \<open>
  \<open>pthread_key_create\<close> returns the lowest free dynamic key and records its destructor, which is
  then read back unchanged, null included; deleting the key frees it again and clears it in every
  thread. It fails with \<open>EAGAIN\<close>, changing nothing, exactly when no dynamic key is free. The one
  excluded destructor is the all-ones address, whose complement would mark the key free.
\<close>

lemma key_allocation:
  assumes "d \<noteq> - 1"
  shows "(\<exists>k w'. pthread_key_create d w = (EOK, Some k, w') \<and> free_key w k \<and> (\<forall>j < k. \<not> free_key w j) \<and>
       pthread_key_get_destructor k w' = (True, d) \<and> (\<forall>j. j \<noteq> k \<longrightarrow> pthread_keys w' j = pthread_keys w j) \<and>
       (\<exists>w''. pthread_key_delete k w' = (EOK, w'') \<and> pthread_keys w'' = pthread_keys w \<and>
          (\<forall>t \<in> set (pthread_head w). pthread_getspecific t k w'' = 0))) \<or>
     pthread_key_create d w = (EAGAIN, None, w) \<and> (\<forall>k. \<not> free_key w k)"
proof (rule key_create_cases [of w d])
  fix k
  let ?w = "w\<lparr>pthread_keys := (pthread_keys w)(k := NOT d)\<rparr>"
  have nz: "NOT d \<noteq> 0" using assms by (metis bit.compl_zero bit.double_compl)
  assume k: "free_key w k" "\<forall>j < k. \<not> free_key w j" "pthread_key_create d w = (EOK, Some k, ?w)"
  have "(pthread_keys w)(k := 0) = pthread_keys w" using k(1) by (auto simp: free_key_def)
  then have "\<exists>w''. pthread_key_delete k ?w = (EOK, w'') \<and> pthread_keys w'' = pthread_keys w \<and>
      (\<forall>t \<in> set (pthread_head w). pthread_getspecific t k w'' = 0)"
    using k(1) nz by (simp add: pthread_key_delete_def pthread_key_unset_destructor_def free_key_def pthread_getspecific_def)
  then show ?thesis using k nz by (simp add: pthread_key_get_destructor_def)
qed simp

lemma key_allocation_witness:
  "pthread_key_create 0 tsd_initial = (EAGAIN, None, tsd_initial) \<or>
   (\<exists>k w'. pthread_key_create 0 tsd_initial = (EOK, Some k, w') \<and> pthread_key_get_destructor k w' = (True, 0))"
  using key_allocation [of 0 tsd_initial] by auto

text \<open>
  C28. The destructor passes of an exiting thread always end, in both orders: whatever interface
  calls the destructors make, setting values again and creating keys included, the destructor of a key is
  called at most four times, and the invariant and the list of threads are kept.
\<close>

theorem cleanup_terminates_bounded:
  assumes "tsd_inv w"
  shows "\<exists>ev w'. pthread_tsd_cleanup (run_script script) self w = (ev, w') \<and> tsd_inv w' \<and> pthread_head w' = pthread_head w \<and>
    (\<forall>k. calls k ev \<le> PTHREAD_DESTRUCTOR_ITERATIONS)"
  using api.cleanup_bounded [OF assms, where script = script and self = self]
  by (cases "pthread_tsd_cleanup (run_script script) self w") simp

theorem cleanup_terminates_bounded_witness:
  "tsd_inv tsd_initial \<and> (\<exists>ev w'. pthread_tsd_cleanup (run_script (\<lambda>d v. [SetSpecific 0 20 v])) 0 tsd_initial = (ev, w') \<and> calls 20 ev \<le> 4)"
proof -
  have "tsd_inv tsd_initial" by (simp add: tsd_initial_def tsd_inv_def pthread_tsd_first_def pthread_tsd_start_def)
  then show ?thesis using cleanup_terminates_bounded [of tsd_initial "\<lambda>d v. [SetSpecific 0 20 v]" 0]
    by (auto simp: PTHREAD_DESTRUCTOR_ITERATIONS_def)
qed

text \<open>
  C34. When no destructor makes a call on thread-specific data, an exiting thread calls each due destructor exactly
  once, with the value the slot held, in the current order and in the legacy one alike: first the dynamic keys in
  increasing order up to the highest the thread used, then the static keys, and nothing is reported; afterwards every slot of
  a key with a recorded destructor in those ranges is null.
\<close>

theorem cleanup_exact:
  assumes "unat (pthread_tsd_max w) < pthread_tsd_start"
  shows "\<exists>w'. pthread_tsd_cleanup quiet self w = (concat (map (due w self) (dynamic_keys w self @ static_keys w)), w') \<and>
    (\<forall>k \<in> set (dynamic_keys w self @ static_keys w). pthread_keys w k \<noteq> 0 \<longrightarrow> pthread_getspecific self k w' = 0)"
proof (cases "key_legacy_behaviour w")
  case True
  obtain w' where "pthread_tsd_cleanup_legacy quiet self w = (concat (map (due w self) (dynamic_keys w self @ static_keys w)), w')"
    "\<forall>k. tsd (pthreads w' self) k = tsd (pthreads (cleared self (set (dynamic_keys w self @ static_keys w)) w) self) k"
    using passive_legacy [OF assms] by blast
  then show ?thesis using True by (intro exI [of _ w']) (simp add: pthread_tsd_cleanup_def pthread_getspecific_def)
next
  case False
  have "PTHREAD_DESTRUCTOR_ITERATIONS = Suc 3" by (simp add: PTHREAD_DESTRUCTOR_ITERATIONS_def)
  then show ?thesis using passive_new [OF assms, of self 3] False
    by (simp add: pthread_tsd_cleanup_def pthread_tsd_cleanup_new_def pthread_getspecific_def del: repeat_pass.simps)
qed

theorem cleanup_exact_witness:
  "\<exists>w'. pthread_tsd_cleanup quiet 0 (set_slot 0 10 7 (tsd_initial\<lparr>pthread_keys := (\<lambda>_. 0)(10 := NOT 0x1000)\<rparr>)) = ([Destroy 10 0x1000 7], w')"
proof -
  let ?w = "set_slot 0 10 7 (tsd_initial\<lparr>pthread_keys := (\<lambda>_. 0)(10 := NOT 0x1000)\<rparr>)"
  have m: "unat (pthread_tsd_max ?w) < pthread_tsd_start"
    by (simp add: tsd_initial_def pthread_tsd_first_def pthread_tsd_start_def)
  have "dynamic_keys ?w 0 @ static_keys ?w = [10]"
    by (simp add: dynamic_keys_def static_keys_def tsd_initial_def pthread_tsd_first_def pthread_tsd_start_def)
  moreover have "due ?w 0 10 = [Destroy 10 0x1000 7]" by (simp add: due_def)
  ultimately show ?thesis using cleanup_exact [OF m, of 0] by auto
qed

text \<open>
  A static key whose value is set before its destructor is registered never gets that
  destructor: \<open>pthread_setspecific\<close> records a null destructor for the key, the later
  \<open>pthread_key_init_np\<close> reports success, and the recorded destructor stays null.
\<close>

lemma static_destructor_lost:
  assumes "pthread_tsd_first \<le> k" "k < pthread_tsd_start" "pthread_keys w k = 0"
  shows "let w1 = snd (pthread_setspecific t k v w); r = pthread_key_init_np (int k) d w1
     in fst r = EOK \<and> pthread_key_get_destructor k (snd r) = (True, 0)"
  using assms
  by (simp add: pthread_setspecific_def pthread_key_init_np_def pthread_key_get_destructor_def pthread_key_set_destructor_def
      pthread_tsd_start_def pthread_tsd_end_def Let_def)

lemma static_destructor_lost_witness:
  "let w1 = snd (pthread_setspecific 0 20 7 tsd_initial); r = pthread_key_init_np 20 0x1000 w1
   in fst r = EOK \<and> pthread_key_get_destructor 20 (snd r) = (True, 0)"
  using static_destructor_lost [of 20 tsd_initial 0 7 "0x1000"]
  by (simp add: pthread_tsd_first_def pthread_tsd_start_def tsd_initial_def)

end
