(* ===== verification/SimpleFormat.thy ===== *)
theory SimpleFormat
  imports PlatformStr
begin

text \<open>
  The formatted output of \<open>libplatform/src/simple/string_io.c\<close>: which characters the conversions and the
  format interpreter hand to \<open>put_c\<close>, in order. Characters are bytes, a format is the list of its bytes
  before the terminator, and the arguments are the values \<open>va_arg\<close> reads, 64 bits wide, or strings.
\<close>

subsection \<open>Digits\<close>

text \<open>
  The three digit loops differ in the base: the digits of \<open>n\<close> are prepended to what the buffer
  holds, most significant first; zero has one digit.
\<close>

function digits_loop :: "nat \<Rightarrow> (nat \<Rightarrow> u8) \<Rightarrow> nat \<Rightarrow> u8 list \<Rightarrow> u8 list" where
  "digits_loop base digit n cp =
     (if n \<noteq> 0 \<and> 1 < base then digits_loop base digit (n div base) (digit (n mod base) # cp) else cp)"
  by pat_completeness auto
termination
  by (relation "measure (\<lambda>(base, digit, n, cp). n)") auto

declare digits_loop.simps [simp del]

definition digits :: "nat \<Rightarrow> (nat \<Rightarrow> u8) \<Rightarrow> nat \<Rightarrow> u8 list" where
  "digits base digit n = (if n \<noteq> 0 then digits_loop base digit n [] else [digit 0])"

definition digit10 :: "nat \<Rightarrow> u8" where "digit10 d = of_nat d + 0x30"

text \<open>\<open>_h\<close> and \<open>_H\<close>: letters from 97 or from 65.\<close>

definition digit16 :: "bool \<Rightarrow> nat \<Rightarrow> u8" where
  "digit16 upper d = (if d < 10 then of_nat d + 0x30 else of_nat (d - 10) + (if upper then 0x41 else 0x61))"

definition padding :: "bool \<Rightarrow> int \<Rightarrow> u8 list" where
  "padding zero pad = replicate (nat pad) (if zero then 0x30 else 0x20)"

definition dec :: "u64 \<Rightarrow> int \<Rightarrow> bool \<Rightarrow> u8 list" where
  "dec num width zero =
     (let neg = sint num < 0;
          width1 = (if neg then width - 1 else width);
          n = (if neg then NOT num + 1 else num);
          cp = digits 10 digit10 (unat n);
          sign = (if neg then [0x2d] else [])
      in if zero then sign @ padding zero (width1 - int (length cp)) @ cp
         else padding zero (width1 - int (length cp)) @ sign @ cp)"

definition udec :: "u64 \<Rightarrow> int \<Rightarrow> bool \<Rightarrow> u8 list" where
  "udec n width zero = (let cp = digits 10 digit10 (unat n) in padding zero (width - int (length cp)) @ cp)"

definition oct :: "u64 \<Rightarrow> int \<Rightarrow> bool \<Rightarrow> u8 list" where
  "oct n width zero = (let cp = digits 8 digit10 (unat n) in padding zero (width - int (length cp)) @ cp)"

definition prefix_0x :: "u8 list" where "prefix_0x = [0x30, 0x78]"

definition hex :: "u64 \<Rightarrow> int \<Rightarrow> bool \<Rightarrow> bool \<Rightarrow> bool \<Rightarrow> u8 list" where
  "hex n width zero upper p =
     (let cp = digits 16 (digit16 upper) (unat n);
          width1 = (if p then width - 2 else width);
          pad = padding zero (width1 - int (length cp))
      in if p then (if zero then prefix_0x @ pad @ cp else pad @ prefix_0x @ cp) else pad @ cp)"

text \<open>Megabytes and kilobytes rounded to nearest in 64 bits, bytes below ten kilobytes.\<close>

definition ydec :: "u64 \<Rightarrow> int \<Rightarrow> bool \<Rightarrow> u8 list" where
  "ydec n width zero =
     (if n \<ge> 10 * 2 ^ 20 then udec (drop_bit 20 (n + 2 ^ 19)) width zero @ [0x4d, 0x42]
      else if n \<ge> 10 * 2 ^ 10 then udec (drop_bit 10 (n + 2 ^ 9)) width zero @ [0x4b, 0x42]
      else udec n width zero @ [0x62])"

subsection \<open>The format interpreter\<close>

datatype va_arg = AWord u64 | AString "u8 list option"

text \<open>\<open>va_arg\<close> at the types used: an \<open>int\<close> is sign-extended, an \<open>unsigned int\<close> zero-extended.\<close>

definition as_int :: "u64 \<Rightarrow> u64" where "as_int v = signed_take_bit 31 v"
definition as_uint :: "u64 \<Rightarrow> u64" where "as_uint v = take_bit 32 v"

definition null_string :: "u8 list" where "null_string = [0x28, 0x6e, 0x75, 0x6c, 0x6c, 0x29]"

definition is_digit :: "u8 \<Rightarrow> bool" where "is_digit c \<longleftrightarrow> 0x30 \<le> c \<and> c \<le> 0x39"

text \<open>The width is an \<open>int\<close>: digits that take it past 2^31 - 1 overflow, which is \<open>None\<close>.\<close>

primrec read_width :: "int \<Rightarrow> u8 list \<Rightarrow> int option" where
  "read_width width [] = Some width"
| "read_width width (c # cs) =
     (if \<not> is_digit c then Some width
      else let width' = 10 * width + (uint c - 0x30) in if width' < 2 ^ 31 then read_width width' cs else None)"

text \<open>
  The characters a conversion letter emits and the arguments left; \<open>None\<close> when it reads an argument that is
  not there or of another type.
\<close>

definition convert :: "u8 \<Rightarrow> nat \<Rightarrow> bool \<Rightarrow> int \<Rightarrow> va_arg list \<Rightarrow> (u8 list \<times> va_arg list) option" where
  "convert c lflag zero width ap =
     (if c = 0x63 then (case ap of AWord v # ap' \<Rightarrow> Some (padding zero (width - 1) @ [ucast v], ap') | _ \<Rightarrow> None)
      else if c = 0x64 \<or> c = 0x69 then
        (case ap of AWord v # ap' \<Rightarrow> Some (dec (if lflag = 0 then as_int v else v) width zero, ap') | _ \<Rightarrow> None)
      else if c = 0x6f then
        (case ap of AWord v # ap' \<Rightarrow> Some (oct (if lflag = 0 then as_int v else v) width zero, ap') | _ \<Rightarrow> None)
      else if c = 0x70 then (case ap of AWord v # ap' \<Rightarrow> Some (hex v width zero False True, ap') | _ \<Rightarrow> None)
      else if c = 0x73 then
        (case ap of AString s # ap' \<Rightarrow>
           (let cp = (case s of Some t \<Rightarrow> t | None \<Rightarrow> null_string) in Some (padding zero (sint (word_of_int (width - int (length cp)) :: u32)) @ cp, ap'))
         | _ \<Rightarrow> None)
      else if c = 0x75 then
        (case ap of AWord v # ap' \<Rightarrow> Some (udec (if lflag = 0 then as_uint v else v) width zero, ap') | _ \<Rightarrow> None)
      else if c = 0x58 \<or> c = 0x78 then
        (case ap of AWord v # ap' \<Rightarrow> Some (hex (if lflag = 0 then as_uint v else v) width zero (c = 0x58) False, ap') | _ \<Rightarrow> None)
      else if c = 0x79 then
        (case ap of AWord v # ap' \<Rightarrow> Some (ydec (if lflag = 0 then as_uint v else v) width zero, ap') | _ \<Rightarrow> None)
      else Some ([c], ap))"

text \<open>
  The inner loop after a percent sign: flags and width, then a conversion. At the terminator the code
  emits it and steps past the end of the format, which is \<open>None\<close> here, as is a width that overflows.
\<close>

function conversion :: "u8 list \<Rightarrow> nat \<Rightarrow> bool \<Rightarrow> int \<Rightarrow> va_arg list \<Rightarrow> (u8 list \<times> u8 list \<times> va_arg list) option" where
  "conversion [] lflag zero width ap = None"
| "conversion (c # fmt) lflag zero width ap =
     (if c = 0x30 then (case read_width width fmt of None \<Rightarrow> None | Some w \<Rightarrow> conversion (dropWhile is_digit fmt) lflag True w ap)
      else if is_digit c then (case read_width width (c # fmt) of None \<Rightarrow> None | Some w \<Rightarrow> conversion (dropWhile is_digit fmt) lflag zero w ap)
      else if c = 0x6c then conversion fmt (lflag + 1) zero width ap
      else (case convert c lflag zero width ap of None \<Rightarrow> None | Some (cs, ap') \<Rightarrow> Some (cs, fmt, ap')))"
  by pat_completeness auto
termination
  by (relation "measure (\<lambda>(fmt, lflag, zero, width, ap). length fmt)") (auto simp: le_imp_less_Suc length_dropWhile_le)

lemma conversion_shorter: "conversion fmt l z w ap = Some (cs, rest, ap') \<Longrightarrow> length rest < length fmt"
proof (induction fmt l z w ap rule: conversion.induct)
  case (2 c fmt lflag zero width ap)
  then show ?case using length_dropWhile_le [of is_digit fmt]
    by (auto split: if_splits option.splits prod.splits intro: less_le_trans)
qed simp

lemma after_percent_le: "length (tl (dropWhile (\<lambda>c. c \<noteq> (0x25 :: u8)) fmt)) \<le> length fmt"
  using length_dropWhile_le [of "\<lambda>c. c \<noteq> 0x25" fmt] by simp

function simple_bprintf :: "u8 list \<Rightarrow> va_arg list \<Rightarrow> u8 list option" where
  "simple_bprintf fmt ap =
     (if fmt = [] then Some []
      else if 0x25 \<notin> set fmt then Some fmt
      else (let lit = takeWhile (\<lambda>c. c \<noteq> 0x25) fmt; rest = tl (dropWhile (\<lambda>c. c \<noteq> 0x25) fmt)
            in case rest of
                 c # rest' \<Rightarrow>
                   if c = 0x25 then map_option (\<lambda>out. lit @ [0x25] @ out) (simple_bprintf rest' ap)
                   else (case conversion rest 0 False 0 ap of None \<Rightarrow> None
                         | Some (cs, fmt', ap') \<Rightarrow> map_option (\<lambda>out. lit @ cs @ out) (simple_bprintf fmt' ap'))
               | [] \<Rightarrow> None))"
  by pat_completeness auto
termination
proof (relation "measure (\<lambda>(fmt, ap). length fmt)")
  fix fmt :: "u8 list" and ap x rest c rest'
  assume "rest = tl (dropWhile (\<lambda>c. c \<noteq> 0x25) fmt)" and e: "rest = c # rest'"
  then have "length rest \<le> length fmt" by (simp only: after_percent_le)
  with e show "((rest', ap), fmt, ap) \<in> measure (\<lambda>(fmt, ap :: va_arg list). length fmt)" by simp
next
  fix fmt :: "u8 list" and ap x rest c rest' r cs y fmt' ap'
  assume "rest = tl (dropWhile (\<lambda>c. c \<noteq> 0x25) fmt)" "conversion rest 0 False 0 ap = Some r" "(cs, y) = r" "(fmt', ap') = y"
  then show "((fmt', ap'), fmt, ap) \<in> measure (\<lambda>(fmt, ap :: va_arg list). length fmt)"
    using after_percent_le [of fmt] conversion_shorter [of rest 0 False 0 ap cs fmt' ap'] by auto
qed simp

declare simple_bprintf.simps [simp del] conversion.simps(2) [simp del]

end
