(* ===== verification/SimpleNumbers.thy ===== *)
theory SimpleNumbers
  imports SimpleFormat
begin

text \<open>
  What the digit loops of the formatter print: reading the characters back, past the blanks and the zeros of the
  padding, gives the number, and the digits fit the local buffer.
\<close>

subsection \<open>Numbers\<close>

definition value_of :: "nat \<Rightarrow> (u8 \<Rightarrow> nat) \<Rightarrow> u8 list \<Rightarrow> nat" where
  "value_of base undigit ds = foldl (\<lambda>acc d. acc * base + undigit d) 0 ds"

lemma digits_loop_append: "digits_loop base dg n cp = digits_loop base dg n [] @ cp"
proof (induction n arbitrary: cp rule: less_induct)
  case (less n)
  show ?case
  proof (cases "n \<noteq> 0 \<and> 1 < base")
    case True
    then have "n div base < n" by simp
    from less.IH [OF this, of "dg (n mod base) # cp"] less.IH [OF this, of "[dg (n mod base)]"] True
    show ?thesis by (subst (1 2) digits_loop.simps) simp
  next
    case False
    then have "digits_loop base dg n c = c" for c by (subst digits_loop.simps) auto
    then show ?thesis by simp
  qed
qed

lemma digits_loop_Suc: "n \<noteq> 0 \<Longrightarrow> 1 < base \<Longrightarrow> digits_loop base dg n [] = digits_loop base dg (n div base) [] @ [dg (n mod base)]"
  by (subst digits_loop.simps) (simp add: digits_loop_append [of _ _ _ "[dg (n mod base)]"])

lemma digits_loop_0: "digits_loop base dg 0 [] = []"
  by (subst digits_loop.simps) simp

lemma value_of_digits_loop:
  assumes "1 < base" "\<And>d. d < base \<Longrightarrow> ud (dg d) = d"
  shows "value_of base ud (digits_loop base dg n []) = n"
proof (induction n rule: less_induct)
  case (less n)
  show ?case
  proof (cases "n = 0")
    case False
    then have "value_of base ud (digits_loop base dg (n div base) []) = n div base" using assms(1) by (intro less.IH) simp
    then show ?thesis using False assms by (simp add: digits_loop_Suc value_of_def)
  qed (simp add: digits_loop_0 value_of_def)
qed

lemma value_of_digits:
  assumes "1 < base" "\<And>d. d < base \<Longrightarrow> ud (dg d) = d"
  shows "value_of base ud (digits base dg n) = n"
  using value_of_digits_loop [OF assms] assms by (simp add: digits_def) (simp add: value_of_def)

lemma length_digits_loop:
  assumes "1 < base" "n < base ^ k"
  shows "length (digits_loop base dg n []) \<le> k"
  using assms(2)
proof (induction k arbitrary: n)
  case (Suc k)
  show ?case
  proof (cases "n = 0")
    case False
    have "n div base < base ^ k" using Suc.prems assms(1) by (intro less_mult_imp_div_less) (simp add: mult.commute)
    then show ?thesis using Suc.IH False assms(1) by (simp add: digits_loop_Suc)
  qed (simp add: digits_loop_0)
qed (simp add: digits_loop_0)

text \<open>At most 22 digits in any base from eight: they fit the formatter's 32-byte local buffer with its terminator.\<close>

lemma length_digits:
  assumes "8 \<le> base"
  shows "length (digits base dg (unat (n :: u64))) \<le> 22"
proof -
  have "unat n < 2 ^ LENGTH(64)" by (rule unsigned_less)
  also have "\<dots> \<le> (8 :: nat) ^ 22" by simp
  also have "\<dots> \<le> base ^ 22" using assms by (rule power_mono) simp
  finally show ?thesis using assms length_digits_loop [of base "unat n" 22 dg] by (simp add: digits_def)
qed

lemma digits_member:
  assumes "1 < base" "c \<in> set (digits base dg n)"
  shows "\<exists>d < base. c = dg d"
proof -
  have "c \<in> set (digits_loop base dg n []) \<Longrightarrow> \<exists>d < base. c = dg d"
  proof (induction n rule: less_induct)
    case (less n)
    show ?case
    proof (cases "n = 0")
      case False
      have "n mod base < base" using assms(1) by simp
      moreover have "c \<in> set (digits_loop base dg (n div base) []) \<or> c = dg (n mod base)"
        using less.prems False assms(1) by (auto simp: digits_loop_Suc)
      moreover have "n div base < n" using False assms(1) by simp
      ultimately show ?thesis using less.IH by blast
    qed (use less in \<open>simp add: digits_loop_0\<close>)
  qed
  then show ?thesis using assms by (auto simp: digits_def split: if_splits intro: exI [of _ 0])
qed

lemma digits_nonempty: "1 < base \<Longrightarrow> digits base dg n \<noteq> []"
  by (auto simp: digits_def digits_loop_Suc)

definition undigit10 :: "u8 \<Rightarrow> nat" where "undigit10 c = unat (c - 0x30)"

definition undigit16 :: "u8 \<Rightarrow> nat" where
  "undigit16 c = (if c \<le> 0x39 then unat (c - 0x30) else if c \<le> 0x46 then unat (c - 0x41) + 10 else unat (c - 0x61) + 10)"

lemma undigit10: "d < 10 \<Longrightarrow> undigit10 (digit10 d) = d"
  by (simp add: undigit10_def digit10_def unat_of_nat)

lemma less_16_cases: "d < 16 \<Longrightarrow> d \<in> {0, 1, 2, 3, 4, 5, 6, 7, 8, 9, 10, 11, 12, 13, 14, 15 :: nat}"
  by (simp only: insert_iff empty_iff) arith

lemma undigit16: "d < 16 \<Longrightarrow> undigit16 (digit16 upper d) = d"
  using less_16_cases [of d] by (auto simp: undigit16_def digit16_def)

lemma digit10_not_space: "d < 10 \<Longrightarrow> digit10 d \<noteq> 0x20 \<and> digit10 d \<noteq> 0x2d"
proof -
  assume "d < 10"
  then have "d \<in> {0, 1, 2, 3, 4, 5, 6, 7, 8, 9}" by auto
  then show ?thesis by (auto simp: digit10_def)
qed

lemma digit16_not_space: "d < 16 \<Longrightarrow> digit16 upper d \<noteq> 0x20"
  using less_16_cases [of d] by (auto simp: digit16_def)

text \<open>Reading back: leading blanks are skipped, leading zeros do not count.\<close>

definition read_number :: "nat \<Rightarrow> (u8 \<Rightarrow> nat) \<Rightarrow> u8 list \<Rightarrow> nat" where
  "read_number base ud cs = value_of base ud (dropWhile (\<lambda>c. c = 0x20) cs)"

definition read_signed :: "u8 list \<Rightarrow> int" where
  "read_signed cs =
     (case dropWhile (\<lambda>c. c = 0x20) cs of
        c # ds \<Rightarrow> if c = 0x2d then - int (value_of 10 undigit10 ds) else int (value_of 10 undigit10 (c # ds))
      | [] \<Rightarrow> 0)"

lemma value_of_leading_zeros: "ud 0x30 = 0 \<Longrightarrow> value_of base ud (replicate k 0x30 @ ds) = value_of base ud ds"
proof -
  assume z: "ud 0x30 = 0"
  have "foldl (\<lambda>acc d. acc * base + ud d) 0 (replicate k 0x30) = 0" by (induction k) (simp_all add: z)
  then show ?thesis by (simp add: value_of_def)
qed

lemma drop_padding:
  assumes "cs \<noteq> []" "hd cs \<noteq> 0x20"
  shows "dropWhile (\<lambda>c. c = 0x20) (padding zero k @ cs) = (if zero then replicate (nat k) 0x30 @ cs else cs)"
proof (cases zero)
  case True
  then show ?thesis using assms by (cases "nat k"; cases cs) (auto simp: padding_def)
next
  case False
  have "dropWhile (\<lambda>c. c = 0x20) (replicate j (0x20 :: u8) @ cs) = cs" for j using assms by (induction j) (cases cs; auto)+
  then show ?thesis using False by (simp add: padding_def)
qed

lemma read_padded:
  assumes b: "1 < base" and ud: "\<And>d. d < base \<Longrightarrow> ud (dg d) = d" "ud 0x30 = 0" and nsp: "\<And>d. d < base \<Longrightarrow> dg d \<noteq> 0x20"
  shows "read_number base ud (padding zero k @ digits base dg n) = n"
proof -
  have ne: "digits base dg n \<noteq> []" by (rule digits_nonempty [OF b])
  then have hd: "hd (digits base dg n) \<noteq> 0x20" using digits_member [OF b, of _ dg n] nsp by (metis hd_in_set)
  show ?thesis unfolding read_number_def drop_padding [OF ne hd]
    by (simp add: value_of_leading_zeros ud value_of_digits [OF b ud(1)])
qed

lemma sint_64_cases: "sint x = (if bit (uint x) 63 then uint x - 2 ^ 64 else uint x)" for x :: u64
proof -
  have t: "take_bit 64 (uint x) = uint x" by (rule take_bit_int_eq_self) (use unsigned_less [of x] in simp_all)
  show ?thesis unfolding sint_uint by (simp add: signed_take_bit_eq_take_bit_minus t)
qed

lemma sint_negative: "sint x < 0 \<Longrightarrow> sint x = uint x - 2 ^ 64" for x :: u64
  using sint_64_cases [of x] by (auto split: if_splits)

lemma sint_nonneg: "\<not> sint x < 0 \<Longrightarrow> sint x = int (unat x)" for x :: u64
  using sint_64_cases [of x] unsigned_less [of x] by (auto split: if_splits)

lemma unat_negated: "sint x < 0 \<Longrightarrow> int (unat (NOT x + 1)) = - sint x" for x :: u64
proof -
  assume neg: "sint x < 0"
  have e: "NOT x + 1 = - x" by (simp add: minus_eq_not_plus_1)
  have u: "0 < uint x" "uint x < 2 ^ 64"
    using neg sint_negative [OF neg] unsigned_less [of x] by (auto simp: sint_uint intro: le_neq_trans)
  show ?thesis unfolding e using u sint_negative [OF neg] by (simp add: uint_word_ariths(4) zmod_zminus1_eq_if)
qed


lemma digits_head: "digits 10 digit10 n = d # ds \<Longrightarrow> d \<noteq> 0x20 \<and> d \<noteq> 0x2d"
  using digits_member [of 10 d digit10 n] digit10_not_space by auto

lemma read_padded_dec: "value_of 10 undigit10 (padding True k @ digits 10 digit10 n) = n"
proof -
  have "undigit10 0x30 = 0" by (simp add: undigit10_def)
  then show ?thesis by (simp add: padding_def value_of_leading_zeros value_of_digits undigit10)
qed

lemma read_signed_dec: "read_signed (dec num width zero) = sint num"
proof -
  define n where "n = (if sint num < 0 then NOT num + 1 else num)"
  obtain d ds where cp: "digits 10 digit10 (unat n) = d # ds" by (cases "digits 10 digit10 (unat n)") (auto simp: digits_nonempty)
  have d: "d \<noteq> 0x20" "d \<noteq> 0x2d" using digits_head [OF cp] by auto
  have v: "value_of 10 undigit10 (d # ds) = unat n" using cp value_of_digits [of 10 undigit10 digit10 "unat n"] undigit10 by simp
  have n: "sint num = (if sint num < 0 then - int (unat n) else int (unat n))"
    using unat_negated [of num] by (auto simp: n_def sint_nonneg)
  show ?thesis
  proof (cases zero)
    case True
    show ?thesis
    proof (cases "sint num < 0")
      case True
      have "dec num width zero = 0x2d # (padding zero (width - 1 - int (length (d # ds))) @ (d # ds))"
        using True \<open>zero\<close> cp by (simp add: dec_def Let_def n_def)
      then show ?thesis using \<open>zero\<close> True n read_padded_dec [of _ "unat n", unfolded cp] by (simp add: read_signed_def)
    next
      case False
      have e: "dec num width zero = padding True (width - int (length (d # ds))) @ (d # ds)"
        using False \<open>zero\<close> cp by (simp add: dec_def Let_def n_def)
      have "read_signed (padding True k @ (d # ds)) = int (value_of 10 undigit10 (padding True k @ (d # ds)))" for k
        using d drop_padding [of "d # ds" True k] by (cases "nat k") (auto simp: read_signed_def padding_def)
      then show ?thesis using e False n read_padded_dec [of _ "unat n", unfolded cp] by simp
    qed
  next
    case False
    have "dec num width zero = padding False (width - (if sint num < 0 then 1 else 0) - int (length (d # ds))) @
        ((if sint num < 0 then [0x2d] else []) @ d # ds)"
      using False cp by (simp add: dec_def Let_def n_def)
    then show ?thesis
      using n v d drop_padding [of "(if sint num < 0 then [0x2d] else []) @ d # ds" False] by (auto simp: read_signed_def)
  qed
qed

end
