(* ===== verification/SimpleString.thy ===== *)
theory SimpleString
  imports SimpleFormat
begin

text \<open>
  The buffers under the formatter (\<open>string_io.c\<close>): a fixed stack buffer flushed to a file descriptor, and a
  growing string of pages. The results of \<open>write\<close> and \<open>vm_allocate\<close> are read from a schedule; an operation
  that would wait for a result the schedule does not have, or that crashes for lack of memory, is \<open>None\<close>.
  Memory given back is not tracked.
\<close>

definition VM_PAGE_SIZE :: nat where "VM_PAGE_SIZE = 4096"
definition MYBUFSIZE :: nat where "MYBUFSIZE = 32"
definition sizeof_BUF :: nat where "sizeof_BUF = 40"

datatype write_result = WroteAll | WroteShort nat | Interrupted | WriteFailed

text \<open>\<open>vm_allocate\<close> right behind the buffer, then anywhere; \<open>None\<close> when there is no memory.\<close>

datatype alloc_result = Adjacent | Elsewhere "nat option"

datatype sink = FlushReset | Enlarge

record BUF =
  buf :: nat
  ptr :: nat
  endp :: nat
  full :: sink

record sio =
  smem :: memory
  swrites :: "write_result list"
  sout :: "u8 list"
  sallocs :: "alloc_result list"

definition bytes :: "memory \<Rightarrow> nat \<Rightarrow> nat \<Rightarrow> u8 list" where
  "bytes m a n = map (\<lambda>i. m (a + i)) [0..<n]"

text \<open>After a write of \<open>w\<close> bytes the code advances by the number of bytes still to be written.\<close>

fun flush_loop :: "write_result list \<Rightarrow> memory \<Rightarrow> nat \<Rightarrow> nat \<Rightarrow> u8 list \<Rightarrow> (write_result list \<times> u8 list) option" where
  "flush_loop [] m p n out = (if n = 0 then Some ([], out) else None)"
| "flush_loop (r # ws) m p n out =
     (if n = 0 then Some (r # ws, out)
      else case r of
        WroteAll \<Rightarrow> flush_loop ws m p 0 (out @ bytes m p n)
      | WroteShort k \<Rightarrow> (let w = min k n; n1 = n - w in flush_loop ws m (p + n1) n1 (out @ bytes m p w))
      | Interrupted \<Rightarrow> flush_loop ws m p n out
      | WriteFailed \<Rightarrow> Some (ws, out))"

definition flush :: "BUF \<Rightarrow> sio \<Rightarrow> sio option" where
  "flush b io =
     (case flush_loop (swrites io) (smem io) (buf b) (ptr b - buf b) (sout io) of None \<Rightarrow> None
      | Some (ws, out) \<Rightarrow> Some (io\<lparr>swrites := ws, sout := out\<rparr>))"

definition flush_reset :: "BUF \<Rightarrow> sio \<Rightarrow> (BUF \<times> sio) option" where
  "flush_reset b io = (case flush b io of None \<Rightarrow> None | Some io' \<Rightarrow> Some (b\<lparr>ptr := buf b\<rparr>, io'))"

definition BUF_SIZE :: "BUF \<Rightarrow> nat" where "BUF_SIZE b = endp b - buf b + 1"

definition enlarged_size :: "nat \<Rightarrow> nat" where
  "enlarged_size sold = (sold + VM_PAGE_SIZE) div VM_PAGE_SIZE * VM_PAGE_SIZE"

definition enlarge :: "BUF \<Rightarrow> sio \<Rightarrow> (BUF \<times> sio) option" where
  "enlarge b io =
     (case sallocs io of
        Adjacent # as \<Rightarrow> Some (b\<lparr>endp := endp b + VM_PAGE_SIZE\<rparr>, io\<lparr>sallocs := as\<rparr>)
      | Elsewhere (Some new) # as \<Rightarrow>
          (let sold = BUF_SIZE b; snew = enlarged_size sold
           in Some (b\<lparr>buf := new, ptr := ptr b - buf b + new,
                      endp := (if buf b mod VM_PAGE_SIZE \<noteq> 0 then new + snew - 1 else endp b - buf b + new + VM_PAGE_SIZE)\<rparr>,
                    io\<lparr>smem := memmove new (buf b) sold (smem io), sallocs := as\<rparr>))
      | _ \<Rightarrow> None)"

definition make_room :: "BUF \<Rightarrow> sio \<Rightarrow> (BUF \<times> sio) option" where
  "make_room b io =
     (if ptr b \<ge> endp b then (case full b of FlushReset \<Rightarrow> flush_reset b io | Enlarge \<Rightarrow> enlarge b io) else Some (b, io))"

definition put_raw :: "u8 \<Rightarrow> BUF \<times> sio \<Rightarrow> (BUF \<times> sio) option" where
  "put_raw c st =
     (case make_room (fst st) (snd st) of None \<Rightarrow> None
      | Some (b, io) \<Rightarrow> Some (b\<lparr>ptr := ptr b + 1\<rparr>, io\<lparr>smem := (smem io)(ptr b := c)\<rparr>))"

primrec put_all :: "('c \<Rightarrow> 's \<Rightarrow> 's option) \<Rightarrow> 'c list \<Rightarrow> 's \<Rightarrow> 's option" where
  "put_all f [] st = Some st"
| "put_all f (c # cs) st = (case f c st of None \<Rightarrow> None | Some st' \<Rightarrow> put_all f cs st')"

text \<open>An escape function may replace a character by a string, which is not escaped again.\<close>

type_synonym esc_func = "u8 \<Rightarrow> u8 list option"

definition put_c :: "esc_func \<Rightarrow> u8 \<Rightarrow> BUF \<times> sio \<Rightarrow> (BUF \<times> sio) option" where
  "put_c esc c st = (case esc c of Some cp \<Rightarrow> put_all put_raw cp st | None \<Rightarrow> put_raw c st)"

definition put_s :: "esc_func \<Rightarrow> u8 list \<Rightarrow> BUF \<times> sio \<Rightarrow> (BUF \<times> sio) option" where
  "put_s esc str st = put_all (put_c esc) str st"

definition no_esc :: esc_func where "no_esc c = None"

subsection \<open>The interface\<close>

definition simple_vdprintf :: "nat \<Rightarrow> u8 list \<Rightarrow> va_arg list \<Rightarrow> sio \<Rightarrow> sio option" where
  "simple_vdprintf local fmt ap io =
     (case simple_bprintf fmt ap of None \<Rightarrow> None
      | Some cs \<Rightarrow>
          (case put_s no_esc cs (\<lparr>buf = local, ptr = local, endp = local + MYBUFSIZE, full = FlushReset\<rparr>, io) of
             None \<Rightarrow> None | Some (b, io') \<Rightarrow> flush b io'))"

definition simple_salloc :: "nat option \<Rightarrow> BUF option" where
  "simple_salloc page =
     (case page of None \<Rightarrow> None
      | Some a \<Rightarrow> Some \<lparr>buf = a + sizeof_BUF, ptr = a + sizeof_BUF, endp = a + VM_PAGE_SIZE - 1, full = Enlarge\<rparr>)"

definition simple_vesprintf :: "esc_func \<Rightarrow> u8 list \<Rightarrow> va_arg list \<Rightarrow> BUF \<times> sio \<Rightarrow> (BUF \<times> sio) option" where
  "simple_vesprintf esc fmt ap st = (case simple_bprintf fmt ap of None \<Rightarrow> None | Some cs \<Rightarrow> put_s esc cs st)"

definition simple_esappend :: "esc_func \<Rightarrow> u8 list \<Rightarrow> BUF \<times> sio \<Rightarrow> (BUF \<times> sio) option" where
  "simple_esappend esc str st = put_s esc str st"

definition simple_string :: "BUF \<times> sio \<Rightarrow> nat \<times> (BUF \<times> sio)" where
  "simple_string st = (buf (fst st), (fst st, (snd st)\<lparr>smem := (smem (snd st))(ptr (fst st) := 0)\<rparr>))"

definition simple_sresize :: "BUF \<times> sio \<Rightarrow> (BUF \<times> sio) option" where
  "simple_sresize st =
     (case strlen (smem (snd st)) (buf (fst st)) of None \<Rightarrow> None
      | Some n \<Rightarrow> Some ((fst st)\<lparr>ptr := buf (fst st) + n\<rparr>, snd st))"

definition simple_put :: "BUF \<times> sio \<Rightarrow> (BUF \<times> sio) option" where
  "simple_put st = (case flush (fst st) (snd st) of None \<Rightarrow> None | Some io \<Rightarrow> Some (fst st, io))"

definition simple_putline :: "BUF \<times> sio \<Rightarrow> (BUF \<times> sio) option" where
  "simple_putline st =
     (let b = fst st; io1 = (snd st)\<lparr>smem := (smem (snd st))(ptr b := 0x0a)\<rparr>; b1 = b\<lparr>ptr := ptr b + 1\<rparr>
      in case flush b1 io1 of None \<Rightarrow> None | Some io2 \<Rightarrow> Some (b1\<lparr>ptr := ptr b1 - 1\<rparr>, io2))"

end
