(* ===== verification/SimpleIO.thy ===== *)
theory SimpleIO
  imports SimpleNumbers SimpleString
begin

text \<open>
  Correctness of the formatted output: strings hold exactly what was appended through every enlargement of the
  buffer, and a descriptor receives exactly the formatted text when no write is short or fails.
\<close>

subsection \<open>A sink of characters\<close>

text \<open>
  What the formatter needs of the buffer under it: while the budget lasts, a character given to \<open>put_c\<close> is
  appended to what the sink has taken so far.
\<close>

definition escaped :: "esc_func \<Rightarrow> u8 list \<Rightarrow> u8 list" where
  "escaped esc cs = concat (map (\<lambda>c. case esc c of Some cp \<Rightarrow> cp | None \<Rightarrow> [c]) cs)"

lemma escaped_Nil: "escaped esc [] = []"
  by (simp add: escaped_def)

lemma escaped_Cons: "escaped esc (c # cs) = (case esc c of Some cp \<Rightarrow> cp | None \<Rightarrow> [c]) @ escaped esc cs"
  by (simp add: escaped_def)

lemma escaped_no_esc [simp]: "escaped no_esc cs = cs"
  by (induction cs) (simp_all add: escaped_def no_esc_def)

locale char_sink =
  fixes inv :: "BUF \<times> sio \<Rightarrow> bool" and taken :: "BUF \<times> sio \<Rightarrow> u8 list" and budget :: "BUF \<times> sio \<Rightarrow> nat"
  assumes put: "inv st \<Longrightarrow> 0 < budget st \<Longrightarrow>
    \<exists>st'. put_raw c st = Some st' \<and> inv st' \<and> taken st' = taken st @ [c] \<and> budget st \<le> budget st' + 1"
begin

lemma put_all_raw:
  assumes "inv st" "length cs \<le> budget st"
  shows "\<exists>st'. put_all put_raw cs st = Some st' \<and> inv st' \<and> taken st' = taken st @ cs \<and> budget st \<le> budget st' + length cs"
  using assms
proof (induction cs arbitrary: st)
  case (Cons c cs)
  then obtain st1 where 1: "put_raw c st = Some st1" "inv st1" "taken st1 = taken st @ [c]" "budget st \<le> budget st1 + 1"
    using put [of st c] by auto
  have "length cs \<le> budget st1" using Cons.prems(2) 1(4) by simp
  from Cons.IH [OF 1(2) this] show ?case using 1 by auto
qed simp

lemma put_c_takes:
  assumes "inv st" "length (escaped esc [c]) \<le> budget st"
  shows "\<exists>st'. put_c esc c st = Some st' \<and> inv st' \<and> taken st' = taken st @ escaped esc [c] \<and>
    budget st \<le> budget st' + length (escaped esc [c])"
  using assms put_all_raw [of st "case esc c of Some cp \<Rightarrow> cp | None \<Rightarrow> [c]"]
  by (cases "esc c") (auto simp: put_c_def escaped_Cons escaped_Nil split: option.splits)

lemma put_s_takes:
  assumes "inv st" "length (escaped esc cs) \<le> budget st"
  shows "\<exists>st'. put_s esc cs st = Some st' \<and> inv st' \<and> taken st' = taken st @ escaped esc cs \<and>
    budget st \<le> budget st' + length (escaped esc cs)"
  unfolding put_s_def using assms
proof (induction cs arbitrary: st)
  case (Cons c cs)
  have l: "length (escaped esc (c # cs)) = length (escaped esc [c]) + length (escaped esc cs)"
    by (simp add: escaped_Cons escaped_Nil)
  then obtain st1 where 1: "put_c esc c st = Some st1" "inv st1" "taken st1 = taken st @ escaped esc [c]"
      "budget st \<le> budget st1 + length (escaped esc [c])"
    using put_c_takes [of st esc c] Cons.prems by auto
  have "length (escaped esc cs) \<le> budget st1" using Cons.prems(2) 1(4) l by simp
  from Cons.IH [OF 1(2) this] show ?case using 1 l by (auto simp: escaped_Cons escaped_Nil)
qed (simp add: escaped_Nil)

end

subsection \<open>Growing strings\<close>

definition good_alloc :: "alloc_result \<Rightarrow> bool" where
  "good_alloc r = (case r of Adjacent \<Rightarrow> True | Elsewhere (Some new) \<Rightarrow> VM_PAGE_SIZE dvd new | Elsewhere None \<Rightarrow> False)"

text \<open>The string and the room behind it end at a page boundary.\<close>

definition string_inv :: "BUF \<times> sio \<Rightarrow> bool" where
  "string_inv st = (case st of (b, io) \<Rightarrow>
     full b = Enlarge \<and> buf b \<le> ptr b \<and> ptr b \<le> endp b \<and> VM_PAGE_SIZE dvd endp b + 1 \<and> (\<forall>r \<in> set (sallocs io). good_alloc r))"

definition contents :: "BUF \<times> sio \<Rightarrow> u8 list" where
  "contents st = (case st of (b, io) \<Rightarrow> bytes (smem io) (buf b) (ptr b - buf b))"

lemma bytes_snoc: "bytes (m(a + n := c)) a (n + 1) = bytes m a n @ [c]"
  by (simp add: bytes_def)

lemma contents_snoc:
  "buf b \<le> ptr b \<Longrightarrow> contents (b\<lparr>ptr := ptr b + 1\<rparr>, io\<lparr>smem := (smem io)(ptr b := c)\<rparr>) = contents (b, io) @ [c]"
  using bytes_snoc [of "smem io" "buf b" "ptr b - buf b" c] by (simp add: contents_def Suc_diff_le)

lemma length_bytes [simp]: "length (bytes m a n) = n"
  by (simp add: bytes_def)

lemma bytes_blit: "n \<le> k \<Longrightarrow> bytes (blit new a k m) new n = bytes m a n"
  by (simp add: bytes_def blit_def)

lemma enlarged_size_grows: "sold < enlarged_size sold" "VM_PAGE_SIZE dvd enlarged_size sold"
proof -
  have "sold + VM_PAGE_SIZE = enlarged_size sold + (sold + VM_PAGE_SIZE) mod VM_PAGE_SIZE"
    unfolding enlarged_size_def by (simp only: div_mult_mod_eq)
  moreover have "(sold + VM_PAGE_SIZE) mod VM_PAGE_SIZE < VM_PAGE_SIZE" by (rule mod_less_divisor) (simp add: VM_PAGE_SIZE_def)
  ultimately show "sold < enlarged_size sold" by linarith
qed (simp add: enlarged_size_def)

lemma enlarge_correct:
  assumes inv: "string_inv (b, io)" and al: "sallocs io \<noteq> []"
  shows "\<exists>b' io'. enlarge b io = Some (b', io') \<and> string_inv (b', io') \<and> contents (b', io') = contents (b, io) \<and>
    ptr b' - buf b' = ptr b - buf b \<and> BUF_SIZE b < BUF_SIZE b' \<and> length (sallocs io) = length (sallocs io') + 1 \<and> sout io' = sout io"
proof -
  obtain r as where r: "sallocs io = r # as" using al by (cases "sallocs io") auto
  have i: "full b = Enlarge" "buf b \<le> ptr b" "ptr b \<le> endp b" "VM_PAGE_SIZE dvd endp b + 1" "good_alloc r" "\<forall>r \<in> set as. good_alloc r"
    using inv r by (auto simp: string_inv_def)
  show ?thesis
  proof (cases r)
    case Adjacent
    have "endp b + VM_PAGE_SIZE + 1 = endp b + 1 + VM_PAGE_SIZE" by simp
    then have "VM_PAGE_SIZE dvd endp b + VM_PAGE_SIZE + 1" using i(4) dvd_add [OF _ dvd_refl] by metis
    moreover have "endp b - buf b < endp b + VM_PAGE_SIZE - buf b" using i(2,3) by (simp add: VM_PAGE_SIZE_def)
    ultimately show ?thesis using i r Adjacent by (simp add: enlarge_def string_inv_def contents_def BUF_SIZE_def)
  next
    case (Elsewhere p)
    then obtain new where p: "p = Some new" "VM_PAGE_SIZE dvd new" using i(5) by (cases p) (auto simp: good_alloc_def)
    define sold where "sold = BUF_SIZE b"
    define e where "e = (if buf b mod VM_PAGE_SIZE \<noteq> 0 then new + enlarged_size sold - 1 else endp b - buf b + new + VM_PAGE_SIZE)"
    have "VM_PAGE_SIZE dvd e + 1 \<and> new + sold - 1 < e"
    proof (cases "buf b mod VM_PAGE_SIZE \<noteq> 0")
      case True
      then have "e + 1 = new + enlarged_size sold" using enlarged_size_grows(1) [of sold] by (simp add: e_def)
      then show ?thesis using enlarged_size_grows [of sold] p(2) by (auto simp: sold_def BUF_SIZE_def)
    next
      case False
      then have "VM_PAGE_SIZE dvd endp b + 1 - buf b" using i(4) by (intro dvd_diff_nat) auto
      moreover have "e + 1 = (endp b + 1 - buf b) + new + VM_PAGE_SIZE" using False i(2,3) by (simp add: e_def)
      ultimately have "VM_PAGE_SIZE dvd e + 1" using p(2) by simp
      moreover have "new + sold - 1 < e" using False i(2,3) by (simp add: e_def sold_def BUF_SIZE_def VM_PAGE_SIZE_def)
      ultimately show ?thesis ..
    qed
    then have e: "VM_PAGE_SIZE dvd e + 1" "new + sold - 1 < e" by auto
    have s: "sold = endp b - buf b + 1" by (simp add: sold_def BUF_SIZE_def)
    have eq: "enlarge b io = Some (b\<lparr>buf := new, ptr := ptr b - buf b + new, endp := e\<rparr>,
        io\<lparr>smem := memmove new (buf b) sold (smem io), sallocs := as\<rparr>)"
      using r Elsewhere p(1) by (simp add: enlarge_def e_def sold_def Let_def)
    have le: "new \<le> ptr b - buf b + new" "ptr b - buf b + new \<le> e" "endp b - buf b < e - new" using e(2) s i(2,3) by linarith+
    show ?thesis unfolding eq
      using i r e s le by (simp del: Nat.diff_add_assoc2 add: string_inv_def contents_def BUF_SIZE_def memmove_blit bytes_blit)
  qed
qed

lemma string_put:
  assumes "string_inv st" "0 < length (sallocs (snd st))"
  shows "\<exists>st'. put_raw c st = Some st' \<and> string_inv st' \<and> contents st' = contents st @ [c] \<and>
    length (sallocs (snd st)) \<le> length (sallocs (snd st')) + 1"
proof -
  obtain b io where st: "st = (b, io)" by (cases st)
  obtain b1 io1 where 1: "make_room b io = Some (b1, io1)" "string_inv (b1, io1)" "contents (b1, io1) = contents st"
      "ptr b1 < endp b1" "length (sallocs io) \<le> length (sallocs io1) + 1"
  proof (cases "ptr b \<ge> endp b")
    case True
    from enlarge_correct [of b io] assms st obtain b' io' where e: "enlarge b io = Some (b', io')" "string_inv (b', io')"
        "contents (b', io') = contents (b, io)" "ptr b' - buf b' = ptr b - buf b" "BUF_SIZE b < BUF_SIZE b'"
        "length (sallocs io) = length (sallocs io') + 1" by auto
    have "ptr b' < endp b'" using e(2,4,5) assms(1) True st by (auto simp: string_inv_def BUF_SIZE_def)
    moreover have "make_room b io = Some (b', io')" using True assms(1) st e(1) by (simp add: make_room_def string_inv_def)
    ultimately show ?thesis using that [of b' io'] e st by simp
  qed (use assms st that [of b io] in \<open>simp add: make_room_def\<close>)
  have le: "buf b1 \<le> ptr b1" using 1(2) by (simp add: string_inv_def)
  then have "contents (b1\<lparr>ptr := ptr b1 + 1\<rparr>, io1\<lparr>smem := (smem io1)(ptr b1 := c)\<rparr>) = contents st @ [c]"
    using contents_snoc [of b1 io1 c] 1(3) by simp
  then show ?thesis using 1 le st by (simp add: put_raw_def string_inv_def)
qed

interpretation str: char_sink string_inv contents "\<lambda>st. length (sallocs (snd st))"
  by unfold_locales (use string_put in blast)

subsection \<open>Descriptors\<close>

definition desc_inv :: "BUF \<times> sio \<Rightarrow> bool" where
  "desc_inv st = (case st of (b, io) \<Rightarrow>
     full b = FlushReset \<and> buf b \<le> ptr b \<and> ptr b \<le> endp b \<and> buf b < endp b \<and> set (swrites io) \<subseteq> {WroteAll, Interrupted})"

definition emitted :: "BUF \<times> sio \<Rightarrow> u8 list" where
  "emitted st = sout (snd st) @ contents st"

lemma flush_loop_complete:
  assumes "set ws \<subseteq> {WroteAll, Interrupted}" "n = 0 \<or> WroteAll \<in> set ws"
  shows "\<exists>ws'. flush_loop ws m p n out = Some (ws', out @ bytes m p n) \<and> set ws' \<subseteq> {WroteAll, Interrupted} \<and>
    count_list ws WroteAll \<le> count_list ws' WroteAll + 1"
  using assms
proof (induction ws)
  case (Cons w ws)
  have done0: "flush_loop ws m p 0 o2 = Some (ws, o2)" for o2 by (cases ws) simp_all
  show ?case
  proof (cases "n = 0")
    case False
    then show ?thesis using Cons done0 by (cases "w = WroteAll") auto
  qed (use Cons.prems in \<open>simp add: bytes_def\<close>)
qed (simp add: bytes_def)

lemma flush_complete:
  assumes "desc_inv (b, io)" "0 < count_list (swrites io) WroteAll"
  shows "\<exists>io'. flush b io = Some io' \<and> sout io' = emitted (b, io) \<and> smem io' = smem io \<and> set (swrites io') \<subseteq> {WroteAll, Interrupted} \<and>
    count_list (swrites io) WroteAll \<le> count_list (swrites io') WroteAll + 1"
proof -
  have "WroteAll \<in> set (swrites io)" using assms(2) by (metis count_notin less_irrefl)
  then obtain ws' where "flush_loop (swrites io) (smem io) (buf b) (ptr b - buf b) (sout io) = Some (ws', emitted (b, io))"
      "set ws' \<subseteq> {WroteAll, Interrupted}" "count_list (swrites io) WroteAll \<le> count_list ws' WroteAll + 1"
    using flush_loop_complete [of "swrites io" "ptr b - buf b" "smem io" "buf b" "sout io"] assms(1)
    by (auto simp: desc_inv_def emitted_def contents_def)
  then show ?thesis by (simp add: flush_def)
qed

lemma desc_put:
  assumes "desc_inv st" "0 < count_list (swrites (snd st)) WroteAll"
  shows "\<exists>st'. put_raw c st = Some st' \<and> desc_inv st' \<and> emitted st' = emitted st @ [c] \<and>
    count_list (swrites (snd st)) WroteAll \<le> count_list (swrites (snd st')) WroteAll + 1"
proof -
  obtain b io where st: "st = (b, io)" by (cases st)
  obtain b1 io1 where 1: "make_room b io = Some (b1, io1)" "desc_inv (b1, io1)" "emitted (b1, io1) = emitted st"
      "ptr b1 < endp b1" "count_list (swrites io) WroteAll \<le> count_list (swrites io1) WroteAll + 1"
  proof (cases "ptr b \<ge> endp b")
    case True
    from flush_complete [of b io] assms st obtain io' where f: "flush b io = Some io'" "sout io' = emitted (b, io)" "smem io' = smem io"
        "set (swrites io') \<subseteq> {WroteAll, Interrupted}" "count_list (swrites io) WroteAll \<le> count_list (swrites io') WroteAll + 1" by auto
    have "make_room b io = Some (b\<lparr>ptr := buf b\<rparr>, io')" using True assms(1) st f(1)
      by (simp add: make_room_def flush_reset_def desc_inv_def)
    then show ?thesis using that [of "b\<lparr>ptr := buf b\<rparr>" io'] f assms(1) st
      by (auto simp: desc_inv_def emitted_def contents_def bytes_def)
  qed (use assms st that [of b io] in \<open>simp add: make_room_def\<close>)
  have le: "buf b1 \<le> ptr b1" using 1(2) by (simp add: desc_inv_def)
  then have "contents (b1\<lparr>ptr := ptr b1 + 1\<rparr>, io1\<lparr>smem := (smem io1)(ptr b1 := c)\<rparr>) = contents (b1, io1) @ [c]"
    by (rule contents_snoc)
  then show ?thesis using 1 le st by (simp add: put_raw_def desc_inv_def emitted_def)
qed

interpretation desc: char_sink desc_inv emitted "\<lambda>st. count_list (swrites (snd st)) WroteAll"
  by unfold_locales (use desc_put in blast)


subsection \<open>The formatted output\<close>

lemma string_terminated:
  assumes "string_inv st" "0 \<notin> set (contents st)" "simple_string st = (p, st')"
  shows "cstr (smem (snd st')) p (contents st)"
proof -
  obtain b io where st: "st = (b, io)" by (cases st)
  have le: "buf b \<le> ptr b" using assms(1) st by (simp add: string_inv_def)
  have "p = buf b" "smem (snd st') = (smem io)(ptr b := 0)" using assms(3) st by (auto simp: simple_string_def)
  then show ?thesis using assms(2) le st by (auto simp: cstr_def contents_def bytes_def)
qed

lemma salloc_inv:
  assumes "VM_PAGE_SIZE dvd page" "\<forall>r \<in> set (sallocs io). good_alloc r"
  shows "\<exists>b. simple_salloc (Some page) = Some b \<and> string_inv (b, io) \<and> contents (b, io) = []"
  using assms by (simp add: simple_salloc_def string_inv_def contents_def bytes_def sizeof_BUF_def VM_PAGE_SIZE_def)

text \<open>A format that ends in a percent sign: the interpreter steps over the terminator and reads on behind it.\<close>

lemma format_trailing_percent: "simple_bprintf [0x78, 0x25] ap = None"
  by (simp add: simple_bprintf.simps)

text \<open>The octal conversion reads an \<open>int\<close>: minus one prints as 22 digits, where \<open>%x\<close> prints eight.\<close>

lemma octal_sign_extended:
  "convert 0x6f 0 False 0 [AWord 0xffffffff] = Some (oct (- 1) 0 False, []) \<and>
   convert 0x78 0 False 0 [AWord 0xffffffff] = Some (hex 0xffffffff 0 False False False, [])"
proof -
  have "as_int 0xffffffff = - 1" "as_uint 0xffffffff = 0xffffffff" by (code_simp, code_simp)
  then show ?thesis by (simp add: convert_def)
qed

text \<open>
  C37. Numbers print exactly: reading the characters back past the padding gives the signed value of the 64-bit
  argument for \<open>dec\<close> (the most negative number included) and its unsigned value for the other three, for
  every width and padding; the field is at least as wide as asked, and with its terminator the digits fit the 32 bytes of
  the local buffer.
\<close>

theorem simple_numbers_exact:
  "read_signed (dec n width zero) = sint n \<and>
   read_number 10 undigit10 (udec n width zero) = unat n \<and>
   read_number 8 undigit10 (oct n width zero) = unat n \<and>
   read_number 16 undigit16 (hex n width zero upper False) = unat n \<and>
   width \<le> int (length (dec n width zero)) \<and> width \<le> int (length (udec n width zero)) \<and>
   width \<le> int (length (oct n width zero)) \<and> width \<le> int (length (hex n width zero upper p)) \<and>
   length (digits 10 digit10 (unat n)) < 32 \<and> length (digits 8 digit10 (unat n)) < 32 \<and>
   length (digits 16 (digit16 upper) (unat n)) < 32"
proof -
  have z: "undigit10 0x30 = 0" "undigit16 0x30 = 0" by (simp_all add: undigit10_def undigit16_def)
  have "read_number 10 undigit10 (udec n width zero) = unat n"
    unfolding udec_def Let_def by (rule read_padded) (use z undigit10 digit10_not_space in auto)
  moreover have "read_number 8 undigit10 (oct n width zero) = unat n"
    unfolding oct_def Let_def by (rule read_padded) (use z undigit10 digit10_not_space in auto)
  moreover have "read_number 16 undigit16 (hex n width zero upper False) = unat n"
    unfolding hex_def Let_def if_False by (rule read_padded) (use z undigit16 digit16_not_space in auto)
  moreover have "length (digits base dg (unat n)) < 32" if "8 \<le> base" for base dg
    using length_digits [OF that, of dg n] by linarith
  ultimately show ?thesis using read_signed_dec [of n width zero]
    by (simp add: dec_def udec_def oct_def hex_def Let_def padding_def prefix_0x_def)
qed

text \<open>
  C35. Building a string: \<open>_simple_salloc\<close> on a page gives an empty string, and formatting onto any
  well-formed string appends exactly the formatted characters, escaped, whatever number of enlargements it takes and
  wherever the kernel puts them, keeping it well formed; \<open>_simple_string\<close> then returns all of it as a
  terminated C string.
\<close>

theorem simple_string_exact:
  assumes "VM_PAGE_SIZE dvd page" "string_inv st" "simple_bprintf fmt ap = Some cs"
    "length (escaped esc cs) \<le> length (sallocs (snd st))" "0 \<notin> set (contents st @ escaped esc cs)"
  shows "(\<exists>b. simple_salloc (Some page) = Some b \<and> string_inv (b, snd st) \<and> contents (b, snd st) = []) \<and>
    (\<exists>st1 p st2. simple_vesprintf esc fmt ap st = Some st1 \<and> string_inv st1 \<and> contents st1 = contents st @ escaped esc cs \<and>
       simple_string st1 = (p, st2) \<and> cstr (smem (snd st2)) p (contents st @ escaped esc cs))"
proof
  show "\<exists>b. simple_salloc (Some page) = Some b \<and> string_inv (b, snd st) \<and> contents (b, snd st) = []"
    by (rule salloc_inv) (use assms(1,2) in \<open>auto simp: string_inv_def\<close>)
next
  from str.put_s_takes [OF assms(2,4)] obtain st1 where
    1: "put_s esc cs st = Some st1" "string_inv st1" "contents st1 = contents st @ escaped esc cs" by auto
  obtain p b2 io2 where 2: "simple_string st1 = (p, b2, io2)" by (cases "simple_string st1")
  show "\<exists>st1 p st2. simple_vesprintf esc fmt ap st = Some st1 \<and> string_inv st1 \<and> contents st1 = contents st @ escaped esc cs \<and>
       simple_string st1 = (p, st2) \<and> cstr (smem (snd st2)) p (contents st @ escaped esc cs)"
    using 1 2 string_terminated [OF 1(2) _ 2] assms(3,5) by (auto simp: simple_vesprintf_def)
qed

theorem simple_string_exact_witness:
  "\<exists>st1 p st2. simple_vesprintf no_esc [0x61, 0x25, 0x25, 0x62] []
       (\<lparr>buf = 4093, ptr = 4093, endp = 4095, full = Enlarge\<rparr>,
        \<lparr>smem = (\<lambda>_. 7), swrites = [], sout = [], sallocs = [Elsewhere (Some 8192), Adjacent, Adjacent]\<rparr>) = Some st1 \<and>
     simple_string st1 = (p, st2) \<and> cstr (smem (snd st2)) p [0x61, 0x25, 0x62]"
proof -
  let ?st = "(\<lparr>buf = 4093, ptr = 4093, endp = 4095, full = Enlarge\<rparr>,
        \<lparr>smem = (\<lambda>_. 7), swrites = [], sout = [], sallocs = [Elsewhere (Some 8192), Adjacent, Adjacent]\<rparr>)"
  have f: "simple_bprintf [0x61, 0x25, 0x25, 0x62] [] = Some [0x61, 0x25, 0x62]"
    by (subst simple_bprintf.simps, simp, subst simple_bprintf.simps, simp)
  have i: "string_inv ?st" by (simp add: string_inv_def good_alloc_def VM_PAGE_SIZE_def)
  have c: "contents ?st = []" by (simp add: contents_def bytes_def)
  show ?thesis
    using simple_string_exact [of 0 ?st "[0x61, 0x25, 0x25, 0x62]" "[]" "[0x61, 0x25, 0x62]" no_esc] f i by (auto simp: c)
qed

text \<open>
  C36. Output to a descriptor: when every \<open>write\<close> takes all it is given or is interrupted and retried, and
  enough of them succeed, \<open>_simple_vdprintf\<close> returns having written exactly the formatted characters, through
  all the flushes of its 32-byte buffer.
\<close>

theorem simple_vdprintf_exact:
  assumes "simple_bprintf fmt ap = Some cs" "set (swrites io) \<subseteq> {WroteAll, Interrupted}"
    "length cs < count_list (swrites io) WroteAll"
  shows "\<exists>io'. simple_vdprintf local fmt ap io = Some io' \<and> sout io' = sout io @ cs"
proof -
  let ?st = "(\<lparr>buf = local, ptr = local, endp = local + MYBUFSIZE, full = FlushReset\<rparr>, io)"
  have "desc_inv ?st" using assms(2) by (simp add: desc_inv_def MYBUFSIZE_def)
  moreover have "emitted ?st = sout io" by (simp add: emitted_def contents_def bytes_def)
  ultimately obtain b io1 where 1: "put_s no_esc cs ?st = Some (b, io1)" "desc_inv (b, io1)" "emitted (b, io1) = sout io @ cs"
      "count_list (swrites io) WroteAll \<le> count_list (swrites io1) WroteAll + length cs"
    using desc.put_s_takes [of ?st no_esc cs] assms(3) by auto
  then have "0 < count_list (swrites io1) WroteAll" using assms(3) by linarith
  from flush_complete [OF 1(2) this] show ?thesis using 1 assms(1) by (auto simp: simple_vdprintf_def)
qed

theorem simple_vdprintf_exact_witness:
  "\<exists>io'. simple_vdprintf 64 [0x61, 0x25, 0x25] []
       \<lparr>smem = (\<lambda>_. 0), swrites = [Interrupted, WroteAll, WroteAll, WroteAll], sout = [], sallocs = []\<rparr> = Some io' \<and>
     sout io' = [0x61, 0x25]"
proof -
  have f: "simple_bprintf [0x61, 0x25, 0x25] [] = Some [0x61, 0x25]"
    by (subst simple_bprintf.simps, simp, subst simple_bprintf.simps, simp)
  show ?thesis
    using simple_vdprintf_exact [OF f,
      of "\<lparr>smem = (\<lambda>_. 0), swrites = [Interrupted, WroteAll, WroteAll, WroteAll], sout = [], sallocs = []\<rparr>" 64] by simp
qed

text \<open>
  C38. A short write: \<open>_flush\<close> advances by what is left instead of what was written, so when the first
  \<open>write\<close> takes \<open>w\<close> of \<open>n\<close> bytes and the second takes the rest, the descriptor receives the first
  \<open>w\<close> bytes and then \<open>n - w\<close> bytes from offset \<open>n - w\<close>, not from offset \<open>w\<close>.
\<close>

theorem flush_short_write:
  assumes "n = ptr b - buf b" "w < n" "swrites io = WroteShort w # WroteAll # ws"
  shows "flush b io = Some (io\<lparr>swrites := ws, sout := sout io @ bytes (smem io) (buf b) w @ bytes (smem io) (buf b + (n - w)) (n - w)\<rparr>)"
proof -
  have "flush_loop ws m p 0 out = Some (ws, out)" for m p out by (cases ws) simp_all
  then show ?thesis using assms by (simp add: flush_def Let_def min_def)
qed

text \<open>Of \<open>abc\<close> the descriptor gets \<open>a\<close>, \<open>c\<close> and the byte behind the string.\<close>

theorem flush_short_write_witness:
  "flush \<lparr>buf = 0, ptr = 3, endp = 32, full = FlushReset\<rparr>
     \<lparr>smem = (\<lambda>a. of_nat a + 0x61), swrites = [WroteShort 1, WroteAll], sout = [], sallocs = []\<rparr> =
   Some \<lparr>smem = (\<lambda>a. of_nat a + 0x61), swrites = [], sout = [0x61, 0x63, 0x64], sallocs = []\<rparr>"
  by (subst flush_short_write [where n = 3 and w = 1 and ws = "[]"]) (simp_all add: bytes_def upt_rec)

end
