(* ===== verification/Spec2Isabelle.thy ===== *)
theory Spec2Isabelle
  imports RetainContract RefcountMap WeakRefs PoolContract BlockContract SharedCache RecursiveLock SpinLocks OnceGate TsdKeys SimpleIO
begin

text \<open>
  \<^bold>\<open>Verification of the Objective-C runtime and the system primitives it runs on.\<close>

  The program is the Objective-C runtime \<open>objc4-818.2\<close> (\<open>src/objc4-818.2/runtime\<close>) together with the
  system libraries it is built against (\<open>src/objc4-818.2/PrivateHeaders/build\<close>): \<open>libplatform\<close> for
  locks, one-time initialisation, memory and string primitives and low-level formatted output,
  \<open>libpthread\<close> for thread-specific data, \<open>libclosure\<close> for blocks, and the tables of the dyld shared
  cache that the runtime reads. An object starts with an isa word. In the packed form the word holds the
  class, a few flags and an inline reference count; the rest of the count lives in the side table of the
  object's stripe, a hash table under an unfair lock. Retain and release change the isa word with
  compare-and-swap and go to the side table on overflow and underflow. The same stripe holds the weak table, which knows the
  variables to zero when an object dies; objects released later wait in the thread's autorelease pools. The locks that protect the side tables and the
  runtime's own state are those of \<open>libplatform\<close>, recursive and plain.

  \<^bold>\<open>Theories and sources.\<close>

  \<^item> \<open>Prelude\<close>: word types, bit-field lemmas and list lemmas that the components share.

  \<^item> \<open>ObjcClass\<close> (\<open>objc-runtime-new.h\<close>): the flag words of a class and its data, their predicates and
    setters, and the computation of instance sizes.

  \<^item> \<open>Isa\<close> (\<open>isa.h\<close>, \<open>objc-object.h\<close>): the packed word of the x86-64 layout, its fields, encoding and
    decoding of the class, \<open>initIsa\<close> and its variants, carry arithmetic on the inline count.

  \<^item> \<open>RefCount\<close>, \<open>RetainRelease\<close> (\<open>objc-object.h\<close>, \<open>NSObject.mm\<close>): \<open>rootRetain\<close>,
    \<open>rootRelease\<close> with the full and fast paths, \<open>changeIsa\<close>, weak and association marks,
    deallocation, and the side-table operations under them. The record of the state has the isa word of the object, the side
    table entries, the lock of the stripe and the trace of calls; the interference of other threads on
    the isa word is an argument, one word per failed compare-and-swap. \<open>RetainContract\<close> proves the contract: each
    retain adds one and each release takes one, while other threads leave other live non-pointer words that
    agree with the side table as it stands (predicate \<open>calm\<close>; their own transfers to and from the side table during the
    call are outside the model); any allowed history, in both representations, refines a plain counter, through the locale
    \<open>retain_release\<close>; \<open>-dealloc\<close> is sent once, at zero. A total count stays below
    \<open>2 ^ 60\<close>, more than there are addresses to hold references.

  \<^item> \<open>DenseMap\<close>, \<open>DenseTable\<close>, \<open>RefcountMap\<close> (\<open>llvm-DenseMap.h\<close>, \<open>llvm-DenseMapInfo.h\<close>,
    \<open>llvm-MathExtras.h\<close>): the open-addressed table under the side table, with quadratic
    probing, tombstones, in-place rebuilding, doubling and compaction. The traits of the keys are a record, instantiated with
    the disguised pointers of \<open>NSObject.mm\<close>. The invariant keeps a free bucket reachable, so that every lookup ends;
    the table refines a finite map. Bounds: less than \<open>2 ^ 27\<close> stores and \<open>2 ^ 29\<close> buckets, below which
    the 32-bit counters do not wrap.

  \<^item> \<open>OsLock\<close>, \<open>UnfairLock\<close>, \<open>RecursiveLock\<close>, \<open>SpinLocks\<close>, \<open>OnceGate\<close>
    (\<open>libplatform/src/os/lock.c\<close>): the locks as machines with one step per atomic access. A
    thread's continuation is a datatype, the kernel's results (\<open>__ulock_wait\<close>, \<open>thread_switch\<close>) are
    inputs of the steps, and a run is any interleaving. Mutual exclusion, absence of aborts for proper
    clients, the nesting depth of recursive locks and single execution of initialisers are
    invariants of the runs.

  \<^item> \<open>PthreadTsd\<close>, \<open>TsdKeys\<close> (\<open>libpthread/src/pthread_tsd.c\<close>): the key table, the slots
    of every thread and the destructor passes of an exiting thread, in both orders. A
    destructor is a script of calls to the interface. Creation always gives a key that is null in
    every thread; the destructor passes end and are bounded.

  \<^item> \<open>PlatformMem\<close>, \<open>PlatformStr\<close> (\<open>libplatform/src/string/generic\<close>, \<open>simple/getenv.c\<close>): the
    portable memory and string functions over a memory of bytes, with their alignment and word-at-a-time cases, equal to
    their byte-wise meaning. Scans for a terminator are partial functions; the theorems show that they return.

  \<^item> \<open>SimpleFormat\<close>, \<open>SimpleNumbers\<close>, \<open>SimpleString\<close>, \<open>SimpleIO\<close>
    (\<open>libplatform/src/simple/string_io.c\<close>): the format interpreter, the digit loops, the descriptor
    buffer with its flushes and the growing string with its page allocations. The results of \<open>write\<close> and
    \<open>vm_allocate\<close> are schedules. Numbers read back to their value, strings and descriptors
    receive exactly the formatted text; a short write is shown to lose and repeat bytes.

  \<^item> \<open>WeakEntries\<close>, \<open>WeakProbe\<close>, \<open>WeakTable\<close>, \<open>WeakRegistry\<close> (\<open>objc-weak.mm\<close>, \<open>objc-weak.h\<close>): entries with
    four inline or any number of hashed referrers, the table of entries with its growth and compaction, registration,
    unregistration and clearing. Probing ends, no table is ever found corrupt, and any history refines a relation
    between objects and variables. The two arms of the entry's union are two constructors, which agrees with the code for
    aligned variables.

  \<^item> \<open>WeakVars\<close>, \<open>WeakRefs\<close> (\<open>NSObject.mm\<close>): store, initialise, load, copy, move and destroy with their
    retries over the striped tables, and the end of an object, which looks at the table only if the object is marked.
    Other threads and \<open>+initialize\<close> are functions on the state, applied whenever the locks are not held. The
    state in which the locks are taken for good (\<open>locked_state\<close>, \<open>load_state\<close>) is computed along the run; each call acts in one
    step on it. The invariant says that exactly the initialised variables that hold an object are registered for it, and that
    such an object is marked.

  \<^item> \<open>AutoreleasePool\<close>, \<open>PoolStack\<close>, \<open>PoolFrames\<close>, \<open>PoolPop\<close>, \<open>PoolContract\<close> (\<open>NSObject.mm\<close>,
    \<open>NSObject-internal.h\<close>): the pages of one thread, entries with coalesced counts, the empty-pool placeholder, push,
    autorelease, pop and the thread-exit destructor. A release may autorelease more objects, which a list of scripts
    says; that list bounds every loop. The pages refine a stack of multisets, one for each open pool.

  \<^item> \<open>Blocks\<close>, \<open>BlockCounts\<close>, \<open>BlockHeap\<close>, \<open>BlockCopy\<close>, \<open>BlockCopyOk\<close>, \<open>BlockRelease\<close>,
    \<open>BlockContract\<close> (\<open>libclosure/runtime.cpp\<close>, \<open>Block_private.h\<close>): latching counts with interfering
    words, descriptors in memory, copying and releasing blocks and \<open>__block\<close> variables, and the entry points of the
    compiler's helpers. Blocks and variables are cells of one heap with their captures as words; a helper, which is
    compiled code, is the list of fields for which it calls the runtime. The recursion through helpers carries a bound on the nesting:
    the depth of stack blocks in stack blocks for copies, the number of live cells for releases. The invariant \<open>acct\<close>
    counts references: those of the client, of fields and of forwarded variables. The latching count is a third
    instance of \<open>retain_release\<close>.

  \<^item> \<open>PerfectHash\<close>, \<open>PerfectHashOk\<close>, \<open>StringTable\<close>, \<open>StringTableOk\<close>, \<open>SharedCache\<close>
    (\<open>objc-shared-cache.h\<close>): the generator of the perfect hash, and the string, class and protocol tables with the builder's
    writer and the runtime's reader. Offsets are 32-bit values written after a range check. The search for a salt
    has no bound of its own and is a partial function; the assignment of tab values is shown to return. A class table's
    count of duplicates starts as whatever memory holds, as in the code.

  \<^bold>\<open>Interfaces.\<close> What one component asks of another is a locale, interpreted on the definitions of the
  provider in its own theory; the properties rest on the facts of the interpretations.

  \<^bold>\<open>Not modelled.\<close> The method cache, the tables of tagged pointer classes, class loading, realization, categories and message
  dispatch: they read and write class structures in images laid out by the dynamic linker, or are assembly. Pointer
  authentication, indexed isas and other ports. Of the vendored system trees only what the runtime executes is modelled; the kernel,
  the dynamic linker and the C library are taken by their interface. Weak memory ordering is not modelled: atomic
  accesses are interleaved.
\<close>

end
